(* ===== verification/Errno.thy ===== *)
theory Errno
  imports Main
begin

text \<open>
  The kernel's error numbers (\<open>os/src/uapi/errno.rs\<close>). Every system call model returns
  \<open>errno + 'a\<close>; \<open>errno_code\<close> is the number user space sees, negated.
\<close>

datatype (plugins only: code size) errno =
    EPERM | ENOENT | ESRCH | EINTR | EIO | ENXIO | E2BIG | ENOEXEC | EBADF | ECHILD | EAGAIN
  | ENOMEM | EACCES | EFAULT | ENOTBLK | EBUSY | EEXIST | EXDEV | ENODEV | ENOTDIR | EISDIR
  | EINVAL | EMFILE | ENOTTY | ETXTBSY | EFBIG | ENOSPC | ESPIPE | EROFS | EPIPE | ERANGE
  | EDEADLK | ENAMETOOLONG | ENOSYS | ENOTEMPTY | ELOOP | ENOMSG | EIDRM | ENODATA | EOVERFLOW
  | EBADMSG | EDESTADDRREQ | ENOPROTOOPT | ENOTSUP | ENOTSOCK | EPROTONOSUPPORT | EAFNOSUPPORT
  | EADDRINUSE | EADDRNOTAVAIL | EISCONN | ENOTCONN | ECONNREFUSED | ETIMEDOUT | ESTALE
  | EDQUOT | ENOKEY | EKEYEXPIRED | EKEYREVOKED

text \<open>The discriminants of the \<open>Errno\<close> enumeration, as user space sees them negated.\<close>

primrec errno_code :: "errno \<Rightarrow> int" where
  "errno_code EPERM = 1"
| "errno_code ENOENT = 2"
| "errno_code ESRCH = 3"
| "errno_code EINTR = 4"
| "errno_code EIO = 5"
| "errno_code ENXIO = 6"
| "errno_code E2BIG = 7"
| "errno_code ENOEXEC = 8"
| "errno_code EBADF = 9"
| "errno_code ECHILD = 10"
| "errno_code EAGAIN = 11"
| "errno_code ENOMEM = 12"
| "errno_code EACCES = 13"
| "errno_code EFAULT = 14"
| "errno_code ENOTBLK = 15"
| "errno_code EBUSY = 16"
| "errno_code EEXIST = 17"
| "errno_code EXDEV = 18"
| "errno_code ENODEV = 19"
| "errno_code ENOTDIR = 20"
| "errno_code EISDIR = 21"
| "errno_code EINVAL = 22"
| "errno_code EMFILE = 24"
| "errno_code ENOTTY = 25"
| "errno_code ETXTBSY = 26"
| "errno_code EFBIG = 27"
| "errno_code ENOSPC = 28"
| "errno_code ESPIPE = 29"
| "errno_code EROFS = 30"
| "errno_code EPIPE = 32"
| "errno_code ERANGE = 34"
| "errno_code EDEADLK = 35"
| "errno_code ENAMETOOLONG = 36"
| "errno_code ENOSYS = 38"
| "errno_code ENOTEMPTY = 39"
| "errno_code ELOOP = 40"
| "errno_code ENOMSG = 42"
| "errno_code EIDRM = 43"
| "errno_code ENODATA = 61"
| "errno_code EOVERFLOW = 75"
| "errno_code EBADMSG = 74"
| "errno_code EDESTADDRREQ = 89"
| "errno_code ENOPROTOOPT = 92"
| "errno_code ENOTSUP = 95"
| "errno_code ENOTSOCK = 88"
| "errno_code EPROTONOSUPPORT = 93"
| "errno_code EAFNOSUPPORT = 97"
| "errno_code EADDRINUSE = 98"
| "errno_code EADDRNOTAVAIL = 99"
| "errno_code EISCONN = 106"
| "errno_code ENOTCONN = 107"
| "errno_code ECONNREFUSED = 111"
| "errno_code ETIMEDOUT = 110"
| "errno_code ESTALE = 116"
| "errno_code EDQUOT = 122"
| "errno_code ENOKEY = 126"
| "errno_code EKEYEXPIRED = 127"
| "errno_code EKEYREVOKED = 128"

text \<open>Errors of the file layer (\<open>os/src/fs/vfs/error.rs\<close>) and their error numbers.\<close>

datatype (plugins only: code size) fs_error =
    FsNotFound | FsNotDir | FsIsDir | FsAlreadyExists | FsPermissionDenied
  | FsAccessDenied | FsInvalidInput | FsNotEmpty | FsBusy | FsTextBusy
  | FsCrossDevice | FsIo | FsNameTooLong | FsLoop | FsUnsupported
  | FsReadOnly | FsNoSpace | FsIllegalSeek | FsNoDeviceOrAddress

primrec errno_of_fs :: "fs_error \<Rightarrow> errno" where
  "errno_of_fs FsNotFound = ENOENT"
| "errno_of_fs FsNotDir = ENOTDIR"
| "errno_of_fs FsIsDir = EISDIR"
| "errno_of_fs FsAlreadyExists = EEXIST"
| "errno_of_fs FsPermissionDenied = EPERM"
| "errno_of_fs FsAccessDenied = EACCES"
| "errno_of_fs FsInvalidInput = EINVAL"
| "errno_of_fs FsNotEmpty = ENOTEMPTY"
| "errno_of_fs FsBusy = EBUSY"
| "errno_of_fs FsTextBusy = ETXTBSY"
| "errno_of_fs FsCrossDevice = EXDEV"
| "errno_of_fs FsIo = EIO"
| "errno_of_fs FsNameTooLong = ENAMETOOLONG"
| "errno_of_fs FsLoop = ELOOP"
| "errno_of_fs FsUnsupported = ENOTSUP"
| "errno_of_fs FsReadOnly = EROFS"
| "errno_of_fs FsNoSpace = ENOSPC"
| "errno_of_fs FsIllegalSeek = ESPIPE"
| "errno_of_fs FsNoDeviceOrAddress = ENXIO"

end
