(* ===== verification/Kernel_Prelude.thy ===== *)
theory Kernel_Prelude
  imports Errno "HOL-Library.Word"
begin

text \<open>
  The shared base of the development.

  It holds the integer operations of Rust that the components use (saturating and checked arithmetic), the two
  containers that several components share (a \<open>Vec\<close> used as a stack and a \<open>BTreeMap\<close> kept as a
  key-sorted association list), and the interfaces that more than one component implements:
  \<^item> \<open>ordered_map\<close>: what a client of \<open>BTreeMap\<close> relies on;
  \<^item> \<open>slot_allocator\<close>: what a client of an allocator of numbered slots relies on (physical
    frames, process ids, kernel stacks);
  \<^item> \<open>keyed_registry\<close>: the id and key tables of the System V IPC managers.

  Conventions. A task (\<open>Arc<TaskControlBlock>\<close>) and an open file description
  (\<open>Arc<dyn File>\<close>) are compared by pointer in the source, so they are natural numbers here.
  \<open>usize\<close> counts are \<open>nat\<close> where the source guards them, and words where it computes with
  addresses or bit masks. A panic is the left side of a sum.
\<close>

unbundle bit_operations_syntax

named_theorems kernel_simps \<open>unfolding facts of the kernel models\<close>
named_theorems kernel_inv \<open>preservation of the component invariants\<close>

type_synonym u8 = "8 word"
type_synonym u16 = "16 word"
type_synonym u32 = "32 word"
type_synonym usize = "64 word"
type_synonym task_id = nat
type_synonym file_id = nat

section \<open>Results\<close>

text \<open>\<open>map_err\<close> and \<open>map\<close> of Rust's \<open>Result\<close>.\<close>

definition map_err :: "('e \<Rightarrow> 'f) \<Rightarrow> 'e + 'a \<Rightarrow> 'f + 'a" where
  "map_err f r = (case r of Inl e \<Rightarrow> Inl (f e) | Inr x \<Rightarrow> Inr x)"

text \<open>\<open>and_then\<close>: go on with the value, or stop with the error.\<close>

definition and_then :: "'e + 'a \<Rightarrow> ('a \<Rightarrow> 'e + 'b) \<Rightarrow> 'e + 'b" where
  "and_then r f = (case r of Inl e \<Rightarrow> Inl e | Inr x \<Rightarrow> f x)"

section \<open>Integers\<close>

definition usize_max :: nat where
  "usize_max = 18446744073709551615"

definition u32_max :: nat where
  "u32_max = 4294967295"

definition i32_max :: int where
  "i32_max = 2147483647"

definition i64_max :: int where
  "i64_max = 9223372036854775807"

definition i64_min :: int where
  "i64_min = - 9223372036854775808"

definition saturating_add :: "nat \<Rightarrow> nat \<Rightarrow> nat" where
  "saturating_add a b = min (a + b) usize_max"

definition checked_add :: "nat \<Rightarrow> nat \<Rightarrow> nat option" where
  "checked_add a b = (if a + b \<le> usize_max then Some (a + b) else None)"

text \<open>\<open>i64\<close> results: \<open>None\<close> where \<open>checked_add\<close> and \<open>checked_sub\<close> return \<open>None\<close>.\<close>

definition checked_i64 :: "int \<Rightarrow> int option" where
  "checked_i64 z = (if i64_min \<le> z \<and> z \<le> i64_max then Some z else None)"

definition saturating_i64 :: "int \<Rightarrow> int" where
  "saturating_i64 z = max i64_min (min z i64_max)"

section \<open>Vec as a stack\<close>

text \<open>\<open>Vec::push\<close> appends at the end, \<open>Vec::pop\<close> takes the last element.\<close>

definition vec_pop :: "'a list \<Rightarrow> ('a \<times> 'a list) option" where
  "vec_pop xs = (if xs = [] then None else Some (last xs, butlast xs))"

text \<open>\<open>VecDeque::pop_front\<close>.\<close>

definition pop_front :: "'a list \<Rightarrow> 'a option \<times> 'a list" where
  "pop_front xs = (case xs of [] \<Rightarrow> (None, []) | y # ys \<Rightarrow> (Some y, ys))"

text \<open>
  The bounded loop \<open>for _ in 0..n { let Some(x) = alloc() else { break }; out.push(x) }\<close>.
\<close>

fun alloc_batch :: "('s \<Rightarrow> 'i option \<times> 's) \<Rightarrow> nat \<Rightarrow> 's \<Rightarrow> 'i list \<times> 's" where
  "alloc_batch alloc 0 s = ([], s)"
| "alloc_batch alloc (Suc n) s =
     (case alloc s of
        (None, s') \<Rightarrow> ([], s')
      | (Some i, s') \<Rightarrow> (case alloc_batch alloc n s' of (is, s'') \<Rightarrow> (i # is, s'')))"

section \<open>BTreeMap as a key-sorted association list\<close>

type_synonym ('k, 'v) btree = "('k \<times> 'v) list"

definition bt_get :: "('k, 'v) btree \<Rightarrow> 'k \<Rightarrow> 'v option" where
  "bt_get m k = map_of m k"

fun bt_insert :: "'k::linorder \<Rightarrow> 'v \<Rightarrow> ('k, 'v) btree \<Rightarrow> ('k, 'v) btree" where
  "bt_insert k v [] = [(k, v)]"
| "bt_insert k v ((k', v') # m) =
     (if k < k' then (k, v) # (k', v') # m
      else if k = k' then (k, v) # m
      else (k', v') # bt_insert k v m)"

definition bt_remove :: "'k \<Rightarrow> ('k, 'v) btree \<Rightarrow> ('k, 'v) btree" where
  "bt_remove k m = filter (\<lambda>e. fst e \<noteq> k) m"

text \<open>\<open>values_mut\<close>: every value changed in place.\<close>

definition bt_map :: "('v \<Rightarrow> 'w) \<Rightarrow> ('k, 'v) btree \<Rightarrow> ('k, 'w) btree" where
  "bt_map f m = map (\<lambda>e. (fst e, f (snd e))) m"

definition bt_ok :: "('k::linorder, 'v) btree \<Rightarrow> bool" where
  "bt_ok m \<longleftrightarrow> sorted_wrt (<) (map fst m)"

text \<open>\<open>split_off\<close>: the entries below a key and the entries from it on; \<open>range\<close>: the entries between two keys.\<close>

definition bt_split_off :: "'k::linorder \<Rightarrow> ('k, 'v) btree \<Rightarrow> ('k, 'v) btree \<times> ('k, 'v) btree" where
  "bt_split_off k m = (filter (\<lambda>e. fst e < k) m, filter (\<lambda>e. k \<le> fst e) m)"

definition bt_range :: "'k::linorder \<Rightarrow> 'k \<Rightarrow> ('k, 'v) btree \<Rightarrow> ('k, 'v) btree" where
  "bt_range k k' m = filter (\<lambda>e. k \<le> fst e \<and> fst e < k') m"

text \<open>\<open>keys().next_back()\<close>: the greatest key, \<open>None\<close> on the empty map.\<close>

definition bt_last_key :: "('k, 'v) btree \<Rightarrow> 'k option" where
  "bt_last_key m = (if m = [] then None else Some (fst (last m)))"

section \<open>The key tables of an IPC namespace\<close>

text \<open>
  A manager keeps its objects by id and, for objects with a key other than \<open>IPC_PRIVATE\<close> (0),
  the id by key. The two tables agree when every key entry leads to an object with that key
  and every keyed object is reached by its own key.
\<close>

definition keyed_ok :: "(nat \<Rightarrow> 'o option) \<Rightarrow> (int \<Rightarrow> nat option) \<Rightarrow> ('o \<Rightarrow> int) \<Rightarrow> bool" where
  "keyed_ok objs keyed key_of \<longleftrightarrow>
     (\<forall>k i. keyed k = Some i \<longrightarrow> k \<noteq> 0 \<and> (\<exists>ob. objs i = Some ob \<and> key_of ob = k)) \<and>
     (\<forall>i ob. objs i = Some ob \<longrightarrow> key_of ob \<noteq> 0 \<longrightarrow> keyed (key_of ob) = Some i)"

section \<open>Lemmas on the containers\<close>

lemma and_then_simps [simp]: "and_then (Inl e) f = Inl e" "and_then (Inr x) f = f x"
  by (simp_all add: and_then_def)

lemma and_then_Inr: "and_then r f = Inr y \<longleftrightarrow> (\<exists>x. r = Inr x \<and> f x = Inr y)"
  by (cases r) simp_all

lemma vec_pop_Nil [simp]: "vec_pop [] = None"
  by (simp add: vec_pop_def)

lemma vec_pop_None [simp]: "vec_pop xs = None \<longleftrightarrow> xs = []"
  by (simp add: vec_pop_def)

lemma vec_pop_Some: "vec_pop xs = Some (x, ys) \<longleftrightarrow> xs = ys @ [x]"
  by (auto simp: vec_pop_def)

lemma vec_pop_snoc [simp]: "vec_pop (xs @ [x]) = Some (x, xs)"
  by (simp add: vec_pop_def)

lemma pop_front_simps [simp]:
  "pop_front [] = (None, [])"
  "pop_front (x # xs) = (Some x, xs)"
  by (simp_all add: pop_front_def)

lemma bt_get_Nil [simp]: "bt_get [] k = None"
  by (simp add: bt_get_def)

lemma bt_get_Cons [simp]: "bt_get ((k', v) # m) k = (if k = k' then Some v else bt_get m k)"
  by (simp add: bt_get_def)

lemma bt_get_insert [simp]: "bt_get (bt_insert k v m) = (bt_get m)(k \<mapsto> v)"
  by (induction m) (auto simp: fun_eq_iff bt_get_def)

lemma bt_get_remove [simp]: "bt_get (bt_remove k m) = (bt_get m)(k := None)"
  by (induction m) (auto simp: bt_remove_def fun_eq_iff bt_get_def)

lemma bt_get_map [simp]: "bt_get (bt_map f m) k = map_option f (bt_get m k)"
  by (induction m) (auto simp: bt_map_def bt_get_def)

lemma set_bt_insert_fst: "set (map fst (bt_insert k v m)) = insert k (set (map fst m))"
  by (induction k v m rule: bt_insert.induct) (simp_all add: insert_commute)

lemma bt_ok_Nil [simp]: "bt_ok []"
  by (simp add: bt_ok_def)

lemma bt_ok_Cons: "bt_ok (e # m) \<longleftrightarrow> (\<forall>x \<in> set (map fst m). fst e < x) \<and> bt_ok m"
  by (simp add: bt_ok_def)

lemma bt_ok_insert [simp]: "bt_ok m \<Longrightarrow> bt_ok (bt_insert k v m)"
proof (induction m)
  case Nil
  then show ?case by (simp add: bt_ok_def)
next
  case (Cons e m)
  obtain k' v' where e: "e = (k', v')" by (cases e)
  from Cons.prems e have lt: "\<forall>x \<in> set (map fst m). k' < x" and m: "bt_ok m"
    by (simp_all add: bt_ok_Cons)
  consider "k < k'" | "k = k'" | "k' < k" by (rule linorder_cases)
  then show ?case
  proof cases
    case 1
    with e lt m show ?thesis by (auto simp: bt_ok_Cons)
  next
    case 2
    with e lt m show ?thesis by (auto simp: bt_ok_Cons)
  next
    case 3
    then have "bt_insert k v (e # m) = e # bt_insert k v m" using e by auto
    with 3 e lt Cons.IH [OF m] show ?thesis
      by (simp add: bt_ok_Cons set_bt_insert_fst del: set_map)
  qed
qed

lemma bt_ok_filter: "bt_ok m \<Longrightarrow> bt_ok (filter P m)"
  by (induction m) (auto simp: bt_ok_def)

lemma bt_ok_remove [simp]: "bt_ok m \<Longrightarrow> bt_ok (bt_remove k m)"
  by (simp add: bt_remove_def bt_ok_filter)

lemma bt_ok_map [simp]: "bt_ok (bt_map f m) = bt_ok m"
  by (simp add: bt_ok_def bt_map_def comp_def)

lemma bt_ok_distinct: "bt_ok m \<Longrightarrow> distinct (map fst m)"
  by (auto simp: bt_ok_def strict_sorted_iff)

lemma bt_ok_set_iff: "bt_ok m \<Longrightarrow> (k, v) \<in> set m \<longleftrightarrow> bt_get m k = Some v"
  by (simp add: bt_ok_distinct bt_get_def)

lemma bt_insert_fresh_length: "bt_get m k = None \<Longrightarrow> length (bt_insert k v m) = Suc (length m)"
  by (induction m) (auto simp: bt_get_def split: if_splits)

lemma bt_insert_fresh_sum_list:
  fixes f :: "'v \<Rightarrow> nat"
  shows "bt_get m k = None \<Longrightarrow>
    sum_list (map (\<lambda>e. f (snd e)) (bt_insert k v m)) = f v + sum_list (map (\<lambda>e. f (snd e)) m)"
  by (induction m) (auto simp: bt_get_def split: if_splits)

lemma bt_last_key_ge:
  assumes "bt_ok m" and "bt_get m k = Some v"
  shows "\<exists>top. bt_last_key m = Some top \<and> k \<le> top \<and> bt_get m top \<noteq> None"
proof -
  from assms(2) have mem: "(k, v) \<in> set m"
    by (simp add: bt_get_def map_of_SomeD)
  then have ne: "m \<noteq> []" by auto
  then obtain m' z where m: "m = m' @ [z]" by (metis append_butlast_last_id)
  from assms(1) have "\<forall>e \<in> set m'. fst e < fst z"
    by (auto simp: bt_ok_def m sorted_wrt_append)
  with mem m have "k \<le> fst z" by fastforce
  moreover have "bt_get m (fst z) \<noteq> None"
    by (auto simp: bt_get_def m map_of_eq_None_iff)
  ultimately show ?thesis using m by (simp add: bt_last_key_def)
qed

section \<open>Interfaces\<close>

subsection \<open>Ordered maps\<close>

locale ordered_map =
  fixes empty :: "'m"
    and get :: "'m \<Rightarrow> 'k \<Rightarrow> 'v option"
    and put :: "'k \<Rightarrow> 'v \<Rightarrow> 'm \<Rightarrow> 'm"
    and del :: "'k \<Rightarrow> 'm \<Rightarrow> 'm"
    and ok :: "'m \<Rightarrow> bool"
  assumes get_empty: "get empty k = None"
    and get_put: "get (put k v m) = (get m)(k \<mapsto> v)"
    and get_del: "get (del k m) = (get m)(k := None)"
    and ok_empty: "ok empty"
    and ok_put: "ok m \<Longrightarrow> ok (put k v m)"
    and ok_del: "ok m \<Longrightarrow> ok (del k m)"
begin

lemma put_lookup: "get (put k v m) k = Some v"
  by (simp add: get_put)

lemma put_other: "k' \<noteq> k \<Longrightarrow> get (put k v m) k' = get m k'"
  by (simp add: get_put)

lemma del_put_fresh: "get m k = None \<Longrightarrow> get (del k (put k v m)) = get m"
  by (auto simp: get_put get_del fun_eq_iff)

lemma dom_put: "dom (get (put k v m)) = insert k (dom (get m))"
  by (simp add: get_put)

end

interpretation bt: ordered_map "[]" bt_get bt_insert bt_remove bt_ok
  by unfold_locales (simp_all add: bt_get_insert bt_get_remove)

subsection \<open>Allocators of numbered slots\<close>

locale slot_allocator =
  fixes ok :: "'s \<Rightarrow> bool"
    and used :: "'s \<Rightarrow> nat set"
    and alloc :: "'s \<Rightarrow> nat option \<times> 's"
    and free :: "nat \<Rightarrow> 's \<Rightarrow> 's"
  assumes alloc_Some: "ok s \<Longrightarrow> alloc s = (Some i, s') \<Longrightarrow>
      ok s' \<and> i \<notin> used s \<and> used s' = insert i (used s)"
    and alloc_None: "ok s \<Longrightarrow> alloc s = (None, s') \<Longrightarrow> s' = s"
    and free_used: "ok s \<Longrightarrow> i \<in> used s \<Longrightarrow> ok (free i s) \<and> used (free i s) = used s - {i}"
begin

lemma alloc_free_used:
  assumes "ok s" and "alloc s = (Some i, s')"
  shows "ok (free i s') \<and> used (free i s') = used s"
  using alloc_Some [OF assms] free_used [of s' i] by auto

lemma alloc_keeps_used: "ok s \<Longrightarrow> alloc s = (r, s') \<Longrightarrow> used s \<subseteq> used s'"
proof (cases r)
  case None
  assume "ok s" and "alloc s = (r, s')"
  with None alloc_None [of s s'] show ?thesis by simp
next
  case (Some i)
  assume "ok s" and "alloc s = (r, s')"
  with Some alloc_Some [of s i s'] show ?thesis by auto
qed

text \<open>A batch hands out distinct slots, none of which was in use, and nothing else changes.\<close>

lemma alloc_batch_sound:
  assumes "ok s" and "alloc_batch alloc n s = (is, s')"
  shows "ok s' \<and> distinct is \<and> set is \<inter> used s = {} \<and> used s' = used s \<union> set is \<and> length is \<le> n"
  using assms
proof (induction n arbitrary: s s' "is")
  case 0
  then show ?case by simp
next
  case (Suc n)
  obtain r t where a: "alloc s = (r, t)" by (cases "alloc s")
  show ?case
  proof (cases r)
    case None
    with a Suc.prems alloc_None have "t = s" by simp
    with None a Suc.prems show ?thesis by simp
  next
    case (Some i)
    obtain js u where b: "alloc_batch alloc n t = (js, u)" by (cases "alloc_batch alloc n t")
    from Suc.prems a Some alloc_Some have t: "ok t" "i \<notin> used s" "used t = insert i (used s)"
      by auto
    from Suc.IH [OF t(1) b] Suc.prems(2) a Some b t show ?thesis by auto
  qed
qed

end

subsection \<open>Objects registered under an id and a key\<close>

locale keyed_registry =
  fixes objs :: "'m \<Rightarrow> nat \<Rightarrow> 'o option"
    and keyed :: "'m \<Rightarrow> int \<Rightarrow> nat option"
    and key_of :: "'o \<Rightarrow> int"
    and register :: "nat \<Rightarrow> 'o \<Rightarrow> 'm \<Rightarrow> 'm"
    and unregister :: "nat \<Rightarrow> 'o \<Rightarrow> 'm \<Rightarrow> 'm"
    and replace :: "nat \<Rightarrow> 'o \<Rightarrow> 'm \<Rightarrow> 'm"
  assumes objs_register: "objs (register i ob m) = (objs m)(i \<mapsto> ob)"
    and keyed_register: "keyed (register i ob m) =
          (if key_of ob = 0 then keyed m else (keyed m)(key_of ob \<mapsto> i))"
    and objs_unregister: "objs (unregister i ob m) = (objs m)(i := None)"
    and keyed_unregister: "keyed (unregister i ob m) =
          (if key_of ob = 0 then keyed m else (keyed m)(key_of ob := None))"
    and objs_replace: "objs (replace i ob m) = (objs m)(i \<mapsto> ob)"
    and keyed_replace: "keyed (replace i ob m) = keyed m"
begin

lemma register_keeps_keyed_ok:
  assumes ok: "keyed_ok (objs m) (keyed m) key_of" and new: "objs m i = None"
    and fresh: "key_of ob = 0 \<or> keyed m (key_of ob) = None"
  shows "keyed_ok (objs (register i ob m)) (keyed (register i ob m)) key_of"
  unfolding keyed_ok_def
proof (intro conjI allI impI)
  fix k j assume k: "keyed (register i ob m) k = Some j"
  have "k \<noteq> 0 \<and> (\<exists>ob'. objs (register i ob m) j = Some ob' \<and> key_of ob' = k)"
  proof (cases "key_of ob \<noteq> 0 \<and> k = key_of ob")
    case True
    with k show ?thesis by (simp add: objs_register keyed_register)
  next
    case False
    with k have "keyed m k = Some j" by (simp add: keyed_register split: if_splits)
    with ok obtain ob' where "k \<noteq> 0" "objs m j = Some ob'" "key_of ob' = k"
      unfolding keyed_ok_def by blast
    moreover from this new have "j \<noteq> i" by auto
    ultimately show ?thesis by (simp add: objs_register)
  qed
  then show "k \<noteq> 0" and "\<exists>ob'. objs (register i ob m) j = Some ob' \<and> key_of ob' = k"
    by blast+
next
  fix j ob' assume j: "objs (register i ob m) j = Some ob'" and k: "key_of ob' \<noteq> 0"
  show "keyed (register i ob m) (key_of ob') = Some j"
  proof (cases "j = i")
    case True
    with j k show ?thesis by (simp add: objs_register keyed_register)
  next
    case False
    with j have "objs m j = Some ob'" by (simp add: objs_register)
    with ok k have "keyed m (key_of ob') = Some j" unfolding keyed_ok_def by blast
    moreover from this fresh have "key_of ob = 0 \<or> key_of ob' \<noteq> key_of ob" by auto
    ultimately show ?thesis by (auto simp: keyed_register)
  qed
qed

lemma unregister_keeps_keyed_ok:
  assumes "keyed_ok (objs m) (keyed m) key_of" and "objs m i = Some ob"
  shows "keyed_ok (objs (unregister i ob m)) (keyed (unregister i ob m)) key_of"
  unfolding keyed_ok_def
proof (intro conjI allI impI)
  fix k j assume k: "keyed (unregister i ob m) k = Some j"
  then have k': "keyed m k = Some j" and ne: "key_of ob = 0 \<or> k \<noteq> key_of ob"
    by (auto simp: keyed_unregister split: if_splits)
  from k' assms(1) obtain ob' where ob': "k \<noteq> 0" "objs m j = Some ob'" "key_of ob' = k"
    by (auto simp: keyed_ok_def)
  with ne assms(2) have "j \<noteq> i" by auto
  with ob' show "k \<noteq> 0" and "\<exists>ob'. objs (unregister i ob m) j = Some ob' \<and> key_of ob' = k"
    by (auto simp: objs_unregister)
next
  fix j ob' assume j: "objs (unregister i ob m) j = Some ob'" and k: "key_of ob' \<noteq> 0"
  then have ji: "j \<noteq> i" and o: "objs m j = Some ob'"
    by (auto simp: objs_unregister split: if_splits)
  with assms(1) k have "keyed m (key_of ob') = Some j" unfolding keyed_ok_def by blast
  moreover have "key_of ob' \<noteq> key_of ob"
  proof
    assume eq: "key_of ob' = key_of ob"
    from assms(1) have "objs m i = Some ob \<longrightarrow> key_of ob \<noteq> 0 \<longrightarrow> keyed m (key_of ob) = Some i"
      unfolding keyed_ok_def by blast
    with assms(2) k eq calculation ji show False by simp
  qed
  ultimately show "keyed (unregister i ob m) (key_of ob') = Some j"
    by (simp add: keyed_unregister)
qed

lemma replace_keeps_keyed_ok:
  assumes "keyed_ok (objs m) (keyed m) key_of" and "objs m i = Some ob" and "key_of ob' = key_of ob"
  shows "keyed_ok (objs (replace i ob' m)) (keyed (replace i ob' m)) key_of"
  unfolding keyed_ok_def objs_replace keyed_replace
proof (intro conjI allI impI)
  fix k j assume "keyed m k = Some j"
  with assms(1) obtain o1 where "k \<noteq> 0" "objs m j = Some o1" "key_of o1 = k"
    unfolding keyed_ok_def by blast
  with assms(2,3) show "k \<noteq> 0" and "\<exists>o2. ((objs m)(i \<mapsto> ob')) j = Some o2 \<and> key_of o2 = k"
    by auto
next
  fix j o1 assume j: "((objs m)(i \<mapsto> ob')) j = Some o1" and k: "key_of o1 \<noteq> 0"
  then obtain o2 where "objs m j = Some o2" "key_of o2 = key_of o1"
    using assms(2,3) by (cases "j = i") auto
  with assms(1) k show "keyed m (key_of o1) = Some j"
    unfolding keyed_ok_def by metis
qed

end

end
