(* ===== verification/Frame_Allocator.thy ===== *)
theory Frame_Allocator
  imports Kernel_Prelude
begin

text \<open>
  The physical frame allocator (\<open>os/src/mm/frame_allocator.rs\<close>).

  A global \<open>StackFrameAllocator\<close> owns a bump range and a stack of recycled page numbers; each
  CPU has a cache of free pages; a table of atomic reference counts says which pages are held.
  An operation is one call of the source, run to completion: the counters are updated by
  compare-and-exchange loops and the two kinds of lock are never nested, so each call is
  modelled as one state transition. The perf counters and the zero fill of the page are
  left out; \<open>cpu\<close> is the result of \<open>cpu::try_current_id()\<close>.

  \<open>frame_inv\<close> is the ownership invariant stated in the comment on \<open>FrameRefCounts\<close>: a page with
  count zero is owned by exactly one free structure, a page with a positive count by none.
\<close>

section \<open>Definitions\<close>

definition PAGE_SIZE :: nat where
  "PAGE_SIZE = 4096"

definition FRAME_CACHE_CAPACITY :: nat where
  "FRAME_CACHE_CAPACITY = 256"

definition FRAME_CACHE_BATCH :: nat where
  "FRAME_CACHE_BATCH = 128"

definition MAX_CPUS :: nat where
  "MAX_CPUS = 12"

text \<open>Physical addresses of Sv39: 56 bits, so page numbers have 44.\<close>

definition canonicalize_phys_addr :: "nat \<Rightarrow> nat" where
  "canonicalize_phys_addr addr = addr AND (2 ^ 56 - 1)"

definition canonicalize_phys_page_num :: "nat \<Rightarrow> nat" where
  "canonicalize_phys_page_num ppn = ppn AND (2 ^ 44 - 1)"

definition phys_addr_floor :: "nat \<Rightarrow> nat" where
  "phys_addr_floor a = a div PAGE_SIZE"

definition phys_addr_ceil :: "nat \<Rightarrow> nat" where
  "phys_addr_ceil a = (if a = 0 then 0 else (a - 1 + PAGE_SIZE) div PAGE_SIZE)"

datatype frame_panic =
    OutsideMetadata nat
  | FreeFrameHasCount nat nat
  | NoReferenceCount nat
  | RefCountOverflow
  | NotAllocated nat
  | CpuOutOfRange nat
  | NotContiguous

subsection \<open>Reference counts\<close>

record frame_ref_counts =
  frc_start :: nat
  frc_counts :: "nat list"

definition frc_new :: "nat \<Rightarrow> nat \<Rightarrow> frame_ref_counts" where
  "frc_new start end = \<lparr>frc_start = start, frc_counts = replicate (end - start) 0\<rparr>"

definition frc_slot :: "frame_ref_counts \<Rightarrow> nat \<Rightarrow> nat option" where
  "frc_slot r ppn =
     (if ppn < frc_start r then None
      else if ppn - frc_start r < length (frc_counts r) then Some (ppn - frc_start r) else None)"

definition frc_claim_free :: "nat \<Rightarrow> frame_ref_counts \<Rightarrow> frame_panic + frame_ref_counts" where
  "frc_claim_free ppn r =
     (case frc_slot r ppn of
        None \<Rightarrow> Inl (OutsideMetadata ppn)
      | Some i \<Rightarrow>
          if frc_counts r ! i = 0 then Inr (r\<lparr>frc_counts := (frc_counts r)[i := 1]\<rparr>)
          else Inl (FreeFrameHasCount ppn (frc_counts r ! i)))"

definition frc_release :: "nat \<Rightarrow> frame_ref_counts \<Rightarrow> frame_panic + (bool \<times> frame_ref_counts)" where
  "frc_release ppn r =
     (case frc_slot r ppn of
        None \<Rightarrow> Inl (OutsideMetadata ppn)
      | Some i \<Rightarrow>
          (let count = frc_counts r ! i in
           if count = 0 then Inl (NoReferenceCount ppn)
           else Inr (count = 1, r\<lparr>frc_counts := (frc_counts r)[i := count - 1]\<rparr>)))"

definition frc_retain :: "nat \<Rightarrow> frame_ref_counts \<Rightarrow> frame_panic + (bool \<times> frame_ref_counts)" where
  "frc_retain ppn r =
     (case frc_slot r ppn of
        None \<Rightarrow> Inr (False, r)
      | Some i \<Rightarrow>
          (let count = frc_counts r ! i in
           if count = 0 then Inr (False, r)
           else if count = u32_max then Inl RefCountOverflow
           else Inr (True, r\<lparr>frc_counts := (frc_counts r)[i := count + 1]\<rparr>)))"

definition frc_ref_count :: "nat \<Rightarrow> frame_ref_counts \<Rightarrow> nat option" where
  "frc_ref_count ppn r =
     (case frc_slot r ppn of
        None \<Rightarrow> None
      | Some i \<Rightarrow> if 0 < frc_counts r ! i then Some (frc_counts r ! i) else None)"

subsection \<open>The global allocator\<close>

record stack_frame_allocator =
  sfa_start :: nat
  sfa_current :: nat
  sfa_end :: nat
  sfa_recycled :: "nat list"

definition sfa_new :: stack_frame_allocator where
  "sfa_new = \<lparr>sfa_start = 0, sfa_current = 0, sfa_end = 0, sfa_recycled = []\<rparr>"

definition sfa_init :: "nat \<Rightarrow> nat \<Rightarrow> stack_frame_allocator \<Rightarrow> stack_frame_allocator" where
  "sfa_init l r a = a\<lparr>sfa_start := l, sfa_current := l, sfa_end := r\<rparr>"

definition sfa_stats :: "stack_frame_allocator \<Rightarrow> nat \<times> nat" where
  "sfa_stats a =
     (sfa_end a - sfa_start a,
      saturating_add (sfa_end a - sfa_current a) (length (sfa_recycled a)))"

definition sfa_alloc :: "stack_frame_allocator \<Rightarrow> nat option \<times> stack_frame_allocator" where
  "sfa_alloc a =
     (case vec_pop (sfa_recycled a) of
        Some (ppn, rest) \<Rightarrow> (Some (canonicalize_phys_page_num ppn), a\<lparr>sfa_recycled := rest\<rparr>)
      | None \<Rightarrow>
          if sfa_current a = sfa_end a then (None, a)
          else (Some (canonicalize_phys_page_num (sfa_current a)),
                a\<lparr>sfa_current := sfa_current a + 1\<rparr>))"

text \<open>The pages are listed from the last to the first, as the source maps \<open>1..=pages\<close>.\<close>

definition sfa_alloc_more ::
  "nat \<Rightarrow> stack_frame_allocator \<Rightarrow> nat list option \<times> stack_frame_allocator" where
  "sfa_alloc_more pages a =
     (if pages = 0 then (None, a)
      else case checked_add (sfa_current a) pages of
          None \<Rightarrow> (None, a)
        | Some e \<Rightarrow>
            if sfa_end a < e then (None, a)
            else (Some (map (\<lambda>delta. canonicalize_phys_page_num (e - delta)) [1..<pages + 1]),
                  a\<lparr>sfa_current := e\<rparr>))"

definition sfa_recycle :: "nat \<Rightarrow> stack_frame_allocator \<Rightarrow> frame_panic + stack_frame_allocator" where
  "sfa_recycle ppn a =
     (if ppn < sfa_start a \<or> sfa_current a \<le> ppn then Inl (NotAllocated ppn)
      else Inr (a\<lparr>sfa_recycled := sfa_recycled a @ [ppn]\<rparr>))"

fun sfa_recycle_all :: "nat list \<Rightarrow> stack_frame_allocator \<Rightarrow> frame_panic + stack_frame_allocator" where
  "sfa_recycle_all [] a = Inr a"
| "sfa_recycle_all (p # ps) a =
     (case sfa_recycle p a of Inl e \<Rightarrow> Inl e | Inr a' \<Rightarrow> sfa_recycle_all ps a')"

subsection \<open>The allocator state and its operations\<close>

record frame_state =
  frame_alloc_st :: stack_frame_allocator
  frame_refs :: frame_ref_counts
  frame_caches :: "nat list list"

definition init_frame_allocator :: "nat \<Rightarrow> nat \<Rightarrow> frame_state" where
  "init_frame_allocator ekernel memory_end =
     (let start = phys_addr_ceil (canonicalize_phys_addr ekernel);
          last = phys_addr_floor (canonicalize_phys_addr memory_end)
      in \<lparr>frame_alloc_st = sfa_init start last sfa_new,
          frame_refs = frc_new start last,
          frame_caches = replicate MAX_CPUS []\<rparr>)"

text \<open>The end of each allocation path: claim the page, then publish the new structures.\<close>

definition claim_page :: "nat \<Rightarrow> frame_state \<Rightarrow> frame_panic + (nat option \<times> frame_state)" where
  "claim_page ppn s =
     (case frc_claim_free ppn (frame_refs s) of
        Inl e \<Rightarrow> Inl e
      | Inr r \<Rightarrow> Inr (Some ppn, s\<lparr>frame_refs := r\<rparr>))"

definition alloc_frame_ppn ::
  "nat option \<Rightarrow> frame_state \<Rightarrow> frame_panic + (nat option \<times> frame_state)" where
  "alloc_frame_ppn cpu s =
     (case cpu of
        Some c \<Rightarrow>
          if length (frame_caches s) \<le> c then Inl (CpuOutOfRange c)
          else (case vec_pop (frame_caches s ! c) of
              Some (ppn, rest) \<Rightarrow> claim_page ppn (s\<lparr>frame_caches := (frame_caches s)[c := rest]\<rparr>)
            | None \<Rightarrow>
                (case alloc_batch sfa_alloc FRAME_CACHE_BATCH (frame_alloc_st s) of
                   (refill, a) \<Rightarrow>
                     (case vec_pop refill of
                        None \<Rightarrow> Inr (None, s\<lparr>frame_alloc_st := a\<rparr>)
                      | Some (ppn, rest) \<Rightarrow>
                          claim_page ppn (s\<lparr>frame_alloc_st := a,
                            frame_caches := (frame_caches s)[c := frame_caches s ! c @ rest]\<rparr>))))
      | None \<Rightarrow>
          (case sfa_alloc (frame_alloc_st s) of
             (None, a) \<Rightarrow> Inr (None, s\<lparr>frame_alloc_st := a\<rparr>)
           | (Some ppn, a) \<Rightarrow> claim_page ppn (s\<lparr>frame_alloc_st := a\<rparr>)))"

fun claim_all :: "nat list \<Rightarrow> frame_ref_counts \<Rightarrow> frame_panic + frame_ref_counts" where
  "claim_all [] r = Inr r"
| "claim_all (p # ps) r =
     (case frc_claim_free p r of Inl e \<Rightarrow> Inl e | Inr r' \<Rightarrow> claim_all ps r')"

definition frame_alloc_more :: "nat \<Rightarrow> frame_state \<Rightarrow> frame_panic + (nat list option \<times> frame_state)" where
  "frame_alloc_more num s =
     (case sfa_alloc_more num (frame_alloc_st s) of
        (None, a) \<Rightarrow> Inr (None, s\<lparr>frame_alloc_st := a\<rparr>)
      | (Some pages, a) \<Rightarrow>
          (case claim_all pages (frame_refs s) of
             Inl e \<Rightarrow> Inl e
           | Inr r \<Rightarrow> Inr (Some pages, s\<lparr>frame_alloc_st := a, frame_refs := r\<rparr>)))"

fun ascending_adjacent :: "nat list \<Rightarrow> bool" where
  "ascending_adjacent (p # q # ps) = (q = p + 1 \<and> ascending_adjacent (q # ps))"
| "ascending_adjacent _ = True"

definition frame_alloc_contiguous_uninit ::
  "nat \<Rightarrow> frame_state \<Rightarrow> frame_panic + (nat list option \<times> frame_state)" where
  "frame_alloc_contiguous_uninit pages s =
     (case sfa_alloc_more pages (frame_alloc_st s) of
        (None, a) \<Rightarrow> Inr (None, s\<lparr>frame_alloc_st := a\<rparr>)
      | (Some ppns, a) \<Rightarrow>
          if length (rev ppns) \<noteq> pages \<or> \<not> ascending_adjacent (rev ppns) then Inl NotContiguous
          else (case claim_all (rev ppns) (frame_refs s) of
              Inl e \<Rightarrow> Inl e
            | Inr r \<Rightarrow> Inr (Some (rev ppns), s\<lparr>frame_alloc_st := a, frame_refs := r\<rparr>)))"

text \<open>
  Dropping a \<open>FrameTracker\<close>. A cache that grows past its capacity gives its last batch back to
  the global allocator.
\<close>

definition frame_dealloc :: "nat option \<Rightarrow> nat \<Rightarrow> frame_state \<Rightarrow> frame_panic + frame_state" where
  "frame_dealloc cpu ppn s =
     (case frc_release ppn (frame_refs s) of
        Inl e \<Rightarrow> Inl e
      | Inr (last_ref, r) \<Rightarrow>
          if \<not> last_ref then Inr (s\<lparr>frame_refs := r\<rparr>)
          else (case cpu of
              Some c \<Rightarrow>
                if length (frame_caches s) \<le> c then Inl (CpuOutOfRange c)
                else (let pages = frame_caches s ! c @ [ppn];
                          keep = (if FRAME_CACHE_CAPACITY < length pages
                                  then length pages - FRAME_CACHE_BATCH else length pages)
                      in (case sfa_recycle_all (drop keep pages) (frame_alloc_st s) of
                            Inl e \<Rightarrow> Inl e
                          | Inr a \<Rightarrow> Inr (s\<lparr>frame_refs := r, frame_alloc_st := a,
                                frame_caches := (frame_caches s)[c := take keep pages]\<rparr>)))
            | None \<Rightarrow>
                (case sfa_recycle ppn (frame_alloc_st s) of
                   Inl e \<Rightarrow> Inl e
                 | Inr a \<Rightarrow> Inr (s\<lparr>frame_refs := r, frame_alloc_st := a\<rparr>))))"

definition frame_retain :: "nat \<Rightarrow> frame_state \<Rightarrow> frame_panic + (bool \<times> frame_state)" where
  "frame_retain ppn s =
     (case frc_retain ppn (frame_refs s) of
        Inl e \<Rightarrow> Inl e
      | Inr (b, r) \<Rightarrow> Inr (b, s\<lparr>frame_refs := r\<rparr>))"

definition frame_ref_count :: "nat \<Rightarrow> frame_state \<Rightarrow> nat option" where
  "frame_ref_count ppn s = frc_ref_count ppn (frame_refs s)"

definition frame_stats :: "frame_state \<Rightarrow> nat \<times> nat" where
  "frame_stats s =
     (let cached = sum_list (map length (frame_caches s))
      in case sfa_stats (frame_alloc_st s) of
           (tot, global_free) \<Rightarrow> (tot, saturating_add global_free cached))"

subsection \<open>The ownership invariant\<close>

definition sfa_ok :: "stack_frame_allocator \<Rightarrow> bool" where
  "sfa_ok a \<longleftrightarrow>
     sfa_start a \<le> sfa_current a \<and> sfa_current a \<le> sfa_end a \<and> sfa_end a \<le> 2 ^ 44 \<and>
     distinct (sfa_recycled a) \<and> set (sfa_recycled a) \<subseteq> {sfa_start a..<sfa_current a}"

text \<open>The pages handed out by the global allocator and not given back.\<close>

definition sfa_used :: "stack_frame_allocator \<Rightarrow> nat set" where
  "sfa_used a = {sfa_start a..<sfa_current a} - set (sfa_recycled a)"

definition frame_count :: "frame_state \<Rightarrow> nat \<Rightarrow> nat" where
  "frame_count s ppn = (case frame_ref_count ppn s of None \<Rightarrow> 0 | Some n \<Rightarrow> n)"

definition cached_pages :: "nat list list \<Rightarrow> nat set" where
  "cached_pages cs = (\<Union>c < length cs. set (cs ! c))"

definition caches_ok :: "nat list list \<Rightarrow> bool" where
  "caches_ok cs \<longleftrightarrow>
     (\<forall>c < length cs. distinct (cs ! c)) \<and>
     (\<forall>c < length cs. \<forall>d < length cs. c \<noteq> d \<longrightarrow> set (cs ! c) \<inter> set (cs ! d) = {})"

text \<open>A page is held when it left the global allocator and is in no cache.\<close>

definition held_pages :: "frame_state \<Rightarrow> nat set" where
  "held_pages s = sfa_used (frame_alloc_st s) - cached_pages (frame_caches s)"

definition frame_inv :: "frame_state \<Rightarrow> bool" where
  "frame_inv s \<longleftrightarrow>
     sfa_ok (frame_alloc_st s) \<and>
     frc_start (frame_refs s) = sfa_start (frame_alloc_st s) \<and>
     length (frc_counts (frame_refs s)) = sfa_end (frame_alloc_st s) - sfa_start (frame_alloc_st s) \<and>
     length (frame_caches s) = MAX_CPUS \<and>
     caches_ok (frame_caches s) \<and>
     cached_pages (frame_caches s) \<subseteq> sfa_used (frame_alloc_st s) \<and>
     (\<forall>p. 0 < frame_count s p \<longleftrightarrow> p \<in> held_pages s)"

text \<open>
  The state in the middle of an allocation or a release: page \<open>p\<close> belongs to no free structure
  and its count is still (or again) zero.
\<close>

definition frame_inv_but :: "nat \<Rightarrow> frame_state \<Rightarrow> bool" where
  "frame_inv_but p s \<longleftrightarrow>
     sfa_ok (frame_alloc_st s) \<and>
     frc_start (frame_refs s) = sfa_start (frame_alloc_st s) \<and>
     length (frc_counts (frame_refs s)) = sfa_end (frame_alloc_st s) - sfa_start (frame_alloc_st s) \<and>
     length (frame_caches s) = MAX_CPUS \<and>
     caches_ok (frame_caches s) \<and>
     cached_pages (frame_caches s) \<subseteq> sfa_used (frame_alloc_st s) \<and>
     p \<in> held_pages s \<and>
     (\<forall>q. 0 < frame_count s q \<longleftrightarrow> q \<in> held_pages s - {p})"

definition valid_cpu :: "nat option \<Rightarrow> bool" where
  "valid_cpu cpu \<longleftrightarrow> (case cpu of None \<Rightarrow> True | Some c \<Rightarrow> c < MAX_CPUS)"

subsection \<open>Reachable states\<close>

text \<open>Every state the allocator can be in after boot, whatever the kernel calls on it.\<close>

inductive frame_reachable :: "nat \<Rightarrow> nat \<Rightarrow> frame_state \<Rightarrow> bool" for ekernel memory_end :: nat where
  boot: "phys_addr_ceil (canonicalize_phys_addr ekernel) \<le>
      phys_addr_floor (canonicalize_phys_addr memory_end) \<Longrightarrow>
    frame_reachable ekernel memory_end (init_frame_allocator ekernel memory_end)"
| alloc: "frame_reachable ekernel memory_end s \<Longrightarrow> valid_cpu cpu \<Longrightarrow>
    alloc_frame_ppn cpu s = Inr (r, s') \<Longrightarrow> frame_reachable ekernel memory_end s'"
| alloc_more: "frame_reachable ekernel memory_end s \<Longrightarrow>
    frame_alloc_more n s = Inr (ps, s') \<Longrightarrow> frame_reachable ekernel memory_end s'"
| contiguous: "frame_reachable ekernel memory_end s \<Longrightarrow>
    frame_alloc_contiguous_uninit n s = Inr (ps, s') \<Longrightarrow> frame_reachable ekernel memory_end s'"
| dealloc: "frame_reachable ekernel memory_end s \<Longrightarrow> valid_cpu cpu \<Longrightarrow>
    frame_dealloc cpu p s = Inr s' \<Longrightarrow> frame_reachable ekernel memory_end s'"
| retain: "frame_reachable ekernel memory_end s \<Longrightarrow>
    frame_retain p s = Inr (b, s') \<Longrightarrow> frame_reachable ekernel memory_end s'"

text \<open>A machine with four pages: after boot, and after the first two were taken.\<close>

definition demo_boot :: frame_state where
  "demo_boot = init_frame_allocator 4096 20480"

definition demo_held :: frame_state where
  "demo_held = (case frame_alloc_contiguous_uninit 2 demo_boot of Inl _ \<Rightarrow> demo_boot | Inr (_, s) \<Rightarrow> s)"

section \<open>The global allocator as an allocator of slots\<close>

lemma canonical_ppn:
  assumes "p < 2 ^ 44"
  shows "canonicalize_phys_page_num p = p"
proof -
  have "(2 ^ 44 - 1 :: nat) = mask 44" by (simp add: mask_eq_exp_minus_1)
  then have "canonicalize_phys_page_num p = take_bit 44 p"
    by (simp add: canonicalize_phys_page_num_def take_bit_eq_mask)
  with assms show ?thesis by (simp add: take_bit_nat_eq_self)
qed

lemma sfa_used_bound: "sfa_ok a \<Longrightarrow> p \<in> sfa_used a \<Longrightarrow> sfa_start a \<le> p \<and> p < sfa_end a"
  by (auto simp: sfa_ok_def sfa_used_def)

lemma sfa_alloc_shape:
  assumes "sfa_alloc a = (r, a')"
  shows "sfa_start a' = sfa_start a \<and> sfa_end a' = sfa_end a"
  using assms by (auto simp: sfa_alloc_def split: option.splits if_splits)

lemma sfa_alloc_Some:
  assumes ok: "sfa_ok a" and al: "sfa_alloc a = (Some p, a')"
  shows "sfa_ok a' \<and> p \<notin> sfa_used a \<and> sfa_used a' = insert p (sfa_used a)"
proof (cases "vec_pop (sfa_recycled a)")
  case None
  then have rec: "sfa_recycled a = []" by simp
  with al ok have cur: "sfa_current a < sfa_end a"
    and a': "a' = a\<lparr>sfa_current := sfa_current a + 1\<rparr>"
    and p: "p = canonicalize_phys_page_num (sfa_current a)"
    by (auto simp: sfa_alloc_def sfa_ok_def split: if_splits)
  from cur ok have "p = sfa_current a"
    by (auto simp: p sfa_ok_def intro!: canonical_ppn)
  with a' cur rec ok show ?thesis by (auto simp: sfa_ok_def sfa_used_def)
next
  case (Some qr)
  then obtain q rest where rec: "sfa_recycled a = rest @ [q]"
    by (cases qr) (auto simp: vec_pop_Some)
  with al have a': "a' = a\<lparr>sfa_recycled := rest\<rparr>" and p: "p = canonicalize_phys_page_num q"
    by (auto simp: sfa_alloc_def)
  from ok rec have "q < 2 ^ 44" by (auto simp: sfa_ok_def)
  with p have "p = q" by (simp add: canonical_ppn)
  with a' rec ok show ?thesis by (auto simp: sfa_ok_def sfa_used_def)
qed

lemma sfa_alloc_None:
  "sfa_alloc a = (None, a') \<longleftrightarrow> a' = a \<and> sfa_recycled a = [] \<and> sfa_current a = sfa_end a"
  by (auto simp: sfa_alloc_def split: option.splits if_splits)

lemma sfa_recycle_used:
  assumes "sfa_ok a" and "p \<in> sfa_used a"
  shows "sfa_recycle p a = Inr (a\<lparr>sfa_recycled := sfa_recycled a @ [p]\<rparr>) \<and>
    sfa_ok (a\<lparr>sfa_recycled := sfa_recycled a @ [p]\<rparr>) \<and>
    sfa_used (a\<lparr>sfa_recycled := sfa_recycled a @ [p]\<rparr>) = sfa_used a - {p}"
  using assms by (auto simp: sfa_recycle_def sfa_ok_def sfa_used_def)

interpretation sfa: slot_allocator sfa_ok sfa_used sfa_alloc
    "\<lambda>p a. case sfa_recycle p a of Inl _ \<Rightarrow> a | Inr a' \<Rightarrow> a'"
  by unfold_locales (use sfa_alloc_Some sfa_alloc_None sfa_recycle_used in \<open>auto\<close>)

lemma sfa_batch_shape:
  assumes "alloc_batch sfa_alloc n a = (ps, a')"
  shows "sfa_start a' = sfa_start a \<and> sfa_end a' = sfa_end a"
  using assms
proof (induction n arbitrary: a ps)
  case 0
  then show ?case by simp
next
  case (Suc n)
  then show ?case
    by (cases "sfa_alloc a")
      (fastforce dest: sfa_alloc_shape split: option.splits prod.splits)
qed

lemma sfa_recycle_all_used:
  assumes "sfa_ok a" and "distinct ps" and "set ps \<subseteq> sfa_used a"
  shows "\<exists>a'. sfa_recycle_all ps a = Inr a' \<and> sfa_ok a' \<and> sfa_used a' = sfa_used a - set ps \<and>
    sfa_start a' = sfa_start a \<and> sfa_end a' = sfa_end a"
  using assms
proof (induction ps arbitrary: a)
  case Nil
  then show ?case by simp
next
  case (Cons p ps)
  let ?b = "a\<lparr>sfa_recycled := sfa_recycled a @ [p]\<rparr>"
  from Cons.prems sfa_recycle_used [of a p]
  have b: "sfa_recycle p a = Inr ?b" "sfa_ok ?b" "sfa_used ?b = sfa_used a - {p}" by auto
  with Cons.prems have "set ps \<subseteq> sfa_used ?b" "distinct ps" by auto
  from Cons.IH [OF b(2) this(2,1)] b(1,3) show ?case by auto
qed

section \<open>Reference counts\<close>

lemma frc_slot_in:
  "frc_start r \<le> p \<Longrightarrow> p < frc_start r + length (frc_counts r) \<Longrightarrow>
    frc_slot r p = Some (p - frc_start r)"
  by (auto simp: frc_slot_def)

lemma frc_slot_Some:
  "frc_slot r p = Some i \<longleftrightarrow> i < length (frc_counts r) \<and> p = frc_start r + i"
  by (auto simp: frc_slot_def)

lemma frame_count_set:
  assumes "frc_slot (frame_refs s) p = Some i"
  shows "frame_count (s\<lparr>frame_refs := (frame_refs s)\<lparr>frc_counts := (frc_counts (frame_refs s))[i := n]\<rparr>\<rparr>)
    = (frame_count s)(p := n)"
proof
  fix q
  show "frame_count (s\<lparr>frame_refs := (frame_refs s)\<lparr>frc_counts := (frc_counts (frame_refs s))[i := n]\<rparr>\<rparr>) q
    = ((frame_count s)(p := n)) q"
    using assms
    by (auto simp: frame_count_def frame_ref_count_def frc_ref_count_def frc_slot_def
        nth_list_update split: if_splits)
qed

lemma frame_count_slot:
  "frame_count s p = (case frc_slot (frame_refs s) p of None \<Rightarrow> 0 | Some i \<Rightarrow> frc_counts (frame_refs s) ! i)"
  by (auto simp: frame_count_def frame_ref_count_def frc_ref_count_def split: option.splits)

lemma frame_count_frame_refs: "frame_refs s' = frame_refs s \<Longrightarrow> frame_count s' = frame_count s"
  by (auto simp: fun_eq_iff frame_count_slot split: option.splits)

section \<open>Caches\<close>

lemma cached_pages_update:
  assumes "caches_ok cs" and "c < length cs"
  shows "cached_pages (cs[c := xs]) = cached_pages cs - set (cs ! c) \<union> set xs"
proof (rule set_eqI)
  fix p
  show "p \<in> cached_pages (cs[c := xs]) \<longleftrightarrow> p \<in> cached_pages cs - set (cs ! c) \<union> set xs"
    using assms unfolding cached_pages_def caches_ok_def
    by (auto simp: nth_list_update split: if_splits)
qed

lemma caches_ok_update:
  assumes "caches_ok cs" and "c < length cs" and "distinct xs"
    and "set xs \<inter> (cached_pages cs - set (cs ! c)) = {}"
  shows "caches_ok (cs[c := xs])"
proof -
  have other: "set (cs ! d) \<inter> set xs = {}" if "d < length cs" "d \<noteq> c" for d
    using assms that unfolding cached_pages_def caches_ok_def by blast
  with assms show ?thesis by (auto simp: caches_ok_def nth_list_update)
qed

lemma cached_pages_nth: "c < length cs \<Longrightarrow> set (cs ! c) \<subseteq> cached_pages cs"
  by (auto simp: cached_pages_def)

section \<open>Allocation and release keep the ownership invariant\<close>

lemma frame_inv_count: "frame_inv s \<Longrightarrow> 0 < frame_count s p \<longleftrightarrow> p \<in> held_pages s"
  by (simp add: frame_inv_def)

lemma frame_inv_count_zero: "frame_inv s \<Longrightarrow> p \<notin> held_pages s \<Longrightarrow> frame_count s p = 0"
  using frame_inv_count by fastforce

lemma frame_inv_metadata:
  assumes "frame_inv s \<or> frame_inv_but p s" and "q \<in> sfa_used (frame_alloc_st s)"
  shows "\<exists>i. frc_slot (frame_refs s) q = Some i"
proof -
  let ?a = "frame_alloc_st s" and ?r = "frame_refs s"
  from assms(1) have ok: "sfa_ok ?a" and st: "frc_start ?r = sfa_start ?a"
    and len: "length (frc_counts ?r) = sfa_end ?a - sfa_start ?a"
    by (auto simp: frame_inv_def frame_inv_but_def)
  from sfa_used_bound [OF ok assms(2)] st len show ?thesis
    by (simp add: frc_slot_in)
qed

text \<open>Claiming the page in transit completes an allocation.\<close>

lemma claim_page_ok:
  assumes "frame_inv_but p s"
  shows "\<exists>s'. claim_page p s = Inr (Some p, s') \<and> frame_inv s' \<and>
    held_pages s' = held_pages s \<and> frame_count s' = (frame_count s)(p := 1)"
proof -
  from assms have held: "p \<in> held_pages s"
    and cnt: "\<And>q. 0 < frame_count s q \<longleftrightarrow> q \<in> held_pages s - {p}"
    by (auto simp: frame_inv_but_def)
  then obtain i where i: "frc_slot (frame_refs s) p = Some i"
    using frame_inv_metadata assms by (force simp: held_pages_def)
  have "frame_count s p = 0" using cnt [of p] by simp
  with i have zero: "frc_counts (frame_refs s) ! i = 0" by (simp add: frame_count_slot)
  define s' where "s' = s\<lparr>frame_refs := (frame_refs s)\<lparr>frc_counts := (frc_counts (frame_refs s))[i := 1]\<rparr>\<rparr>"
  have claim: "claim_page p s = Inr (Some p, s')"
    by (simp add: claim_page_def frc_claim_free_def i zero s'_def)
  have count': "frame_count s' = (frame_count s)(p := 1)"
    unfolding s'_def by (rule frame_count_set [OF i])
  have held': "held_pages s' = held_pages s" by (simp add: s'_def held_pages_def)
  from assms cnt held have "frame_inv s'"
    unfolding frame_inv_def count' held'
    by (auto simp: s'_def frame_inv_but_def)
  with claim count' held' show ?thesis by blast
qed

text \<open>Taking a page out of a free structure puts it in transit.\<close>

lemma frame_inv_but_intro:
  assumes inv: "frame_inv s" and refs: "frame_refs s0 = frame_refs s"
    and "sfa_ok (frame_alloc_st s0)"
    and "sfa_start (frame_alloc_st s0) = sfa_start (frame_alloc_st s) \<and>
         sfa_end (frame_alloc_st s0) = sfa_end (frame_alloc_st s)"
    and "length (frame_caches s0) = length (frame_caches s)" and "caches_ok (frame_caches s0)"
    and "cached_pages (frame_caches s0) \<subseteq> sfa_used (frame_alloc_st s0)"
    and held: "held_pages s0 = insert p (held_pages s)" and p: "p \<notin> held_pages s"
  shows "frame_inv_but p s0"
proof -
  have "frame_count s0 = frame_count s" by (rule frame_count_frame_refs [OF refs])
  moreover from inv have "0 < frame_count s q \<longleftrightarrow> q \<in> held_pages s" for q
    by (simp add: frame_inv_def)
  ultimately have "0 < frame_count s0 q \<longleftrightarrow> q \<in> held_pages s0 - {p}" for q
    using held p by auto
  with assms show ?thesis by (simp add: frame_inv_but_def frame_inv_def)
qed

lemma take_from_cache:
  assumes "frame_inv s" and "c < MAX_CPUS" and "frame_caches s ! c = rest @ [p]"
  defines "s0 \<equiv> s\<lparr>frame_caches := (frame_caches s)[c := rest]\<rparr>"
  shows "frame_inv_but p s0 \<and> p \<notin> held_pages s \<and> held_pages s0 = insert p (held_pages s)"
proof -
  let ?cs = "frame_caches s"
  from assms(1,2) have c: "c < length ?cs" and ok: "caches_ok ?cs"
    and sub: "cached_pages ?cs \<subseteq> sfa_used (frame_alloc_st s)"
    by (auto simp: frame_inv_def)
  from ok c have "distinct (?cs ! c)" by (simp add: caches_ok_def)
  with assms(3) have rest: "distinct rest" "p \<notin> set rest" by auto
  from cached_pages_update [OF ok c, of rest] assms(3)
  have cp: "cached_pages (?cs[c := rest]) = cached_pages ?cs - {p} - set rest \<union> set rest" by auto
  have p: "p \<in> cached_pages ?cs" "set rest \<subseteq> cached_pages ?cs"
    using cached_pages_nth [OF c] assms(3) by auto
  with cp rest have cp': "cached_pages (?cs[c := rest]) = cached_pages ?cs - {p}" by auto
  have ok': "caches_ok (?cs[c := rest])"
    using assms(3) by (intro caches_ok_update [OF ok c]) (auto simp: rest)
  have held0: "held_pages s0 = insert p (held_pages s)"
    using cp' p sub by (auto simp: s0_def held_pages_def)
  have nh: "p \<notin> held_pages s" using p by (simp add: held_pages_def)
  have "frame_inv_but p s0"
    using ok' cp' sub assms(1)
    by (intro frame_inv_but_intro [OF assms(1) _ _ _ _ _ _ held0 nh])
      (auto simp: s0_def frame_inv_def)
  with held0 nh show ?thesis by blast
qed

lemma take_from_global:
  assumes "frame_inv s" and "sfa_alloc (frame_alloc_st s) = (Some p, a)"
  defines "s0 \<equiv> s\<lparr>frame_alloc_st := a\<rparr>"
  shows "frame_inv_but p s0 \<and> p \<notin> held_pages s \<and> held_pages s0 = insert p (held_pages s)"
proof -
  from assms(1) have ok: "sfa_ok (frame_alloc_st s)"
    and sub: "cached_pages (frame_caches s) \<subseteq> sfa_used (frame_alloc_st s)"
    by (auto simp: frame_inv_def)
  from sfa.alloc_Some [OF ok assms(2)] have a: "sfa_ok a" "p \<notin> sfa_used (frame_alloc_st s)"
    "sfa_used a = insert p (sfa_used (frame_alloc_st s))" by auto
  have held0: "held_pages s0 = insert p (held_pages s)" and nh: "p \<notin> held_pages s"
    using a sub by (auto simp: s0_def held_pages_def)
  have "frame_inv_but p s0"
    using a sub assms(1) sfa_alloc_shape [OF assms(2)]
    by (intro frame_inv_but_intro [OF assms(1) _ _ _ _ _ _ held0 nh])
      (auto simp: s0_def frame_inv_def)
  with held0 nh show ?thesis by blast
qed

lemma refill_from_global:
  assumes "frame_inv s" and "c < MAX_CPUS" and "frame_caches s ! c = []"
    and "alloc_batch sfa_alloc n (frame_alloc_st s) = (rest @ [p], a)"
  defines "s0 \<equiv> s\<lparr>frame_alloc_st := a, frame_caches := (frame_caches s)[c := frame_caches s ! c @ rest]\<rparr>"
  shows "frame_inv_but p s0 \<and> p \<notin> held_pages s \<and> held_pages s0 = insert p (held_pages s)"
proof -
  let ?cs = "frame_caches s" and ?u = "sfa_used (frame_alloc_st s)"
  from assms(1,2) have c: "c < length ?cs" and cok: "caches_ok ?cs"
    and ok: "sfa_ok (frame_alloc_st s)" and sub: "cached_pages ?cs \<subseteq> ?u"
    by (auto simp: frame_inv_def)
  from sfa.alloc_batch_sound [OF ok assms(4)] have a: "sfa_ok a" "distinct (rest @ [p])"
    "set (rest @ [p]) \<inter> ?u = {}" "sfa_used a = ?u \<union> set (rest @ [p])" by auto
  have cp: "cached_pages (?cs[c := rest]) = cached_pages ?cs \<union> set rest"
    by (simp add: cached_pages_update [OF cok c] assms(3))
  have cok': "caches_ok (?cs[c := rest])"
    using a sub by (intro caches_ok_update [OF cok c]) auto
  have held0: "held_pages s0 = insert p (held_pages s)" and nh: "p \<notin> held_pages s"
    using a cp sub by (auto simp: s0_def held_pages_def assms(3))
  have "frame_inv_but p s0"
    using a cp cok' sub assms(3) sfa_batch_shape [OF assms(4)]
    by (intro frame_inv_but_intro [OF assms(1) _ _ _ _ _ _ held0 nh]) (auto simp: s0_def)
  with held0 nh show ?thesis by blast
qed

lemma alloc_batch_empty:
  "0 < n \<Longrightarrow> alloc_batch alloc n s = ([], s') \<Longrightarrow> alloc s = (None, s')"
  by (cases n) (auto split: prod.splits option.splits)

lemma claim_after_take:
  assumes "frame_inv_but p s0 \<and> p \<notin> held_pages s \<and> held_pages s0 = insert p (held_pages s)"
    and "frame_inv s" and "frame_refs s0 = frame_refs s"
  shows "\<exists>s'. claim_page p s0 = Inr (Some p, s') \<and> frame_inv s' \<and> p \<notin> held_pages s \<and>
    frame_count s p = 0 \<and> held_pages s' = insert p (held_pages s) \<and>
    frame_count s' = (frame_count s)(p := 1)"
proof -
  from assms(1) claim_page_ok obtain s' where s': "claim_page p s0 = Inr (Some p, s')"
    "frame_inv s'" "held_pages s' = held_pages s0" "frame_count s' = (frame_count s0)(p := 1)"
    by blast
  have "frame_count s0 = frame_count s" by (rule frame_count_frame_refs [OF assms(3)])
  moreover from assms(1,2) have "frame_count s p = 0" by (simp add: frame_inv_count_zero)
  ultimately show ?thesis using s' assms(1) by auto
qed

lemma release_last:
  assumes "frame_inv s" and "p \<in> held_pages s"
  shows "\<exists>r. frc_release p (frame_refs s) = Inr (frame_count s p = 1, r) \<and>
    frame_count (s\<lparr>frame_refs := r\<rparr>) = (frame_count s)(p := frame_count s p - 1) \<and>
    frc_start r = frc_start (frame_refs s) \<and>
    length (frc_counts r) = length (frc_counts (frame_refs s))"
proof -
  from assms obtain i where i: "frc_slot (frame_refs s) p = Some i"
    using frame_inv_metadata by (force simp: held_pages_def)
  from assms have pos: "0 < frame_count s p" by (simp add: frame_inv_def)
  have cnt: "frc_counts (frame_refs s) ! i = frame_count s p"
    by (simp add: frame_count_slot i)
  with pos show ?thesis
    using frame_count_set [OF i, of "frame_count s p - 1"]
    by (simp add: frc_release_def i Let_def)
qed

lemma put_in_cache:
  assumes "frame_inv_but p s" and "c < MAX_CPUS"
  defines "s' \<equiv> s\<lparr>frame_caches := (frame_caches s)[c := frame_caches s ! c @ [p]]\<rparr>"
  shows "frame_inv s' \<and> held_pages s' = held_pages s - {p}"
proof -
  let ?cs = "frame_caches s"
  from assms(1,2) have c: "c < length ?cs" and ok: "caches_ok ?cs"
    and sub: "cached_pages ?cs \<subseteq> sfa_used (frame_alloc_st s)"
    and p: "p \<in> held_pages s"
    and cnt: "\<And>q. 0 < frame_count s q \<longleftrightarrow> q \<in> held_pages s - {p}"
    by (simp_all add: frame_inv_but_def)
  from p have pn: "p \<in> sfa_used (frame_alloc_st s)" "p \<notin> cached_pages ?cs"
    by (simp_all add: held_pages_def)
  have old: "set (?cs ! c) \<subseteq> cached_pages ?cs" by (rule cached_pages_nth [OF c])
  from ok c have "distinct (?cs ! c)" by (simp add: caches_ok_def)
  with old pn have "caches_ok (?cs[c := ?cs ! c @ [p]])"
    by (intro caches_ok_update [OF ok c]) auto
  moreover have cp: "cached_pages (?cs[c := ?cs ! c @ [p]]) = insert p (cached_pages ?cs)"
    using old by (auto simp: cached_pages_update [OF ok c])
  ultimately have "frame_inv_but p s \<Longrightarrow> frame_inv s'" and "held_pages s' = held_pages s - {p}"
    using sub pn cnt frame_count_frame_refs [of s' s]
    by (simp_all add: s'_def frame_inv_def frame_inv_but_def held_pages_def) auto
  with assms(1) show ?thesis by blast
qed

lemma drain_cache:
  assumes inv: "frame_inv s" and "c < MAX_CPUS" and split: "frame_caches s ! c = xs @ ys"
  shows "\<exists>a. sfa_recycle_all ys (frame_alloc_st s) = Inr a \<and>
    frame_inv (s\<lparr>frame_alloc_st := a, frame_caches := (frame_caches s)[c := xs]\<rparr>) \<and>
    held_pages (s\<lparr>frame_alloc_st := a, frame_caches := (frame_caches s)[c := xs]\<rparr>) = held_pages s"
proof -
  let ?cs = "frame_caches s" and ?u = "sfa_used (frame_alloc_st s)"
  from assms have c: "c < length ?cs" and ok: "caches_ok ?cs" and aok: "sfa_ok (frame_alloc_st s)"
    and sub: "cached_pages ?cs \<subseteq> ?u" and cnt: "\<And>q. 0 < frame_count s q \<longleftrightarrow> q \<in> held_pages s"
    by (simp_all add: frame_inv_def)
  from ok c split have d: "distinct (xs @ ys)" unfolding caches_ok_def by metis
  have old: "set (xs @ ys) \<subseteq> cached_pages ?cs" using cached_pages_nth [OF c] split by simp
  from sfa_recycle_all_used [OF aok, of ys] d old sub obtain a where
    a: "sfa_recycle_all ys (frame_alloc_st s) = Inr a" "sfa_ok a" "sfa_used a = ?u - set ys"
       "sfa_start a = sfa_start (frame_alloc_st s)" "sfa_end a = sfa_end (frame_alloc_st s)" by auto
  have cp: "cached_pages (?cs[c := xs]) = cached_pages ?cs - set ys"
    using d old by (auto simp: cached_pages_update [OF ok c] split)
  have ok': "caches_ok (?cs[c := xs])"
    using d by (intro caches_ok_update [OF ok c]) (auto simp: split)
  let ?s = "s\<lparr>frame_alloc_st := a, frame_caches := ?cs[c := xs]\<rparr>"
  have held: "held_pages ?s = held_pages s"
    using a(3) cp old sub by (auto simp: held_pages_def)
  have "frame_count ?s = frame_count s" by (rule frame_count_frame_refs) simp
  with cnt held have "0 < frame_count ?s q \<longleftrightarrow> q \<in> held_pages ?s" for q by simp
  moreover have "cached_pages (?cs[c := xs]) \<subseteq> sfa_used a" using a(3) cp sub by auto
  ultimately have "frame_inv ?s"
    using inv a ok' by (simp add: frame_inv_def)
  with a(1) held show ?thesis by blast
qed

lemma put_in_global:
  assumes inv: "frame_inv_but p s"
  shows "\<exists>a. sfa_recycle p (frame_alloc_st s) = Inr a \<and> frame_inv (s\<lparr>frame_alloc_st := a\<rparr>) \<and>
    held_pages (s\<lparr>frame_alloc_st := a\<rparr>) = held_pages s - {p}"
proof -
  let ?a = "(frame_alloc_st s)\<lparr>sfa_recycled := sfa_recycled (frame_alloc_st s) @ [p]\<rparr>"
  let ?s = "s\<lparr>frame_alloc_st := ?a\<rparr>"
  from inv have ok: "sfa_ok (frame_alloc_st s)" and p: "p \<in> held_pages s"
    and sub: "cached_pages (frame_caches s) \<subseteq> sfa_used (frame_alloc_st s)"
    and cnt: "\<And>q. 0 < frame_count s q \<longleftrightarrow> q \<in> held_pages s - {p}"
    by (simp_all add: frame_inv_but_def)
  from p have pn: "p \<in> sfa_used (frame_alloc_st s)" "p \<notin> cached_pages (frame_caches s)"
    by (simp_all add: held_pages_def)
  from sfa_recycle_used [OF ok pn(1)] have rec: "sfa_recycle p (frame_alloc_st s) = Inr ?a"
    "sfa_ok ?a" "sfa_used ?a = sfa_used (frame_alloc_st s) - {p}" by blast+
  have held: "held_pages ?s = held_pages s - {p}" using rec(3) by (auto simp: held_pages_def)
  have "frame_count ?s = frame_count s" by (rule frame_count_frame_refs) simp
  with cnt held have "0 < frame_count ?s q \<longleftrightarrow> q \<in> held_pages ?s" for q by simp
  moreover have "cached_pages (frame_caches s) \<subseteq> sfa_used ?a" using rec(3) sub pn by auto
  ultimately have "frame_inv ?s" using inv rec by (simp add: frame_inv_def frame_inv_but_def)
  with rec(1) held show ?thesis by blast
qed

lemma release_not_last:
  assumes inv: "frame_inv s" and "frame_count (s\<lparr>frame_refs := r\<rparr>) = (frame_count s)(p := n)" and "0 < n"
    and "frc_start r = frc_start (frame_refs s)"
    and "length (frc_counts r) = length (frc_counts (frame_refs s))" and p: "p \<in> held_pages s"
  shows "frame_inv (s\<lparr>frame_refs := r\<rparr>) \<and> held_pages (s\<lparr>frame_refs := r\<rparr>) = held_pages s"
proof -
  have held: "held_pages (s\<lparr>frame_refs := r\<rparr>) = held_pages s" by (simp add: held_pages_def)
  have "0 < frame_count (s\<lparr>frame_refs := r\<rparr>) q \<longleftrightarrow> q \<in> held_pages (s\<lparr>frame_refs := r\<rparr>)" for q
    using frame_inv_count [OF inv, of q] assms(2,3) p held by simp
  with assms held show ?thesis by (simp add: frame_inv_def)
qed

lemma release_last_in_transit:
  assumes inv: "frame_inv s" and "frame_count (s\<lparr>frame_refs := r\<rparr>) = (frame_count s)(p := 0)"
    and "frc_start r = frc_start (frame_refs s)"
    and "length (frc_counts r) = length (frc_counts (frame_refs s))" and p: "p \<in> held_pages s"
  shows "frame_inv_but p (s\<lparr>frame_refs := r\<rparr>) \<and> held_pages (s\<lparr>frame_refs := r\<rparr>) = held_pages s"
proof -
  have held: "held_pages (s\<lparr>frame_refs := r\<rparr>) = held_pages s" by (simp add: held_pages_def)
  have "0 < frame_count (s\<lparr>frame_refs := r\<rparr>) q \<longleftrightarrow> q \<in> held_pages (s\<lparr>frame_refs := r\<rparr>) - {p}" for q
    using frame_inv_count [OF inv, of q] assms(2) held by simp
  with assms held show ?thesis by (simp add: frame_inv_def frame_inv_but_def)
qed

lemma release_to_cache:
  assumes but: "frame_inv_but p s" and c: "c < MAX_CPUS"
  defines "pages \<equiv> frame_caches s ! c @ [p]"
  shows "\<exists>a. sfa_recycle_all (drop keep pages) (frame_alloc_st s) = Inr a \<and>
    frame_inv (s\<lparr>frame_alloc_st := a, frame_caches := (frame_caches s)[c := take keep pages]\<rparr>) \<and>
    held_pages (s\<lparr>frame_alloc_st := a, frame_caches := (frame_caches s)[c := take keep pages]\<rparr>)
      = held_pages s - {p}"
proof -
  let ?s2 = "s\<lparr>frame_caches := (frame_caches s)[c := pages]\<rparr>"
  from put_in_cache [OF but c] have s2: "frame_inv ?s2" "held_pages ?s2 = held_pages s - {p}"
    by (simp_all add: pages_def)
  from but c have "c < length (frame_caches s)" by (simp add: frame_inv_but_def)
  then have "frame_caches ?s2 ! c = take keep pages @ drop keep pages" by simp
  from drain_cache [OF s2(1) c this] s2(2) show ?thesis by simp
qed

text \<open>A run of never used pages, taken from the bump range.\<close>

lemma sfa_alloc_more_run:
  assumes ok: "sfa_ok a" and al: "sfa_alloc_more n a = (Some ps, a')"
  shows "0 < n \<and> sfa_current a + n \<le> sfa_end a \<and> a' = a\<lparr>sfa_current := sfa_current a + n\<rparr> \<and>
    rev ps = [sfa_current a..<sfa_current a + n]"
proof -
  let ?e = "sfa_current a + n"
  from al have n: "0 < n" and e: "?e \<le> sfa_end a" and a': "a' = a\<lparr>sfa_current := ?e\<rparr>"
    and ps: "ps = map (\<lambda>d. canonicalize_phys_page_num (?e - d)) [1..<n + 1]"
    by (auto simp: sfa_alloc_more_def checked_add_def split: if_splits)
  have "canonicalize_phys_page_num (?e - d) = ?e - d" if "d \<in> set [1..<n + 1]" for d
    using that ok e by (auto simp: sfa_ok_def intro!: canonical_ppn)
  then have "ps = map (\<lambda>d. ?e - d) [1..<n + 1]" unfolding ps by (intro map_cong) auto
  also have "\<dots> = rev [sfa_current a..<?e]" by (rule nth_equalityI) (auto simp: rev_nth simp del: upt_Suc)
  finally show ?thesis using n e a' by simp
qed

lemma sfa_alloc_more_None:
  assumes ok: "sfa_ok a"
  shows "fst (sfa_alloc_more n a) = None \<longleftrightarrow> n = 0 \<or> sfa_end a < sfa_current a + n"
    and "sfa_alloc_more n a = (None, a') \<Longrightarrow> a' = a"
  using ok by (auto simp: sfa_alloc_more_def checked_add_def sfa_ok_def usize_max_def split: if_splits)

lemma claim_all_ok:
  assumes "distinct ps" and "\<forall>p \<in> set ps. frame_count s p = 0 \<and> (\<exists>i. frc_slot (frame_refs s) p = Some i)"
  shows "\<exists>r. claim_all ps (frame_refs s) = Inr r \<and> frc_start r = frc_start (frame_refs s) \<and>
    length (frc_counts r) = length (frc_counts (frame_refs s)) \<and>
    frame_count (s\<lparr>frame_refs := r\<rparr>) = (\<lambda>q. if q \<in> set ps then 1 else frame_count s q)"
  using assms
proof (induction ps arbitrary: s)
  case Nil
  then show ?case by auto
next
  case (Cons p ps)
  then obtain i where i: "frc_slot (frame_refs s) p = Some i" by auto
  let ?r = "(frame_refs s)\<lparr>frc_counts := (frc_counts (frame_refs s))[i := 1]\<rparr>"
  let ?s = "s\<lparr>frame_refs := ?r\<rparr>"
  from Cons.prems i have claim: "frc_claim_free p (frame_refs s) = Inr ?r"
    by (simp add: frc_claim_free_def frame_count_slot)
  have cnt: "frame_count ?s = (frame_count s)(p := 1)" by (rule frame_count_set [OF i])
  have slot: "frc_slot (frame_refs ?s) q = frc_slot (frame_refs s) q" for q
    by (simp add: frc_slot_def)
  have "\<forall>q \<in> set ps. frame_count ?s q = 0 \<and> (\<exists>i. frc_slot (frame_refs ?s) q = Some i)"
    unfolding cnt slot using Cons.prems by auto
  with Cons.prems Cons.IH [of ?s] obtain r where r: "claim_all ps ?r = Inr r"
    "frc_start r = frc_start ?r" "length (frc_counts r) = length (frc_counts ?r)"
    "frame_count (?s\<lparr>frame_refs := r\<rparr>) = (\<lambda>q. if q \<in> set ps then 1 else frame_count ?s q)"
    by auto
  have "frame_count (s\<lparr>frame_refs := r\<rparr>) = (\<lambda>q. if q \<in> set (p # ps) then 1 else frame_count s q)"
    using r(4) unfolding cnt by (auto simp: fun_eq_iff)
  with claim r show ?case by simp
qed

lemma claim_run:
  assumes inv: "frame_inv s" and "distinct ps"
    and ps: "set ps = {sfa_current (frame_alloc_st s)..<sfa_current (frame_alloc_st s) + n}"
    and e: "sfa_current (frame_alloc_st s) + n \<le> sfa_end (frame_alloc_st s)"
  defines "a \<equiv> (frame_alloc_st s)\<lparr>sfa_current := sfa_current (frame_alloc_st s) + n\<rparr>"
  shows "\<exists>r. claim_all ps (frame_refs s) = Inr r \<and>
    frame_inv (s\<lparr>frame_alloc_st := a, frame_refs := r\<rparr>) \<and>
    held_pages (s\<lparr>frame_alloc_st := a, frame_refs := r\<rparr>) = held_pages s \<union> set ps \<and>
    set ps \<inter> held_pages s = {} \<and>
    frame_count (s\<lparr>frame_alloc_st := a, frame_refs := r\<rparr>) =
      (\<lambda>q. if q \<in> set ps then 1 else frame_count s q)"
proof -
  from inv have ok: "sfa_ok (frame_alloc_st s)"
    and sub: "cached_pages (frame_caches s) \<subseteq> sfa_used (frame_alloc_st s)"
    by (simp_all add: frame_inv_def)
  have aok: "sfa_ok a" using ok e by (auto simp: sfa_ok_def a_def)
  have used: "sfa_used a = sfa_used (frame_alloc_st s) \<union> set ps"
    and new: "set ps \<inter> sfa_used (frame_alloc_st s) = {}"
    using ok ps by (auto simp: sfa_used_def sfa_ok_def a_def)
  then have disj: "set ps \<inter> held_pages s = {}" by (auto simp: held_pages_def)
  have "frame_count s p = 0 \<and> (\<exists>i. frc_slot (frame_refs s) p = Some i)" if "p \<in> set ps" for p
    using that disj frame_inv_count_zero [OF inv, of p] ps e ok inv
    by (auto simp: frame_inv_def sfa_ok_def frc_slot_in)
  with claim_all_ok [OF \<open>distinct ps\<close>, of s] obtain r where
    r: "claim_all ps (frame_refs s) = Inr r" "frc_start r = frc_start (frame_refs s)"
       "length (frc_counts r) = length (frc_counts (frame_refs s))"
       "frame_count (s\<lparr>frame_refs := r\<rparr>) = (\<lambda>q. if q \<in> set ps then 1 else frame_count s q)"
    by blast
  let ?s = "s\<lparr>frame_alloc_st := a, frame_refs := r\<rparr>"
  have cnt: "frame_count ?s = frame_count (s\<lparr>frame_refs := r\<rparr>)" by (rule frame_count_frame_refs) simp
  have held: "held_pages ?s = held_pages s \<union> set ps"
    using used new sub by (auto simp: held_pages_def)
  have "0 < frame_count ?s q \<longleftrightarrow> q \<in> held_pages ?s" for q
    using frame_inv_count [OF inv, of q] unfolding cnt r(4) held by simp
  then have "frame_inv ?s"
    using inv aok r used sub by (auto simp: frame_inv_def a_def)
  with r(1,4) held disj cnt show ?thesis by simp
qed

lemma card_cached_pages:
  assumes "caches_ok cs"
  shows "card (cached_pages cs) = sum_list (map length cs)"
proof -
  have "card (\<Union>c < length cs. set (cs ! c)) = (\<Sum>c < length cs. card (set (cs ! c)))"
    using assms by (intro card_UN_disjoint) (auto simp: caches_ok_def)
  also have "\<dots> = (\<Sum>c < length cs. length (cs ! c))"
    using assms by (intro sum.cong) (auto simp: caches_ok_def distinct_card)
  also have "\<dots> = sum_list (map length cs)"
    by (simp add: sum_list_sum_nth atLeast0LessThan)
  finally show ?thesis by (simp add: cached_pages_def)
qed

lemma finite_cached_pages [simp]: "finite (cached_pages cs)"
  by (simp add: cached_pages_def)

lemma card_free_pages:
  assumes "frame_inv s"
  shows "card {p \<in> {sfa_start (frame_alloc_st s)..<sfa_end (frame_alloc_st s)}. frame_count s p = 0} =
    (sfa_end (frame_alloc_st s) - sfa_current (frame_alloc_st s)) +
    length (sfa_recycled (frame_alloc_st s)) + sum_list (map length (frame_caches s))"
proof -
  let ?a = "frame_alloc_st s" and ?c = "cached_pages (frame_caches s)"
  from assms have ok: "sfa_ok ?a" and sub: "?c \<subseteq> sfa_used ?a" and cok: "caches_ok (frame_caches s)"
    by (simp_all add: frame_inv_def)
  have "frame_count s p = 0 \<longleftrightarrow> p \<notin> held_pages s" for p
    using frame_inv_count [OF assms, of p] by (metis neq0_conv)
  then have "{p \<in> {sfa_start ?a..<sfa_end ?a}. frame_count s p = 0} =
      {sfa_current ?a..<sfa_end ?a} \<union> (set (sfa_recycled ?a) \<union> ?c)"
    using ok sub by (auto simp: held_pages_def sfa_used_def sfa_ok_def)
  moreover have "card (set (sfa_recycled ?a) \<union> ?c) = length (sfa_recycled ?a) + card ?c"
    using ok sub by (subst card_Un_disjoint) (auto simp: sfa_used_def sfa_ok_def distinct_card)
  moreover have "{sfa_current ?a..<sfa_end ?a} \<inter> (set (sfa_recycled ?a) \<union> ?c) = {}"
    using ok sub by (auto simp: sfa_used_def sfa_ok_def)
  ultimately show ?thesis
    by (simp add: card_Un_disjoint card_cached_pages [OF cok])
qed

lemma retain_held:
  assumes inv: "frame_inv s" and p: "p \<in> held_pages s" and small: "frame_count s p \<noteq> u32_max"
  shows "\<exists>s'. frame_retain p s = Inr (True, s') \<and> frame_inv s' \<and> held_pages s' = held_pages s \<and>
    frame_count s' = (frame_count s)(p := frame_count s p + 1)"
proof -
  from inv p obtain i where i: "frc_slot (frame_refs s) p = Some i"
    using frame_inv_metadata by (force simp: held_pages_def)
  let ?r = "(frame_refs s)\<lparr>frc_counts := (frc_counts (frame_refs s))[i := frame_count s p + 1]\<rparr>"
  from i have "frc_counts (frame_refs s) ! i = frame_count s p" by (simp add: frame_count_slot)
  moreover from p have "0 < frame_count s p" by (simp add: frame_inv_count [OF inv])
  ultimately have "frame_retain p s = Inr (True, s\<lparr>frame_refs := ?r\<rparr>)"
    using i small by (simp add: frame_retain_def frc_retain_def Let_def)
  moreover have cnt: "frame_count (s\<lparr>frame_refs := ?r\<rparr>) = (frame_count s)(p := frame_count s p + 1)"
    by (rule frame_count_set [OF i])
  moreover have "frame_inv (s\<lparr>frame_refs := ?r\<rparr>) \<and> held_pages (s\<lparr>frame_refs := ?r\<rparr>) = held_pages s"
    by (rule release_not_last [OF inv cnt]) (simp_all add: p)
  ultimately show ?thesis by blast
qed

lemma init_frame_inv:
  assumes "phys_addr_ceil (canonicalize_phys_addr ekernel) \<le> phys_addr_floor (canonicalize_phys_addr memory_end)"
  shows "frame_inv (init_frame_allocator ekernel memory_end) \<and>
    held_pages (init_frame_allocator ekernel memory_end) = {}"
proof -
  let ?s = "init_frame_allocator ekernel memory_end"
  have mask: "(2 ^ 56 - 1 :: nat) = mask 56" by (simp add: mask_eq_exp_minus_1)
  have "canonicalize_phys_addr memory_end < 2 ^ 56"
    unfolding canonicalize_phys_addr_def mask take_bit_eq_mask [symmetric] by (rule take_bit_nat_less_exp)
  then have top: "phys_addr_floor (canonicalize_phys_addr memory_end) \<le> 2 ^ 44"
    by (simp add: phys_addr_floor_def PAGE_SIZE_def)
  have cached: "cached_pages (replicate MAX_CPUS []) = {}" by (simp add: cached_pages_def)
  have held: "held_pages ?s = {}"
    by (simp add: held_pages_def sfa_used_def init_frame_allocator_def Let_def sfa_init_def)
  have cnt: "frame_count ?s p = 0" for p
    by (auto simp: frame_count_slot init_frame_allocator_def Let_def frc_new_def frc_slot_Some
        split: option.splits)
  have "frame_inv ?s"
    unfolding frame_inv_def cnt held using assms top
    by (simp add: init_frame_allocator_def Let_def sfa_init_def sfa_new_def frc_new_def sfa_ok_def
        caches_ok_def cached sfa_used_def)
  with held show ?thesis by blast
qed

section \<open>The operations on states with the invariant\<close>

lemma alloc_frame_ok:
  assumes inv: "frame_inv s" and cpu: "valid_cpu cpu"
  shows "\<exists>r s'. alloc_frame_ppn cpu s = Inr (r, s') \<and> frame_inv s' \<and>
    (case r of
       None \<Rightarrow> held_pages s' = held_pages s \<and> frame_count s' = frame_count s \<and>
         sfa_recycled (frame_alloc_st s) = [] \<and>
         sfa_current (frame_alloc_st s) = sfa_end (frame_alloc_st s)
     | Some p \<Rightarrow> p \<notin> held_pages s \<and> frame_count s p = 0 \<and>
         held_pages s' = insert p (held_pages s) \<and> frame_count s' = (frame_count s)(p := 1))"
proof (cases cpu)
  case None
  show ?thesis
  proof (cases "sfa_alloc (frame_alloc_st s)")
    case (Pair r a)
    show ?thesis
    proof (cases r)
      case None
      with Pair have "a = frame_alloc_st s" "sfa_recycled (frame_alloc_st s) = []"
        "sfa_current (frame_alloc_st s) = sfa_end (frame_alloc_st s)"
        by (simp_all add: sfa_alloc_None)
      with None \<open>cpu = None\<close> Pair inv show ?thesis by (simp add: alloc_frame_ppn_def)
    next
      case (Some p)
      with claim_after_take [OF take_from_global [OF inv] inv] Pair \<open>cpu = None\<close>
      show ?thesis by (simp add: alloc_frame_ppn_def) fastforce
    qed
  qed
next
  case (Some c)
  with cpu inv have c: "c < MAX_CPUS" "c < length (frame_caches s)"
    by (simp_all add: valid_cpu_def frame_inv_def)
  show ?thesis
  proof (cases "vec_pop (frame_caches s ! c)")
    case None
    obtain refill a where b: "alloc_batch sfa_alloc FRAME_CACHE_BATCH (frame_alloc_st s) = (refill, a)"
      by fastforce
    show ?thesis
    proof (cases "vec_pop refill")
      case None
      then have "sfa_alloc (frame_alloc_st s) = (None, a)"
        using b by (intro alloc_batch_empty [of FRAME_CACHE_BATCH]) (auto simp: FRAME_CACHE_BATCH_def)
      then show ?thesis
        using b c inv \<open>cpu = Some c\<close> \<open>vec_pop (frame_caches s ! c) = None\<close> None
        by (simp add: alloc_frame_ppn_def sfa_alloc_None)
    next
      case (Some pr)
      obtain p rest where pr: "pr = (p, rest)" by (cases pr)
      with Some have "refill = rest @ [p]" by (simp add: vec_pop_Some)
      with claim_after_take [OF refill_from_global [OF inv c(1)] inv] b pr Some None c \<open>cpu = Some c\<close>
      show ?thesis by (simp add: alloc_frame_ppn_def) fastforce
    qed
  next
    case (Some pr)
    obtain p rest where pr: "pr = (p, rest)" by (cases pr)
    with Some have "frame_caches s ! c = rest @ [p]" by (simp add: vec_pop_Some)
    with claim_after_take [OF take_from_cache [OF inv c(1)] inv] c \<open>cpu = Some c\<close>
    show ?thesis by (simp add: alloc_frame_ppn_def) fastforce
  qed
qed

lemma frame_dealloc_ok:
  assumes inv: "frame_inv s" and cpu: "valid_cpu cpu" and p: "p \<in> held_pages s"
  shows "\<exists>s'. frame_dealloc cpu p s = Inr s' \<and> frame_inv s' \<and>
    frame_count s' = (frame_count s)(p := frame_count s p - 1) \<and>
    held_pages s' = (if frame_count s p = 1 then held_pages s - {p} else held_pages s)"
proof -
  obtain r where r: "frc_release p (frame_refs s) = Inr (frame_count s p = 1, r)"
    "frame_count (s\<lparr>frame_refs := r\<rparr>) = (frame_count s)(p := frame_count s p - 1)"
    "frc_start r = frc_start (frame_refs s)"
    "length (frc_counts r) = length (frc_counts (frame_refs s))"
    using release_last [OF inv p] by blast
  let ?s1 = "s\<lparr>frame_refs := r\<rparr>"
  show ?thesis
  proof (cases "frame_count s p = 1")
    case False
    with frame_inv_count [OF inv, of p] p have "0 < frame_count s p - 1" by simp
    from release_not_last [OF inv r(2) this r(3,4) p] r False show ?thesis
      by (simp add: frame_dealloc_def)
  next
    case True
    with r(2) have zero: "frame_count ?s1 = (frame_count s)(p := 0)" by simp
    from release_last_in_transit [OF inv zero r(3,4) p]
    have but: "frame_inv_but p ?s1" and held: "held_pages ?s1 = held_pages s" by blast+
    show ?thesis
    proof (cases cpu)
      case None
      from put_in_global [OF but] obtain a where
        a: "sfa_recycle p (frame_alloc_st s) = Inr a" "frame_inv (?s1\<lparr>frame_alloc_st := a\<rparr>)"
           "held_pages (?s1\<lparr>frame_alloc_st := a\<rparr>) = held_pages s - {p}"
        using held by auto
      have "frame_count (?s1\<lparr>frame_alloc_st := a\<rparr>) = frame_count ?s1"
        by (rule frame_count_frame_refs) simp
      with None a r True zero show ?thesis by (simp add: frame_dealloc_def)
    next
      case (Some c)
      with cpu inv have c: "c < MAX_CPUS" "c < length (frame_caches s)"
        by (simp_all add: valid_cpu_def frame_inv_def)
      let ?pages = "frame_caches s ! c @ [p]"
      define keep where "keep = (if FRAME_CACHE_CAPACITY < length ?pages
        then length ?pages - FRAME_CACHE_BATCH else length ?pages)"
      let ?s3 = "\<lambda>a. ?s1\<lparr>frame_alloc_st := a, frame_caches := (frame_caches s)[c := take keep ?pages]\<rparr>"
      from release_to_cache [OF but c(1), of keep] held obtain a where
        a: "sfa_recycle_all (drop keep ?pages) (frame_alloc_st s) = Inr a"
           "frame_inv (?s3 a)" "held_pages (?s3 a) = held_pages s - {p}"
        by (simp del: take_append drop_append) blast
      have "frame_dealloc cpu p s = Inr (?s3 a)"
        using r(1) True Some c a(1)
        by (simp add: frame_dealloc_def Let_def keep_def del: take_append drop_append)
      moreover have "frame_count (?s3 a) = frame_count ?s1" by (rule frame_count_frame_refs) simp
      ultimately show ?thesis using a(2,3) zero True by simp
    qed
  qed
qed

lemma frame_dealloc_unheld:
  assumes inv: "frame_inv s" and p: "p \<notin> held_pages s"
  shows "frame_dealloc cpu p s = Inl (NoReferenceCount p) \<or>
    frame_dealloc cpu p s = Inl (OutsideMetadata p)"
  using frame_inv_count_zero [OF inv p]
  by (auto simp: frame_dealloc_def frc_release_def frame_count_slot Let_def split: option.splits)

lemma frame_retain_unheld:
  assumes inv: "frame_inv s" and p: "p \<notin> held_pages s"
  shows "frame_retain p s = Inr (False, s) \<and> frame_ref_count p s = None"
  using frame_inv_count_zero [OF inv p]
  by (auto simp: frame_retain_def frc_retain_def frame_count_slot frame_ref_count_def
      frc_ref_count_def Let_def split: option.splits)

lemma ascending_upt: "ascending_adjacent [i..<j]"
proof (induction "j - i" arbitrary: i)
  case 0
  then show ?case by simp
next
  case (Suc n)
  then have "i < j" "n = j - Suc i" by simp_all
  with Suc.hyps(1) [of "Suc i"] show ?case
    by (cases "Suc i < j") (simp_all add: upt_conv_Cons)
qed

lemma contiguous_ok:
  assumes inv: "frame_inv s"
  shows "\<exists>r s'. frame_alloc_contiguous_uninit n s = Inr (r, s') \<and> frame_inv s' \<and>
    (case r of
       None \<Rightarrow> s' = s \<and> (n = 0 \<or> sfa_end (frame_alloc_st s) < sfa_current (frame_alloc_st s) + n)
     | Some ps \<Rightarrow> (\<exists>base. ps = [base..<base + n]) \<and> set ps \<inter> held_pages s = {} \<and>
         held_pages s' = held_pages s \<union> set ps \<and>
         frame_count s' = (\<lambda>q. if q \<in> set ps then 1 else frame_count s q))"
proof -
  let ?a = "frame_alloc_st s"
  from inv have ok: "sfa_ok ?a" by (simp add: frame_inv_def)
  obtain r a where al: "sfa_alloc_more n ?a = (r, a)" by (cases "sfa_alloc_more n ?a")
  show ?thesis
  proof (cases r)
    case None
    with al sfa_alloc_more_None [OF ok, of n] inv show ?thesis
      by (auto simp: frame_alloc_contiguous_uninit_def)
  next
    case (Some ps)
    with al sfa_alloc_more_run [OF ok] have run: "sfa_current ?a + n \<le> sfa_end ?a"
      "a = ?a\<lparr>sfa_current := sfa_current ?a + n\<rparr>" "rev ps = [sfa_current ?a..<sfa_current ?a + n]"
      by simp_all
    from claim_run [OF inv _ _ run(1), of "rev ps"] run(3)
    obtain rc where "claim_all (rev ps) (frame_refs s) = Inr rc"
      "frame_inv (s\<lparr>frame_alloc_st := a, frame_refs := rc\<rparr>)"
      "held_pages (s\<lparr>frame_alloc_st := a, frame_refs := rc\<rparr>) = held_pages s \<union> set (rev ps)"
      "set (rev ps) \<inter> held_pages s = {}"
      "frame_count (s\<lparr>frame_alloc_st := a, frame_refs := rc\<rparr>) =
        (\<lambda>q. if q \<in> set (rev ps) then 1 else frame_count s q)"
      unfolding run(2) by auto
    with al Some run(3) ascending_upt [of "sfa_current ?a" "sfa_current ?a + n"] show ?thesis
      by (simp add: frame_alloc_contiguous_uninit_def) blast
  qed
qed

lemma alloc_more_ok:
  assumes inv: "frame_inv s" and al: "frame_alloc_more n s = Inr (r, s')"
  shows "frame_inv s'"
proof -
  let ?a = "frame_alloc_st s"
  from inv have ok: "sfa_ok ?a" by (simp add: frame_inv_def)
  obtain q a where m: "sfa_alloc_more n ?a = (q, a)" by (cases "sfa_alloc_more n ?a")
  show ?thesis
  proof (cases q)
    case None
    with m sfa_alloc_more_None(2) [OF ok, of n a] al inv show ?thesis by (auto simp: frame_alloc_more_def)
  next
    case (Some ps)
    with m sfa_alloc_more_run [OF ok] have run: "sfa_current ?a + n \<le> sfa_end ?a"
      "a = ?a\<lparr>sfa_current := sfa_current ?a + n\<rparr>" "rev ps = [sfa_current ?a..<sfa_current ?a + n]"
      by simp_all
    have "distinct ps" "set ps = {sfa_current ?a..<sfa_current ?a + n}"
      using arg_cong [OF run(3), of distinct] arg_cong [OF run(3), of set] by simp_all
    from claim_run [OF inv this run(1)] m Some al run(2) show ?thesis
      by (auto simp: frame_alloc_more_def)
  qed
qed

lemma frame_reachable_inv: "frame_reachable ekernel memory_end s \<Longrightarrow> frame_inv s"
proof (induction rule: frame_reachable.induct)
  case boot
  then show ?case using init_frame_inv by blast
next
  case (alloc s cpu r s')
  then show ?case using alloc_frame_ok [of s cpu] by auto
next
  case (alloc_more s n ps s')
  then show ?case using alloc_more_ok by blast
next
  case (contiguous s n ps s')
  then show ?case using contiguous_ok [of s n] by auto
next
  case (dealloc s cpu p s')
  then show ?case
    using frame_dealloc_ok [of s cpu p] frame_dealloc_unheld [of s p cpu] by (cases "p \<in> held_pages s") auto
next
  case (retain s p b s')
  show ?case
  proof (cases "p \<in> held_pages s \<and> frame_count s p \<noteq> u32_max")
    case True
    with retain retain_held [of s p] show ?thesis by auto
  next
    case False
    with retain frame_retain_unheld [of s p] show ?thesis
      by (auto simp: frame_retain_def frc_retain_def frame_count_slot Let_def
          split: option.splits if_splits)
  qed
qed

section \<open>Properties\<close>

text \<open>
  C1. In every reachable state, allocating a page never panics and never hands out a page that
  is held: the page had reference count zero, gets count one, and no other count changes. The
  call fails only when the global allocator is exhausted, and then changes no count.
\<close>

theorem alloc_frame_sound:
  assumes "frame_reachable ekernel memory_end s" and "valid_cpu cpu"
  shows "\<exists>r s'. alloc_frame_ppn cpu s = Inr (r, s') \<and> frame_reachable ekernel memory_end s' \<and>
    (case r of
       None \<Rightarrow> held_pages s' = held_pages s \<and> frame_count s' = frame_count s \<and>
         sfa_recycled (frame_alloc_st s) = [] \<and>
         sfa_current (frame_alloc_st s) = sfa_end (frame_alloc_st s)
     | Some p \<Rightarrow> p \<notin> held_pages s \<and> frame_count s p = 0 \<and>
         held_pages s' = insert p (held_pages s) \<and> frame_count s' = (frame_count s)(p := 1))"
  using alloc_frame_ok [OF frame_reachable_inv [OF assms(1)] assms(2)]
    frame_reachable.alloc [OF assms] by blast

lemma demo_boot_eq: "demo_boot =
    \<lparr>frame_alloc_st = \<lparr>sfa_start = 1, sfa_current = 1, sfa_end = 5, sfa_recycled = []\<rparr>,
     frame_refs = \<lparr>frc_start = 1, frc_counts = [0, 0, 0, 0]\<rparr>, frame_caches = replicate MAX_CPUS []\<rparr>"
proof -
  have "replicate 4 (0::nat) = [0, 0, 0, 0]" by (simp add: numeral_eq_Suc)
  then show ?thesis
    by (simp add: demo_boot_def init_frame_allocator_def canonicalize_phys_addr_def phys_addr_ceil_def
        phys_addr_floor_def PAGE_SIZE_def sfa_init_def sfa_new_def frc_new_def)
qed

lemma demo_held_eq: "frame_alloc_contiguous_uninit 2 demo_boot = Inr (Some [1, 2], demo_held) \<and>
  demo_held =
    \<lparr>frame_alloc_st = \<lparr>sfa_start = 1, sfa_current = 3, sfa_end = 5, sfa_recycled = []\<rparr>,
     frame_refs = \<lparr>frc_start = 1, frc_counts = [1, 1, 0, 0]\<rparr>, frame_caches = replicate MAX_CPUS []\<rparr>"
  by (simp add: demo_held_def demo_boot_eq frame_alloc_contiguous_uninit_def sfa_alloc_more_def
      checked_add_def usize_max_def canonical_ppn frc_claim_free_def frc_slot_def upt_rec)

lemma demo_reachable: "frame_reachable 4096 20480 demo_boot" "frame_reachable 4096 20480 demo_held"
proof -
  show boot: "frame_reachable 4096 20480 demo_boot"
    unfolding demo_boot_def
    by (rule frame_reachable.boot) (simp add: canonicalize_phys_addr_def phys_addr_ceil_def
        phys_addr_floor_def PAGE_SIZE_def)
  from frame_reachable.contiguous [OF this] demo_held_eq
  show "frame_reachable 4096 20480 demo_held" by blast
qed

lemma demo_held_pages: "held_pages demo_held = {1, 2}" "frame_count demo_held 1 = 1"
  by (auto simp: demo_held_eq held_pages_def sfa_used_def cached_pages_def frame_count_slot frc_slot_def)

theorem alloc_frame_sound_witness:
  "frame_reachable 4096 20480 demo_held \<and> valid_cpu (Some 3) \<and>
   (\<exists>p s'. alloc_frame_ppn (Some 3) demo_held = Inr (Some p, s') \<and> p \<notin> {1, 2} \<and>
      held_pages s' = {p, 1, 2})"
proof -
  have cpu: "valid_cpu (Some 3)" by (simp add: valid_cpu_def MAX_CPUS_def)
  have "sfa_current (frame_alloc_st demo_held) \<noteq> sfa_end (frame_alloc_st demo_held)"
    by (simp add: demo_held_eq)
  with alloc_frame_sound [OF demo_reachable(2) cpu] demo_held_pages(1) demo_reachable(2) cpu
  show ?thesis by (auto split: option.splits)
qed

text \<open>
  C2. In every reachable state, dropping a held page never panics: it takes one reference, keeps
  every other count, and the page becomes free exactly when this was the last reference.
\<close>

theorem frame_dealloc_sound:
  assumes "frame_reachable ekernel memory_end s" and "valid_cpu cpu" and "p \<in> held_pages s"
  shows "\<exists>s'. frame_dealloc cpu p s = Inr s' \<and> frame_reachable ekernel memory_end s' \<and>
    frame_count s' = (frame_count s)(p := frame_count s p - 1) \<and>
    held_pages s' = (if frame_count s p = 1 then held_pages s - {p} else held_pages s)"
  using frame_dealloc_ok [OF frame_reachable_inv [OF assms(1)] assms(2,3)]
    frame_reachable.dealloc [OF assms(1,2)] by blast

theorem frame_dealloc_sound_witness:
  "frame_reachable 4096 20480 demo_held \<and> valid_cpu None \<and> 1 \<in> held_pages demo_held \<and>
   (\<exists>s'. frame_dealloc None 1 demo_held = Inr s' \<and> held_pages s' = {2})"
  using frame_dealloc_sound [OF demo_reachable(2), of None 1] demo_held_pages demo_reachable(2)
  by (auto simp: valid_cpu_def)

text \<open>
  C3. A page that is not held is refused: in every reachable state a second release panics instead
  of putting the page on a free list twice, and a retain reports failure and changes nothing.
\<close>

theorem double_free_refused:
  assumes "frame_reachable ekernel memory_end s" and "p \<notin> held_pages s"
  shows "(frame_dealloc cpu p s = Inl (NoReferenceCount p) \<or>
      frame_dealloc cpu p s = Inl (OutsideMetadata p)) \<and>
    frame_retain p s = Inr (False, s) \<and> frame_ref_count p s = None"
  using frame_dealloc_unheld frame_retain_unheld frame_reachable_inv assms by blast

theorem double_free_refused_witness:
  "frame_reachable 4096 20480 demo_held \<and> 3 \<notin> held_pages demo_held \<and>
   frame_retain 3 demo_held = Inr (False, demo_held)"
  using double_free_refused [OF demo_reachable(2), of 3] demo_held_pages demo_reachable(2) by simp

text \<open>
  C4. A contiguous allocation never panics (the adjacency assertion holds): it returns an ascending
  run of pages none of which was held, and gives each count one; or it returns nothing, changes
  nothing, and the unused range is too short (or no page was asked for).
\<close>

theorem contiguous_alloc_sound:
  assumes "frame_reachable ekernel memory_end s"
  shows "\<exists>r s'. frame_alloc_contiguous_uninit n s = Inr (r, s') \<and>
    frame_reachable ekernel memory_end s' \<and>
    (case r of
       None \<Rightarrow> s' = s \<and> (n = 0 \<or> sfa_end (frame_alloc_st s) < sfa_current (frame_alloc_st s) + n)
     | Some ps \<Rightarrow> (\<exists>base. ps = [base..<base + n]) \<and> set ps \<inter> held_pages s = {} \<and>
         held_pages s' = held_pages s \<union> set ps \<and>
         frame_count s' = (\<lambda>q. if q \<in> set ps then 1 else frame_count s q))"
  using contiguous_ok [OF frame_reachable_inv [OF assms], of n]
    frame_reachable.contiguous [OF assms, of n] by blast

theorem contiguous_alloc_sound_witness:
  "frame_reachable 4096 20480 demo_held \<and>
   (\<exists>base s'. frame_alloc_contiguous_uninit 2 demo_held = Inr (Some [base..<base + 2], s') \<and>
      {base..<base + 2} \<inter> {1, 2} = {})"
proof -
  have "\<not> sfa_end (frame_alloc_st demo_held) < sfa_current (frame_alloc_st demo_held) + 2"
    by (simp add: demo_held_eq)
  with contiguous_alloc_sound [OF demo_reachable(2), of 2] demo_held_pages(1) demo_reachable(2)
  show ?thesis by (fastforce split: option.splits)
qed

text \<open>
  The reported statistics are exact in every reachable state: the total is the size of the
  managed range and the free count is the number of its pages with reference count zero, whether
  they are in the bump range, recycled or in a CPU cache.
\<close>

theorem frame_stats_exact:
  assumes "frame_reachable ekernel memory_end s"
  shows "frame_stats s =
    (sfa_end (frame_alloc_st s) - sfa_start (frame_alloc_st s),
     card {p \<in> {sfa_start (frame_alloc_st s)..<sfa_end (frame_alloc_st s)}. frame_count s p = 0})"
proof -
  let ?a = "frame_alloc_st s"
  have inv: "frame_inv s" by (rule frame_reachable_inv [OF assms])
  then have "sfa_end ?a \<le> 2 ^ 44" by (simp add: frame_inv_def sfa_ok_def)
  moreover have "card {p \<in> {sfa_start ?a..<sfa_end ?a}. frame_count s p = 0} \<le> card {sfa_start ?a..<sfa_end ?a}"
    by (rule card_mono) auto
  ultimately have "sfa_end ?a - sfa_current ?a + length (sfa_recycled ?a) +
      sum_list (map length (frame_caches s)) \<le> usize_max"
    using card_free_pages [OF inv] by (simp add: usize_max_def)
  then show ?thesis
    unfolding card_free_pages [OF inv]
    by (simp add: frame_stats_def sfa_stats_def saturating_add_def)
qed

theorem frame_stats_exact_witness:
  "frame_reachable 4096 20480 demo_held \<and> frame_stats demo_held = (4, 2) \<and>
   card {p \<in> {1..<5}. frame_count demo_held p = 0} = 2"
proof -
  have "frame_stats demo_held = (4, 2)"
    by (simp add: demo_held_eq frame_stats_def sfa_stats_def saturating_add_def usize_max_def
        sum_list_replicate map_replicate)
  with frame_stats_exact [OF demo_reachable(2)] demo_reachable(2) show ?thesis
    by (simp add: demo_held_eq)
qed

text \<open>
  Retaining a held page and then dropping the extra reference, on any CPU, restores the state
  exactly; in between the page has one reference more and is still held.
\<close>

theorem retain_dealloc_roundtrip:
  assumes "frame_reachable ekernel memory_end s" and "p \<in> held_pages s" and "frame_count s p \<noteq> u32_max"
  shows "\<exists>s'. frame_retain p s = Inr (True, s') \<and> held_pages s' = held_pages s \<and>
    frame_count s' p = frame_count s p + 1 \<and> frame_dealloc cpu p s' = Inr s"
proof -
  have inv: "frame_inv s" by (rule frame_reachable_inv [OF assms(1)])
  with assms(2) obtain i where i: "frc_slot (frame_refs s) p = Some i"
    using frame_inv_metadata by (force simp: held_pages_def)
  have pos: "0 < frc_counts (frame_refs s) ! i"
    using frame_inv_count [OF inv, of p] assms(2) i by (simp add: frame_count_slot)
  from retain_held [OF inv assms(2,3)] obtain s' where s': "frame_retain p s = Inr (True, s')"
    "held_pages s' = held_pages s" "frame_count s' = (frame_count s)(p := frame_count s p + 1)"
    by blast
  have "frame_dealloc cpu p s' = Inr s"
    using s'(1) i pos assms(3)
    by (auto simp: frame_retain_def frc_retain_def frame_dealloc_def frc_release_def frc_slot_Some
        frame_count_slot Let_def split: if_splits option.splits)
  with s' show ?thesis by auto
qed

theorem retain_dealloc_roundtrip_witness:
  "frame_reachable 4096 20480 demo_held \<and> 1 \<in> held_pages demo_held \<and>
   (\<exists>s'. frame_retain 1 demo_held = Inr (True, s') \<and> frame_count s' 1 = 2 \<and>
      frame_dealloc (Some 0) 1 s' = Inr demo_held)"
proof -
  have p: "1 \<in> held_pages demo_held" and c: "frame_count demo_held 1 \<noteq> u32_max"
    using demo_held_pages by (simp_all add: u32_max_def)
  from retain_dealloc_roundtrip [OF demo_reachable(2) p c, of "Some 0"] obtain s' where
    "frame_retain 1 demo_held = Inr (True, s')" "frame_count s' 1 = frame_count demo_held 1 + 1"
    "frame_dealloc (Some 0) 1 s' = Inr demo_held" by blast
  moreover from this have "frame_count s' 1 = 2" using demo_held_pages(2) by simp
  ultimately show ?thesis using p demo_reachable(2) by blast
qed

end
