(* ===== verification/Task_Ids.thy ===== *)
theory Task_Ids
  imports Kernel_Prelude
begin

text \<open>
  Task identifiers and kernel stacks (\<open>os/src/task/id.rs\<close>).

  \<open>RecycleAllocator\<close> hands out process ids and process-local task ids; \<open>KernelStackAllocator\<close>
  keeps a pool of mapped stacks over it, so a stack slot is live (owned by a task), available
  (mapped, waiting for reuse) or unmapped. The allocation of a fresh stack maps memory with the
  pool lock released; the outcome of that mapping is the argument \<open>mapped\<close> of \<open>kstack_alloc\<close>.
  The second part is the address layout of kernel stacks, user stacks and trap contexts, in
  64-bit words, for the RISC-V configuration.
\<close>

section \<open>Definitions\<close>

datatype id_panic =
    IdNotAllocated nat
  | IdDeallocated nat
  | SlotCountOverflow
  | LiveCountOverflow
  | NoLiveStack
  | NoMappedSlot
  | AccountingDiverged
  | StackMapFailed nat

record recycle_allocator =
  ra_current :: nat
  ra_recycled :: "nat list"

definition ra_new_from :: "nat \<Rightarrow> recycle_allocator" where
  "ra_new_from cur = \<lparr>ra_current = cur, ra_recycled = []\<rparr>"


definition ra_alloc :: "recycle_allocator \<Rightarrow> nat \<times> recycle_allocator" where
  "ra_alloc a =
     (case vec_pop (ra_recycled a) of
        Some (i, rest) \<Rightarrow> (i, a\<lparr>ra_recycled := rest\<rparr>)
      | None \<Rightarrow> (ra_current a, a\<lparr>ra_current := ra_current a + 1\<rparr>))"

definition ra_dealloc :: "nat \<Rightarrow> recycle_allocator \<Rightarrow> id_panic + recycle_allocator" where
  "ra_dealloc i a =
     (if \<not> i < ra_current a then Inl (IdNotAllocated i)
      else if i \<in> set (ra_recycled a) then Inl (IdDeallocated i)
      else Inr (a\<lparr>ra_recycled := ra_recycled a @ [i]\<rparr>))"

definition PID_ALLOCATOR :: recycle_allocator where
  "PID_ALLOCATOR = ra_new_from 1"

definition IDLE_PID :: nat where
  "IDLE_PID = 0"

definition pid_alloc :: "recycle_allocator \<Rightarrow> nat \<times> recycle_allocator" where
  "pid_alloc a = ra_alloc a"

subsection \<open>The kernel stack pool\<close>

record kernel_stack_allocator =
  ksa_ids :: recycle_allocator
  ksa_available :: "nat list"
  ksa_live :: nat
  ksa_mapped_slots :: nat


definition assert_accounting :: "kernel_stack_allocator \<Rightarrow> bool" where
  "assert_accounting k \<longleftrightarrow> ksa_live k + length (ksa_available k) = ksa_mapped_slots k"

text \<open>The result of an allocation is the slot and whether it was reused.\<close>

definition ksa_alloc ::
  "kernel_stack_allocator \<Rightarrow> id_panic + ((nat \<times> bool) \<times> kernel_stack_allocator)" where
  "ksa_alloc k =
     (case (case vec_pop (ksa_available k) of
              Some (i, rest) \<Rightarrow> Inr ((i, True), k\<lparr>ksa_available := rest\<rparr>)
            | None \<Rightarrow>
                (case checked_add (ksa_mapped_slots k) 1 of
                   None \<Rightarrow> Inl SlotCountOverflow
                 | Some m \<Rightarrow>
                     (case ra_alloc (ksa_ids k) of
                        (i, ids) \<Rightarrow> Inr ((i, False), k\<lparr>ksa_mapped_slots := m, ksa_ids := ids\<rparr>)))) of
        Inl e \<Rightarrow> Inl e
      | Inr (allocation, k1) \<Rightarrow>
          (case checked_add (ksa_live k1) 1 of
             None \<Rightarrow> Inl LiveCountOverflow
           | Some l \<Rightarrow>
               (let k2 = k1\<lparr>ksa_live := l\<rparr>
                in if assert_accounting k2 then Inr (allocation, k2) else Inl AccountingDiverged)))"


text \<open>The debug assertion on the pool is not part of a release build.\<close>

definition ksa_release :: "nat \<Rightarrow> kernel_stack_allocator \<Rightarrow> id_panic + kernel_stack_allocator" where
  "ksa_release i k =
     (if ksa_live k = 0 then Inl NoLiveStack
      else (let k' = k\<lparr>ksa_live := ksa_live k - 1, ksa_available := ksa_available k @ [i]\<rparr>
            in if assert_accounting k' then Inr k' else Inl AccountingDiverged))"


subsection \<open>Address layout\<close>

definition PAGE_BYTES :: usize where
  "PAGE_BYTES = 0x1000"

definition USER_STACK_SIZE :: usize where
  "USER_STACK_SIZE = 4096 * 1024"

definition KERNEL_STACK_SIZE :: usize where
  "KERNEL_STACK_SIZE = 64 * 1024"

definition TRAMPOLINE :: usize where
  "TRAMPOLINE = - 1 - PAGE_BYTES + 1"

definition TRAP_CONTEXT_BASE :: usize where
  "TRAP_CONTEXT_BASE = TRAMPOLINE - PAGE_BYTES"

definition KERNEL_STACK_TOP :: usize where
  "KERNEL_STACK_TOP = 0xffffffffc0000000"

definition kernel_stack_position :: "usize \<Rightarrow> usize \<times> usize" where
  "kernel_stack_position kstack_id =
     (let top = KERNEL_STACK_TOP - kstack_id * (KERNEL_STACK_SIZE + PAGE_BYTES);
          bottom = top - KERNEL_STACK_SIZE
      in (bottom, top))"

definition trap_cx_bottom_from_tid :: "usize \<Rightarrow> usize" where
  "trap_cx_bottom_from_tid tid = TRAP_CONTEXT_BASE - tid * PAGE_BYTES"

definition ustack_bottom_from_tid :: "usize \<Rightarrow> usize \<Rightarrow> usize" where
  "ustack_bottom_from_tid ustack_base tid = ustack_base + tid * (PAGE_BYTES + USER_STACK_SIZE)"

definition ustack_mapped_bottom_from_tid :: "usize \<Rightarrow> usize \<Rightarrow> usize" where
  "ustack_mapped_bottom_from_tid ustack_base tid =
     (let ustack_top = ustack_bottom_from_tid ustack_base tid + USER_STACK_SIZE
      in ustack_top - USER_STACK_SIZE)"

definition ustack_top :: "usize \<Rightarrow> usize \<Rightarrow> usize" where
  "ustack_top ustack_base tid = ustack_bottom_from_tid ustack_base tid + USER_STACK_SIZE"

subsection \<open>Invariants and reachable states\<close>

definition ra_ok :: "recycle_allocator \<Rightarrow> bool" where
  "ra_ok a \<longleftrightarrow> distinct (ra_recycled a) \<and> set (ra_recycled a) \<subseteq> {..<ra_current a}"

definition ra_used :: "recycle_allocator \<Rightarrow> nat set" where
  "ra_used a = {..<ra_current a} - set (ra_recycled a)"

definition live_stacks :: "kernel_stack_allocator \<Rightarrow> nat set" where
  "live_stacks k = ra_used (ksa_ids k) - set (ksa_available k)"

definition ksa_ok :: "kernel_stack_allocator \<Rightarrow> bool" where
  "ksa_ok k \<longleftrightarrow>
     ra_ok (ksa_ids k) \<and> distinct (ksa_available k) \<and>
     set (ksa_available k) \<subseteq> ra_used (ksa_ids k) \<and>
     ksa_live k = card (live_stacks k) \<and> ksa_mapped_slots k = card (ra_used (ksa_ids k))"


section \<open>The recycling allocator\<close>

lemma ra_alloc_fresh:
  assumes "ra_ok a" and "ra_alloc a = (i, a')"
  shows "ra_ok a' \<and> i \<notin> ra_used a \<and> ra_used a' = insert i (ra_used a)"
proof (cases "vec_pop (ra_recycled a)")
  case None
  with assms show ?thesis by (auto simp: ra_alloc_def ra_ok_def ra_used_def)
next
  case (Some p)
  then obtain j rest where rec: "ra_recycled a = rest @ [j]"
    by (cases p) (auto simp: vec_pop_Some)
  with assms(2) have "i = j" "a' = a\<lparr>ra_recycled := rest\<rparr>"
    by (auto simp: ra_alloc_def)
  with rec assms(1) show ?thesis by (auto simp: ra_ok_def ra_used_def)
qed

lemma ra_dealloc_used:
  assumes "ra_ok a" and "i \<in> ra_used a"
  shows "\<exists>a'. ra_dealloc i a = Inr a' \<and> ra_ok a' \<and> ra_used a' = ra_used a - {i}"
  using assms by (auto simp: ra_dealloc_def ra_ok_def ra_used_def)

lemma ra_dealloc_total:
  assumes "ra_ok a" and "i \<in> ra_used a"
  shows "ra_ok (case ra_dealloc i a of Inl _ \<Rightarrow> a | Inr a' \<Rightarrow> a') \<and>
    ra_used (case ra_dealloc i a of Inl _ \<Rightarrow> a | Inr a' \<Rightarrow> a') = ra_used a - {i}"
proof -
  from ra_dealloc_used [OF assms] obtain b where
    "ra_dealloc i a = Inr b" "ra_ok b" "ra_used b = ra_used a - {i}" by blast
  then show ?thesis by simp
qed

lemma ra_used_finite [simp]: "finite (ra_used a)"
  by (simp add: ra_used_def)

interpretation ids: slot_allocator ra_ok ra_used
    "\<lambda>a. case ra_alloc a of (i, a') \<Rightarrow> (Some i, a')"
    "\<lambda>i a. case ra_dealloc i a of Inl _ \<Rightarrow> a | Inr a' \<Rightarrow> a'"
  by unfold_locales (use ra_alloc_fresh ra_dealloc_total in \<open>auto split: prod.splits\<close>)

section \<open>The stack pool\<close>

lemma ksa_accounting:
  assumes "ksa_ok k"
  shows "assert_accounting k"
proof -
  from assms have "card (live_stacks k) = card (ra_used (ksa_ids k)) - card (set (ksa_available k))"
    unfolding live_stacks_def by (intro card_Diff_subset) (simp_all add: ksa_ok_def)
  moreover from assms have "card (set (ksa_available k)) \<le> card (ra_used (ksa_ids k))"
    by (intro card_mono) (simp_all add: ksa_ok_def)
  ultimately show ?thesis
    using assms by (simp add: ksa_ok_def assert_accounting_def distinct_card)
qed

lemma live_stacks_finite [simp]: "finite (live_stacks k)"
  by (simp add: live_stacks_def)

lemma ksa_take_available:
  assumes ok: "ksa_ok k" and av: "ksa_available k = rest @ [i]"
  defines "k' \<equiv> k\<lparr>ksa_available := rest, ksa_live := ksa_live k + 1\<rparr>"
  shows "ksa_ok k' \<and> i \<notin> live_stacks k \<and> live_stacks k' = insert i (live_stacks k)"
proof -
  have live: "live_stacks k' = insert i (live_stacks k)" "i \<notin> live_stacks k"
    using ok av by (auto simp: live_stacks_def k'_def ksa_ok_def)
  then have "card (live_stacks k') = ksa_live k + 1" using ok by (simp add: ksa_ok_def)
  with live ok av show ?thesis by (auto simp: ksa_ok_def k'_def)
qed

lemma ksa_take_fresh:
  assumes ok: "ksa_ok k" and al: "ra_alloc (ksa_ids k) = (i, ids)"
  defines "k' \<equiv> k\<lparr>ksa_mapped_slots := ksa_mapped_slots k + 1, ksa_ids := ids, ksa_live := ksa_live k + 1\<rparr>"
  shows "ksa_ok k' \<and> i \<notin> live_stacks k \<and> live_stacks k' = insert i (live_stacks k)"
proof -
  from ok have "ra_ok (ksa_ids k)" by (simp add: ksa_ok_def)
  from ra_alloc_fresh [OF this al] have ids: "ra_ok ids" "i \<notin> ra_used (ksa_ids k)"
    "ra_used ids = insert i (ra_used (ksa_ids k))" by auto
  then have live: "live_stacks k' = insert i (live_stacks k)" "i \<notin> live_stacks k"
    using ok by (auto simp: live_stacks_def k'_def ksa_ok_def)
  then have "card (live_stacks k') = ksa_live k + 1" using ok by (simp add: ksa_ok_def)
  with live ids ok show ?thesis by (auto simp: ksa_ok_def k'_def)
qed


lemma ksa_alloc_ok:
  assumes ok: "ksa_ok k" and al: "ksa_alloc k = Inr ((i, reused), k')"
  shows "ksa_ok k' \<and> i \<notin> live_stacks k \<and> live_stacks k' = insert i (live_stacks k)"
proof (cases "vec_pop (ksa_available k)")
  case None
  obtain j ids where "ra_alloc (ksa_ids k) = (j, ids)" by fastforce
  from ksa_take_fresh [OF ok this] None al this show ?thesis
    by (auto simp: ksa_alloc_def checked_add_def Let_def split: if_splits)
next
  case (Some p)
  then obtain j rest where "ksa_available k = rest @ [j]" by (cases p) (auto simp: vec_pop_Some)
  from ksa_take_available [OF ok this] al this show ?thesis
    by (auto simp: ksa_alloc_def checked_add_def Let_def split: if_splits)
qed

lemma ksa_release_ok:
  assumes ok: "ksa_ok k" and i: "i \<in> live_stacks k"
  shows "\<exists>k'. ksa_release i k = Inr k' \<and> ksa_ok k' \<and> live_stacks k' = live_stacks k - {i}"
proof -
  let ?k = "k\<lparr>ksa_live := ksa_live k - 1, ksa_available := ksa_available k @ [i]\<rparr>"
  have live: "live_stacks ?k = live_stacks k - {i}" by (auto simp: live_stacks_def)
  from i ok have pos: "ksa_live k \<noteq> 0" by (auto simp: ksa_ok_def)
  from live i ok have "card (live_stacks ?k) = ksa_live k - 1" by (simp add: ksa_ok_def)
  with ok i have "ksa_ok ?k" by (auto simp: ksa_ok_def live_stacks_def)
  with ksa_accounting [OF this] pos live show ?thesis by (simp add: ksa_release_def)
qed


lemma ksa_release_total:
  assumes "ksa_ok k" and "i \<in> live_stacks k"
  shows "ksa_ok (case ksa_release i k of Inl _ \<Rightarrow> k | Inr k' \<Rightarrow> k') \<and>
    live_stacks (case ksa_release i k of Inl _ \<Rightarrow> k | Inr k' \<Rightarrow> k') = live_stacks k - {i}"
proof -
  from ksa_release_ok [OF assms] obtain b where
    "ksa_release i k = Inr b" "ksa_ok b" "live_stacks b = live_stacks k - {i}" by blast
  then show ?thesis by simp
qed

lemma ksa_slot_Some:
  assumes "ksa_ok k" and "(case ksa_alloc k of Inl _ \<Rightarrow> (None, k) | Inr ((i, _), k') \<Rightarrow> (Some i, k')) = (Some i, k')"
  shows "ksa_ok k' \<and> i \<notin> live_stacks k \<and> live_stacks k' = insert i (live_stacks k)"
proof (cases "ksa_alloc k")
  case (Inr r)
  then obtain reused where "ksa_alloc k = Inr ((i, reused), k')"
    using assms(2) by (cases r) (auto split: prod.splits)
  with ksa_alloc_ok [OF assms(1)] show ?thesis by blast
qed (use assms in simp)

lemma ksa_slot_None:
  assumes "(case ksa_alloc k of Inl _ \<Rightarrow> (None, k) | Inr ((i, _), k') \<Rightarrow> (Some i, k')) = (None, k')"
  shows "k' = k"
proof (cases "ksa_alloc k")
  case (Inr r)
  then show ?thesis using assms by (cases r) (auto split: prod.splits)
qed (use assms in simp)

interpretation stacks: slot_allocator ksa_ok live_stacks
    "\<lambda>k. case ksa_alloc k of Inl _ \<Rightarrow> (None, k) | Inr ((i, _), k') \<Rightarrow> (Some i, k')"
    "\<lambda>i k. case ksa_release i k of Inl _ \<Rightarrow> k | Inr k' \<Rightarrow> k'"
  by unfold_locales (erule (1) ksa_slot_Some, erule ksa_slot_None, erule (1) ksa_release_total)



section \<open>Layout\<close>

lemma unat_scaled:
  fixes i c :: usize
  assumes "unat i * unat c < 2 ^ 64"
  shows "unat (i * c) = unat i * unat c"
  using assms by (simp add: unat_word_ariths)

lemma unat_minus_scaled:
  fixes b i c :: usize
  assumes "unat i * unat c \<le> unat b"
  shows "unat (b - i * c) = unat b - unat i * unat c"
proof -
  have "unat b < 2 ^ LENGTH(64)" by (rule unsigned_less)
  with assms have m: "unat (i * c) = unat i * unat c" by (intro unat_scaled) simp
  with assms have "i * c \<le> b" by (simp add: word_le_nat_alt)
  with m show ?thesis by (simp add: unat_sub)
qed

lemma unat_plus_scaled:
  fixes b i c :: usize
  assumes "unat b + unat i * unat c < 2 ^ 64"
  shows "unat (b + i * c) = unat b + unat i * unat c"
proof -
  from assms have "unat (i * c) = unat i * unat c" by (intro unat_scaled) simp
  with assms show ?thesis by (simp add: unat_word_ariths)
qed

lemma kernel_stack_unat:
  assumes "unat i < 15420"
  shows "unat (snd (kernel_stack_position i)) = 0xffffffffc0000000 - unat i * 0x11000"
    and "unat (fst (kernel_stack_position i)) = 0xffffffffc0000000 - unat i * 0x11000 - 0x10000"
proof -
  let ?t = "KERNEL_STACK_TOP - i * (KERNEL_STACK_SIZE + PAGE_BYTES)"
  show top: "unat (snd (kernel_stack_position i)) = 0xffffffffc0000000 - unat i * 0x11000"
    using unat_minus_scaled [of i "KERNEL_STACK_SIZE + PAGE_BYTES" KERNEL_STACK_TOP] assms
    by (simp add: kernel_stack_position_def KERNEL_STACK_TOP_def KERNEL_STACK_SIZE_def PAGE_BYTES_def)
  then have "KERNEL_STACK_SIZE \<le> ?t"
    using assms by (simp add: word_le_nat_alt kernel_stack_position_def Let_def KERNEL_STACK_SIZE_def)
  then have "unat (?t - KERNEL_STACK_SIZE) = unat ?t - unat KERNEL_STACK_SIZE" by (rule unat_sub)
  with top show "unat (fst (kernel_stack_position i)) = 0xffffffffc0000000 - unat i * 0x11000 - 0x10000"
    by (simp add: kernel_stack_position_def Let_def KERNEL_STACK_SIZE_def)
qed

lemma ustack_unat:
  assumes "unat base + (unat tid + 1) * 0x401000 < 2 ^ 64"
  shows "unat (ustack_mapped_bottom_from_tid base tid) = unat base + unat tid * 0x401000"
    and "unat (ustack_top base tid) = unat base + unat tid * 0x401000 + 0x400000"
proof -
  from assms unat_plus_scaled [of base tid "PAGE_BYTES + USER_STACK_SIZE"]
  have b: "unat (ustack_bottom_from_tid base tid) = unat base + unat tid * 0x401000"
    by (simp add: ustack_bottom_from_tid_def PAGE_BYTES_def USER_STACK_SIZE_def)
  then show "unat (ustack_mapped_bottom_from_tid base tid) = unat base + unat tid * 0x401000"
    by (simp add: ustack_mapped_bottom_from_tid_def)
  from assms unat_plus_scaled [of "ustack_bottom_from_tid base tid" 1 USER_STACK_SIZE] b
  show "unat (ustack_top base tid) = unat base + unat tid * 0x401000 + 0x400000"
    by (simp add: ustack_top_def USER_STACK_SIZE_def)
qed

lemma trap_cx_unat:
  assumes "unat tid * 0x1000 \<le> 0xffffffffffffe000"
  shows "unat (trap_cx_bottom_from_tid tid) = 0xffffffffffffe000 - unat tid * 0x1000"
proof -
  have base: "TRAP_CONTEXT_BASE = 0xffffffffffffe000"
    by (simp add: TRAP_CONTEXT_BASE_def TRAMPOLINE_def PAGE_BYTES_def)
  from unat_minus_scaled [of tid PAGE_BYTES TRAP_CONTEXT_BASE] assms show ?thesis
    by (simp add: trap_cx_bottom_from_tid_def base PAGE_BYTES_def)
qed

section \<open>Properties\<close>



text \<open>
  The first 15420 kernel stacks are pairwise disjoint with an unmapped guard page between
  neighbours, no address computation wraps, and all of them lie in the 1 GiB window of Sv39 root
  entry 510 below KERNEL_STACK_TOP.
\<close>

theorem kernel_stacks_disjoint:
  assumes "i < j" and "unat j < 15420"
  shows "snd (kernel_stack_position j) + PAGE_BYTES \<le> fst (kernel_stack_position i) \<and>
    snd (kernel_stack_position j) < snd (kernel_stack_position j) + PAGE_BYTES \<and>
    fst (kernel_stack_position j) < snd (kernel_stack_position j) \<and>
    0xffffffff80000000 \<le> fst (kernel_stack_position j) \<and>
    snd (kernel_stack_position i) \<le> KERNEL_STACK_TOP"
proof -
  from assms have ij: "unat i < unat j" "unat i < 15420" by (simp_all add: word_less_nat_alt)
  let ?tj = "snd (kernel_stack_position j)"
  have "unat ?tj \<le> 0xffffffffc0000000" using assms(2) by (simp add: kernel_stack_unat)
  with unat_plus_scaled [of ?tj 1 PAGE_BYTES] have g: "unat (?tj + PAGE_BYTES) = unat ?tj + 0x1000"
    by (simp add: PAGE_BYTES_def)
  from ij assms(2) show ?thesis
    unfolding word_le_nat_alt word_less_nat_alt g kernel_stack_unat [OF ij(2)] kernel_stack_unat [OF assms(2)]
    by (simp add: KERNEL_STACK_TOP_def, intro conjI) linarith+
qed

theorem kernel_stacks_disjoint_witness:
  "(3::usize) < 4 \<and> unat (4::usize) < 15420 \<and>
   snd (kernel_stack_position 4) + PAGE_BYTES \<le> fst (kernel_stack_position 3)"
  using kernel_stacks_disjoint [of 3 4] by simp

text \<open>
  User stacks and trap contexts of different threads of a process never overlap: user stacks
  keep a guard page between neighbours and each trap context page lies below the next lower
  thread's, all below the trampoline, as long as the addresses fit in 64 bits.
\<close>

theorem thread_areas_disjoint:
  assumes "i < j" and "unat base + (unat j + 1) * 0x401000 < 2 ^ 64"
  shows "ustack_top base i + PAGE_BYTES \<le> ustack_mapped_bottom_from_tid base j \<and>
    ustack_mapped_bottom_from_tid base j < ustack_top base j \<and>
    trap_cx_bottom_from_tid j + PAGE_BYTES \<le> trap_cx_bottom_from_tid i \<and>
    trap_cx_bottom_from_tid i + PAGE_BYTES \<le> TRAMPOLINE"
proof -
  from assms(1) have ij: "unat i < unat j" by (simp add: word_less_nat_alt)
  with assms(2) have bi: "unat base + (unat i + 1) * 0x401000 < 2 ^ 64" by simp
  from assms(2) ij have tj: "unat j * 0x1000 \<le> 0xffffffffffffe000" "unat i * 0x1000 \<le> 0xffffffffffffe000"
    by simp_all
  have "unat (ustack_top base i + PAGE_BYTES) = unat (ustack_top base i) + 0x1000"
    using unat_plus_scaled [of "ustack_top base i" 1 PAGE_BYTES] ustack_unat(2) [OF bi] bi
    by (simp add: PAGE_BYTES_def)
  moreover have "unat (trap_cx_bottom_from_tid t + PAGE_BYTES) = unat (trap_cx_bottom_from_tid t) + 0x1000"
    if "unat t * 0x1000 \<le> 0xffffffffffffe000" for t
    using unat_plus_scaled [of "trap_cx_bottom_from_tid t" 1 PAGE_BYTES] trap_cx_unat [OF that]
    by (simp add: PAGE_BYTES_def)
  moreover have "unat TRAMPOLINE = 0xfffffffffffff000"
    by (simp add: TRAMPOLINE_def PAGE_BYTES_def)
  ultimately show ?thesis
    unfolding word_le_nat_alt word_less_nat_alt
    using ij tj ustack_unat [OF bi] ustack_unat [OF assms(2)] trap_cx_unat [OF tj(1)] trap_cx_unat [OF tj(2)]
    by simp
qed

theorem thread_areas_disjoint_witness:
  "(0::usize) < 1 \<and> unat (0x10000::usize) + (unat (1::usize) + 1) * 0x401000 < 2 ^ 64 \<and>
   ustack_top 0x10000 0 + PAGE_BYTES \<le> ustack_mapped_bottom_from_tid 0x10000 1"
  using thread_areas_disjoint [of 0 1 "0x10000"] by simp

end
