(* ===== verification/Poll_Wait.thy ===== *)
theory Poll_Wait
  imports Kernel_Prelude
begin

text \<open>
  Poll waiters and poll wait queues (\<open>os/src/fs/mod.rs\<close>), used by pipes and event counters.

  A \<open>PollWaiter\<close> is shared between the polling task, which owns it, and the queues of the
  files it polls, which only hold weak references. The waiters are a store from waiter ids to
  records: an id that is absent is a waiter already dropped by its task, so an upgrade of a weak
  reference is a lookup in the store. The atomics of a waiter are plain fields, one call is one
  transition. \<open>wakeup_task\<close> belongs to the scheduler: the operations return the tasks to wake.
\<close>

section \<open>Definitions\<close>

definition POLL_WAIT_NO_SOURCE :: nat where
  "POLL_WAIT_NO_SOURCE = usize_max"

record ready_sources =
  rs_pending :: "nat list"
  rs_present :: "nat set"

definition rs_new :: ready_sources where
  "rs_new = \<lparr>rs_pending = [], rs_present = {}\<rparr>"

definition rs_push :: "nat \<Rightarrow> ready_sources \<Rightarrow> ready_sources" where
  "rs_push source r =
     (if source \<in> rs_present r then r
      else \<lparr>rs_pending = rs_pending r @ [source], rs_present = insert source (rs_present r)\<rparr>)"

definition rs_drain :: "ready_sources \<Rightarrow> nat list \<times> ready_sources" where
  "rs_drain r = (rs_pending r, rs_new)"

record poll_waiter =
  pw_task :: task_id
  pw_triggered :: bool
  pw_registrations :: nat
  pw_registration_source :: nat
  pw_ready_sources :: ready_sources

type_synonym waiter_id = nat
type_synonym waiter_store = "waiter_id \<Rightarrow> poll_waiter option"

definition pw_new :: "task_id \<Rightarrow> poll_waiter" where
  "pw_new task = \<lparr>pw_task = task, pw_triggered = False, pw_registrations = 0,
     pw_registration_source = POLL_WAIT_NO_SOURCE, pw_ready_sources = rs_new\<rparr>"

definition task_matches :: "task_id \<Rightarrow> poll_waiter \<Rightarrow> bool" where
  "task_matches task w \<longleftrightarrow> pw_task w = task"

text \<open>\<open>fetch_add\<close> wraps.\<close>

definition record_registration :: "poll_waiter \<Rightarrow> poll_waiter" where
  "record_registration w = w\<lparr>pw_registrations := (pw_registrations w + 1) mod 2 ^ 64\<rparr>"

text \<open>The guard keeps the previous source and puts it back when it is dropped.\<close>

definition registration_source_guard :: "nat \<Rightarrow> poll_waiter \<Rightarrow> nat \<times> poll_waiter" where
  "registration_source_guard source w =
     (pw_registration_source w, w\<lparr>pw_registration_source := source\<rparr>)"

definition registration_guard_drop :: "nat \<Rightarrow> poll_waiter \<Rightarrow> poll_waiter" where
  "registration_guard_drop previous w = w\<lparr>pw_registration_source := previous\<rparr>"

definition registration_source :: "poll_waiter \<Rightarrow> nat option" where
  "registration_source w =
     (if pw_registration_source w \<noteq> POLL_WAIT_NO_SOURCE then Some (pw_registration_source w) else None)"

definition record_ready_source :: "nat \<Rightarrow> poll_waiter \<Rightarrow> poll_waiter" where
  "record_ready_source source w = w\<lparr>pw_ready_sources := rs_push source (pw_ready_sources w)\<rparr>"

definition drain_ready_sources :: "poll_waiter \<Rightarrow> nat list \<times> poll_waiter" where
  "drain_ready_sources w =
     (case rs_drain (pw_ready_sources w) of (ss, r) \<Rightarrow> (ss, w\<lparr>pw_ready_sources := r\<rparr>))"

definition pw_wake :: "poll_waiter \<Rightarrow> task_id \<times> poll_waiter" where
  "pw_wake w = (pw_task w, w\<lparr>pw_triggered := True\<rparr>)"

definition complete_block_handoff :: "poll_waiter \<Rightarrow> task_id option" where
  "complete_block_handoff w = (if pw_triggered w then Some (pw_task w) else None)"

text \<open>The ids come from \<open>drain\<close>, which holds strong references, so every id is in the store.\<close>

fun wake_all :: "waiter_id list \<Rightarrow> waiter_store \<Rightarrow> task_id list \<times> waiter_store" where
  "wake_all [] ws = ([], ws)"
| "wake_all (i # is) ws =
     (case ws i of
        None \<Rightarrow> wake_all is ws
      | Some w \<Rightarrow>
          (case pw_wake w of
             (task, w') \<Rightarrow>
               (case wake_all is (ws(i \<mapsto> w')) of (tasks, ws') \<Rightarrow> (task # tasks, ws'))))"

subsection \<open>Queues\<close>

record poll_wait_registration =
  reg_waiter :: waiter_id
  reg_source :: "nat option"

type_synonym poll_wait_queue = "poll_wait_registration list"

definition pwq_new :: poll_wait_queue where
  "pwq_new = []"

text \<open>\<open>register\<close> is called with a strong reference to the waiter.\<close>

definition pwq_register ::
  "waiter_id \<Rightarrow> poll_wait_queue \<Rightarrow> waiter_store \<Rightarrow> poll_wait_queue \<times> waiter_store" where
  "pwq_register i q ws =
     (case ws i of
        None \<Rightarrow> (q, ws)
      | Some w \<Rightarrow>
          (let q' = filter (\<lambda>r. ws (reg_waiter r) \<noteq> None) q;
               w' = record_registration w
           in (q' @ [\<lparr>reg_waiter = i, reg_source = registration_source w'\<rparr>], ws(i \<mapsto> w'))))"

fun deliver :: "poll_wait_queue \<Rightarrow> waiter_store \<Rightarrow> waiter_id list \<times> waiter_store" where
  "deliver [] ws = ([], ws)"
| "deliver (r # q) ws =
     (case ws (reg_waiter r) of
        None \<Rightarrow> deliver q ws
      | Some w \<Rightarrow>
          (let w' = (case reg_source r of None \<Rightarrow> w | Some s \<Rightarrow> record_ready_source s w)
           in (case deliver q (ws(reg_waiter r \<mapsto> w')) of
                 (is, ws') \<Rightarrow> (reg_waiter r # is, ws'))))"

definition pwq_drain ::
  "poll_wait_queue \<Rightarrow> waiter_store \<Rightarrow> waiter_id list \<times> poll_wait_queue \<times> waiter_store" where
  "pwq_drain q ws = (case deliver q ws of (is, ws') \<Rightarrow> (is, [], ws'))"

subsection \<open>Poll event masks\<close>

definition POLLIN :: u16 where "POLLIN = 0x0001"
definition POLLPRI :: u16 where "POLLPRI = 0x0002"
definition POLLOUT :: u16 where "POLLOUT = 0x0004"
definition POLLERR :: u16 where "POLLERR = 0x0008"
definition POLLHUP :: u16 where "POLLHUP = 0x0010"

definition intersects :: "u16 \<Rightarrow> u16 \<Rightarrow> bool" where
  "intersects a b \<longleftrightarrow> a AND b \<noteq> 0"

definition contains_flags :: "u16 \<Rightarrow> u16 \<Rightarrow> bool" where
  "contains_flags a b \<longleftrightarrow> a AND b = b"

subsection \<open>Invariant\<close>

definition rs_ok :: "ready_sources \<Rightarrow> bool" where
  "rs_ok r \<longleftrightarrow> distinct (rs_pending r) \<and> rs_present r = set (rs_pending r)"

definition waiters_ok :: "waiter_store \<Rightarrow> bool" where
  "waiters_ok ws \<longleftrightarrow> (\<forall>i w. ws i = Some w \<longrightarrow> rs_ok (pw_ready_sources w))"

text \<open>The sources that a queue will report to a waiter.\<close>

definition queued_sources :: "waiter_id \<Rightarrow> poll_wait_queue \<Rightarrow> nat set" where
  "queued_sources i q = {s. \<exists>r \<in> set q. reg_waiter r = i \<and> reg_source r = Some s}"

definition delivered :: "waiter_id \<Rightarrow> poll_waiter \<Rightarrow> poll_wait_queue \<Rightarrow> poll_waiter \<Rightarrow> bool" where
  "delivered i w q w' \<longleftrightarrow> pw_task w' = pw_task w \<and> pw_triggered w' = pw_triggered w \<and>
     set (rs_pending (pw_ready_sources w')) =
       set (rs_pending (pw_ready_sources w)) \<union> queued_sources i q"

text \<open>What can happen to a queue before it is drained: registrations and dropped waiters.\<close>

datatype poll_op = PollRegister waiter_id | PollDrop waiter_id

fun poll_op_step :: "poll_op \<Rightarrow> poll_wait_queue \<times> waiter_store \<Rightarrow> poll_wait_queue \<times> waiter_store" where
  "poll_op_step (PollRegister i) (q, ws) = pwq_register i q ws"
| "poll_op_step (PollDrop i) (q, ws) = (q, ws(i := None))"

definition poll_run :: "poll_op list \<Rightarrow> poll_wait_queue \<times> waiter_store \<Rightarrow> poll_wait_queue \<times> waiter_store" where
  "poll_run ops st = fold poll_op_step ops st"

definition demo_waiters :: waiter_store where
  "demo_waiters = [1 \<mapsto> (pw_new 7)\<lparr>pw_registration_source := 3\<rparr>, 2 \<mapsto> pw_new 8]"

section \<open>Lemmas\<close>

lemma rs_new_ok [simp, kernel_inv]: "rs_ok rs_new"
  by (simp add: rs_ok_def rs_new_def)

lemma rs_push_ok [simp, kernel_inv]: "rs_ok r \<Longrightarrow> rs_ok (rs_push s r)"
  by (auto simp: rs_ok_def rs_push_def)

lemma rs_push_set: "rs_ok r \<Longrightarrow> set (rs_pending (rs_push s r)) = insert s (set (rs_pending r))"
  by (auto simp: rs_ok_def rs_push_def)

lemma waiters_ok_update: "waiters_ok ws \<Longrightarrow> rs_ok (pw_ready_sources w) \<Longrightarrow> waiters_ok (ws(i \<mapsto> w))"
  by (simp add: waiters_ok_def)

lemma deliver_ids:
  "deliver q ws = (is, ws') \<Longrightarrow> set is = {i \<in> reg_waiter ` set q. ws i \<noteq> None}"
proof (induction q ws arbitrary: "is" ws' rule: deliver.induct)
  case (1 ws)
  then show ?case by simp
next
  case (2 r q ws)
  show ?case
  proof (cases "ws (reg_waiter r)")
    case None
    with 2 show ?thesis by auto
  next
    case (Some w)
    define w' where "w' = (case reg_source r of None \<Rightarrow> w | Some s \<Rightarrow> record_ready_source s w)"
    obtain js ws1 where d: "deliver q (ws(reg_waiter r \<mapsto> w')) = (js, ws1)" by fastforce
    with 2(3) Some have "is = reg_waiter r # js" by (simp add: w'_def [symmetric] Let_def)
    moreover have same: "((ws(reg_waiter r \<mapsto> w')) i \<noteq> None) = (ws i \<noteq> None)" for i
      using Some by simp
    have "set js = {i \<in> reg_waiter ` set q. ws i \<noteq> None}"
      using 2(2) [OF Some w'_def d] unfolding same .
    ultimately show ?thesis using Some by auto
  qed
qed

lemma queued_sources_Cons:
  "queued_sources i (r # q) =
     (if reg_waiter r = i then set_option (reg_source r) else {}) \<union> queued_sources i q"
  by (auto simp: queued_sources_def)

lemma deliver_sources:
  assumes "waiters_ok ws" and "deliver q ws = (is, ws')" and "ws i = Some w"
  shows "waiters_ok ws' \<and> (\<exists>w'. ws' i = Some w' \<and> delivered i w q w')"
  using assms
proof (induction q ws arbitrary: "is" ws' w rule: deliver.induct)
  case (1 ws)
  then show ?case by (simp add: delivered_def queued_sources_def)
next
  case (2 r q ws)
  show ?case
  proof (cases "ws (reg_waiter r)")
    case None
    with 2(1) [OF None 2(3)] 2(4,5) show ?thesis
      by (auto simp: delivered_def queued_sources_Cons)
  next
    case (Some v)
    define v' where "v' = (case reg_source r of None \<Rightarrow> v | Some s \<Rightarrow> record_ready_source s v)"
    obtain js ws1 where d: "deliver q (ws(reg_waiter r \<mapsto> v')) = (js, ws1)" by fastforce
    with 2(4) Some have ws': "ws' = ws1" by (simp add: v'_def [symmetric] Let_def)
    from 2(3) Some have "rs_ok (pw_ready_sources v)" by (simp add: waiters_ok_def)
    then have v': "rs_ok (pw_ready_sources v')" "delivered (reg_waiter r) v [r] v'"
      by (auto simp: v'_def record_ready_source_def delivered_def queued_sources_def rs_push_set
          split: option.splits)
    then have ok: "waiters_ok (ws(reg_waiter r \<mapsto> v'))" using 2(3) by (simp add: waiters_ok_update)
    show ?thesis
    proof (cases "reg_waiter r = i")
      case True
      with 2(2) [OF Some v'_def ok d, of v'] v'(2) 2(5) Some show ?thesis
        by (auto simp: ws' delivered_def queued_sources_Cons queued_sources_def)
    next
      case False
      with 2(2) [OF Some v'_def ok d, of w] 2(5) show ?thesis
        by (auto simp: ws' delivered_def queued_sources_Cons)
    qed
  qed
qed

lemma wake_all_triggers:
  assumes "wake_all is ws = (tasks, ws')" and "ws i = Some w"
  shows "\<exists>w'. ws' i = Some w' \<and> pw_ready_sources w' = pw_ready_sources w \<and>
    pw_triggered w' = (pw_triggered w \<or> i \<in> set is) \<and> pw_task w' = pw_task w \<and>
    (i \<in> set is \<longrightarrow> pw_task w \<in> set tasks)"
  using assms
proof (induction "is" ws arbitrary: tasks ws' w rule: wake_all.induct)
  case (1 ws)
  then show ?case by simp
next
  case (2 j js ws)
  show ?case
  proof (cases "ws j")
    case None
    with 2(3,4) have w: "wake_all js ws = (tasks, ws')" "i \<noteq> j" by auto
    from 2(1) [OF None w(1) 2(4)] w(2) show ?thesis by simp
  next
    case (Some v)
    obtain ts ws1 where d: "wake_all js (ws(j \<mapsto> v\<lparr>pw_triggered := True\<rparr>)) = (ts, ws1)" by fastforce
    with 2(3) Some have eq: "tasks = pw_task v # ts" "ws' = ws1" by (simp_all add: pw_wake_def)
    have IH: "\<exists>w'. ws1 i = Some w' \<and> pw_ready_sources w' = pw_ready_sources u \<and>
        pw_triggered w' = (pw_triggered u \<or> i \<in> set js) \<and> pw_task w' = pw_task u \<and>
        (i \<in> set js \<longrightarrow> pw_task u \<in> set ts)"
      if "(ws(j \<mapsto> v\<lparr>pw_triggered := True\<rparr>)) i = Some u" for u
      using 2(2) [OF Some pw_wake_def [symmetric] d that] .
    show ?thesis
    proof (cases "i = j")
      case True
      with IH [of "v\<lparr>pw_triggered := True\<rparr>"] 2(4) Some show ?thesis by (auto simp: eq)
    next
      case False
      with IH [of w] 2(4) show ?thesis by (auto simp: eq)
    qed
  qed
qed

lemma register_ok:
  assumes "waiters_ok ws" and "pwq_register j q ws = (q', ws')"
  shows "waiters_ok ws'"
  using assms
  by (auto simp: pwq_register_def waiters_ok_def record_registration_def Let_def split: option.splits if_splits)

text \<open>The registration of a waiter stays in the queue as long as the waiter is alive.\<close>

lemma poll_run_keeps:
  assumes "waiters_ok ws" and "r \<in> set q" and "ws (reg_waiter r) = Some w"
    and "PollDrop (reg_waiter r) \<notin> set ops" and "poll_run ops (q, ws) = (q', ws')"
  shows "waiters_ok ws' \<and> r \<in> set q' \<and> (\<exists>w'. ws' (reg_waiter r) = Some w' \<and> pw_task w' = pw_task w)"
  using assms
proof (induction ops arbitrary: q ws w)
  case Nil
  then show ?case by (simp add: poll_run_def)
next
  case (Cons p ops)
  obtain q1 ws1 where st: "poll_op_step p (q, ws) = (q1, ws1)" by fastforce
  with Cons.prems(5) have run: "poll_run ops (q1, ws1) = (q', ws')" by (simp add: poll_run_def)
  have "waiters_ok ws1 \<and> r \<in> set q1 \<and> (\<exists>w1. ws1 (reg_waiter r) = Some w1 \<and> pw_task w1 = pw_task w)"
  proof (cases p)
    case (PollRegister j)
    with st Cons.prems register_ok [of ws j q q1 ws1] show ?thesis
      by (auto simp: pwq_register_def record_registration_def Let_def split: option.splits if_splits)
  next
    case (PollDrop j)
    with st Cons.prems show ?thesis by (auto simp: waiters_ok_def split: if_splits)
  qed
  then obtain w1 where w1: "waiters_ok ws1" "r \<in> set q1" "ws1 (reg_waiter r) = Some w1"
    "pw_task w1 = pw_task w" by blast
  with Cons.IH [OF w1(1-3) _ run] Cons.prems(4) show ?case by simp
qed

section \<open>Properties\<close>

text \<open>
  C6. No poll wakeup is lost. Once a waiter has registered with a queue, then whatever waiters
  register or go away in between (it excepted), draining the queue returns the waiter, waking
  what was drained marks it triggered and wakes its task, and the source under which it
  registered is among its ready sources, each of which is listed once. The queue is empty after.
\<close>

theorem poll_wakeup_not_lost:
  assumes "waiters_ok ws" and "ws i = Some w" and "PollDrop i \<notin> set ops"
    and "poll_run (PollRegister i # ops) (q, ws) = (q1, ws1)"
    and "pwq_drain q1 ws1 = (is, q2, ws2)" and "wake_all is ws2 = (tasks, ws3)"
  shows "q2 = [] \<and> i \<in> set is \<and> pw_task w \<in> set tasks \<and>
    (\<exists>w'. ws3 i = Some w' \<and> pw_triggered w' \<and> distinct (rs_pending (pw_ready_sources w')) \<and>
      set_option (registration_source w) \<subseteq> set (rs_pending (pw_ready_sources w')))"
proof -
  let ?r = "\<lparr>reg_waiter = i, reg_source = registration_source w\<rparr>"
  obtain q0 ws0 where st: "pwq_register i q ws = (q0, ws0)" by fastforce
  with assms(2) have r: "?r \<in> set q0" "ws0 i = Some (record_registration w)"
    by (auto simp: pwq_register_def Let_def registration_source_def record_registration_def)
  have ok0: "waiters_ok ws0" by (rule register_ok [OF assms(1) st])
  from assms(4) st have "poll_run ops (q0, ws0) = (q1, ws1)" by (simp add: poll_run_def)
  from poll_run_keeps [OF ok0 r(1) _ _ this, of "record_registration w"] r assms(3)
  obtain w1 where w1: "waiters_ok ws1" "?r \<in> set q1" "ws1 i = Some w1" "pw_task w1 = pw_task w"
    by (auto simp: record_registration_def)
  from assms(5) have d: "deliver q1 ws1 = (is, ws2)" and q2: "q2 = []"
    by (auto simp: pwq_drain_def split: prod.splits)
  from deliver_ids [OF d] w1 have i: "i \<in> set is" by force
  from deliver_sources [OF w1(1) d w1(3)] obtain w2 where
    w2: "waiters_ok ws2" "ws2 i = Some w2" "delivered i w1 q1 w2" by blast
  have "set_option (registration_source w) \<subseteq> queued_sources i q1"
    using w1(2) by (force simp: queued_sources_def)
  moreover from wake_all_triggers [OF assms(6) w2(2)] obtain w3 where
    w3: "ws3 i = Some w3" "pw_ready_sources w3 = pw_ready_sources w2" "pw_triggered w3"
        "pw_task w2 \<in> set tasks" using i by auto
  moreover from w2(1,2) have "rs_ok (pw_ready_sources w2)" by (simp add: waiters_ok_def)
  ultimately show ?thesis using q2 i w1(4) w2(3) by (auto simp: delivered_def rs_ok_def)
qed

theorem poll_wakeup_not_lost_witness:
  "waiters_ok demo_waiters \<and> PollDrop 1 \<notin> set [PollRegister 2, PollDrop 2] \<and>
   (case poll_run [PollRegister 1, PollRegister 2, PollDrop 2] ([], demo_waiters) of
      (q1, ws1) \<Rightarrow> case pwq_drain q1 ws1 of (is, q2, ws2) \<Rightarrow>
        7 \<in> set (fst (wake_all is ws2)))"
proof -
  have ok: "waiters_ok demo_waiters" by (simp add: demo_waiters_def waiters_ok_def pw_new_def)
  have w: "demo_waiters 1 = Some ((pw_new 7)\<lparr>pw_registration_source := 3\<rparr>)"
    by (simp add: demo_waiters_def)
  obtain q1 ws1 where run: "poll_run [PollRegister 1, PollRegister 2, PollDrop 2] ([], demo_waiters) = (q1, ws1)"
    by fastforce
  obtain "is" q2 ws2 where dr: "pwq_drain q1 ws1 = (is, q2, ws2)" by (cases "pwq_drain q1 ws1") auto
  obtain tasks ws3 where wk: "wake_all is ws2 = (tasks, ws3)" by fastforce
  from poll_wakeup_not_lost [OF ok w _ run dr wk] have "7 \<in> set tasks" by (simp add: pw_new_def)
  with ok run dr wk show ?thesis by simp
qed

end
