(* ===== verification/Pipe_Ring.thy ===== *)
theory Pipe_Ring
  imports Poll_Wait
begin

text \<open>
  The ring buffer of a pipe (\<open>PipeRingBuffer\<close> of \<open>os/src/fs/pipe.rs\<close>).

  \<open>ring_contents\<close> is the abstraction: the bytes that are in the pipe, oldest first. The lemmas
  show that the index arithmetic of every operation implements the obvious operation on that
  list. \<open>bounded_byte_queue\<close> is the interface the pipe calls rely on, with the first-in
  first-out law proved once for any sequence of operations.

  A slice copy \<open>dst[a..a + n].copy_from_slice(src)\<close> is \<open>copy_at\<close>; the lemmas show that each
  range is inside its array, so the bounds checks never fail.
\<close>

section \<open>Definitions\<close>

datatype ring_status = Full | Empty | Normal

record pipe_ring =
  pr_arr :: "u8 list"
  pr_head :: nat
  pr_tail :: nat
  pr_status :: ring_status
  pr_read_end :: "nat option"
  pr_write_end :: "nat option"
  pr_read_wait :: "task_id list"
  pr_write_wait :: "task_id list"
  pr_read_poll :: poll_wait_queue
  pr_write_poll :: poll_wait_queue

definition PIPE_MIN_CAPACITY :: nat where
  "PIPE_MIN_CAPACITY = 4096"

definition PIPE_DEFAULT_CAPACITY :: nat where
  "PIPE_DEFAULT_CAPACITY = 4096 * 16"

definition PIPE_MAX_CAPACITY :: nat where
  "PIPE_MAX_CAPACITY = 4096 * 256"

definition ring_new :: "nat \<Rightarrow> pipe_ring" where
  "ring_new requested =
     (let cap = max requested PIPE_MIN_CAPACITY
      in \<lparr>pr_arr = replicate cap 0, pr_head = 0, pr_tail = 0, pr_status = Empty,
          pr_read_end = None, pr_write_end = None, pr_read_wait = [], pr_write_wait = [],
          pr_read_poll = pwq_new, pr_write_poll = pwq_new\<rparr>)"

definition capacity :: "pipe_ring \<Rightarrow> nat" where
  "capacity r = length (pr_arr r)"

definition set_read_end :: "nat \<Rightarrow> pipe_ring \<Rightarrow> pipe_ring" where
  "set_read_end p r = r\<lparr>pr_read_end := Some p\<rparr>"

definition set_write_end :: "nat \<Rightarrow> pipe_ring \<Rightarrow> pipe_ring" where
  "set_write_end p r = r\<lparr>pr_write_end := Some p\<rparr>"

definition available_read :: "pipe_ring \<Rightarrow> nat" where
  "available_read r =
     (if pr_status r = Empty then 0
      else if pr_head r < pr_tail r then pr_tail r - pr_head r
      else pr_tail r + capacity r - pr_head r)"

definition available_write :: "pipe_ring \<Rightarrow> nat" where
  "available_write r = (if pr_status r = Full then 0 else capacity r - available_read r)"

definition copy_at :: "'a list \<Rightarrow> nat \<Rightarrow> 'a list \<Rightarrow> 'a list" where
  "copy_at dst pos src = take pos dst @ src @ drop (pos + length src) dst"

definition advance_head :: "nat \<Rightarrow> pipe_ring \<Rightarrow> pipe_ring" where
  "advance_head len r =
     (let h = (pr_head r + len) mod capacity r
      in r\<lparr>pr_head := h, pr_status := (if h = pr_tail r then Empty else Normal)\<rparr>)"

definition advance_tail :: "nat \<Rightarrow> pipe_ring \<Rightarrow> pipe_ring" where
  "advance_tail len r =
     (let t = (pr_tail r + len) mod capacity r
      in r\<lparr>pr_tail := t, pr_status := (if t = pr_head r then Full else Normal)\<rparr>)"

definition write_from :: "u8 list \<Rightarrow> pipe_ring \<Rightarrow> nat \<times> pipe_ring" where
  "write_from src r =
     (let len = min (length src) (available_write r)
      in if len = 0 then (0, r)
         else let first_len = min len (capacity r - pr_tail r);
                  arr1 = copy_at (pr_arr r) (pr_tail r) (take first_len src);
                  second_len = len - first_len;
                  arr2 = (if 0 < second_len
                          then copy_at arr1 0 (take second_len (drop first_len src)) else arr1);
                  t = (pr_tail r + len) mod capacity r
              in (len, r\<lparr>pr_arr := arr2, pr_tail := t,
                        pr_status := (if t = pr_head r then Full else Normal)\<rparr>))"

text \<open>The bytes that land in the destination slice of length \<open>n\<close>, and the new buffer.\<close>

definition read_into :: "nat \<Rightarrow> pipe_ring \<Rightarrow> u8 list \<times> pipe_ring" where
  "read_into n r =
     (let len = min n (available_read r)
      in if len = 0 then ([], r)
         else let first_len = min len (capacity r - pr_head r);
                  part1 = take first_len (drop (pr_head r) (pr_arr r));
                  second_len = len - first_len;
                  part2 = (if 0 < second_len then take second_len (pr_arr r) else []);
                  h = (pr_head r + len) mod capacity r
              in (part1 @ part2, r\<lparr>pr_head := h,
                    pr_status := (if h = pr_tail r then Empty else Normal)\<rparr>))"

definition contiguous_read_len :: "pipe_ring \<Rightarrow> nat" where
  "contiguous_read_len r =
     (if available_read r = 0 then 0
      else if pr_head r < pr_tail r then pr_tail r - pr_head r
      else capacity r - pr_head r)"

definition contiguous_read_len_from :: "nat \<Rightarrow> pipe_ring \<Rightarrow> nat" where
  "contiguous_read_len_from pos r =
     (if available_read r = 0 then 0
      else if pos < pr_tail r then pr_tail r - pos
      else capacity r - pos)"

definition contiguous_write_len :: "pipe_ring \<Rightarrow> nat" where
  "contiguous_write_len r =
     (if available_write r = 0 then 0
      else if pr_head r \<le> pr_tail r then min (capacity r - pr_tail r) (available_write r)
      else min (pr_head r - pr_tail r) (available_write r))"

text \<open>One copy of the loop bodies of \<open>transfer_to\<close> and \<open>duplicate_to\<close> into the output ring.\<close>

definition append_chunk :: "u8 list \<Rightarrow> pipe_ring \<Rightarrow> pipe_ring" where
  "append_chunk bytes out =
     advance_tail (length bytes) (out\<lparr>pr_arr := copy_at (pr_arr out) (pr_tail out) bytes\<rparr>)"

function transfer_loop ::
  "nat \<Rightarrow> nat \<Rightarrow> pipe_ring \<Rightarrow> pipe_ring \<Rightarrow> nat \<times> pipe_ring \<times> pipe_ring" where
  "transfer_loop remaining moved inp out =
     (if remaining = 0 then (moved, inp, out)
      else
        (let chunk_len = min (min remaining (contiguous_read_len inp)) (contiguous_write_len out)
         in if chunk_len = 0 then (moved, inp, out)
            else transfer_loop (remaining - chunk_len) (moved + chunk_len)
                   (advance_head chunk_len inp)
                   (append_chunk (take chunk_len (drop (pr_head inp) (pr_arr inp))) out)))"
  by pat_completeness auto

termination transfer_loop
  by (relation "measure (\<lambda>(remaining, _). remaining)") auto

declare transfer_loop.simps [simp del]

definition transfer_to :: "nat \<Rightarrow> pipe_ring \<Rightarrow> pipe_ring \<Rightarrow> nat \<times> pipe_ring \<times> pipe_ring" where
  "transfer_to len inp out =
     transfer_loop (min (min len (available_read inp)) (available_write out)) 0 inp out"

function duplicate_loop ::
  "nat \<Rightarrow> nat \<Rightarrow> nat \<Rightarrow> pipe_ring \<Rightarrow> pipe_ring \<Rightarrow> nat \<times> pipe_ring" where
  "duplicate_loop remaining read_pos copied inp out =
     (if remaining = 0 then (copied, out)
      else
        (let chunk_len = min (min remaining (contiguous_read_len_from read_pos inp))
                             (contiguous_write_len out)
         in if chunk_len = 0 then (copied, out)
            else duplicate_loop (remaining - chunk_len) ((read_pos + chunk_len) mod capacity inp)
                   (copied + chunk_len) inp
                   (append_chunk (take chunk_len (drop read_pos (pr_arr inp))) out)))"
  by pat_completeness auto

termination duplicate_loop
  by (relation "measure (\<lambda>(remaining, _). remaining)") auto

declare duplicate_loop.simps [simp del]

definition duplicate_to :: "nat \<Rightarrow> pipe_ring \<Rightarrow> pipe_ring \<Rightarrow> nat \<times> pipe_ring" where
  "duplicate_to len inp out =
     duplicate_loop (min (min len (available_read inp)) (available_write out)) (pr_head inp) 0 inp out"

definition resize :: "nat \<Rightarrow> pipe_ring \<Rightarrow> fs_error + (nat \<times> pipe_ring)" where
  "resize requested r =
     (let cap = max requested PIPE_MIN_CAPACITY;
          occupied = available_read r
      in if cap < occupied then Inl FsBusy
         else Inr (cap, r\<lparr>
             pr_arr := map (\<lambda>index. pr_arr r ! ((pr_head r + index) mod capacity r)) [0..<occupied]
                       @ replicate (cap - occupied) 0,
             pr_head := 0,
             pr_tail := (if occupied = cap then 0 else occupied),
             pr_status := (if occupied = 0 then Empty else if occupied = cap then Full else Normal)\<rparr>))"

subsection \<open>Invariant and abstraction\<close>

definition ring_ok :: "pipe_ring \<Rightarrow> bool" where
  "ring_ok r \<longleftrightarrow>
     PIPE_MIN_CAPACITY \<le> capacity r \<and> pr_head r < capacity r \<and> pr_tail r < capacity r \<and>
     (pr_status r \<noteq> Normal \<longleftrightarrow> pr_head r = pr_tail r)"

definition ring_contents :: "pipe_ring \<Rightarrow> u8 list" where
  "ring_contents r =
     map (\<lambda>i. pr_arr r ! ((pr_head r + i) mod capacity r)) [0..<available_read r]"

text \<open>
  \<open>arr'\<close> is \<open>arr\<close> with \<open>src\<close> laid out from \<open>pos\<close> on, around the end of the array.
\<close>

definition wrapped_copy :: "'a list \<Rightarrow> nat \<Rightarrow> 'a list \<Rightarrow> 'a list \<Rightarrow> bool" where
  "wrapped_copy arr pos src arr' \<longleftrightarrow>
     length arr' = length arr \<and>
     (\<forall>i < length arr. arr' ! ((pos + i) mod length arr) =
        (if i < length src then src ! i else arr ! ((pos + i) mod length arr)))"

subsection \<open>Sequences of queue operations\<close>

datatype 'b queue_op = Push "'b list" | Pop nat

text \<open>The accepted bytes and the delivered bytes of a sequence of operations.\<close>

fun queue_run ::
  "('b list \<Rightarrow> 'q \<Rightarrow> nat \<times> 'q) \<Rightarrow> (nat \<Rightarrow> 'q \<Rightarrow> 'b list \<times> 'q) \<Rightarrow> 'b queue_op list \<Rightarrow> 'q
    \<Rightarrow> 'b list \<times> 'b list \<times> 'q" where
  "queue_run push pop [] q = ([], [], q)"
| "queue_run push pop (Push xs # ops) q =
     (case push xs q of (n, q') \<Rightarrow>
        (case queue_run push pop ops q' of (ins, outs, q'') \<Rightarrow> (take n xs @ ins, outs, q'')))"
| "queue_run push pop (Pop k # ops) q =
     (case pop k q of (ys, q') \<Rightarrow>
        (case queue_run push pop ops q' of (ins, outs, q'') \<Rightarrow> (ins, ys @ outs, q'')))"

section \<open>The interface of a bounded byte queue\<close>

locale bounded_byte_queue =
  fixes ok :: "'q \<Rightarrow> bool"
    and contents :: "'q \<Rightarrow> 'b list"
    and room :: "'q \<Rightarrow> nat"
    and push :: "'b list \<Rightarrow> 'q \<Rightarrow> nat \<times> 'q"
    and pop :: "nat \<Rightarrow> 'q \<Rightarrow> 'b list \<times> 'q"
  assumes push_law: "ok q \<Longrightarrow> push xs q = (n, q') \<Longrightarrow>
      ok q' \<and> n = min (length xs) (room q) \<and> contents q' = contents q @ take n xs \<and>
      room q' = room q - n"
    and pop_law: "ok q \<Longrightarrow> pop k q = (ys, q') \<Longrightarrow>
      ok q' \<and> ys = take k (contents q) \<and> contents q' = drop k (contents q) \<and>
      room q' = room q + length ys"
begin

lemma run_fifo:
  assumes "ok q" and "queue_run push pop ops q = (ins, outs, q')"
  shows "ok q' \<and> contents q @ ins = outs @ contents q'"
  using assms
proof (induction ops arbitrary: q ins outs q')
  case Nil
  then show ?case by simp
next
  case (Cons p ops)
  show ?case
  proof (cases p)
    case (Push xs)
    obtain n q1 where st: "push xs q = (n, q1)" by fastforce
    obtain ins1 outs1 q2 where rest: "queue_run push pop ops q1 = (ins1, outs1, q2)"
      by (cases "queue_run push pop ops q1") auto
    from push_law [OF Cons.prems(1) st] Cons.IH [OF _ rest] Cons.prems(2) Push st rest
    show ?thesis by auto
  next
    case (Pop k)
    obtain ys q1 where st: "pop k q = (ys, q1)" by fastforce
    obtain ins1 outs1 q2 where rest: "queue_run push pop ops q1 = (ins1, outs1, q2)"
      by (cases "queue_run push pop ops q1") auto
    from pop_law [OF Cons.prems(1) st]
    have "contents q = ys @ contents q1" "ok q1" by simp_all
    with Cons.IH [OF _ rest] Cons.prems(2) Pop st rest show ?thesis by auto
  qed
qed

lemma run_room:
  assumes "ok q" and "queue_run push pop ops q = (ins, outs, q')"
    and "length (contents q) + room q = cap"
  shows "length (contents q') + room q' = cap"
  using assms
proof (induction ops arbitrary: q ins outs q')
  case Nil
  then show ?case by simp
next
  case (Cons p ops)
  show ?case
  proof (cases p)
    case (Push xs)
    obtain n q1 where st: "push xs q = (n, q1)" by fastforce
    obtain ins1 outs1 q2 where rest: "queue_run push pop ops q1 = (ins1, outs1, q2)"
      by (cases "queue_run push pop ops q1") auto
    from push_law [OF Cons.prems(1) st] Cons.IH [OF _ rest] Cons.prems(2,3) Push st rest
    show ?thesis by auto
  next
    case (Pop k)
    obtain ys q1 where st: "pop k q = (ys, q1)" by fastforce
    obtain ins1 outs1 q2 where rest: "queue_run push pop ops q1 = (ins1, outs1, q2)"
      by (cases "queue_run push pop ops q1") auto
    from pop_law [OF Cons.prems(1) st] Cons.IH [OF _ rest] Cons.prems(2,3) Pop st rest
    show ?thesis by auto
  qed
qed

end

section \<open>Index arithmetic\<close>

lemma mod_once: "a < c \<Longrightarrow> b \<le> c \<Longrightarrow> (a + b) mod c = (if a + b < c then a + b else a + b - c)" for a b c :: nat
  by (auto simp: le_mod_geq)

lemma copy_at_length: "pos + length src \<le> length dst \<Longrightarrow> length (copy_at dst pos src) = length dst"
  by (simp add: copy_at_def)

lemma copy_at_nth:
  assumes "pos + length src \<le> length dst" and "j < length dst"
  shows "copy_at dst pos src ! j =
    (if pos \<le> j \<and> j < pos + length src then src ! (j - pos) else dst ! j)"
  using assms by (auto simp: copy_at_def nth_append)

lemma ring_ok_pos: "ring_ok r \<Longrightarrow> 0 < capacity r"
  by (auto simp: ring_ok_def PIPE_MIN_CAPACITY_def)

lemma available_read_le: "ring_ok r \<Longrightarrow> available_read r \<le> capacity r"
  by (auto simp: ring_ok_def available_read_def)

lemma available_sum: "ring_ok r \<Longrightarrow> available_write r = capacity r - available_read r"
  by (auto simp: ring_ok_def available_write_def available_read_def)

lemma ring_tail: "ring_ok r \<Longrightarrow> pr_tail r = (pr_head r + available_read r) mod capacity r"
  by (auto simp: ring_ok_def available_read_def)

lemma length_ring_contents [simp]: "length (ring_contents r) = available_read r"
  by (simp add: ring_contents_def)

lemma ring_contents_nth:
  "i < available_read r \<Longrightarrow> ring_contents r ! i = pr_arr r ! ((pr_head r + i) mod capacity r)"
  by (simp add: ring_contents_def)

text \<open>
  The occupied length is determined by head, tail and status: after bytes came in it is positive,
  after bytes went out it is less than the capacity.
\<close>

lemma advance_tail_available:
  assumes "ring_ok r" and "0 < n" and "n \<le> available_write r"
  shows "ring_ok (advance_tail n r) \<and> available_read (advance_tail n r) = available_read r + n"
proof -
  let ?c = "capacity r" and ?h = "pr_head r" and ?m = "available_read r + n"
  from assms(1,3) available_sum available_read_le have m: "?m \<le> ?c" by fastforce
  from assms(1) have h: "?h < ?c" by (simp add: ring_ok_def)
  have "(pr_tail r + n) mod ?c = (?h + ?m) mod ?c"
    using ring_tail [OF assms(1)] by (metis add.assoc mod_add_left_eq)
  also have "\<dots> = (if ?h + ?m < ?c then ?h + ?m else ?h + ?m - ?c)" by (rule mod_once [OF h m])
  finally have t: "(pr_tail r + n) mod ?c = (if ?h + ?m < ?c then ?h + ?m else ?h + ?m - ?c)" .
  have c: "capacity (advance_tail n r) = ?c" by (simp add: advance_tail_def capacity_def Let_def)
  show ?thesis
    using assms(1,2) h m c unfolding advance_tail_def Let_def t
    by (auto simp: ring_ok_def available_read_def split: if_splits)
qed

lemma advance_head_available:
  assumes "ring_ok r" and "0 < n" and "n \<le> available_read r"
  shows "ring_ok (advance_head n r) \<and> available_read (advance_head n r) = available_read r - n"
proof -
  let ?c = "capacity r" and ?h = "pr_head r" and ?t = "pr_tail r"
  from assms(1) have h: "?h < ?c" "?t < ?c" by (simp_all add: ring_ok_def)
  have m: "n \<le> ?c" using assms(3) available_read_le [OF assms(1)] by simp
  have t: "(?h + n) mod ?c = (if ?h + n < ?c then ?h + n else ?h + n - ?c)" by (rule mod_once [OF h(1) m])
  have c: "capacity (advance_head n r) = ?c" by (simp add: advance_head_def capacity_def Let_def)
  show ?thesis
    using assms h m c unfolding advance_head_def Let_def t
    by (auto simp: ring_ok_def available_read_def split: if_splits)
qed

section \<open>Writing\<close>

lemma ring_append:
  assumes ok: "ring_ok r" and n: "0 < length src" "length src \<le> available_write r"
    and w: "wrapped_copy (pr_arr r) (pr_tail r) src arr'"
  defines "r' \<equiv> advance_tail (length src) (r\<lparr>pr_arr := arr'\<rparr>)"
  shows "ring_ok r' \<and> ring_contents r' = ring_contents r @ src \<and> capacity r' = capacity r"
proof -
  let ?r1 = "r\<lparr>pr_arr := arr'\<rparr>" and ?c = "capacity r" and ?a = "available_read r"
  let ?h = "pr_head r" and ?t = "pr_tail r"
  from w have len: "length arr' = ?c" by (simp add: wrapped_copy_def capacity_def)
  then have same: "ring_ok ?r1 = ring_ok r" "available_write ?r1 = available_write r"
    "available_read ?r1 = ?a"
    by (simp_all add: ring_ok_def available_write_def available_read_def capacity_def)
  with advance_tail_available [of ?r1 "length src"] ok n
  have ok': "ring_ok r'" and av: "available_read r' = ?a + length src" by (simp_all add: r'_def)
  have c': "capacity r' = ?c" using len by (simp add: r'_def advance_tail_def capacity_def Let_def)
  have a: "?a + length src \<le> ?c" using n available_sum [OF ok] available_read_le [OF ok] by simp
  have t: "?t = (?h + ?a) mod ?c" by (rule ring_tail [OF ok])
  have nth: "arr' ! ((?t + i) mod ?c) = (if i < length src then src ! i else pr_arr r ! ((?t + i) mod ?c))"
    if "i < ?c" for i using w that by (simp add: wrapped_copy_def capacity_def)
  have "ring_contents r' ! i = (ring_contents r @ src) ! i" if i: "i < ?a + length src" for i
  proof -
    have lhs: "ring_contents r' ! i = arr' ! ((?h + i) mod ?c)"
      using i av len by (simp add: ring_contents_nth c') (simp add: r'_def advance_tail_def Let_def)
    show ?thesis
    proof (cases "i < ?a")
      case True
      have "(?t + (?c - ?a + i)) mod ?c = (?h + ?a + (?c - ?a + i)) mod ?c"
        unfolding t by (rule mod_add_left_eq)
      also have "?h + ?a + (?c - ?a + i) = ?h + i + ?c" using a by simp
      finally have eq: "(?t + (?c - ?a + i)) mod ?c = (?h + i) mod ?c" by simp
      have j: "?c - ?a + i < ?c" "\<not> ?c - ?a + i < length src" using True a by linarith+
      from nth [OF j(1)] have "arr' ! ((?h + i) mod ?c) = pr_arr r ! ((?h + i) mod ?c)"
        unfolding eq if_not_P [OF j(2)] .
      with lhs True show ?thesis by (simp add: nth_append ring_contents_nth)
    next
      case False
      have "(?t + (i - ?a)) mod ?c = (?h + ?a + (i - ?a)) mod ?c"
        unfolding t by (rule mod_add_left_eq)
      also have "?h + ?a + (i - ?a) = ?h + i" using False by simp
      finally have eq: "(?t + (i - ?a)) mod ?c = (?h + i) mod ?c" .
      have j: "i - ?a < ?c" "i - ?a < length src" using i a False by linarith+
      from nth [OF j(1)] have "arr' ! ((?h + i) mod ?c) = src ! (i - ?a)"
        unfolding eq if_P [OF j(2)] .
      with lhs False show ?thesis by (simp add: nth_append)
    qed
  qed
  then have "ring_contents r' = ring_contents r @ src"
    by (intro nth_equalityI) (simp_all add: av)
  with ok' c' show ?thesis by blast
qed

lemma wrapped_copy_straight:
  assumes "pos + length src \<le> length arr"
  shows "wrapped_copy arr pos src (copy_at arr pos src)"
proof -
  have "copy_at arr pos src ! ((pos + i) mod length arr) =
      (if i < length src then src ! i else arr ! ((pos + i) mod length arr))"
    if i: "i < length arr" for i
  proof (cases "pos + i < length arr")
    case True
    with assms show ?thesis by (simp add: copy_at_nth)
  next
    case False
    with i assms have "(pos + i) mod length arr = pos + i - length arr" by (simp add: le_mod_geq)
    moreover from i False have "pos + i - length arr < pos" by simp
    ultimately show ?thesis using assms i False by (simp add: copy_at_nth)
  qed
  with assms show ?thesis by (simp add: wrapped_copy_def copy_at_length)
qed

lemma wrapped_copy_split:
  assumes "pos < length arr" and "length src \<le> length arr" and "length arr < pos + length src"
  defines "f \<equiv> length arr - pos"
  shows "wrapped_copy arr pos src (copy_at (copy_at arr pos (take f src)) 0 (drop f src))"
proof -
  let ?a1 = "copy_at arr pos (take f src)"
  from assms have f: "pos + length (take f src) \<le> length arr" "f < length src" by simp_all
  have l1: "length ?a1 = length arr" by (rule copy_at_length [OF f(1)])
  have l2: "0 + length (drop f src) \<le> length ?a1" using assms l1 by simp
  have "copy_at ?a1 0 (drop f src) ! ((pos + i) mod length arr) =
      (if i < length src then src ! i else arr ! ((pos + i) mod length arr))"
    if i: "i < length arr" for i
  proof (cases "pos + i < length arr")
    case True
    with assms f l1 l2 show ?thesis by (auto simp: copy_at_nth)
  next
    case False
    with i assms have m: "(pos + i) mod length arr = pos + i - length arr" by (simp add: le_mod_geq)
    from i False assms(1) have j: "pos + i - length arr < pos" "pos + i - length arr < length arr"
      by linarith+
    have "copy_at ?a1 0 (drop f src) ! (pos + i - length arr) =
        (if pos + i - length arr < length src - f then drop f src ! (pos + i - length arr)
         else ?a1 ! (pos + i - length arr))"
      using copy_at_nth [OF l2, of "pos + i - length arr"] l1 j by simp
    moreover have "?a1 ! (pos + i - length arr) = arr ! (pos + i - length arr)"
      using copy_at_nth [OF f(1), of "pos + i - length arr"] j by simp
    moreover have "pos + i - length arr < length src - f \<longleftrightarrow> i < length src"
      using False assms by auto
    ultimately show ?thesis using False assms m by simp
  qed
  with l1 l2 show ?thesis by (simp add: wrapped_copy_def copy_at_length)
qed

lemma write_from_eq:
  assumes len: "len = min (length src) (available_write r)" and pos: "0 < len"
    and t: "pr_tail r < capacity r"
  defines "x \<equiv> take len src" and "f \<equiv> capacity r - pr_tail r"
  shows "write_from src r = (len, advance_tail len (r\<lparr>pr_arr :=
    (if pr_tail r + len \<le> capacity r then copy_at (pr_arr r) (pr_tail r) x
     else copy_at (copy_at (pr_arr r) (pr_tail r) (take f x)) 0 (drop f x))\<rparr>))"
proof -
  have cap: "capacity (r\<lparr>pr_arr := copy_at (pr_arr r) (pr_tail r) x\<rparr>) = capacity r" if "pr_tail r + len \<le> capacity r"
    using that len by (simp add: copy_at_length x_def capacity_def)
  have cap2: "capacity (r\<lparr>pr_arr := copy_at (copy_at (pr_arr r) (pr_tail r) (take f x)) 0 (drop f x)\<rparr>) = capacity r"
    if "\<not> pr_tail r + len \<le> capacity r" and "len \<le> capacity r"
    using that len t by (simp add: copy_at_length x_def f_def capacity_def)
  have le: "len \<le> capacity r" using len by (simp add: available_write_def split: if_splits)
  show ?thesis
  proof (cases "pr_tail r + len \<le> capacity r")
    case True
    then have "min len (capacity r - pr_tail r) = len" by simp
    with True pos cap [OF True] show ?thesis
      by (simp add: write_from_def Let_def len [symmetric] advance_tail_def x_def)
  next
    case False
    with t have "f < len" unfolding f_def by linarith
    then have "min len f = f" "0 < len - f" "take f src = take f x" "take (len - f) (drop f src) = drop f x"
      by (simp_all add: x_def drop_take)
    with False pos cap2 [OF False le] show ?thesis
      by (simp add: write_from_def Let_def len [symmetric] f_def [symmetric] advance_tail_def)
  qed
qed

lemma write_from_spec:
  assumes ok: "ring_ok r" and w: "write_from src r = (n, r')"
  shows "ring_ok r' \<and> n = min (length src) (available_write r) \<and>
    ring_contents r' = ring_contents r @ take n src \<and> capacity r' = capacity r"
proof (cases "min (length src) (available_write r) = 0")
  case True
  with w ok show ?thesis by (auto simp: write_from_def Let_def)
next
  case False
  define len where "len = min (length src) (available_write r)"
  let ?t = "pr_tail r" and ?f = "capacity r - pr_tail r" and ?x = "take len src"
  from ok have t: "?t < capacity r" "?t < length (pr_arr r)" by (simp_all add: ring_ok_def capacity_def)
  from False have pos: "0 < len" by (simp add: len_def)
  have x: "length ?x = len" "length ?x \<le> available_write r" "length ?x \<le> length (pr_arr r)"
    using available_sum [OF ok] by (simp_all add: len_def capacity_def)
  have wc: "wrapped_copy (pr_arr r) ?t ?x (if ?t + len \<le> capacity r then copy_at (pr_arr r) ?t ?x
       else copy_at (copy_at (pr_arr r) ?t (take ?f ?x)) 0 (drop ?f ?x))"
    using wrapped_copy_straight [of ?t ?x "pr_arr r"] wrapped_copy_split [OF t(2) x(3)] x(1)
    by (simp add: capacity_def not_le)
  from ring_append [OF ok _ x(2) wc] write_from_eq [OF len_def pos t(1)] w pos x(1)
  show ?thesis by (simp add: len_def)
qed

section \<open>Reading\<close>

lemma ring_consume:
  assumes ok: "ring_ok r" and n: "0 < n" "n \<le> available_read r"
  shows "ring_ok (advance_head n r) \<and> ring_contents (advance_head n r) = drop n (ring_contents r) \<and>
    capacity (advance_head n r) = capacity r"
proof -
  let ?r = "advance_head n r" and ?c = "capacity r" and ?h = "pr_head r"
  from advance_head_available [OF ok n] have ok': "ring_ok ?r"
    and av: "available_read ?r = available_read r - n" by blast+
  have f: "capacity ?r = ?c" "pr_arr ?r = pr_arr r" "pr_head ?r = (?h + n) mod ?c"
    by (simp_all add: advance_head_def capacity_def Let_def)
  have "ring_contents ?r ! i = drop n (ring_contents r) ! i" if i: "i < available_read r - n" for i
  proof -
    have "((?h + n) mod ?c + i) mod ?c = (?h + (n + i)) mod ?c"
      by (metis add.assoc mod_add_left_eq)
    with i show ?thesis by (simp add: ring_contents_nth av f)
  qed
  then have "ring_contents ?r = drop n (ring_contents r)"
    by (intro nth_equalityI) (simp_all add: av)
  with ok' f show ?thesis by blast
qed

text \<open>A straight piece of the array is a piece of the contents.\<close>

lemma ring_slice:
  assumes ok: "ring_ok r" and "k + len \<le> available_read r"
    and pos: "pos = (pr_head r + k) mod capacity r" and "pos + len \<le> capacity r"
  shows "take len (drop pos (pr_arr r)) = take len (drop k (ring_contents r))"
proof (rule nth_equalityI)
  show "length (take len (drop pos (pr_arr r))) = length (take len (drop k (ring_contents r)))"
    using assms by (simp add: capacity_def)
next
  fix i assume "i < length (take len (drop pos (pr_arr r)))"
  then have i: "i < len" "pos + i < capacity r" using assms(4) by (simp_all add: capacity_def)
  have "(pr_head r + (k + i)) mod capacity r = (pos + i) mod capacity r"
    unfolding pos by (metis add.assoc mod_add_left_eq)
  with i(2) have "(pr_head r + (k + i)) mod capacity r = pos + i" by simp
  with i assms(2) show "take len (drop pos (pr_arr r)) ! i = take len (drop k (ring_contents r)) ! i"
    by (simp add: ring_contents_nth capacity_def)
qed

lemma read_into_eq:
  assumes ok: "ring_ok r" and len: "len = min k (available_read r)" and pos: "0 < len"
  shows "read_into k r = (take len (ring_contents r), advance_head len r)"
proof -
  let ?c = "capacity r" and ?h = "pr_head r"
  define f where "f = ?c - ?h"
  from ok have h: "?h < ?c" by (simp add: ring_ok_def)
  have le: "len \<le> available_read r" "len \<le> ?c"
    using len available_read_le [OF ok] by simp_all
  have p1: "take (min len f) (drop ?h (pr_arr r)) = take (min len f) (ring_contents r)"
    using ring_slice [OF ok, of 0 "min len f" ?h] h le by (simp add: f_def)
  have p2: "take (len - f) (pr_arr r) = take (len - f) (drop f (ring_contents r))" if "f < len"
  proof -
    have "0 = (?h + f) mod ?c" using h by (simp add: f_def)
    moreover have "0 + (len - f) \<le> ?c" "f + (len - f) \<le> available_read r" using le that by simp_all
    ultimately show ?thesis using ring_slice [OF ok, of f "len - f" 0] by simp
  qed
  show ?thesis
  proof (cases "f < len")
    case True
    then have "take f (ring_contents r) @ take (len - f) (drop f (ring_contents r)) = take len (ring_contents r)"
      by (metis add_diff_inverse_nat not_less_iff_gr_or_eq take_add)
    with True pos p1 p2 show ?thesis
      by (simp add: read_into_def Let_def len [symmetric] f_def [symmetric] advance_head_def)
  next
    case False
    with pos p1 show ?thesis
      by (simp add: read_into_def Let_def len [symmetric] f_def [symmetric] advance_head_def)
  qed
qed

lemma read_into_spec:
  assumes ok: "ring_ok r" and rd: "read_into k r = (ys, r')"
  shows "ring_ok r' \<and> ys = take k (ring_contents r) \<and> ring_contents r' = drop k (ring_contents r) \<and>
    capacity r' = capacity r"
proof (cases "min k (available_read r) = 0")
  case True
  then have "k = 0 \<or> ring_contents r = []" by (auto simp: ring_contents_def)
  with True rd ok show ?thesis by (auto simp: read_into_def Let_def)
next
  case False
  define len where "len = min k (available_read r)"
  from False have pos: "0 < len" "len \<le> available_read r" by (simp_all add: len_def)
  from read_into_eq [OF ok len_def pos(1)] rd
  have "ys = take len (ring_contents r)" "r' = advance_head len r" by simp_all
  moreover have "take len (ring_contents r) = take k (ring_contents r)"
    "drop len (ring_contents r) = drop k (ring_contents r)"
    by (auto simp: len_def min_def)
  ultimately show ?thesis using ring_consume [OF ok pos] by simp
qed

interpretation ring: bounded_byte_queue ring_ok ring_contents available_write write_from read_into
proof unfold_locales
  fix q xs n q' assume ok: "ring_ok q" and w: "write_from xs q = (n, q')"
  note spec = write_from_spec [OF this]
  then have c: "ring_contents q' = ring_contents q @ take n xs" and n: "n \<le> length xs" by simp_all
  from arg_cong [OF c, of length] n have "available_read q' = available_read q + n" by simp
  with spec available_sum [OF ok] available_sum [of q']
  show "ring_ok q' \<and> n = min (length xs) (available_write q) \<and>
    ring_contents q' = ring_contents q @ take n xs \<and> available_write q' = available_write q - n"
    by simp
next
  fix q k ys q' assume ok: "ring_ok q" and w: "read_into k q = (ys, q')"
  note spec = read_into_spec [OF this]
  then have c: "ring_contents q' = drop k (ring_contents q)" by simp
  from arg_cong [OF c, of length] have "available_read q' = available_read q - k" by simp
  with spec available_sum [OF ok] available_sum [of q'] available_read_le [OF ok]
  show "ring_ok q' \<and> ys = take k (ring_contents q) \<and> ring_contents q' = drop k (ring_contents q) \<and>
    available_write q' = available_write q + length ys"
    by auto
qed

lemma ring_new_ok: "ring_ok (ring_new n)" "ring_contents (ring_new n) = []"
  "capacity (ring_new n) = max n PIPE_MIN_CAPACITY"
  by (auto simp: ring_ok_def ring_new_def Let_def capacity_def ring_contents_def available_read_def
      PIPE_MIN_CAPACITY_def)

section \<open>Moving and copying between two rings\<close>

lemma contiguous_read_bounds:
  assumes "ring_ok r" and "0 < available_read r"
  shows "0 < contiguous_read_len r \<and> contiguous_read_len r \<le> available_read r \<and>
    pr_head r + contiguous_read_len r \<le> capacity r"
  using assms by (auto simp: contiguous_read_len_def ring_ok_def available_read_def split: if_splits)

lemma contiguous_write_bounds:
  assumes "ring_ok r" and "0 < available_write r"
  shows "0 < contiguous_write_len r \<and> contiguous_write_len r \<le> available_write r \<and>
    pr_tail r + contiguous_write_len r \<le> capacity r"
  using assms by (auto simp: contiguous_write_len_def ring_ok_def)

lemma append_chunk_spec:
  assumes ok: "ring_ok r" and b: "0 < length bytes" "length bytes \<le> available_write r"
    and "pr_tail r + length bytes \<le> capacity r"
  shows "ring_ok (append_chunk bytes r) \<and> ring_contents (append_chunk bytes r) = ring_contents r @ bytes \<and>
    capacity (append_chunk bytes r) = capacity r \<and>
    available_write (append_chunk bytes r) = available_write r - length bytes"
proof -
  have wc: "wrapped_copy (pr_arr r) (pr_tail r) bytes (copy_at (pr_arr r) (pr_tail r) bytes)"
    using assms(4) by (intro wrapped_copy_straight) (simp add: capacity_def)
  let ?r = "append_chunk bytes r"
  from ring_append [OF ok b wc] have s: "ring_ok ?r" "ring_contents ?r = ring_contents r @ bytes"
    "capacity ?r = capacity r" by (simp_all add: append_chunk_def)
  from arg_cong [OF s(2), of length] have "available_read ?r = available_read r + length bytes" by simp
  with s available_sum [OF ok] available_sum [OF s(1)] show ?thesis by simp
qed

lemma transfer_loop_spec:
  assumes "ring_ok inp" and "ring_ok out" and "remaining \<le> available_read inp"
    and "remaining \<le> available_write out"
  shows "\<exists>inp' out'. transfer_loop remaining moved inp out = (moved + remaining, inp', out') \<and>
    ring_ok inp' \<and> ring_ok out' \<and> ring_contents inp' = drop remaining (ring_contents inp) \<and>
    ring_contents out' = ring_contents out @ take remaining (ring_contents inp)"
  using assms
proof (induction remaining moved inp out rule: transfer_loop.induct)
  case (1 remaining moved inp out)
  show ?case
  proof (cases "remaining = 0")
    case True
    with 1(2,3) show ?thesis by (simp add: transfer_loop.simps)
  next
    case False
    define ch where "ch = min (min remaining (contiguous_read_len inp)) (contiguous_write_len out)"
    let ?b = "take ch (drop (pr_head inp) (pr_arr inp))"
    let ?inp = "advance_head ch inp" and ?out = "append_chunk ?b out"
    have c: "0 < ch" "ch \<le> remaining" "pr_head inp + ch \<le> capacity inp" "pr_tail out + ch \<le> capacity out"
      using contiguous_read_bounds [OF 1(2)] contiguous_write_bounds [OF 1(3)] 1(4,5) False
      unfolding ch_def by linarith+
    have b: "length ?b = ch" using c(3) by (simp add: capacity_def)
    have bytes: "?b = take ch (ring_contents inp)"
      using ring_slice [OF 1(2), of 0 ch "pr_head inp"] c 1(2,4) by (simp add: ring_ok_def)
    have i: "ring_ok ?inp" "ring_contents ?inp = drop ch (ring_contents inp)"
      using ring_consume [OF 1(2) c(1)] c(2) 1(4) by simp_all
    have o: "ring_ok ?out" "ring_contents ?out = ring_contents out @ ?b"
      "available_write ?out = available_write out - ch"
      using append_chunk_spec [OF 1(3), of ?b] b c 1(5) by simp_all
    have "remaining - ch \<le> available_read ?inp" "remaining - ch \<le> available_write ?out"
      using arg_cong [OF i(2), of length] 1(4,5) o(3) by simp_all
    from 1(1) [OF False ch_def _ i(1) o(1) this] c(1) obtain inp' out' where
      r: "transfer_loop (remaining - ch) (moved + ch) ?inp ?out = (moved + ch + (remaining - ch), inp', out')"
         "ring_ok inp'" "ring_ok out'" "ring_contents inp' = drop (remaining - ch) (ring_contents ?inp)"
         "ring_contents out' = ring_contents ?out @ take (remaining - ch) (ring_contents ?inp)"
      by auto
    have "take ch (ring_contents inp) @ take (remaining - ch) (drop ch (ring_contents inp)) =
        take remaining (ring_contents inp)"
      using c(2) by (metis le_add_diff_inverse take_add)
    with r c False i o bytes show ?thesis
      by (simp add: transfer_loop.simps [of remaining] ch_def [symmetric] Let_def)
  qed
qed

lemma transfer_to_spec:
  assumes "ring_ok inp" and "ring_ok out"
    and n_def: "n = min (min len (available_read inp)) (available_write out)"
  shows "\<exists>inp' out'. transfer_to len inp out = (n, inp', out') \<and> ring_ok inp' \<and> ring_ok out' \<and>
    ring_contents inp' = drop n (ring_contents inp) \<and>
    ring_contents out' = ring_contents out @ take n (ring_contents inp)"
  using transfer_loop_spec [OF assms(1,2), of n 0] by (simp add: transfer_to_def n_def)

lemma duplicate_loop_spec:
  assumes "ring_ok inp" and "ring_ok out" and "k + remaining \<le> available_read inp"
    and "read_pos = (pr_head inp + k) mod capacity inp" and "remaining \<le> available_write out"
  shows "\<exists>out'. duplicate_loop remaining read_pos copied inp out = (copied + remaining, out') \<and>
    ring_ok out' \<and> ring_contents out' = ring_contents out @ take remaining (drop k (ring_contents inp))"
  using assms
proof (induction remaining read_pos copied inp out arbitrary: k rule: duplicate_loop.induct)
  case (1 remaining read_pos copied inp out)
  show ?case
  proof (cases "remaining = 0")
    case True
    with 1(3) show ?thesis by (simp add: duplicate_loop.simps)
  next
    case False
    define ch where "ch = min (min remaining (contiguous_read_len_from read_pos inp)) (contiguous_write_len out)"
    let ?b = "take ch (drop read_pos (pr_arr inp))"
    let ?out = "append_chunk ?b out"
    have p: "read_pos < capacity inp" using 1(5) ring_ok_pos [OF 1(2)] by simp
    have t: "pr_tail inp < capacity inp" using 1(2) by (simp add: ring_ok_def)
    have "0 < contiguous_read_len_from read_pos inp"
      "read_pos + contiguous_read_len_from read_pos inp \<le> capacity inp"
      using p t False 1(4) by (auto simp: contiguous_read_len_from_def)
    then have c: "0 < ch" "ch \<le> remaining" "read_pos + ch \<le> capacity inp" "pr_tail out + ch \<le> capacity out"
      using contiguous_write_bounds [OF 1(3)] 1(6) False unfolding ch_def by linarith+
    have b: "length ?b = ch" using c(3) by (simp add: capacity_def)
    have bytes: "?b = take ch (drop k (ring_contents inp))"
      using ring_slice [OF 1(2) _ 1(5) c(3)] c(2) 1(4) by simp
    have o: "ring_ok ?out" "ring_contents ?out = ring_contents out @ ?b"
      "available_write ?out = available_write out - ch"
      using append_chunk_spec [OF 1(3), of ?b] b c 1(6) by simp_all
    have pos: "(read_pos + ch) mod capacity inp = (pr_head inp + (k + ch)) mod capacity inp"
      unfolding 1(5) by (metis add.assoc mod_add_left_eq)
    have "k + ch + (remaining - ch) \<le> available_read inp" "remaining - ch \<le> available_write ?out"
      using c(2) 1(4,6) o(3) by simp_all
    from 1(1) [OF False ch_def _ 1(2) o(1) this(1) pos this(2)] c(1) obtain out' where
      r: "duplicate_loop (remaining - ch) ((read_pos + ch) mod capacity inp) (copied + ch) inp ?out =
          (copied + ch + (remaining - ch), out')" "ring_ok out'"
         "ring_contents out' = ring_contents ?out @ take (remaining - ch) (drop (k + ch) (ring_contents inp))"
      by auto
    have "take ch (drop k (ring_contents inp)) @ take (remaining - ch) (drop (k + ch) (ring_contents inp)) =
        take remaining (drop k (ring_contents inp))"
      using c(2) by (metis add.commute drop_drop le_add_diff_inverse take_add)
    with r c False o bytes show ?thesis
      by (simp add: duplicate_loop.simps [of remaining] ch_def [symmetric] Let_def)
  qed
qed

lemma duplicate_to_spec:
  assumes "ring_ok inp" and "ring_ok out"
    and n_def: "n = min (min len (available_read inp)) (available_write out)"
  shows "\<exists>out'. duplicate_to len inp out = (n, out') \<and> ring_ok out' \<and>
    ring_contents out' = ring_contents out @ take n (ring_contents inp)"
proof -
  have "pr_head inp = (pr_head inp + 0) mod capacity inp" using assms(1) by (simp add: ring_ok_def)
  from duplicate_loop_spec [OF assms(1,2) _ this, of n 0] show ?thesis
    by (simp add: duplicate_to_def n_def)
qed

section \<open>Resizing\<close>

lemma resize_eq:
  "resize requested r =
     (if max requested PIPE_MIN_CAPACITY < available_read r then Inl FsBusy
      else Inr (max requested PIPE_MIN_CAPACITY, r\<lparr>
        pr_arr := ring_contents r @ replicate (max requested PIPE_MIN_CAPACITY - available_read r) 0,
        pr_head := 0,
        pr_tail := (if available_read r = max requested PIPE_MIN_CAPACITY then 0 else available_read r),
        pr_status := (if available_read r = 0 then Empty
          else if available_read r = max requested PIPE_MIN_CAPACITY then Full else Normal)\<rparr>))"
  unfolding resize_def Let_def ring_contents_def ..

lemma resize_spec:
  assumes "resize requested r = Inr (n, r')"
  shows "n = max requested PIPE_MIN_CAPACITY \<and> ring_ok r' \<and> capacity r' = n \<and>
    ring_contents r' = ring_contents r"
proof -
  have fits: "\<not> max requested PIPE_MIN_CAPACITY < available_read r"
  proof
    assume "max requested PIPE_MIN_CAPACITY < available_read r"
    with assms show False unfolding resize_eq by (simp only: if_P sum.distinct)
  qed
  from assms have n: "n = max requested PIPE_MIN_CAPACITY"
    and eq: "r' = r\<lparr>pr_arr := ring_contents r @ replicate (n - available_read r) 0, pr_head := 0,
      pr_tail := (if available_read r = n then 0 else available_read r),
      pr_status := (if available_read r = 0 then Empty else if available_read r = n then Full else Normal)\<rparr>"
    unfolding resize_eq if_not_P [OF fits]
    by (simp_all only: sum.inject prod.inject) (elim conjE, hypsubst, rule refl)
  from fits n have le: "available_read r \<le> n" by linarith
  from eq have r': "pr_arr r' = ring_contents r @ replicate (n - available_read r) 0" "pr_head r' = 0"
    "pr_tail r' = (if available_read r = n then 0 else available_read r)"
    "pr_status r' = (if available_read r = 0 then Empty else if available_read r = n then Full else Normal)"
    by simp_all
  have cap: "capacity r' = n" using le by (simp add: capacity_def r')
  have pos: "0 < n" using n by (simp add: PIPE_MIN_CAPACITY_def)
  have av: "available_read r' = available_read r"
    using le pos cap by (simp add: available_read_def [of r'] r')
  have "ring_ok r'" using n le cap pos by (simp add: ring_ok_def r')
  moreover have "ring_contents r' = ring_contents r"
    using le by (intro nth_equalityI) (simp_all add: av ring_contents_nth [of _ r'] cap r' nth_append)
  ultimately show ?thesis using n cap by blast
qed

end
