(* ===== verification/Pipe.thy ===== *)
theory Pipe
  imports Pipe_Ring
begin

text \<open>
  Pipes (\<open>os/src/fs/pipe.rs\<close>): the read, write, splice, tee, poll and close paths over the
  ring buffer.

  A blocking call is a loop that takes the ring lock, tries, and either returns or goes to sleep.
  One pass under the lock is an attempt: \<open>Return\<close> ends the call, \<open>Again\<close> means that the loop goes
  round (after a sleep, or after a partial write). What an attempt observes of the rest of the
  kernel is a \<open>pipe_env\<close>: whether a signal is pending, whether the scheduler agreed to block the
  current task, and which pipe ends are still open (the upgrade of a weak reference). The
  complete call runs attempts over a list of such observations, each with the change that other
  tasks made to the pipe before it. A \<open>UserBuffer\<close> is a list of segments; a read is given
  the segment lengths. The tasks to be woken are part of the result, in the order of the source.
\<close>

section \<open>Definitions\<close>

datatype ('r, 'c) step = Return 'r | Again 'c

record pipe =
  pp_readable :: bool
  pp_writable :: bool
  pp_buffer :: nat
  pp_status_flags :: u32

definition O_RDONLY :: u32 where "O_RDONLY = 0"
definition O_WRONLY :: u32 where "O_WRONLY = 1"
definition O_NONBLOCK :: u32 where "O_NONBLOCK = 0x800"

definition nonblock :: "u32 \<Rightarrow> bool" where
  "nonblock flags \<longleftrightarrow> flags AND O_NONBLOCK = O_NONBLOCK"

definition read_end_with_buffer :: "nat \<Rightarrow> pipe" where
  "read_end_with_buffer b =
     \<lparr>pp_readable = True, pp_writable = False, pp_buffer = b, pp_status_flags = O_RDONLY\<rparr>"

definition write_end_with_buffer :: "nat \<Rightarrow> pipe" where
  "write_end_with_buffer b =
     \<lparr>pp_readable = False, pp_writable = True, pp_buffer = b, pp_status_flags = O_WRONLY\<rparr>"

record pipe_env =
  pe_interrupted :: bool
  pe_block :: "task_id option"
  pe_alive :: "nat \<Rightarrow> bool"

definition all_write_ends_closed :: "(nat \<Rightarrow> bool) \<Rightarrow> pipe_ring \<Rightarrow> bool" where
  "all_write_ends_closed alive r = (case pr_write_end r of Some p \<Rightarrow> \<not> alive p | None \<Rightarrow> True)"

definition all_read_ends_closed :: "(nat \<Rightarrow> bool) \<Rightarrow> pipe_ring \<Rightarrow> bool" where
  "all_read_ends_closed alive r = (case pr_read_end r of Some p \<Rightarrow> \<not> alive p | None \<Rightarrow> True)"

definition sleep_reader :: "task_id option \<Rightarrow> pipe_ring \<Rightarrow> pipe_ring option" where
  "sleep_reader block r = map_option (\<lambda>task. r\<lparr>pr_read_wait := pr_read_wait r @ [task]\<rparr>) block"

definition sleep_writer :: "task_id option \<Rightarrow> pipe_ring \<Rightarrow> pipe_ring option" where
  "sleep_writer block r = map_option (\<lambda>task. r\<lparr>pr_write_wait := pr_write_wait r @ [task]\<rparr>) block"

definition wake_reader :: "pipe_ring \<Rightarrow> task_id option \<times> pipe_ring" where
  "wake_reader r = (case pop_front (pr_read_wait r) of (t, q) \<Rightarrow> (t, r\<lparr>pr_read_wait := q\<rparr>))"

definition wake_writer :: "pipe_ring \<Rightarrow> task_id option \<times> pipe_ring" where
  "wake_writer r = (case pop_front (pr_write_wait r) of (t, q) \<Rightarrow> (t, r\<lparr>pr_write_wait := q\<rparr>))"

definition wake_all_readers :: "pipe_ring \<Rightarrow> task_id list \<times> pipe_ring" where
  "wake_all_readers r = (pr_read_wait r, r\<lparr>pr_read_wait := []\<rparr>)"

definition wake_all_writers :: "pipe_ring \<Rightarrow> task_id list \<times> pipe_ring" where
  "wake_all_writers r = (pr_write_wait r, r\<lparr>pr_write_wait := []\<rparr>)"

definition wake_read_poll_waiters ::
  "pipe_ring \<Rightarrow> waiter_store \<Rightarrow> waiter_id list \<times> pipe_ring \<times> waiter_store" where
  "wake_read_poll_waiters r ws =
     (case pwq_drain (pr_read_poll r) ws of (is, q, ws') \<Rightarrow> (is, r\<lparr>pr_read_poll := q\<rparr>, ws'))"

definition wake_write_poll_waiters ::
  "pipe_ring \<Rightarrow> waiter_store \<Rightarrow> waiter_id list \<times> pipe_ring \<times> waiter_store" where
  "wake_write_poll_waiters r ws =
     (case pwq_drain (pr_write_poll r) ws of (is, q, ws') \<Rightarrow> (is, r\<lparr>pr_write_poll := q\<rparr>, ws'))"

definition wake_task :: "task_id option \<Rightarrow> task_id list" where
  "wake_task t = (case t of None \<Rightarrow> [] | Some x \<Rightarrow> [x])"

text \<open>The wakeups after a ring gave bytes out (writers) or took bytes in (readers).\<close>

definition notify_writers ::
  "pipe_ring \<Rightarrow> waiter_store \<Rightarrow> pipe_ring \<times> waiter_store \<times> task_id list" where
  "notify_writers r ws =
     (case wake_writer r of (writer, r1) \<Rightarrow>
      case wake_write_poll_waiters r1 ws of (polls, r2, ws1) \<Rightarrow>
      case wake_all polls ws1 of (tasks, ws2) \<Rightarrow> (r2, ws2, wake_task writer @ tasks))"

definition notify_readers ::
  "pipe_ring \<Rightarrow> waiter_store \<Rightarrow> pipe_ring \<times> waiter_store \<times> task_id list" where
  "notify_readers r ws =
     (case wake_reader r of (reader, r1) \<Rightarrow>
      case wake_read_poll_waiters r1 ws of (polls, r2, ws1) \<Rightarrow>
      case wake_all polls ws1 of (tasks, ws2) \<Rightarrow> (r2, ws2, wake_task reader @ tasks))"

subsection \<open>Reading\<close>

fun read_segments :: "nat \<Rightarrow> nat \<Rightarrow> nat list \<Rightarrow> pipe_ring \<Rightarrow> u8 list \<times> pipe_ring" where
  "read_segments loop_read copied [] r = ([], r)"
| "read_segments loop_read copied (seg # segs) r =
     (if copied = loop_read then ([], r)
      else
        (let len = min seg (loop_read - copied)
         in case read_into len r of (bytes, r1) \<Rightarrow>
            case read_segments loop_read (copied + length bytes) segs r1 of (rest, r2) \<Rightarrow>
              (bytes @ rest, r2)))"

definition pipe_read_attempt ::
  "pipe_env \<Rightarrow> nat list \<Rightarrow> pipe_ring \<Rightarrow> waiter_store
    \<Rightarrow> (u8 list, unit) step \<times> pipe_ring \<times> waiter_store \<times> task_id list" where
  "pipe_read_attempt env segs r ws =
     (let loop_read = min (available_read r) (sum_list segs)
      in if loop_read = 0 then
           (if all_write_ends_closed (pe_alive env) r then (Return [], r, ws, [])
            else if pe_interrupted env then (Return [], r, ws, [])
            else case sleep_reader (pe_block env) r of
                None \<Rightarrow> (Return [], r, ws, [])
              | Some r' \<Rightarrow> (Again (), r', ws, []))
         else
           (case read_segments loop_read 0 segs r of (bytes, r1) \<Rightarrow>
            case notify_writers r1 ws of (r2, ws2, woken) \<Rightarrow> (Return bytes, r2, ws2, woken)))"

type_synonym pipe_others = "pipe_ring \<times> waiter_store \<Rightarrow> pipe_ring \<times> waiter_store"

text \<open>
  The call: the observations of its attempts, each after what the other tasks did. \<open>None\<close>: the
  observations ran out and the call is still in its loop.
\<close>

fun read_loop ::
  "(pipe_others \<times> pipe_env) list \<Rightarrow> nat list \<Rightarrow> pipe_ring \<Rightarrow> waiter_store
    \<Rightarrow> (u8 list \<times> pipe_ring \<times> waiter_store \<times> task_id list) option" where
  "read_loop [] segs r ws = None"
| "read_loop ((others, env) # es) segs r ws =
     (case others (r, ws) of (r0, ws0) \<Rightarrow>
      case pipe_read_attempt env segs r0 ws0 of
        (Return bytes, r1, ws1, woken) \<Rightarrow> Some (bytes, r1, ws1, woken)
      | (Again _, r1, ws1, woken) \<Rightarrow> read_loop es segs r1 ws1)"

definition read_with_status_flags ::
  "(pipe_others \<times> pipe_env) list \<Rightarrow> nat list \<Rightarrow> pipe_ring \<Rightarrow> waiter_store
    \<Rightarrow> (u8 list \<times> pipe_ring \<times> waiter_store \<times> task_id list) option" where
  "read_with_status_flags es segs r ws =
     (if sum_list segs = 0 then Some ([], r, ws, []) else read_loop es segs r ws)"

subsection \<open>Writing\<close>

fun write_segments ::
  "nat \<Rightarrow> nat \<Rightarrow> nat \<Rightarrow> nat \<Rightarrow> u8 list list \<Rightarrow> pipe_ring \<Rightarrow> nat \<times> pipe_ring" where
  "write_segments already write_len skipped written [] r = (written, r)"
| "write_segments already write_len skipped written (seg # segs) r =
     (if skipped + length seg \<le> already
      then write_segments already write_len (skipped + length seg) written segs r
      else
        (let source = drop (already - skipped) seg;
             len = min (length source) (write_len - written)
         in case write_from (take len source) r of (n, r1) \<Rightarrow>
            if written + n = write_len then (written + n, r1)
            else write_segments already write_len (skipped + length seg) (written + n) segs r1))"

definition pipe_write_attempt ::
  "pipe_env \<Rightarrow> u32 \<Rightarrow> u8 list list \<Rightarrow> nat \<Rightarrow> pipe_ring \<Rightarrow> waiter_store
    \<Rightarrow> (nat, nat) step \<times> pipe_ring \<times> waiter_store \<times> task_id list" where
  "pipe_write_attempt env flags segs already r ws =
     (if all_read_ends_closed (pe_alive env) r then (Return already, r, ws, [])
      else
        (let loop_write = available_write r; want = length (concat segs)
         in if loop_write = 0 then
              (if nonblock flags then (Return already, r, ws, [])
               else if pe_interrupted env then (Return already, r, ws, [])
               else case sleep_writer (pe_block env) r of
                   None \<Rightarrow> (Return already, r, ws, [])
                 | Some r' \<Rightarrow> (Again already, r', ws, []))
            else
              (case write_segments already (min loop_write (want - already)) 0 0 segs r of
                 (written, r1) \<Rightarrow>
               case notify_readers r1 ws of (r2, ws2, woken) \<Rightarrow>
                 ((if already + written = want then Return want else Again (already + written)),
                  r2, ws2, woken))))"

fun write_loop ::
  "(pipe_others \<times> pipe_env) list \<Rightarrow> u32 \<Rightarrow> u8 list list \<Rightarrow> nat \<Rightarrow> pipe_ring \<Rightarrow> waiter_store
    \<Rightarrow> (nat \<times> pipe_ring \<times> waiter_store) option" where
  "write_loop [] flags segs already r ws = None"
| "write_loop ((others, env) # es) flags segs already r ws =
     (case others (r, ws) of (r0, ws0) \<Rightarrow>
      case pipe_write_attempt env flags segs already r0 ws0 of
        (Return n, r1, ws1, woken) \<Rightarrow> Some (n, r1, ws1)
      | (Again already', r1, ws1, woken) \<Rightarrow> write_loop es flags segs already' r1 ws1)"

definition write_with_status_flags ::
  "(pipe_others \<times> pipe_env) list \<Rightarrow> u32 \<Rightarrow> u8 list list \<Rightarrow> pipe_ring \<Rightarrow> waiter_store
    \<Rightarrow> (nat \<times> pipe_ring \<times> waiter_store) option" where
  "write_with_status_flags es flags segs r ws =
     (if length (concat segs) = 0 then Some (0, r, ws) else write_loop es flags segs 0 r ws)"

subsection \<open>Splice and tee\<close>

definition splice_pipe_to_pipe ::
  "pipe \<Rightarrow> pipe \<Rightarrow> nat \<Rightarrow> pipe_ring \<Rightarrow> pipe_ring \<Rightarrow> waiter_store
    \<Rightarrow> fs_error + (nat \<times> pipe_ring \<times> pipe_ring \<times> waiter_store \<times> task_id list)" where
  "splice_pipe_to_pipe p out len rin rout ws =
     (if \<not> pp_readable p \<or> \<not> pp_writable out then Inl FsInvalidInput
      else if pp_buffer p = pp_buffer out then Inl FsInvalidInput
      else
        (case transfer_to len rin rout of (moved, rin1, rout1) \<Rightarrow>
           if 0 < moved then
             (case wake_writer rin1 of (writer, rin2) \<Rightarrow>
              case wake_reader rout1 of (reader, rout2) \<Rightarrow>
              case wake_write_poll_waiters rin2 ws of (poll_writers, rin3, ws1) \<Rightarrow>
              case wake_read_poll_waiters rout2 ws1 of (poll_readers, rout3, ws2) \<Rightarrow>
              case wake_all poll_writers ws2 of (tasks1, ws3) \<Rightarrow>
              case wake_all poll_readers ws3 of (tasks2, ws4) \<Rightarrow>
                Inr (moved, rin3, rout3, ws4, wake_task writer @ wake_task reader @ tasks1 @ tasks2))
           else Inr (moved, rin1, rout1, ws, [])))"

text \<open>One pass of the loop of \<open>tee_pipe_to_pipe\<close> (\<open>PipeTeeStep\<close>), with both ring locks held.\<close>

definition tee_attempt ::
  "pipe_env \<Rightarrow> nat \<Rightarrow> pipe_ring \<Rightarrow> pipe_ring \<Rightarrow> waiter_store
    \<Rightarrow> (nat, unit) step \<times> pipe_ring \<times> pipe_ring \<times> waiter_store \<times> task_id list" where
  "tee_attempt env len rin rout ws =
     (if available_read rin = 0 then
        (if all_write_ends_closed (pe_alive env) rin \<or> pe_interrupted env
         then (Return 0, rin, rout, ws, [])
         else case sleep_reader (pe_block env) rin of
             Some rin' \<Rightarrow> (Again (), rin', rout, ws, [])
           | None \<Rightarrow> (Return 0, rin, rout, ws, []))
      else if available_write rout = 0 then
        (if all_read_ends_closed (pe_alive env) rout \<or> pe_interrupted env
         then (Return 0, rin, rout, ws, [])
         else case sleep_writer (pe_block env) rout of
             Some rout' \<Rightarrow> (Again (), rin, rout', ws, [])
           | None \<Rightarrow> (Return 0, rin, rout, ws, []))
      else
        (case duplicate_to len rin rout of (copied, rout1) \<Rightarrow>
           if 0 < copied then
             (case notify_readers rout1 ws of (rout2, ws2, woken) \<Rightarrow>
                (Return copied, rin, rout2, ws2, woken))
           else (Return copied, rin, rout1, ws, [])))"

fun tee_loop ::
  "((pipe_ring \<times> pipe_ring \<times> waiter_store \<Rightarrow> pipe_ring \<times> pipe_ring \<times> waiter_store) \<times> pipe_env) list
    \<Rightarrow> nat \<Rightarrow> pipe_ring \<Rightarrow> pipe_ring \<Rightarrow> waiter_store
    \<Rightarrow> (nat \<times> pipe_ring \<times> pipe_ring \<times> waiter_store \<times> task_id list) option" where
  "tee_loop [] len rin rout ws = None"
| "tee_loop ((others, env) # es) len rin rout ws =
     (case others (rin, rout, ws) of (rin0, rout0, ws0) \<Rightarrow>
      case tee_attempt env len rin0 rout0 ws0 of
        (Return n, rin1, rout1, ws1, woken) \<Rightarrow> Some (n, rin1, rout1, ws1, woken)
      | (Again _, rin1, rout1, ws1, woken) \<Rightarrow> tee_loop es len rin1 rout1 ws1)"

definition tee_pipe_to_pipe where
  "tee_pipe_to_pipe es p out len rin rout ws =
     (if \<not> pp_readable p \<or> \<not> pp_writable out then Inl FsInvalidInput
      else if pp_buffer p = pp_buffer out then Inl FsInvalidInput
      else if len = 0 then Inr (Some (0, rin, rout, ws, []))
      else Inr (tee_loop es len rin rout ws))"

subsection \<open>Creation, close and poll\<close>

definition default_pipe_capacity_for_credentials_root :: "nat \<Rightarrow> bool \<Rightarrow> nat" where
  "default_pipe_capacity_for_credentials_root pipe_max_size is_root =
     (if is_root then PIPE_DEFAULT_CAPACITY else min PIPE_DEFAULT_CAPACITY pipe_max_size)"

text \<open>The ids of the two ends and of the buffer are fresh object identities.\<close>

definition make_pipe :: "nat \<Rightarrow> nat \<Rightarrow> nat \<Rightarrow> nat \<Rightarrow> pipe \<times> pipe \<times> pipe_ring" where
  "make_pipe rid wid bid cap =
     (read_end_with_buffer bid, write_end_with_buffer bid,
      set_write_end wid (set_read_end rid (ring_new cap)))"

definition pipe_drop ::
  "pipe \<Rightarrow> pipe_ring \<Rightarrow> waiter_store \<Rightarrow> pipe_ring \<times> waiter_store \<times> task_id list" where
  "pipe_drop p r ws =
     (case (if pp_writable p then wake_all_readers r else ([], r)) of (readers, r1) \<Rightarrow>
      case (if pp_readable p then wake_all_writers r1 else ([], r1)) of (writers, r2) \<Rightarrow>
      case (if pp_writable p then wake_read_poll_waiters r2 ws else ([], r2, ws)) of
        (poll_readers, r3, ws1) \<Rightarrow>
      case (if pp_readable p then wake_write_poll_waiters r3 ws1 else ([], r3, ws1)) of
        (poll_writers, r4, ws2) \<Rightarrow>
      case wake_all poll_readers ws2 of (tasks1, ws3) \<Rightarrow>
      case wake_all poll_writers ws3 of (tasks2, ws4) \<Rightarrow>
        (r4, ws4, readers @ writers @ tasks1 @ tasks2))"

definition pipe_readers_closed :: "(nat \<Rightarrow> bool) \<Rightarrow> pipe \<Rightarrow> pipe_ring \<Rightarrow> bool" where
  "pipe_readers_closed alive p r \<longleftrightarrow> pp_writable p \<and> all_read_ends_closed alive r"

definition poll_ready :: "(nat \<Rightarrow> bool) \<Rightarrow> pipe \<Rightarrow> u16 \<Rightarrow> pipe_ring \<Rightarrow> u16" where
  "poll_ready alive p events r =
     (let has_data = 0 < available_read r;
          hangup = all_write_ends_closed alive r;
          can_write = 4096 \<le> available_write r;
          peer_closed = all_read_ends_closed alive r;
          ready1 = (if pp_readable p then
              (if intersects events (POLLIN OR POLLPRI) \<and> (has_data \<or> hangup) then POLLIN else 0)
              OR (if hangup then POLLHUP else 0) else 0);
          ready2 = (if pp_writable p then
              (if contains_flags events POLLOUT \<and> (can_write \<or> peer_closed) then POLLOUT else 0)
              OR (if peer_closed then POLLERR else 0) else 0)
      in ready1 OR ready2)"

definition poll_with_wait ::
  "(nat \<Rightarrow> bool) \<Rightarrow> pipe \<Rightarrow> u16 \<Rightarrow> waiter_id option \<Rightarrow> pipe_ring \<Rightarrow> waiter_store
    \<Rightarrow> u16 \<times> pipe_ring \<times> waiter_store" where
  "poll_with_wait alive p events waiter r ws =
     (case waiter of
        None \<Rightarrow> (poll_ready alive p events r, r, ws)
      | Some i \<Rightarrow>
          (case (if pp_readable p \<and> intersects events (POLLIN OR POLLPRI)
                 then pwq_register i (pr_read_poll r) ws else (pr_read_poll r, ws)) of
             (rq, ws1) \<Rightarrow>
           case (if pp_writable p \<and> contains_flags events POLLOUT
                 then pwq_register i (pr_write_poll r) ws1 else (pr_write_poll r, ws1)) of
             (wq, ws2) \<Rightarrow>
             (poll_ready alive p events r, r\<lparr>pr_read_poll := rq, pr_write_poll := wq\<rparr>, ws2)))"

text \<open>A small pipe with three bytes in it, two of them after the end of the array.\<close>

definition demo_ring :: pipe_ring where
  "demo_ring = (ring_new 0)\<lparr>pr_arr := copy_at (copy_at (pr_arr (ring_new 0)) 4095 [7]) 0 [8, 9],
     pr_head := 4095, pr_tail := 2, pr_status := Normal, pr_read_end := Some 1, pr_write_end := Some 2,
     pr_write_wait := [5, 6]\<rparr>"

definition demo_env :: pipe_env where
  "demo_env = \<lparr>pe_interrupted = False, pe_block = Some 4, pe_alive = (\<lambda>_. True)\<rparr>"

definition demo_empty :: pipe_ring where
  "demo_empty = snd (snd (make_pipe 1 2 3 0))"

section \<open>Lemmas\<close>

text \<open>The wait queues are not part of the byte queue.\<close>

lemma ring_fields_ext:
  assumes "pr_arr r' = pr_arr r" "pr_head r' = pr_head r" "pr_tail r' = pr_tail r"
    "pr_status r' = pr_status r"
  shows "ring_ok r' = ring_ok r" "ring_contents r' = ring_contents r"
    "available_read r' = available_read r" "available_write r' = available_write r"
    "capacity r' = capacity r"
proof -
  show c: "capacity r' = capacity r" using assms by (simp add: capacity_def)
  show a: "available_read r' = available_read r" using assms c by (simp add: available_read_def)
  show "ring_ok r' = ring_ok r" using assms c by (simp add: ring_ok_def)
  show "ring_contents r' = ring_contents r" using assms a c by (simp add: ring_contents_def)
  show "available_write r' = available_write r" using assms a c by (simp add: available_write_def)
qed

lemma ring_contents_Nil: "ring_contents r = [] \<longleftrightarrow> available_read r = 0"
  by (simp add: ring_contents_def)

lemma notify_writers_ring:
  assumes "notify_writers r ws = (r', ws', woken)"
  shows "ring_ok r' = ring_ok r" "ring_contents r' = ring_contents r"
    "pr_write_wait r' = tl (pr_write_wait r)" "set (take 1 (pr_write_wait r)) \<subseteq> set woken"
proof -
  from assms have f: "pr_arr r' = pr_arr r" "pr_head r' = pr_head r" "pr_tail r' = pr_tail r"
    "pr_status r' = pr_status r" "pr_write_wait r' = tl (pr_write_wait r)"
    "set (take 1 (pr_write_wait r)) \<subseteq> set woken"
    by (cases "pr_write_wait r";
        auto simp: notify_writers_def wake_writer_def wake_write_poll_waiters_def pwq_drain_def
          wake_task_def split: prod.splits)+
  from ring_fields_ext [OF f(1-4)] f(5,6) show "ring_ok r' = ring_ok r" "ring_contents r' = ring_contents r"
    "pr_write_wait r' = tl (pr_write_wait r)" "set (take 1 (pr_write_wait r)) \<subseteq> set woken"
    by blast+
qed

lemma notify_readers_ring:
  assumes "notify_readers r ws = (r', ws', woken)"
  shows "ring_ok r' = ring_ok r" "ring_contents r' = ring_contents r"
    "pr_read_wait r' = tl (pr_read_wait r)" "set (take 1 (pr_read_wait r)) \<subseteq> set woken"
proof -
  from assms have f: "pr_arr r' = pr_arr r" "pr_head r' = pr_head r" "pr_tail r' = pr_tail r"
    "pr_status r' = pr_status r" "pr_read_wait r' = tl (pr_read_wait r)"
    "set (take 1 (pr_read_wait r)) \<subseteq> set woken"
    by (cases "pr_read_wait r";
        auto simp: notify_readers_def wake_reader_def wake_read_poll_waiters_def pwq_drain_def
          wake_task_def split: prod.splits)+
  from ring_fields_ext [OF f(1-4)] f(5,6) show "ring_ok r' = ring_ok r" "ring_contents r' = ring_contents r"
    "pr_read_wait r' = tl (pr_read_wait r)" "set (take 1 (pr_read_wait r)) \<subseteq> set woken"
    by blast+
qed

lemma ring_ops_keep_waits:
  "pr_write_wait (snd (read_into n r)) = pr_write_wait r"
  "pr_read_wait (snd (write_from xs r)) = pr_read_wait r"
  by (simp_all add: read_into_def write_from_def Let_def)

lemma read_segments_spec:
  assumes "ring_ok r" and "copied \<le> loop_read" and "loop_read - copied \<le> available_read r"
    and "loop_read - copied \<le> sum_list segs" and "read_segments loop_read copied segs r = (bytes, r')"
  shows "ring_ok r' \<and> bytes = take (loop_read - copied) (ring_contents r) \<and>
    ring_contents r' = drop (loop_read - copied) (ring_contents r) \<and> pr_write_wait r' = pr_write_wait r"
  using assms
proof (induction segs arbitrary: copied r bytes r')
  case Nil
  then show ?case by simp
next
  case (Cons seg segs)
  show ?case
  proof (cases "copied = loop_read")
    case True
    with Cons.prems show ?thesis by simp
  next
    case False
    define len where "len = min seg (loop_read - copied)"
    obtain ys r1 where rd: "read_into len r = (ys, r1)" by fastforce
    from read_into_spec [OF Cons.prems(1) rd] have r1: "ring_ok r1" "ys = take len (ring_contents r)"
      "ring_contents r1 = drop len (ring_contents r)" by simp_all
    have len: "len \<le> loop_read - copied" "len \<le> available_read r" "length ys = len"
      using Cons.prems(3) r1(2) by (simp_all add: len_def)
    obtain zs r2 where rest: "read_segments loop_read (copied + len) segs r1 = (zs, r2)" by fastforce
    have av: "available_read r1 = available_read r - len" using arg_cong [OF r1(3), of length] by simp
    have le: "copied + len \<le> loop_read" "loop_read - (copied + len) \<le> available_read r1"
      "loop_read - (copied + len) \<le> sum_list segs"
      using len(1,2) Cons.prems(2,3,4) av by (simp_all add: len_def) linarith+
    note IH = Cons.IH [OF r1(1) le rest]
    have res: "bytes = ys @ zs" "r' = r2"
      using Cons.prems(5) False rd rest len(3) by (simp_all add: len_def [symmetric] Let_def)
    have n: "loop_read - copied = len + (loop_read - (copied + len))" using len(1) by simp
    have w: "pr_write_wait r1 = pr_write_wait r" using ring_ops_keep_waits(1) [of len r] rd by simp
    from IH show ?thesis
      unfolding res n by (simp add: r1 take_add w drop_drop add.commute)
  qed
qed

lemma write_segments_spec:
  assumes "ring_ok r" and "written < write_len" and "write_len - written \<le> available_write r"
    and "write_len - written \<le> length (drop (already - skipped) (concat segs))"
    and "write_segments already write_len skipped written segs r = (n, r')"
  shows "ring_ok r' \<and> n = write_len \<and> pr_read_wait r' = pr_read_wait r \<and>
    ring_contents r' =
      ring_contents r @ take (write_len - written) (drop (already - skipped) (concat segs))"
  using assms
proof (induction segs arbitrary: skipped written r n r')
  case Nil
  then show ?case by simp
next
  case (Cons seg segs)
  show ?case
  proof (cases "skipped + length seg \<le> already")
    case True
    then have d: "drop (already - skipped) (concat (seg # segs)) =
        drop (already - (skipped + length seg)) (concat segs)" by simp
    from Cons.prems(5) True
    have rec: "write_segments already write_len (skipped + length seg) written segs r = (n, r')" by simp
    show ?thesis
      using Cons.IH [OF Cons.prems(1,2,3) Cons.prems(4) [unfolded d] rec] unfolding d .
  next
    case False
    define source where "source = drop (already - skipped) seg"
    define len where "len = min (length source) (write_len - written)"
    obtain m r1 where w: "write_from (take len source) r = (m, r1)" by fastforce
    have d: "drop (already - skipped) (concat (seg # segs)) = source @ concat segs"
      "already - (skipped + length seg) = 0" using False by (simp_all add: source_def)
    have m: "m = len" "ring_ok r1" "ring_contents r1 = ring_contents r @ take len source"
      "len \<le> available_write r"
      using write_from_spec [OF Cons.prems(1) w] Cons.prems(3) by (auto simp: len_def)
    have av: "available_write r1 = available_write r - len"
      using ring.push_law [OF Cons.prems(1) w] m(1) by simp
    have keep: "pr_read_wait r1 = pr_read_wait r" using ring_ops_keep_waits(2) [of "take len source" r] w by simp
    have step: "write_segments already write_len skipped written (seg # segs) r =
        (if written + len = write_len then (write_len, r1)
         else write_segments already write_len (skipped + length seg) (written + len) segs r1)"
      using False w m(1) by (simp add: Let_def source_def [symmetric] len_def [symmetric])
    show ?thesis
    proof (cases "written + len = write_len")
      case True
      then have "write_len - written = len" "len \<le> length source" by (simp_all add: len_def)
      with True step Cons.prems(5) m keep show ?thesis unfolding d(1) by simp
    next
      case False
      with Cons.prems(2) have len: "len = length source" "written + len < write_len"
        by (auto simp: len_def)
      have "write_len - (written + len) \<le> available_write r1"
        "write_len - (written + len) \<le> length (drop (already - (skipped + length seg)) (concat segs))"
        using Cons.prems(3,4) av len unfolding d by simp_all
      from Cons.IH [OF m(2) len(2) this] step False Cons.prems(5)
      have IH: "ring_ok r'" "n = write_len" "pr_read_wait r' = pr_read_wait r1"
        "ring_contents r' = ring_contents r1 @ take (write_len - (written + len)) (concat segs)"
        unfolding d(2) by simp_all
      have "take (write_len - written) (source @ concat segs) =
          source @ take (write_len - (written + len)) (concat segs)"
        using len by simp
      with IH m(3) len keep show ?thesis unfolding d(1) by simp
    qed
  qed
qed

lemma write_segments_poll:
  "pr_read_poll (snd (write_segments already write_len skipped written segs r)) = pr_read_poll r"
proof (induction segs arbitrary: skipped written r)
  case Nil
  then show ?case by simp
next
  case (Cons seg segs)
  have "pr_read_poll (snd (write_from xs r)) = pr_read_poll r" for xs
    by (simp add: write_from_def Let_def)
  then have "pr_read_poll x = pr_read_poll r" if "write_from xs r = (k, x)" for xs k x
    using that by (metis snd_conv)
  with Cons.IH show ?case by (auto simp: Let_def split: prod.splits)
qed

lemma read_attempt_data:
  assumes ok: "ring_ok r" and data: "ring_contents r \<noteq> []" and want: "0 < sum_list segs"
  shows "\<exists>r' ws' woken. pipe_read_attempt env segs r ws =
      (Return (take (sum_list segs) (ring_contents r)), r', ws', woken) \<and> ring_ok r' \<and>
      ring_contents r' = drop (sum_list segs) (ring_contents r) \<and>
      pr_write_wait r' = tl (pr_write_wait r) \<and> set (take 1 (pr_write_wait r)) \<subseteq> set woken"
proof -
  define n where "n = min (available_read r) (sum_list segs)"
  have av: "0 < available_read r" using data by (simp add: ring_contents_Nil)
  with want have n: "0 < n" "n \<le> available_read r" "n \<le> sum_list segs" by (simp_all add: n_def)
  obtain bytes r1 where seg: "read_segments n 0 segs r = (bytes, r1)" by fastforce
  obtain r2 ws2 woken where nt: "notify_writers r1 ws = (r2, ws2, woken)"
    by (cases "notify_writers r1 ws") auto
  have td: "take n (ring_contents r) = take (sum_list segs) (ring_contents r)"
    "drop n (ring_contents r) = drop (sum_list segs) (ring_contents r)"
    by (simp_all add: n_def min_def)
  from read_segments_spec [OF ok _ _ _ seg] n
  have r1: "ring_ok r1" "bytes = take (sum_list segs) (ring_contents r)"
    "ring_contents r1 = drop (sum_list segs) (ring_contents r)" "pr_write_wait r1 = pr_write_wait r"
    by (simp_all add: td)
  from notify_writers_ring [OF nt] r1
  have "ring_ok r2" "ring_contents r2 = drop (sum_list segs) (ring_contents r)"
    "pr_write_wait r2 = tl (pr_write_wait r)" "set (take 1 (pr_write_wait r)) \<subseteq> set woken" by simp_all
  with n(1) seg nt r1(2) show ?thesis
    by (simp add: pipe_read_attempt_def n_def [symmetric] Let_def)
qed

lemma read_attempt_empty:
  assumes "ring_contents r = []"
  shows "pipe_read_attempt env segs r ws =
    (if all_write_ends_closed (pe_alive env) r \<or> pe_interrupted env then (Return [], r, ws, [])
     else case pe_block env of
         None \<Rightarrow> (Return [], r, ws, [])
       | Some t \<Rightarrow> (Again (), r\<lparr>pr_read_wait := pr_read_wait r @ [t]\<rparr>, ws, []))"
proof -
  have "available_read r = 0" using assms by (simp add: ring_contents_Nil)
  then show ?thesis
    by (auto simp: pipe_read_attempt_def sleep_reader_def split: option.splits)
qed

lemma write_attempt_room:
  assumes ok: "ring_ok r" and room: "0 < available_write r" and left: "already < length (concat segs)"
    and op: "\<not> all_read_ends_closed (pe_alive env) r"
  defines "n \<equiv> min (available_write r) (length (concat segs) - already)"
  shows "\<exists>r' ws' woken. pipe_write_attempt env flags segs already r ws =
      ((if already + n = length (concat segs) then Return (already + n) else Again (already + n)),
       r', ws', woken) \<and> ring_ok r' \<and>
      ring_contents r' = ring_contents r @ take n (drop already (concat segs)) \<and>
      pr_read_wait r' = tl (pr_read_wait r) \<and> set (take 1 (pr_read_wait r)) \<subseteq> set woken"
proof -
  have n: "0 < n" "n \<le> available_write r" "n \<le> length (drop already (concat segs))"
    using room left by (simp_all add: n_def)
  obtain m r1 where seg: "write_segments already n 0 0 segs r = (m, r1)" by fastforce
  obtain r2 ws2 woken where nt: "notify_readers r1 ws = (r2, ws2, woken)"
    by (cases "notify_readers r1 ws") auto
  from write_segments_spec [OF ok _ _ _ seg] n
  have r1: "ring_ok r1" "m = n" "ring_contents r1 = ring_contents r @ take n (drop already (concat segs))"
    "pr_read_wait r1 = pr_read_wait r" by simp_all
  from notify_readers_ring [OF nt] r1
  have "ring_ok r2" "ring_contents r2 = ring_contents r @ take n (drop already (concat segs))"
    "pr_read_wait r2 = tl (pr_read_wait r)" "set (take 1 (pr_read_wait r)) \<subseteq> set woken" by simp_all
  with seg nt r1(2) room op show ?thesis
    by (simp add: pipe_write_attempt_def n_def [symmetric] Let_def)
qed

lemma make_pipe_ring:
  "ring_ok (snd (snd (make_pipe rid wid bid cap)))"
  "ring_contents (snd (snd (make_pipe rid wid bid cap))) = []"
  "capacity (snd (snd (make_pipe rid wid bid cap))) = max cap PIPE_MIN_CAPACITY"
  using ring_new_ok [of cap] ring_fields_ext [of "snd (snd (make_pipe rid wid bid cap))" "ring_new cap"]
  by (simp_all add: make_pipe_def set_read_end_def set_write_end_def)

lemma demo_empty_facts:
  "ring_ok demo_empty" "ring_contents demo_empty = []" "pr_read_wait demo_empty = []"
  "pr_read_poll demo_empty = []" "pr_write_end demo_empty = Some 2" "pr_read_end demo_empty = Some 1"
  "available_write demo_empty = 4096"
proof -
  note new = make_pipe_ring [of 1 2 3 0, folded demo_empty_def]
  then show "ring_ok demo_empty" "ring_contents demo_empty = []" by blast+
  show "available_write demo_empty = 4096"
    using available_sum [OF new(1)] new(2,3) by (simp add: ring_contents_Nil PIPE_MIN_CAPACITY_def)
qed (simp_all add: demo_empty_def make_pipe_def set_read_end_def set_write_end_def ring_new_def Let_def pwq_new_def)

section \<open>Properties\<close>

text \<open>
  C7. A pipe is a first-in first-out byte stream that never loses, duplicates or reorders a byte:
  for every sequence of writes and reads on a fresh pipe, the bytes that writes accepted are the
  bytes that reads delivered followed by the bytes still in the pipe, and these never exceed the
  capacity.
\<close>

theorem pipe_fifo:
  assumes "queue_run write_from read_into ops (snd (snd (make_pipe rid wid bid cap))) = (ins, outs, r)"
  shows "ins = outs @ ring_contents r \<and>
    length (ring_contents r) + available_write r = max cap PIPE_MIN_CAPACITY"
proof -
  let ?r = "snd (snd (make_pipe rid wid bid cap))"
  note new = make_pipe_ring [of rid wid bid cap]
  have "length (ring_contents ?r) + available_write ?r = max cap PIPE_MIN_CAPACITY"
    using available_sum [OF new(1)] new(2,3) by (simp add: ring_contents_Nil)
  from ring.run_room [OF new(1) assms this] ring.run_fifo [OF new(1) assms] new(2)
  show ?thesis by simp
qed

theorem pipe_fifo_witness:
  "\<exists>r. queue_run write_from read_into [Push [1, 2, 3], Pop 2] (snd (snd (make_pipe 1 2 3 0)))
       = ([1, 2, 3], [1, 2], r) \<and>
     [1, 2, 3] = [1, 2] @ ring_contents r \<and> length (ring_contents r) + available_write r = 4096"
proof -
  let ?r = "snd (snd (make_pipe 1 2 3 0))"
  note new = make_pipe_ring [of 1 2 3 0]
  have room: "available_write ?r = 4096"
    using available_sum [OF new(1)] new(2,3) by (simp add: ring_contents_Nil PIPE_MIN_CAPACITY_def)
  obtain n r1 where w: "write_from [1, 2, 3] ?r = (n, r1)" by fastforce
  obtain ys r2 where rd: "read_into 2 r1 = (ys, r2)" by fastforce
  from ring.push_law [OF new(1) w] room new(2)
  have n: "n = 3" "ring_ok r1" "ring_contents r1 = [1, 2, 3]" by simp_all
  from ring.pop_law [OF n(2) rd] n(3) have "ys = [1, 2]" by simp
  with w rd n(1) have run: "queue_run write_from read_into [Push [1, 2, 3], Pop 2] ?r = ([1, 2, 3], [1, 2], r2)"
    by simp
  from pipe_fifo [OF this]
  have "[1, 2, 3] = [1, 2] @ ring_contents r2 \<and> length (ring_contents r2) + available_write r2 = 4096"
    unfolding PIPE_MIN_CAPACITY_def by simp
  with run show ?thesis by blast
qed

text \<open>
  C8. A read of a pipe that holds bytes returns at once with the oldest bytes, as many as fit in
  the user's buffer, whatever its segments are; it removes exactly these and wakes the writer
  that has waited longest. On an empty pipe it returns nothing when no writer is left, a signal
  is pending or the task could not be blocked; otherwise the task is queued as a reader and sleeps.
\<close>

theorem pipe_read_correct:
  assumes "ring_ok r" and "0 < sum_list segs"
  shows "if ring_contents r = [] then
      pipe_read_attempt env segs r ws =
        (if all_write_ends_closed (pe_alive env) r \<or> pe_interrupted env then (Return [], r, ws, [])
         else case pe_block env of
             None \<Rightarrow> (Return [], r, ws, [])
           | Some t \<Rightarrow> (Again (), r\<lparr>pr_read_wait := pr_read_wait r @ [t]\<rparr>, ws, []))
    else
      \<exists>r' ws' woken. read_with_status_flags ((id, env) # es) segs r ws =
          Some (take (sum_list segs) (ring_contents r), r', ws', woken) \<and> ring_ok r' \<and>
        ring_contents r' = drop (sum_list segs) (ring_contents r) \<and>
        pr_write_wait r' = tl (pr_write_wait r) \<and> set (take 1 (pr_write_wait r)) \<subseteq> set woken"
proof (cases "ring_contents r = []")
  case True
  with read_attempt_empty [OF True] show ?thesis by simp
next
  case False
  from read_attempt_data [OF assms(1) this assms(2), of env ws] obtain r' ws' woken where
    "pipe_read_attempt env segs r ws = (Return (take (sum_list segs) (ring_contents r)), r', ws', woken)"
    "ring_ok r'" "ring_contents r' = drop (sum_list segs) (ring_contents r)"
    "pr_write_wait r' = tl (pr_write_wait r)" "set (take 1 (pr_write_wait r)) \<subseteq> set woken" by blast
  with False assms(2) show ?thesis by (simp add: read_with_status_flags_def del: sum_list_eq_0_iff)
qed

lemma demo_ring_facts:
  "ring_ok demo_ring" "ring_contents demo_ring = [7, 8, 9]" "available_write demo_ring = 4093"
  "pr_write_wait demo_ring = [5, 6]" "pr_read_wait demo_ring = []" "pr_read_end demo_ring = Some 1"
proof -
  have arr: "length (pr_arr demo_ring) = 4096" "pr_arr demo_ring ! 4095 = 7"
    "pr_arr demo_ring ! 0 = 8" "pr_arr demo_ring ! 1 = 9"
    by (simp_all add: demo_ring_def ring_new_def Let_def PIPE_MIN_CAPACITY_def copy_at_length copy_at_nth)
  then have cap: "capacity demo_ring = 4096" by (simp add: capacity_def)
  have av: "available_read demo_ring = 3"
    using cap by (simp add: available_read_def) (simp add: demo_ring_def)
  have up: "[0..<3] = [0, 1, 2::nat]" by (simp add: upt_rec)
  show "ring_ok demo_ring"
    using cap by (simp add: ring_ok_def PIPE_MIN_CAPACITY_def) (simp add: demo_ring_def)
  show "ring_contents demo_ring = [7, 8, 9]"
    using arr by (simp add: ring_contents_def av cap up) (simp add: demo_ring_def)
  show "available_write demo_ring = 4093"
    using cap av by (simp add: available_write_def) (simp add: demo_ring_def)
qed (simp_all add: demo_ring_def ring_new_def Let_def)

theorem pipe_read_correct_witness:
  "ring_ok demo_ring \<and> 0 < sum_list [1, 1 :: nat] \<and>
   (\<exists>r' ws' woken. read_with_status_flags [(id, demo_env)] [1, 1] demo_ring Map.empty =
      Some ([7, 8], r', ws', woken) \<and> ring_contents r' = [9] \<and> 5 \<in> set woken)"
  using pipe_read_correct [OF demo_ring_facts(1), of "[1, 1]" demo_env Map.empty "[]"]
  by (auto simp: demo_ring_facts)

text \<open>
  C9. A blocking or non-blocking write that fits in the free space is atomic: one pass appends
  all its bytes, whatever the user's segments are, and the call returns the full length. Otherwise
  a pass appends exactly the next bytes that fit and the loop goes on behind them. Every pass
  that adds bytes wakes the reader that has waited longest.
\<close>

theorem pipe_write_correct:
  assumes "ring_ok r" and "0 < available_write r" and "already < length (concat segs)"
    and "\<not> all_read_ends_closed (pe_alive env) r"
  shows "(let n = min (available_write r) (length (concat segs) - already)
     in \<exists>r' ws' woken. pipe_write_attempt env flags segs already r ws =
      ((if already + n = length (concat segs) then Return (already + n) else Again (already + n)),
       r', ws', woken) \<and> ring_ok r' \<and>
      ring_contents r' = ring_contents r @ take n (drop already (concat segs)) \<and>
      pr_read_wait r' = tl (pr_read_wait r) \<and> set (take 1 (pr_read_wait r)) \<subseteq> set woken) \<and>
    (length (concat segs) \<le> available_write r \<longrightarrow>
      (\<exists>r' ws'. write_with_status_flags ((id, env) # es) flags segs r ws =
         Some (length (concat segs), r', ws') \<and>
        ring_contents r' = ring_contents r @ concat segs))"
proof -
  have part: "\<exists>r' ws'. write_with_status_flags ((id, env) # es) flags segs r ws =
         Some (length (concat segs), r', ws') \<and> ring_contents r' = ring_contents r @ concat segs"
    if "length (concat segs) \<le> available_write r"
  proof -
    have want: "0 < length (concat segs)" using assms(3) by linarith
    then have "concat segs \<noteq> []" by blast
    with write_attempt_room [OF assms(1,2) want assms(4), of flags ws] that show ?thesis
      by (fastforce simp: write_with_status_flags_def simp del: length_concat concat_eq_Nil_conv)
  qed
  with write_attempt_room [OF assms, of flags ws] show ?thesis unfolding Let_def by blast
qed

theorem pipe_write_correct_witness:
  "ring_ok demo_ring \<and> 0 < available_write demo_ring \<and>
   \<not> all_read_ends_closed (pe_alive demo_env) demo_ring \<and>
   (\<exists>r' ws'. write_with_status_flags [(id, demo_env)] 0 [[1], [2, 3]] demo_ring Map.empty =
      Some (3, r', ws') \<and> ring_contents r' = [7, 8, 9, 1, 2, 3])"
proof -
  have op: "\<not> all_read_ends_closed (pe_alive demo_env) demo_ring"
    by (simp add: all_read_ends_closed_def demo_ring_facts demo_env_def)
  have room: "0 < available_write demo_ring" by (simp add: demo_ring_facts)
  have len: "0 < length (concat [[1], [2, 3 :: u8]])" "length (concat [[1], [2, 3 :: u8]]) \<le> available_write demo_ring"
    by (simp_all add: demo_ring_facts)
  from pipe_write_correct [OF demo_ring_facts(1) room len(1) op, of 0 Map.empty "[]"] len(2)
  have "\<exists>r' ws'. write_with_status_flags [(id, demo_env)] 0 [[1], [2, 3]] demo_ring Map.empty =
      Some (3, r', ws') \<and> ring_contents r' = [7, 8, 9, 1, 2, 3]"
    by (simp add: demo_ring_facts numeral_3_eq_3)
  with op room demo_ring_facts(1) show ?thesis by blast
qed

text \<open>
  Splicing moves bytes between two different pipes and teeing copies them: the first bytes of
  the input, as many as asked for, as the input holds and as the output has room for, are
  appended to the output; splice removes them from the input, tee leaves the input as it was.
  Both refuse to work on one and the same pipe.
\<close>

theorem splice_tee_correct:
  assumes "ring_ok rin" and "ring_ok rout" and "pp_readable p" and "pp_writable out"
    and "n = min (min len (available_read rin)) (available_write rout)"
  shows "if pp_buffer p = pp_buffer out then
      splice_pipe_to_pipe p out len rin rout ws = Inl FsInvalidInput \<and>
      tee_pipe_to_pipe es p out len rin rout ws = Inl FsInvalidInput
    else
      (\<exists>rin' rout' ws' woken.
         splice_pipe_to_pipe p out len rin rout ws = Inr (n, rin', rout', ws', woken) \<and>
         ring_ok rin' \<and> ring_ok rout' \<and> ring_contents rin' = drop n (ring_contents rin) \<and>
         ring_contents rout' = ring_contents rout @ take n (ring_contents rin)) \<and>
      (0 < n \<longrightarrow> (\<exists>rout' ws' woken.
         tee_pipe_to_pipe ((id, env) # es) p out len rin rout ws = Inr (Some (n, rin, rout', ws', woken)) \<and>
         ring_ok rout' \<and> ring_contents rout' = ring_contents rout @ take n (ring_contents rin)))"
proof (cases "pp_buffer p = pp_buffer out")
  case True
  with assms show ?thesis by (simp add: splice_pipe_to_pipe_def tee_pipe_to_pipe_def)
next
  case False
  obtain rin1 rout1 where tr: "transfer_to len rin rout = (n, rin1, rout1)" "ring_ok rin1" "ring_ok rout1"
    "ring_contents rin1 = drop n (ring_contents rin)"
    "ring_contents rout1 = ring_contents rout @ take n (ring_contents rin)"
    using transfer_to_spec [OF assms(1,2,5)] by blast
  obtain rout2 where du: "duplicate_to len rin rout = (n, rout2)" "ring_ok rout2"
    "ring_contents rout2 = ring_contents rout @ take n (ring_contents rin)"
    using duplicate_to_spec [OF assms(1,2,5)] by blast
  obtain rout3 ws3 woken where nt: "notify_readers rout2 ws = (rout3, ws3, woken)"
    by (cases "notify_readers rout2 ws") auto
  have tee: "tee_pipe_to_pipe ((id, env) # es) p out len rin rout ws = Inr (Some (n, rin, rout3, ws3, woken))"
    if "0 < n"
  proof -
    from that assms(5) have "available_read rin \<noteq> 0" "available_write rout \<noteq> 0" "len \<noteq> 0" by auto
    with that False assms(3,4) du nt show ?thesis
      by (simp add: tee_pipe_to_pipe_def tee_attempt_def)
  qed
  have "\<exists>rin' rout' ws' woken. splice_pipe_to_pipe p out len rin rout ws = Inr (n, rin', rout', ws', woken) \<and>
      pr_arr rin' = pr_arr rin1 \<and> pr_head rin' = pr_head rin1 \<and> pr_tail rin' = pr_tail rin1 \<and>
      pr_status rin' = pr_status rin1 \<and> pr_arr rout' = pr_arr rout1 \<and> pr_head rout' = pr_head rout1 \<and>
      pr_tail rout' = pr_tail rout1 \<and> pr_status rout' = pr_status rout1"
    using False assms(3,4) tr(1)
    by (simp add: splice_pipe_to_pipe_def wake_writer_def wake_reader_def wake_write_poll_waiters_def
        wake_read_poll_waiters_def split: prod.splits)
  then obtain rin' rout' ws' woken' where sp:
    "splice_pipe_to_pipe p out len rin rout ws = Inr (n, rin', rout', ws', woken')"
    "ring_ok rin' = ring_ok rin1" "ring_contents rin' = ring_contents rin1"
    "ring_ok rout' = ring_ok rout1" "ring_contents rout' = ring_contents rout1"
    using ring_fields_ext by metis
  with tee notify_readers_ring [OF nt] du(2,3) tr False show ?thesis by auto
qed

theorem splice_tee_correct_witness:
  "ring_ok demo_ring \<and> ring_ok (ring_new 0) \<and>
   (\<exists>rin' rout' ws' woken.
      splice_pipe_to_pipe (read_end_with_buffer 1) (write_end_with_buffer 2) 2 demo_ring (ring_new 0) Map.empty
        = Inr (2, rin', rout', ws', woken) \<and>
      ring_contents rin' = [9] \<and> ring_contents rout' = [7, 8])"
proof -
  have av: "available_read demo_ring = 3" using demo_ring_facts(2) length_ring_contents [of demo_ring] by simp
  have "available_write (ring_new 0) = 4096"
    using available_sum [OF ring_new_ok(1) [of 0]] ring_new_ok(2,3) [of 0]
    by (simp add: ring_contents_Nil PIPE_MIN_CAPACITY_def)
  with av have n: "2 = min (min 2 (available_read demo_ring)) (available_write (ring_new 0))" by simp
  from splice_tee_correct [OF demo_ring_facts(1) ring_new_ok(1) _ _ n,
      of "read_end_with_buffer 1" "write_end_with_buffer 2" Map.empty "[]" demo_env]
    demo_ring_facts(1,2) ring_new_ok(1,2) [of 0]
  show ?thesis by (auto simp: read_end_with_buffer_def write_end_with_buffer_def)
qed

text \<open>
  Changing the capacity of a pipe keeps its bytes and their order; it is refused exactly when
  the bytes in the pipe do not fit in the new capacity.
\<close>

theorem resize_keeps_contents:
  "case resize requested r of
     Inl e \<Rightarrow> e = FsBusy \<and> max requested PIPE_MIN_CAPACITY < length (ring_contents r)
   | Inr (n, r') \<Rightarrow> n = max requested PIPE_MIN_CAPACITY \<and> length (ring_contents r) \<le> n \<and>
       capacity r' = n \<and> ring_ok r' \<and> ring_contents r' = ring_contents r"
proof (cases "resize requested r")
  case (Inl e)
  then show ?thesis unfolding resize_eq by (simp split: if_split_asm)
next
  case (Inr nr)
  obtain n r' where nr: "nr = (n, r')" by fastforce
  with Inr have "resize requested r = Inr (n, r')" by simp
  note spec = resize_spec [OF this]
  then have "length (ring_contents r) \<le> n"
    using available_read_le [of r'] length_ring_contents [of r'] by (simp del: length_ring_contents)
  with spec Inr nr show ?thesis by simp
qed

text \<open>
  C10. Closing an end wakes the other side. Dropping the write end wakes every waiting reader and
  empties their queue, and a reader that then finds the pipe empty returns end of file instead of
  sleeping; dropping the read end wakes every waiting writer, and a writer that then tries returns
  what it wrote so far.
\<close>

theorem close_wakes_peer:
  assumes "pipe_drop p r ws = (r', ws', woken)" and "\<not> pe_alive env closed"
  shows "(pp_writable p \<longrightarrow> set (pr_read_wait r) \<subseteq> set woken \<and> pr_read_wait r' = [] \<and>
      (pr_write_end r = Some closed \<longrightarrow> ring_contents r = [] \<longrightarrow>
        pipe_read_attempt env segs r' ws' = (Return [], r', ws', []))) \<and>
    (pp_readable p \<longrightarrow> set (pr_write_wait r) \<subseteq> set woken \<and> pr_write_wait r' = [] \<and>
      (pr_read_end r = Some closed \<longrightarrow>
        pipe_write_attempt env flags data already r' ws' = (Return already, r', ws', [])))"
proof -
  from assms(1) have f: "pr_arr r' = pr_arr r" "pr_head r' = pr_head r" "pr_tail r' = pr_tail r"
    "pr_status r' = pr_status r" "pr_write_end r' = pr_write_end r" "pr_read_end r' = pr_read_end r"
    "pp_writable p \<longrightarrow> set (pr_read_wait r) \<subseteq> set woken \<and> pr_read_wait r' = []"
    "pp_readable p \<longrightarrow> set (pr_write_wait r) \<subseteq> set woken \<and> pr_write_wait r' = []"
    by (auto simp: pipe_drop_def wake_all_readers_def wake_all_writers_def wake_read_poll_waiters_def
        wake_write_poll_waiters_def pwq_drain_def split: prod.splits if_splits)
  have c: "ring_contents r' = ring_contents r" by (rule ring_fields_ext(2) [OF f(1-4)])
  with assms(2) f(5,6) have
    "pr_write_end r = Some closed \<longrightarrow> ring_contents r = [] \<longrightarrow>
       pipe_read_attempt env segs r' ws' = (Return [], r', ws', [])"
    "pr_read_end r = Some closed \<longrightarrow>
       pipe_write_attempt env flags data already r' ws' = (Return already, r', ws', [])"
    by (simp_all add: read_attempt_empty all_write_ends_closed_def pipe_write_attempt_def all_read_ends_closed_def)
  with f(7,8) show ?thesis by blast
qed

theorem close_wakes_peer_witness:
  "\<exists>r' ws' woken. pipe_drop (write_end_with_buffer 1) (demo_empty\<lparr>pr_read_wait := [3, 4]\<rparr>) Map.empty
       = (r', ws', woken) \<and> \<not> pe_alive (demo_env\<lparr>pe_alive := \<lambda>_. False\<rparr>) 2 \<and> {3, 4} \<subseteq> set woken \<and>
     pipe_read_attempt (demo_env\<lparr>pe_alive := \<lambda>_. False\<rparr>) [8] r' ws' = (Return [], r', ws', [])"
proof -
  let ?r = "demo_empty\<lparr>pr_read_wait := [3, 4]\<rparr>"
  obtain r' ws' woken where d: "pipe_drop (write_end_with_buffer 1) ?r Map.empty = (r', ws', woken)"
    by (cases "pipe_drop (write_end_with_buffer 1) ?r Map.empty") auto
  have c: "ring_contents ?r = []" "pr_write_end ?r = Some 2"
    using ring_fields_ext(2) [of ?r demo_empty] demo_empty_facts by simp_all
  from close_wakes_peer [OF d, of "demo_env\<lparr>pe_alive := \<lambda>_. False\<rparr>" 2 "[8]"] c d show ?thesis
    by (auto simp: write_end_with_buffer_def)
qed

text \<open>
  Poll agrees with the blocking calls. The read end reports input exactly when a read by a
  task without pending signals returns at once; when the write end reports output and readers
  are left, a write of up to a page completes in one pass.
\<close>

theorem poll_agrees_with_io:
  assumes "ring_ok r" and "0 < sum_list segs" and "\<not> pe_interrupted env" and "pe_block env = Some t"
    and "contains_flags events POLLIN" and "contains_flags events POLLOUT"
  shows "(pp_readable p \<longrightarrow> \<not> pp_writable p \<longrightarrow>
      (contains_flags (poll_ready (pe_alive env) p events r) POLLIN \<longleftrightarrow>
        (\<exists>bytes. fst (pipe_read_attempt env segs r ws) = Return bytes))) \<and>
    (pp_writable p \<longrightarrow> \<not> pp_readable p \<longrightarrow>
      contains_flags (poll_ready (pe_alive env) p events r) POLLOUT \<longrightarrow>
      \<not> all_read_ends_closed (pe_alive env) r \<longrightarrow>
      0 < length (concat data) \<longrightarrow> length (concat data) \<le> 4096 \<longrightarrow>
        fst (pipe_write_attempt env flags data 0 r ws) = Return (length (concat data)))"
proof -
  have ev: "intersects events (POLLIN OR POLLPRI)"
  proof -
    have "(events AND (POLLIN OR POLLPRI)) AND POLLIN = events AND POLLIN"
      by (simp add: and.assoc POLLIN_def POLLPRI_def)
    also have "\<dots> = POLLIN" using assms(5) by (simp add: contains_flags_def)
    finally have e: "(events AND (POLLIN OR POLLPRI)) AND POLLIN = POLLIN" .
    show ?thesis unfolding intersects_def
    proof
      assume "events AND (POLLIN OR POLLPRI) = 0"
      with e show False by (simp add: POLLIN_def)
    qed
  qed
  have rd: "(\<exists>bytes. fst (pipe_read_attempt env segs r ws) = Return bytes) \<longleftrightarrow>
      ring_contents r \<noteq> [] \<or> all_write_ends_closed (pe_alive env) r"
    using read_attempt_empty [of r env segs ws] read_attempt_data [OF assms(1) _ assms(2), of env ws]
      assms(3,4) by (cases "ring_contents r = []") auto
  have inp: "contains_flags (poll_ready (pe_alive env) p events r) POLLIN \<longleftrightarrow>
      ring_contents r \<noteq> [] \<or> all_write_ends_closed (pe_alive env) r"
    if "pp_readable p" "\<not> pp_writable p"
    using that ev
    by (auto simp: poll_ready_def contains_flags_def POLLIN_def POLLHUP_def ring_contents_Nil split: if_splits)
  have out: "4096 \<le> available_write r" if "pp_writable p" "\<not> pp_readable p"
    "contains_flags (poll_ready (pe_alive env) p events r) POLLOUT" "\<not> all_read_ends_closed (pe_alive env) r"
    using that by (auto simp: poll_ready_def contains_flags_def POLLOUT_def split: if_splits)
  have wr: "fst (pipe_write_attempt env flags data 0 r ws) = Return (length (concat data))"
    if "4096 \<le> available_write r" "\<not> all_read_ends_closed (pe_alive env) r"
      "0 < length (concat data)" "length (concat data) \<le> 4096"
  proof -
    from that have "min (available_write r) (length (concat data) - 0) = length (concat data)"
      "0 < available_write r" by linarith+
    with write_attempt_room [OF assms(1) _ that(3,2), of flags ws] show ?thesis by auto
  qed
  from rd inp out wr show ?thesis by blast
qed

theorem poll_agrees_with_io_witness:
  "ring_ok demo_ring \<and> 0 < sum_list [1 :: nat] \<and> \<not> pe_interrupted demo_env \<and> pe_block demo_env = Some 4 \<and>
   contains_flags 5 POLLIN \<and> contains_flags 5 POLLOUT \<and>
   contains_flags (poll_ready (pe_alive demo_env) (read_end_with_buffer 1) 5 demo_ring) POLLIN \<and>
   (\<exists>bytes. fst (pipe_read_attempt demo_env [1] demo_ring Map.empty) = Return bytes)"
proof -
  have h: "0 < sum_list [1 :: nat]" "\<not> pe_interrupted demo_env" "pe_block demo_env = Some 4"
    "contains_flags 5 POLLIN" "contains_flags 5 POLLOUT"
    by (simp_all add: demo_env_def contains_flags_def POLLIN_def POLLOUT_def)
  have "available_read demo_ring = 3" using demo_ring_facts(2) length_ring_contents [of demo_ring] by simp
  then have p: "contains_flags (poll_ready (pe_alive demo_env) (read_end_with_buffer 1) 5 demo_ring) POLLIN"
    by (simp add: poll_ready_def read_end_with_buffer_def contains_flags_def intersects_def POLLIN_def
        POLLPRI_def POLLHUP_def)
  from poll_agrees_with_io [OF demo_ring_facts(1) h, of "read_end_with_buffer 1" Map.empty] h p demo_ring_facts(1)
  show ?thesis by (auto simp: read_end_with_buffer_def)
qed

text \<open>
  C11. A sleeping reader can be left asleep beside unread bytes. If two readers wait on an empty
  pipe and the first is interrupted by a signal, it returns but stays in the queue; the
  next write wakes that entry only, so the second reader stays queued although the pipe holds
  bytes. (The event counter removes an interrupted task from its queue; the pipe does not.)
\<close>

theorem interrupted_reader_steals_wakeup:
  assumes "ring_ok r" and "ring_contents r = []" and "pr_read_wait r = []" and "pr_read_poll r = []"
    and "pe_alive env = (\<lambda>_. True)" and "pr_write_end r \<noteq> None" and "pr_read_end r \<noteq> None"
    and "\<not> pe_interrupted env" and "0 < n"
    and "0 < length (concat data)" and "length (concat data) \<le> available_write r"
  shows "\<exists>r1 r2 r3 r4 ws4.
    pipe_read_attempt (env\<lparr>pe_block := Some t\<rparr>) [n] r ws = (Again (), r1, ws, []) \<and>
    pipe_read_attempt (env\<lparr>pe_block := Some u\<rparr>) [n] r1 ws = (Again (), r2, ws, []) \<and>
    pipe_read_attempt (env\<lparr>pe_interrupted := True\<rparr>) [n] r2 ws = (Return [], r3, ws, []) \<and>
    pipe_write_attempt env flags data 0 r3 ws = (Return (length (concat data)), r4, ws4, [t]) \<and>
    ring_contents r4 \<noteq> [] \<and> pr_read_wait r4 = [u]"
proof -
  have ends: "\<not> all_write_ends_closed (\<lambda>_. True) x" "\<not> all_read_ends_closed (\<lambda>_. True) x"
    if "pr_write_end x = pr_write_end r" "pr_read_end x = pr_read_end r" for x
    using assms(6,7) that by (auto simp: all_write_ends_closed_def all_read_ends_closed_def)
  let ?r1 = "r\<lparr>pr_read_wait := [t]\<rparr>" and ?r2 = "r\<lparr>pr_read_wait := [t, u]\<rparr>"
  have same: "ring_ok ?r2 = ring_ok r" "ring_contents ?r2 = ring_contents r"
    "available_write ?r2 = available_write r" "ring_contents ?r1 = ring_contents r"
    using ring_fields_ext [of ?r2 r] ring_fields_ext [of ?r1 r] by simp_all
  have 1: "pipe_read_attempt (env\<lparr>pe_block := Some t\<rparr>) [n] r ws = (Again (), ?r1, ws, [])"
    using ends [of r] assms(2,3,5,8) by (simp add: read_attempt_empty)
  have 2: "pipe_read_attempt (env\<lparr>pe_block := Some u\<rparr>) [n] ?r1 ws = (Again (), ?r2, ws, [])"
    using ends [of ?r1] assms(2,5,8) same by (simp add: read_attempt_empty)
  have 3: "pipe_read_attempt (env\<lparr>pe_interrupted := True\<rparr>) [n] ?r2 ws = (Return [], ?r2, ws, [])"
    using assms(2) same by (simp add: read_attempt_empty)
  have poll: "pr_read_poll x = []" if "write_segments 0 m 0 0 data ?r2 = (k, x)" for m k x
    using that write_segments_poll [of 0 m 0 0 data ?r2] assms(4) by simp
  have "\<exists>r4 ws4. pipe_write_attempt env flags data 0 ?r2 ws = (Return (length (concat data)), r4, ws4, [t]) \<and>
      ring_contents r4 \<noteq> [] \<and> pr_read_wait r4 = [u]"
  proof -
    obtain k x where seg: "write_segments 0 (length (concat data)) 0 0 data ?r2 = (k, x)" by fastforce
    from write_segments_spec [OF _ assms(10) _ _ seg] assms(1,11) same
    have x: "k = length (concat data)" "pr_read_wait x = [t, u]" "ring_contents x = ring_contents r @ concat data"
      by simp_all
    have nt: "notify_readers x ws = (x\<lparr>pr_read_wait := [u]\<rparr>, ws, [t])"
      using x(2) poll [OF seg]
      by (simp add: notify_readers_def wake_reader_def wake_read_poll_waiters_def pwq_drain_def wake_task_def)
    have c: "ring_contents (x\<lparr>pr_read_wait := [u]\<rparr>) = ring_contents x"
      by (rule ring_fields_ext) simp_all
    have "min (available_write ?r2) (length (concat data)) = length (concat data)" "available_write ?r2 \<noteq> 0"
      using same assms(10,11) by linarith+
    with ends [of ?r2] assms(5) seg x(1) nt have
      "pipe_write_attempt env flags data 0 ?r2 ws =
        (Return (length (concat data)), x\<lparr>pr_read_wait := [u]\<rparr>, ws, [t])"
      by (simp add: pipe_write_attempt_def Let_def)
    moreover have "concat data \<noteq> []" using assms(10) by blast
    ultimately show ?thesis using c x(3) by (simp del: concat_eq_Nil_conv)
  qed
  with 1 2 3 show ?thesis by blast
qed

theorem interrupted_reader_steals_wakeup_witness:
  "ring_ok demo_empty \<and> ring_contents demo_empty = [] \<and> length (concat [[1 :: u8, 2]]) \<le> available_write demo_empty \<and>
   (\<exists>r3 r4 ws4. pipe_write_attempt demo_env 0 [[1, 2]] 0 r3 Map.empty = (Return 2, r4, ws4, [10]) \<and>
      ring_contents r4 \<noteq> [] \<and> pr_read_wait r4 = [11])"
proof -
  have h: "pe_alive demo_env = (\<lambda>_. True)" "\<not> pe_interrupted demo_env" by (simp_all add: demo_env_def)
  have len: "0 < length (concat [[1 :: u8, 2]])" "length (concat [[1 :: u8, 2]]) \<le> available_write demo_empty"
    by (simp_all add: demo_empty_facts)
  from interrupted_reader_steals_wakeup [OF demo_empty_facts(1,2,3,4) h(1) _ _ h(2) zero_less_one len,
      of 10 Map.empty 11 0] demo_empty_facts len
  show ?thesis by (auto simp: numeral_2_eq_2)
qed

end
