(* ===== verification/Credentials.thy ===== *)
theory Credentials
  imports Kernel_Prelude
begin

text \<open>
  Process credentials and capabilities (\<open>os/src/task/process.rs\<close>), the identity system calls
  (\<open>os/src/syscall/process/identity.rs\<close>) and the discretionary access check
  (\<open>os/src/syscall/fs/permissions.rs\<close>).

  A call that changes credentials runs under the lock of the process, so it is a function of the
  credentials; the result carries the new credentials. Arguments of type \<open>i32\<close> are integers.
  The outcome of a user memory access is a parameter: the value read or the error number, and
  for a write the error, if any. What a call writes to user memory is part of its result where
  later calls depend on it.
\<close>

section \<open>Definitions\<close>

subsection \<open>Capability sets\<close>

record capability_sets =
  cs_effective :: "u32 list"
  cs_permitted :: "u32 list"
  cs_inheritable :: "u32 list"
  cs_bounding :: "u32 list"
  cs_ambient :: "u32 list"

definition CAP_SETPCAP :: nat where
  "CAP_SETPCAP = 8"

definition CAP_LAST_CAP :: nat where
  "CAP_LAST_CAP = 40"

definition all_known_bits :: "u32 list" where
  "all_known_bits = [- 1, push_bit (CAP_LAST_CAP + 1 - 32) 1 - 1]"

definition cap_bit :: "nat \<Rightarrow> (nat \<times> u32) option" where
  "cap_bit cap = (if CAP_LAST_CAP < cap then None else Some (cap div 32, push_bit (cap mod 32) 1))"

definition caps_root :: capability_sets where
  "caps_root = \<lparr>cs_effective = all_known_bits, cs_permitted = all_known_bits,
     cs_inheritable = [0, 0], cs_bounding = all_known_bits, cs_ambient = [0, 0]\<rparr>"

definition test_cap :: "nat \<Rightarrow> u32 list \<Rightarrow> bool option" where
  "test_cap cap words = map_option (\<lambda>(index, mask). words ! index AND mask \<noteq> 0) (cap_bit cap)"

definition has_effective :: "nat \<Rightarrow> capability_sets \<Rightarrow> bool option" where
  "has_effective cap c = test_cap cap (cs_effective c)"

definition has_permitted :: "nat \<Rightarrow> capability_sets \<Rightarrow> bool option" where
  "has_permitted cap c = test_cap cap (cs_permitted c)"

definition has_inheritable :: "nat \<Rightarrow> capability_sets \<Rightarrow> bool option" where
  "has_inheritable cap c = test_cap cap (cs_inheritable c)"

definition ambient_contains :: "nat \<Rightarrow> capability_sets \<Rightarrow> bool option" where
  "ambient_contains cap c = test_cap cap (cs_ambient c)"

definition bounding_contains :: "nat \<Rightarrow> capability_sets \<Rightarrow> bool option" where
  "bounding_contains cap c = test_cap cap (cs_bounding c)"

definition raise_ambient :: "nat \<Rightarrow> capability_sets \<Rightarrow> capability_sets option" where
  "raise_ambient cap c =
     map_option (\<lambda>(index, mask). c\<lparr>cs_ambient := (cs_ambient c)[index := cs_ambient c ! index OR mask]\<rparr>)
       (cap_bit cap)"

definition lower_ambient :: "nat \<Rightarrow> capability_sets \<Rightarrow> capability_sets option" where
  "lower_ambient cap c =
     map_option (\<lambda>(index, mask). c\<lparr>cs_ambient := (cs_ambient c)[index := cs_ambient c ! index AND NOT mask]\<rparr>)
       (cap_bit cap)"

definition clear_ambient :: "capability_sets \<Rightarrow> capability_sets" where
  "clear_ambient c = c\<lparr>cs_ambient := [0, 0]\<rparr>"

definition clamp_ambient :: "capability_sets \<Rightarrow> capability_sets" where
  "clamp_ambient c = c\<lparr>cs_ambient :=
     map (\<lambda>index. cs_ambient c ! index AND (cs_permitted c ! index AND cs_inheritable c ! index))
       [0..<length (cs_ambient c)]\<rparr>"

definition drop_bounding :: "nat \<Rightarrow> capability_sets \<Rightarrow> capability_sets option" where
  "drop_bounding cap c =
     map_option (\<lambda>(index, mask). c\<lparr>cs_bounding := (cs_bounding c)[index := cs_bounding c ! index AND NOT mask]\<rparr>)
       (cap_bit cap)"

subsection \<open>Credentials\<close>

record credentials =
  cr_ruid :: u32
  cr_euid :: u32
  cr_suid :: u32
  cr_fsuid :: u32
  cr_rgid :: u32
  cr_egid :: u32
  cr_sgid :: u32
  cr_fsgid :: u32
  cr_groups :: "u32 list"
  cr_capabilities :: capability_sets

definition credentials_root :: credentials where
  "credentials_root = \<lparr>cr_ruid = 0, cr_euid = 0, cr_suid = 0, cr_fsuid = 0, cr_rgid = 0, cr_egid = 0,
     cr_sgid = 0, cr_fsgid = 0, cr_groups = [], cr_capabilities = caps_root\<rparr>"

definition is_root :: "credentials \<Rightarrow> bool" where
  "is_root c \<longleftrightarrow> cr_euid c = 0"

definition uid_matches_saved_set :: "u32 \<Rightarrow> credentials \<Rightarrow> bool" where
  "uid_matches_saved_set uid c \<longleftrightarrow> uid = cr_ruid c \<or> uid = cr_euid c \<or> uid = cr_suid c"

definition gid_matches_saved_set :: "u32 \<Rightarrow> credentials \<Rightarrow> bool" where
  "gid_matches_saved_set gid c \<longleftrightarrow> gid = cr_rgid c \<or> gid = cr_egid c \<or> gid = cr_sgid c"

definition can_signal :: "credentials \<Rightarrow> credentials \<Rightarrow> bool" where
  "can_signal c target \<longleftrightarrow> is_root c \<or> uid_matches_saved_set (cr_ruid c) target
     \<or> uid_matches_saved_set (cr_euid c) target"

type_synonym id_result = "(errno + int) \<times> credentials"

definition require_valid_id :: "int \<Rightarrow> errno + u32 option" where
  "require_valid_id i =
     (if i = - 1 then Inr None else if i < 0 then Inl EINVAL else Inr (Some (word_of_int i)))"

definition set_opt :: "('a \<Rightarrow> 's \<Rightarrow> 's) \<Rightarrow> 'a option \<Rightarrow> 's \<Rightarrow> 's" where
  "set_opt f v s = (case v of None \<Rightarrow> s | Some x \<Rightarrow> f x s)"

definition sys_setuid :: "u32 \<Rightarrow> credentials \<Rightarrow> id_result" where
  "sys_setuid uid c =
     (if is_root c
      then (Inr 0, c\<lparr>cr_ruid := uid, cr_euid := uid, cr_suid := uid, cr_fsuid := uid\<rparr>)
      else if uid = cr_ruid c \<or> uid = cr_suid c
      then (Inr 0, c\<lparr>cr_euid := uid, cr_fsuid := uid\<rparr>)
      else (Inl EPERM, c))"

definition sys_setgid :: "u32 \<Rightarrow> credentials \<Rightarrow> id_result" where
  "sys_setgid gid c =
     (if is_root c
      then (Inr 0, c\<lparr>cr_rgid := gid, cr_egid := gid, cr_sgid := gid, cr_fsgid := gid\<rparr>)
      else if gid = cr_rgid c \<or> gid = cr_sgid c
      then (Inr 0, c\<lparr>cr_egid := gid, cr_fsgid := gid\<rparr>)
      else (Inl EPERM, c))"

definition setreuid_ids :: "u32 option \<Rightarrow> u32 option \<Rightarrow> credentials \<Rightarrow> id_result" where
  "setreuid_ids ruid euid c =
     (if \<not> is_root c \<and>
         ((\<exists>x \<in> set_option ruid. x \<noteq> cr_ruid c \<and> x \<noteq> cr_euid c) \<or>
          (\<exists>x \<in> set_option euid. x \<noteq> cr_ruid c \<and> x \<noteq> cr_euid c \<and> x \<noteq> cr_suid c))
      then (Inl EPERM, c)
      else
        (let c1 = set_opt (\<lambda>x c. c\<lparr>cr_ruid := x\<rparr>) ruid c;
             c2 = set_opt (\<lambda>x c. c\<lparr>cr_euid := x, cr_fsuid := x\<rparr>) euid c1
         in (Inr 0, if ruid \<noteq> None \<or> (\<exists>x \<in> set_option euid. x \<noteq> cr_ruid c)
                    then c2\<lparr>cr_suid := cr_euid c2\<rparr> else c2)))"

definition sys_setreuid :: "int \<Rightarrow> int \<Rightarrow> credentials \<Rightarrow> id_result" where
  "sys_setreuid ruid euid c =
     (case require_valid_id ruid of Inl e \<Rightarrow> (Inl e, c)
      | Inr r \<Rightarrow> (case require_valid_id euid of Inl e \<Rightarrow> (Inl e, c)
          | Inr e \<Rightarrow> setreuid_ids r e c))"

definition setregid_ids :: "u32 option \<Rightarrow> u32 option \<Rightarrow> credentials \<Rightarrow> id_result" where
  "setregid_ids rgid egid c =
     (if \<not> is_root c \<and>
         ((\<exists>x \<in> set_option rgid. x \<noteq> cr_rgid c \<and> x \<noteq> cr_egid c \<and> x \<noteq> cr_sgid c) \<or>
          (\<exists>x \<in> set_option egid. x \<noteq> cr_rgid c \<and> x \<noteq> cr_egid c \<and> x \<noteq> cr_sgid c))
      then (Inl EPERM, c)
      else
        (let c1 = set_opt (\<lambda>x c. c\<lparr>cr_rgid := x\<rparr>) rgid c;
             c2 = set_opt (\<lambda>x c. c\<lparr>cr_egid := x, cr_fsgid := x\<rparr>) egid c1
         in (Inr 0, if rgid \<noteq> None \<or> (\<exists>x \<in> set_option egid. x \<noteq> cr_rgid c)
                    then c2\<lparr>cr_sgid := cr_egid c2\<rparr> else c2)))"

definition sys_setregid :: "int \<Rightarrow> int \<Rightarrow> credentials \<Rightarrow> id_result" where
  "sys_setregid rgid egid c =
     (case require_valid_id rgid of Inl e \<Rightarrow> (Inl e, c)
      | Inr r \<Rightarrow> (case require_valid_id egid of Inl e \<Rightarrow> (Inl e, c)
          | Inr e \<Rightarrow> setregid_ids r e c))"

definition setresuid_ids :: "u32 option \<Rightarrow> u32 option \<Rightarrow> u32 option \<Rightarrow> credentials \<Rightarrow> id_result" where
  "setresuid_ids ruid euid suid c =
     (if \<not> is_root c \<and>
         (\<exists>x \<in> set_option ruid \<union> set_option euid \<union> set_option suid. \<not> uid_matches_saved_set x c)
      then (Inl EPERM, c)
      else
        (let c1 = set_opt (\<lambda>x c. c\<lparr>cr_ruid := x\<rparr>) ruid c;
             c2 = set_opt (\<lambda>x c. c\<lparr>cr_euid := x\<rparr>) euid c1;
             c3 = set_opt (\<lambda>x c. c\<lparr>cr_suid := x\<rparr>) suid c2
         in (Inr 0, c3\<lparr>cr_fsuid := cr_euid c3\<rparr>)))"

definition sys_setresuid :: "int \<Rightarrow> int \<Rightarrow> int \<Rightarrow> credentials \<Rightarrow> id_result" where
  "sys_setresuid ruid euid suid c =
     (case require_valid_id ruid of Inl e \<Rightarrow> (Inl e, c)
      | Inr r \<Rightarrow> (case require_valid_id euid of Inl e \<Rightarrow> (Inl e, c)
          | Inr e \<Rightarrow> (case require_valid_id suid of Inl e' \<Rightarrow> (Inl e', c)
              | Inr s \<Rightarrow> setresuid_ids r e s c)))"

definition setresgid_ids :: "u32 option \<Rightarrow> u32 option \<Rightarrow> u32 option \<Rightarrow> credentials \<Rightarrow> id_result" where
  "setresgid_ids rgid egid sgid c =
     (if \<not> is_root c \<and>
         (\<exists>x \<in> set_option rgid \<union> set_option egid \<union> set_option sgid. \<not> gid_matches_saved_set x c)
      then (Inl EPERM, c)
      else
        (let c1 = set_opt (\<lambda>x c. c\<lparr>cr_rgid := x\<rparr>) rgid c;
             c2 = set_opt (\<lambda>x c. c\<lparr>cr_egid := x\<rparr>) egid c1;
             c3 = set_opt (\<lambda>x c. c\<lparr>cr_sgid := x\<rparr>) sgid c2
         in (Inr 0, c3\<lparr>cr_fsgid := cr_egid c3\<rparr>)))"

definition sys_setresgid :: "int \<Rightarrow> int \<Rightarrow> int \<Rightarrow> credentials \<Rightarrow> id_result" where
  "sys_setresgid rgid egid sgid c =
     (case require_valid_id rgid of Inl e \<Rightarrow> (Inl e, c)
      | Inr r \<Rightarrow> (case require_valid_id egid of Inl e \<Rightarrow> (Inl e, c)
          | Inr e \<Rightarrow> (case require_valid_id sgid of Inl e' \<Rightarrow> (Inl e', c)
              | Inr s \<Rightarrow> setresgid_ids r e s c)))"

definition sys_setfsuid :: "int \<Rightarrow> credentials \<Rightarrow> id_result" where
  "sys_setfsuid uid c =
     (case require_valid_id uid of Inl e \<Rightarrow> (Inl e, c)
      | Inr v \<Rightarrow> (Inr (uint (cr_fsuid c)),
          (case v of None \<Rightarrow> c
           | Some u \<Rightarrow>
               if is_root c \<or> u = cr_ruid c \<or> u = cr_euid c \<or> u = cr_suid c \<or> u = cr_fsuid c
               then c\<lparr>cr_fsuid := u\<rparr> else c)))"

definition sys_setfsgid :: "int \<Rightarrow> credentials \<Rightarrow> id_result" where
  "sys_setfsgid gid c =
     (case require_valid_id gid of Inl e \<Rightarrow> (Inl e, c)
      | Inr v \<Rightarrow> (Inr (uint (cr_fsgid c)),
          (case v of None \<Rightarrow> c
           | Some g \<Rightarrow>
               if is_root c \<or> g = cr_rgid c \<or> g = cr_egid c \<or> g = cr_sgid c \<or> g = cr_fsgid c
               then c\<lparr>cr_fsgid := g\<rparr> else c)))"

definition sys_getuid :: "credentials \<Rightarrow> int" where "sys_getuid c = uint (cr_ruid c)"
definition sys_geteuid :: "credentials \<Rightarrow> int" where "sys_geteuid c = uint (cr_euid c)"
definition sys_getgid :: "credentials \<Rightarrow> int" where "sys_getgid c = uint (cr_rgid c)"
definition sys_getegid :: "credentials \<Rightarrow> int" where "sys_getegid c = uint (cr_egid c)"

text \<open>
  The three destinations of \<open>getresuid\<close> and \<open>getresgid\<close>, in order: \<open>None\<close> for a null pointer, else the outcome
  of the write. The result lists the values that reached user memory.
\<close>

fun write_ids :: "(errno option option \<times> u32) list \<Rightarrow> (errno + int) \<times> u32 list" where
  "write_ids [] = (Inr 0, [])"
| "write_ids ((None, v) # ws) = write_ids ws"
| "write_ids ((Some (Some e), v) # ws) = (Inl e, [])"
| "write_ids ((Some None, v) # ws) = (case write_ids ws of (r, out) \<Rightarrow> (r, v # out))"

definition sys_getresuid ::
  "errno option option \<Rightarrow> errno option option \<Rightarrow> errno option option \<Rightarrow> credentials \<Rightarrow> (errno + int) \<times> u32 list" where
  "sys_getresuid r e s c = write_ids [(r, cr_ruid c), (e, cr_euid c), (s, cr_suid c)]"

definition sys_getresgid ::
  "errno option option \<Rightarrow> errno option option \<Rightarrow> errno option option \<Rightarrow> credentials \<Rightarrow> (errno + int) \<times> u32 list" where
  "sys_getresgid r e s c = write_ids [(r, cr_rgid c), (e, cr_egid c), (s, cr_sgid c)]"

subsection \<open>Groups\<close>

definition NGROUPS_MAX :: nat where
  "NGROUPS_MAX = 65536"

text \<open>Reading and writing the elements of a user array, in order, up to the first fault.\<close>

fun read_items :: "(nat \<Rightarrow> errno + 'a) \<Rightarrow> nat list \<Rightarrow> errno + 'a list" where
  "read_items rd [] = Inr []"
| "read_items rd (i # is) =
     (case rd i of Inl e \<Rightarrow> Inl e
      | Inr x \<Rightarrow> (case read_items rd is of Inl e \<Rightarrow> Inl e | Inr xs \<Rightarrow> Inr (x # xs)))"

fun write_items :: "(nat \<Rightarrow> errno option) \<Rightarrow> nat list \<Rightarrow> errno option" where
  "write_items wr [] = None"
| "write_items wr (i # is) = (case wr i of Some e \<Rightarrow> Some e | None \<Rightarrow> write_items wr is)"

definition sys_setgroups :: "nat \<Rightarrow> bool \<Rightarrow> (nat \<Rightarrow> errno + u32) \<Rightarrow> credentials \<Rightarrow> id_result" where
  "sys_setgroups sz list_null rd c =
     (if NGROUPS_MAX < sz then (Inl EINVAL, c)
      else if cr_euid c \<noteq> 0 then (Inl EPERM, c)
      else if 0 < sz \<and> list_null then (Inl EFAULT, c)
      else (case read_items rd [0..<sz] of
          Inl e \<Rightarrow> (Inl e, c)
        | Inr groups \<Rightarrow> (Inr 0, c\<lparr>cr_groups := groups\<rparr>)))"

text \<open>The groups that end up in user memory are those of the credentials.\<close>

definition sys_getgroups :: "nat \<Rightarrow> bool \<Rightarrow> (nat \<Rightarrow> errno option) \<Rightarrow> credentials \<Rightarrow> (errno + int) \<times> u32 list" where
  "sys_getgroups sz list_null wr c =
     (let n = length (cr_groups c)
      in if sz = 0 then (Inr (int n), [])
         else if sz < n then (Inl EINVAL, [])
         else if list_null then (Inl EFAULT, [])
         else (case write_items wr [0..<n] of
             Some e \<Rightarrow> (Inl e, [])
           | None \<Rightarrow> (Inr (int n), cr_groups c)))"

subsection \<open>capget and capset\<close>

record cap_user_header =
  ch_version :: u32
  ch_pid :: int

record cap_user_data =
  cd_effective :: u32
  cd_permitted :: u32
  cd_inheritable :: u32

definition LINUX_CAPABILITY_VERSION_1 :: u32 where "LINUX_CAPABILITY_VERSION_1 = 0x19980330"
definition LINUX_CAPABILITY_VERSION_2 :: u32 where "LINUX_CAPABILITY_VERSION_2 = 0x20071026"
definition LINUX_CAPABILITY_VERSION_3 :: u32 where "LINUX_CAPABILITY_VERSION_3 = 0x20080522"

definition linux_capability_u32s :: "u32 \<Rightarrow> nat option" where
  "linux_capability_u32s version =
     (if version = LINUX_CAPABILITY_VERSION_1 then Some 1
      else if version = LINUX_CAPABILITY_VERSION_2 \<or> version = LINUX_CAPABILITY_VERSION_3 then Some 2
      else None)"

text \<open>The target of \<open>capget\<close>; \<open>lookup\<close> is the table of live processes.\<close>

definition capability_target ::
  "nat \<Rightarrow> nat \<Rightarrow> (nat \<Rightarrow> credentials option) \<Rightarrow> credentials \<Rightarrow> int \<Rightarrow> errno + credentials" where
  "capability_target getpid tid lookup cur pid =
     (if pid < 0 then Inl EINVAL
      else if nat pid = 0 \<or> nat pid = getpid \<or> nat pid = tid then Inr cur
      else (case lookup (nat pid) of None \<Rightarrow> Inl ESRCH | Some c \<Rightarrow> Inr c))"

definition sys_capget ::
  "errno + cap_user_header \<Rightarrow> errno option \<Rightarrow> bool \<Rightarrow> (nat \<Rightarrow> errno option) \<Rightarrow> nat \<Rightarrow> nat
    \<Rightarrow> (nat \<Rightarrow> credentials option) \<Rightarrow> credentials \<Rightarrow> (errno + int) \<times> cap_user_data list" where
  "sys_capget header write_header data_null wr getpid tid lookup cur =
     (case header of
        Inl e \<Rightarrow> (Inl e, [])
      | Inr h \<Rightarrow>
          (case linux_capability_u32s (ch_version h) of
             None \<Rightarrow> (case write_header of Some e \<Rightarrow> (Inl e, []) | None \<Rightarrow> (Inl EINVAL, []))
           | Some u32s \<Rightarrow>
               (case capability_target getpid tid lookup cur (ch_pid h) of
                  Inl e \<Rightarrow> (Inl e, [])
                | Inr c \<Rightarrow>
                    if data_null then (Inr 0, [])
                    else (case write_items wr [0..<u32s] of
                        Some e \<Rightarrow> (Inl e, [])
                      | None \<Rightarrow> (Inr 0,
                          map (\<lambda>i. \<lparr>cd_effective = cs_effective (cr_capabilities c) ! i,
                                    cd_permitted = cs_permitted (cr_capabilities c) ! i,
                                    cd_inheritable = cs_inheritable (cr_capabilities c) ! i\<rparr>) [0..<u32s])))))"

definition capability_data_subset ::
  "cap_user_data list \<Rightarrow> nat \<Rightarrow> (nat \<Rightarrow> u32) \<Rightarrow> (cap_user_data \<Rightarrow> u32) \<Rightarrow> bool" where
  "capability_data_subset data u32s allowed field \<longleftrightarrow>
     (\<forall>index \<in> set [0..<u32s]. field (data ! index) AND NOT (allowed index) = 0)"

definition overwrite :: "nat \<Rightarrow> (cap_user_data \<Rightarrow> u32) \<Rightarrow> cap_user_data list \<Rightarrow> u32 list \<Rightarrow> u32 list" where
  "overwrite n field data old = map field (take n data) @ drop n old"

definition capset_credentials :: "nat \<Rightarrow> cap_user_data list \<Rightarrow> credentials \<Rightarrow> id_result" where
  "capset_credentials u32s data c =
     (let old = cr_capabilities c
      in if \<not> capability_data_subset data u32s (\<lambda>i. cd_permitted (data ! i)) cd_effective then (Inl EPERM, c)
         else if \<not> capability_data_subset data u32s (\<lambda>i. cs_permitted old ! i) cd_permitted then (Inl EPERM, c)
         else if \<not> capability_data_subset data u32s (\<lambda>i. cs_bounding old ! i) cd_inheritable then (Inl EPERM, c)
         else if \<not> capability_data_subset data u32s (\<lambda>i. cs_inheritable old ! i OR cs_permitted old ! i) cd_inheritable
         then (Inl EPERM, c)
         else (Inr 0, c\<lparr>cr_capabilities := clamp_ambient
                (old\<lparr>cs_effective := overwrite u32s cd_effective data (cs_effective old),
                     cs_permitted := overwrite u32s cd_permitted data (cs_permitted old),
                     cs_inheritable := overwrite u32s cd_inheritable data (cs_inheritable old)\<rparr>)\<rparr>))"

definition sys_capset ::
  "errno + cap_user_header \<Rightarrow> errno option \<Rightarrow> bool \<Rightarrow> (nat \<Rightarrow> errno + cap_user_data) \<Rightarrow> nat \<Rightarrow> nat
    \<Rightarrow> credentials \<Rightarrow> id_result" where
  "sys_capset header write_header data_null rd getpid tid c =
     (case header of
        Inl e \<Rightarrow> (Inl e, c)
      | Inr h \<Rightarrow>
          (case linux_capability_u32s (ch_version h) of
             None \<Rightarrow> (case write_header of Some e \<Rightarrow> (Inl e, c) | None \<Rightarrow> (Inl EINVAL, c))
           | Some u32s \<Rightarrow>
               if ch_pid h < 0 then (Inl EINVAL, c)
               else if nat (ch_pid h) \<noteq> 0 \<and> nat (ch_pid h) \<noteq> getpid \<and> nat (ch_pid h) \<noteq> tid then (Inl EPERM, c)
               else if data_null then (Inl EFAULT, c)
               else (case read_items rd [0..<u32s] of
                   Inl e \<Rightarrow> (Inl e, c)
                 | Inr items \<Rightarrow>
                     capset_credentials u32s
                       (items @ replicate (2 - u32s) \<lparr>cd_effective = 0, cd_permitted = 0, cd_inheritable = 0\<rparr>) c)))"

subsection \<open>prctl\<close>

record prctl_proc =
  pc_credentials :: credentials
  pc_securebits :: u32
  pc_pdeath_signal :: u32
  pc_dumpable :: bool
  pc_comm :: "u8 list"
  pc_child_subreaper :: bool
  pc_no_new_privs :: bool
  pc_thp_disabled :: bool
  pc_timer_slack_ns :: usize
  pc_default_timer_slack_ns :: usize

text \<open>
  The process name is a \<open>String\<close> built from Latin-1 characters, one per byte read; \<open>pc_comm\<close> is the
  list of these characters. \<open>as_bytes\<close> is its UTF-8 encoding.
\<close>

definition char_utf8 :: "u8 \<Rightarrow> u8 list" where
  "char_utf8 b = (if b < 0x80 then [b] else [0xC0 OR drop_bit 6 b, 0x80 OR (b AND 0x3F)])"

definition as_bytes :: "u8 list \<Rightarrow> u8 list" where
  "as_bytes name = concat (map char_utf8 name)"

definition PR_NAME_LEN :: nat where
  "PR_NAME_LEN = 16"

definition prctl_name :: "u8 list \<Rightarrow> u8 list" where
  "prctl_name raw = take (min (length (takeWhile (\<lambda>b. b \<noteq> 0) raw)) (PR_NAME_LEN - 1)) raw"

definition prctl_name_bytes :: "u8 list \<Rightarrow> u8 list" where
  "prctl_name_bytes name =
     (let bytes = as_bytes name; len = min (length bytes) (PR_NAME_LEN - 1)
      in take len bytes @ replicate (PR_NAME_LEN - len) 0)"

definition securebits_block_ambient_raise :: "u32 \<Rightarrow> bool" where
  "securebits_block_ambient_raise securebits \<longleftrightarrow> securebits AND 0x40 \<noteq> 0 \<or> securebits = 6"

definition require_no_extra_args :: "usize list \<Rightarrow> bool" where
  "require_no_extra_args args \<longleftrightarrow> (\<forall>a \<in> set args. a = 0)"

definition SIGNAL_INFO_SLOTS :: nat where
  "SIGNAL_INFO_SLOTS = 65"

definition valid_signum :: "u32 \<Rightarrow> bool" where
  "valid_signum signum \<longleftrightarrow> unat signum < SIGNAL_INFO_SLOTS"

datatype prctl_out = NoOut | OutInt int | OutBytes "u8 list"

type_synonym prctl_result = "(errno + int) \<times> prctl_out \<times> prctl_proc"

definition pr_ok :: "int \<Rightarrow> prctl_proc \<Rightarrow> prctl_result" where
  "pr_ok v p = (Inr v, NoOut, p)"

definition pr_err :: "errno \<Rightarrow> prctl_proc \<Rightarrow> prctl_result" where
  "pr_err e p = (Inl e, NoOut, p)"

definition pr_write :: "errno option \<Rightarrow> prctl_out \<Rightarrow> prctl_proc \<Rightarrow> prctl_result" where
  "pr_write wr out p = (case wr of None \<Rightarrow> (Inr 0, out, p) | Some e \<Rightarrow> (Inl e, NoOut, p))"

definition caps_update ::
  "(capability_sets \<Rightarrow> capability_sets) \<Rightarrow> prctl_proc \<Rightarrow> prctl_proc" where
  "caps_update f p = p\<lparr>pc_credentials :=
     (pc_credentials p)\<lparr>cr_capabilities := f (cr_capabilities (pc_credentials p))\<rparr>\<rparr>"

definition prctl_cap_ambient :: "usize \<Rightarrow> usize \<Rightarrow> usize \<Rightarrow> usize \<Rightarrow> prctl_proc \<Rightarrow> prctl_result" where
  "prctl_cap_ambient command cap arg4 arg5 p =
     (let caps = cr_capabilities (pc_credentials p)
      in if \<not> require_no_extra_args [arg4, arg5] then pr_err EINVAL p
         else if command = 4 then
           (if cap \<noteq> 0 then pr_err EINVAL p else pr_ok 0 (caps_update clear_ambient p))
         else if command = 1 then
           (case ambient_contains (unat cap) caps of
              None \<Rightarrow> pr_err EINVAL p | Some b \<Rightarrow> pr_ok (of_bool b) p)
         else if command = 3 then
           (case lower_ambient (unat cap) caps of
              None \<Rightarrow> pr_err EINVAL p | Some c \<Rightarrow> pr_ok 0 (caps_update (\<lambda>_. c) p))
         else if command = 2 then
           (if securebits_block_ambient_raise (pc_securebits p) then pr_err EPERM p
            else (case (has_permitted (unat cap) caps, has_inheritable (unat cap) caps,
                        raise_ambient (unat cap) caps) of
                (Some permitted, Some inheritable, Some c) \<Rightarrow>
                  if \<not> permitted \<or> \<not> inheritable then pr_err EPERM p
                  else pr_ok 0 (caps_update (\<lambda>_. c) p)
              | _ \<Rightarrow> pr_err EINVAL p))
         else pr_err EINVAL p)"

text \<open>
  \<open>rd\<close> is the outcome of reading the 16 bytes of a name, \<open>wr\<close> of writing a result to user memory.
\<close>

definition sys_prctl ::
  "errno + u8 list \<Rightarrow> errno option \<Rightarrow> usize \<Rightarrow> usize \<Rightarrow> usize \<Rightarrow> usize \<Rightarrow> usize \<Rightarrow> prctl_proc \<Rightarrow> prctl_result" where
  "sys_prctl rd wr opt arg2 arg3 arg4 arg5 p =
     (let caps = cr_capabilities (pc_credentials p)
      in if opt = 1 then
           (if \<not> valid_signum (ucast arg2) then pr_err EINVAL p
            else pr_ok 0 (p\<lparr>pc_pdeath_signal := ucast arg2\<rparr>))
         else if opt = 2 then pr_write wr (OutInt (sint (pc_pdeath_signal p))) p
         else if opt = 3 then pr_ok (of_bool (pc_dumpable p)) p
         else if opt = 4 then
           (if 1 < arg2 then pr_err EINVAL p else pr_ok 0 (p\<lparr>pc_dumpable := arg2 \<noteq> 0\<rparr>))
         else if opt = 14 then (if arg2 = 0 then pr_ok 0 p else pr_err EINVAL p)
         else if opt = 15 then
           (case rd of Inl e \<Rightarrow> pr_err e p | Inr raw \<Rightarrow> pr_ok 0 (p\<lparr>pc_comm := prctl_name raw\<rparr>))
         else if opt = 16 then pr_write wr (OutBytes (prctl_name_bytes (pc_comm p))) p
         else if opt = 23 then
           (case bounding_contains (unat arg2) caps of
              None \<Rightarrow> pr_err EINVAL p | Some b \<Rightarrow> pr_ok (of_bool b) p)
         else if opt = 24 then
           (if has_effective CAP_SETPCAP caps \<noteq> Some True then pr_err EPERM p
            else (case drop_bounding (unat arg2) caps of
                None \<Rightarrow> pr_err EINVAL p | Some c \<Rightarrow> pr_ok 0 (caps_update (\<lambda>_. c) p)))
         else if opt = 27 then pr_ok (uint (pc_securebits p)) p
         else if opt = 28 then
           (if has_effective CAP_SETPCAP caps \<noteq> Some True then pr_err EPERM p
            else pr_ok 0 (p\<lparr>pc_securebits := ucast arg2\<rparr>))
         else if opt = 29 then
           pr_ok 0 (p\<lparr>pc_timer_slack_ns := (if arg2 = 0 then pc_default_timer_slack_ns p else arg2)\<rparr>)
         else if opt = 30 then pr_ok (sint (pc_timer_slack_ns p)) p
         else if opt = 36 then pr_ok 0 (p\<lparr>pc_child_subreaper := arg2 \<noteq> 0\<rparr>)
         else if opt = 37 then pr_write wr (OutInt (of_bool (pc_child_subreaper p))) p
         else if opt = 38 then
           (if arg2 \<noteq> 1 then pr_err EINVAL p
            else if \<not> require_no_extra_args [arg3, arg4, arg5] then pr_err EINVAL p
            else pr_ok 0 (p\<lparr>pc_no_new_privs := True\<rparr>))
         else if opt = 39 then
           (if \<not> require_no_extra_args [arg2, arg3, arg4, arg5] then pr_err EINVAL p
            else pr_ok (of_bool (pc_no_new_privs p)) p)
         else if opt = 41 then
           (if \<not> require_no_extra_args [arg3, arg4, arg5] then pr_err EINVAL p
            else if 1 < arg2 then pr_err EINVAL p
            else pr_ok 0 (p\<lparr>pc_thp_disabled := arg2 \<noteq> 0\<rparr>))
         else if opt = 42 then
           (if \<not> require_no_extra_args [arg2, arg3, arg4, arg5] then pr_err EINVAL p
            else pr_ok (of_bool (pc_thp_disabled p)) p)
         else if opt = 52 then
           (if \<not> require_no_extra_args [arg3, arg4, arg5] then pr_err EINVAL p
            else if arg2 = 0 then pr_ok 0 p else pr_err ENODEV p)
         else if opt = 47 then prctl_cap_ambient arg2 arg3 arg4 arg5 p
         else pr_err EINVAL p)"

subsection \<open>The access check\<close>

record access_subject =
  as_uid :: u32
  as_gid :: u32
  as_groups :: "u32 list"

definition subject_root :: access_subject where
  "subject_root = \<lparr>as_uid = 0, as_gid = 0, as_groups = []\<rparr>"

definition from_fs_credentials :: "credentials \<Rightarrow> access_subject" where
  "from_fs_credentials c = \<lparr>as_uid = cr_fsuid c, as_gid = cr_fsgid c, as_groups = cr_groups c\<rparr>"

definition from_effective_credentials :: "credentials \<Rightarrow> access_subject" where
  "from_effective_credentials c = \<lparr>as_uid = cr_euid c, as_gid = cr_egid c, as_groups = cr_groups c\<rparr>"

definition from_real_credentials :: "credentials \<Rightarrow> access_subject" where
  "from_real_credentials c = \<lparr>as_uid = cr_ruid c, as_gid = cr_rgid c, as_groups = cr_groups c\<rparr>"

definition subject_is_root :: "access_subject \<Rightarrow> bool" where
  "subject_is_root a \<longleftrightarrow> as_uid a = 0"

definition in_group :: "access_subject \<Rightarrow> u32 \<Rightarrow> bool" where
  "in_group a gid \<longleftrightarrow> as_gid a = gid \<or> gid \<in> set (as_groups a)"

record file_owner =
  fo_mode :: u32
  fo_uid :: u32
  fo_gid :: u32

definition S_IFMT :: u32 where "S_IFMT = 0xF000"
definition S_IFREG :: u32 where "S_IFREG = 0x8000"
definition X_OK :: u32 where "X_OK = 1"
definition W_OK :: u32 where "W_OK = 2"
definition R_OK :: u32 where "R_OK = 4"

text \<open>\<open>read_only\<close> says whether the mount of the file is read-only.\<close>

definition check_access_mode ::
  "bool \<Rightarrow> file_owner \<Rightarrow> u32 \<Rightarrow> access_subject \<Rightarrow> errno option" where
  "check_access_mode read_only st mode subject =
     (if mode = 0 then None
      else if mode AND W_OK \<noteq> 0 \<and> read_only then Some EROFS
      else if subject_is_root subject then
        (if mode AND X_OK \<noteq> 0 \<and> fo_mode st AND S_IFMT = S_IFREG \<and> fo_mode st AND 0x49 = 0
         then Some EACCES else None)
      else
        (let requested = mode AND 7;
             granted = (if as_uid subject = fo_uid st then drop_bit 6 (fo_mode st) AND 7
                        else if in_group subject (fo_gid st) then drop_bit 3 (fo_mode st) AND 7
                        else fo_mode st AND 7)
         in if granted AND requested \<noteq> requested then Some EACCES else None))"

definition check_execute_permission :: "bool \<Rightarrow> file_owner \<Rightarrow> access_subject \<Rightarrow> errno option" where
  "check_execute_permission read_only st subject = check_access_mode read_only st X_OK subject"

subsection \<open>Calls in sequence\<close>

datatype cred_call =
    SetUid u32 | SetGid u32 | SetReUid int int | SetReGid int int
  | SetResUid int int int | SetResGid int int int | SetFsUid int | SetFsGid int
  | SetGroups nat bool "nat \<Rightarrow> errno + u32"
  | CapSet "errno + cap_user_header" "errno option" bool "nat \<Rightarrow> errno + cap_user_data" nat nat
  | Prctl "errno + u8 list" "errno option" usize usize usize usize usize

definition id_call :: "(credentials \<Rightarrow> id_result) \<Rightarrow> prctl_proc \<Rightarrow> (errno + int) \<times> prctl_proc" where
  "id_call f p = (case f (pc_credentials p) of (r, c) \<Rightarrow> (r, p\<lparr>pc_credentials := c\<rparr>))"

fun cred_exec :: "cred_call \<Rightarrow> prctl_proc \<Rightarrow> (errno + int) \<times> prctl_proc" where
  "cred_exec (SetUid u) p = id_call (sys_setuid u) p"
| "cred_exec (SetGid g) p = id_call (sys_setgid g) p"
| "cred_exec (SetReUid r e) p = id_call (sys_setreuid r e) p"
| "cred_exec (SetReGid r e) p = id_call (sys_setregid r e) p"
| "cred_exec (SetResUid r e s) p = id_call (sys_setresuid r e s) p"
| "cred_exec (SetResGid r e s) p = id_call (sys_setresgid r e s) p"
| "cred_exec (SetFsUid u) p = id_call (sys_setfsuid u) p"
| "cred_exec (SetFsGid g) p = id_call (sys_setfsgid g) p"
| "cred_exec (SetGroups n null rd) p = id_call (sys_setgroups n null rd) p"
| "cred_exec (CapSet h wh null rd pid tid) p = id_call (sys_capset h wh null rd pid tid) p"
| "cred_exec (Prctl rd wr opt a2 a3 a4 a5) p =
     (case sys_prctl rd wr opt a2 a3 a4 a5 p of (r, out, p') \<Rightarrow> (r, p'))"

definition cred_run :: "cred_call list \<Rightarrow> prctl_proc \<Rightarrow> prctl_proc" where
  "cred_run calls p = fold (\<lambda>call p. snd (cred_exec call p)) calls p"

text \<open>The user and the group ids a process can act with.\<close>

definition uid_set :: "credentials \<Rightarrow> u32 set" where
  "uid_set c = {cr_ruid c, cr_euid c, cr_suid c, cr_fsuid c}"

definition gid_set :: "credentials \<Rightarrow> u32 set" where
  "gid_set c = {cr_rgid c, cr_egid c, cr_sgid c, cr_fsgid c}"

definition confined :: "credentials \<Rightarrow> credentials \<Rightarrow> bool" where
  "confined c c' \<longleftrightarrow> uid_set c' \<subseteq> uid_set c \<and> gid_set c' \<subseteq> gid_set c \<and> cr_groups c' = cr_groups c"

definition wsub :: "u32 \<Rightarrow> u32 \<Rightarrow> bool" where
  "wsub a b \<longleftrightarrow> a AND NOT b = 0"

definition wsubs :: "u32 list \<Rightarrow> u32 list \<Rightarrow> bool" where
  "wsubs xs ys \<longleftrightarrow> (\<forall>i < 2. wsub (xs ! i) (ys ! i))"

definition caps_ok :: "capability_sets \<Rightarrow> bool" where
  "caps_ok c \<longleftrightarrow>
     length (cs_effective c) = 2 \<and> length (cs_permitted c) = 2 \<and> length (cs_inheritable c) = 2 \<and>
     length (cs_bounding c) = 2 \<and> length (cs_ambient c) = 2 \<and>
     wsubs (cs_effective c) (cs_permitted c) \<and> wsubs (cs_ambient c) (cs_permitted c) \<and>
     wsubs (cs_ambient c) (cs_inheritable c)"

text \<open>No capability is gained: permitted and bounding only shrink.\<close>

definition caps_le :: "capability_sets \<Rightarrow> capability_sets \<Rightarrow> bool" where
  "caps_le c c' \<longleftrightarrow> caps_ok c' \<and> wsubs (cs_permitted c') (cs_permitted c) \<and> wsubs (cs_bounding c') (cs_bounding c)"

section \<open>Lemmas\<close>

lemma wsub_bit: "wsub a b \<longleftrightarrow> (\<forall>n. bit a n \<longrightarrow> bit b n)"
proof
  assume h: "wsub a b"
  show "\<forall>n. bit a n \<longrightarrow> bit b n"
  proof (intro allI impI)
    fix n assume n: "bit a n"
    have "bit (a AND NOT b) n = bit 0 n" using h by (simp add: wsub_def)
    with n show "bit b n" using bit_imp_le_length [OF n] by (simp add: bit_simps)
  qed
next
  assume "\<forall>n. bit a n \<longrightarrow> bit b n"
  then show "wsub a b" unfolding wsub_def by (intro bit_word_eqI) (auto simp: bit_simps)
qed

lemma wsub_refl [simp]: "wsub a a" and wsub_zero [simp]: "wsub 0 a"
  by (simp_all add: wsub_bit)

lemma wsub_trans: "wsub a b \<Longrightarrow> wsub b c \<Longrightarrow> wsub a c"
  by (simp add: wsub_bit)

lemma wsub_and: "wsub (a AND b) a" "wsub (a AND b) b"
  by (simp_all add: wsub_bit bit_simps)

lemma wsub_or: "wsub a c \<Longrightarrow> wsub b c \<Longrightarrow> wsub (a OR b) c"
  by (auto simp: wsub_bit bit_simps)

lemma wsubs_refl [simp]: "wsubs xs xs"
  by (simp add: wsubs_def)

lemma wsubs_trans: "wsubs xs ys \<Longrightarrow> wsubs ys zs \<Longrightarrow> wsubs xs zs"
  unfolding wsubs_def using wsub_trans by blast

lemma wsubs_update:
  assumes "wsubs xs ys" and "length xs = 2" and "wsub v (ys ! i)"
  shows "wsubs (xs[i := v]) ys"
  unfolding wsubs_def
proof (intro allI impI)
  fix j :: nat assume "j < 2"
  with assms show "wsub (xs[i := v] ! j) (ys ! j)"
    by (cases "j = i") (simp_all add: wsubs_def)
qed

lemma caps_le_refl: "caps_ok c \<Longrightarrow> caps_le c c"
  by (simp add: caps_le_def)

lemma caps_le_trans: "caps_le a b \<Longrightarrow> caps_le b c \<Longrightarrow> caps_le a c"
  unfolding caps_le_def using wsubs_trans by blast

lemma cap_bit_index: "cap_bit cap = Some (i, m) \<Longrightarrow> i < 2"
  by (auto simp: cap_bit_def CAP_LAST_CAP_def split: if_splits)

text \<open>A one bit mask is in a word exactly when their conjunction is not zero.\<close>

lemma mask_wsub:
  assumes "cap_bit cap = Some (i, m)" and "w AND m \<noteq> 0"
  shows "wsub m w"
proof -
  from assms(1) have m: "m = push_bit (cap mod 32) 1" by (auto simp: cap_bit_def split: if_splits)
  have one: "bit m n \<longleftrightarrow> n = cap mod 32" for n
    by (auto simp: m bit_simps)
  from assms(2) have "\<exists>n. bit (w AND m) n" by (metis bit_eqI bit_0_eq bot_fun_def bot_bool_def)
  then have "bit w (cap mod 32)" using one by (auto simp: bit_simps)
  then show ?thesis by (simp add: wsub_bit one)
qed

lemma drop_bounding_le:
  assumes "caps_ok c" and "drop_bounding cap c = Some c'"
  shows "caps_le c c'"
proof -
  from assms(2) obtain i m where "cap_bit cap = Some (i, m)"
    and c': "c' = c\<lparr>cs_bounding := (cs_bounding c)[i := cs_bounding c ! i AND NOT m]\<rparr>"
    by (auto simp: drop_bounding_def)
  have "wsubs ((cs_bounding c)[i := cs_bounding c ! i AND NOT m]) (cs_bounding c)"
    using assms(1) by (intro wsubs_update) (simp_all add: caps_ok_def wsub_and)
  with assms(1) show ?thesis by (simp add: caps_le_def caps_ok_def c')
qed

lemma lower_ambient_le:
  assumes "caps_ok c" and "lower_ambient cap c = Some c'"
  shows "caps_le c c'"
proof -
  from assms(2) obtain i m where i: "i < 2"
    and c': "c' = c\<lparr>cs_ambient := (cs_ambient c)[i := cs_ambient c ! i AND NOT m]\<rparr>"
    by (auto simp: lower_ambient_def dest: cap_bit_index)
  have sub: "wsubs ((cs_ambient c)[i := cs_ambient c ! i AND NOT m]) ys" if "wsubs (cs_ambient c) ys" for ys
    using assms(1) that i wsub_trans [OF wsub_and(1)]
    by (intro wsubs_update) (simp_all add: caps_ok_def wsubs_def)
  with assms(1) show ?thesis by (simp add: caps_le_def caps_ok_def c')
qed

lemma raise_ambient_le:
  assumes "caps_ok c" and "raise_ambient cap c = Some c'"
    and "has_permitted cap c = Some True" and "has_inheritable cap c = Some True"
  shows "caps_le c c'"
proof -
  from assms(2) obtain i m where cb: "cap_bit cap = Some (i, m)"
    and c': "c' = c\<lparr>cs_ambient := (cs_ambient c)[i := cs_ambient c ! i OR m]\<rparr>"
    by (auto simp: raise_ambient_def)
  have i: "i < 2" by (rule cap_bit_index [OF cb])
  from assms(3,4) cb have m: "wsub m (cs_permitted c ! i)" "wsub m (cs_inheritable c ! i)"
    by (auto simp: has_permitted_def has_inheritable_def test_cap_def intro: mask_wsub [OF cb])
  have sub: "wsubs ((cs_ambient c)[i := cs_ambient c ! i OR m]) ys"
    if "wsubs (cs_ambient c) ys" "wsub m (ys ! i)" for ys
    using assms(1) that i by (intro wsubs_update wsub_or) (simp_all add: caps_ok_def wsubs_def)
  from sub [OF _ m(1)] sub [OF _ m(2)] assms(1) show ?thesis by (simp add: caps_le_def caps_ok_def c')
qed

lemma clear_ambient_le: "caps_ok c \<Longrightarrow> caps_le c (clear_ambient c)"
  by (simp add: caps_le_def caps_ok_def clear_ambient_def wsubs_def nth_Cons')

lemma length_overwrite: "length data = 2 \<Longrightarrow> length old = 2 \<Longrightarrow> n \<le> 2 \<Longrightarrow> length (overwrite n f data old) = 2"
  by (simp add: overwrite_def min_def)

lemma nth_overwrite:
  assumes "length data = 2" and "length old = 2" and "i < 2" and "n \<le> 2"
  shows "overwrite n f data old ! i = (if i < n then f (data ! i) else old ! i)"
  using assms by (auto simp: overwrite_def nth_append min_def)

lemma capability_data_subset_iff:
  "capability_data_subset data n allowed f \<longleftrightarrow> (\<forall>i < n. wsub (f (data ! i)) (allowed i))"
  by (auto simp: capability_data_subset_def wsub_def)

lemma wsubs_overwrite:
  assumes "length data = 2" and "n \<le> 2" and "length old = 2" and "wsubs old ys" and "\<forall>i < n. wsub (f (data ! i)) (ys ! i)"
  shows "wsubs (overwrite n f data old) ys"
  using assms by (simp add: wsubs_def nth_overwrite)

lemma wsubs_overwrite2:
  assumes "length data = 2" and "n \<le> 2" and "length xs = 2" and "length ys = 2" and "wsubs xs ys" and "\<forall>i < n. wsub (f (data ! i)) (g (data ! i))"
  shows "wsubs (overwrite n f data xs) (overwrite n g data ys)"
  using assms by (simp add: wsubs_def nth_overwrite)

lemma clamp_ambient_sub:
  assumes "length (cs_ambient c) = 2"
  shows "wsubs (cs_ambient (clamp_ambient c)) (cs_permitted c)" "wsubs (cs_ambient (clamp_ambient c)) (cs_inheritable c)"
  using assms by (simp_all add: wsubs_def clamp_ambient_def wsub_bit bit_simps)

lemma clamp_ambient_fields [simp]:
  "cs_effective (clamp_ambient c) = cs_effective c" "cs_permitted (clamp_ambient c) = cs_permitted c"
  "cs_inheritable (clamp_ambient c) = cs_inheritable c" "cs_bounding (clamp_ambient c) = cs_bounding c"
  "length (cs_ambient (clamp_ambient c)) = length (cs_ambient c)"
  by (simp_all add: clamp_ambient_def)

lemma capset_credentials_le:
  assumes ok: "caps_ok (cr_capabilities c)" and len: "length data = 2" "n \<le> 2"
    and r: "capset_credentials n data c = (r, c')"
  shows "caps_le (cr_capabilities c) (cr_capabilities c')"
proof (cases r)
  case (Inl e)
  with r have "c' = c" by (auto simp: capset_credentials_def Let_def split: if_splits)
  with ok show ?thesis by (simp add: caps_le_refl)
next
  case (Inr v)
  let ?old = "cr_capabilities c"
  let ?mid = "?old\<lparr>cs_effective := overwrite n cd_effective data (cs_effective ?old),
       cs_permitted := overwrite n cd_permitted data (cs_permitted ?old),
       cs_inheritable := overwrite n cd_inheritable data (cs_inheritable ?old)\<rparr>"
  from r Inr have c': "cr_capabilities c' = clamp_ambient ?mid"
    and e: "\<forall>i < n. wsub (cd_effective (data ! i)) (cd_permitted (data ! i))"
    and p: "\<forall>i < n. wsub (cd_permitted (data ! i)) (cs_permitted ?old ! i)"
    by (auto simp: capset_credentials_def Let_def capability_data_subset_iff split: if_splits)
  from ok have l: "length (cs_effective ?old) = 2" "length (cs_permitted ?old) = 2"
    "length (cs_inheritable ?old) = 2" "length (cs_bounding ?old) = 2" "length (cs_ambient ?old) = 2"
    and eo: "wsubs (cs_effective ?old) (cs_permitted ?old)" by (simp_all add: caps_ok_def)
  have 1: "wsubs (cs_effective ?mid) (cs_permitted ?mid)"
    using wsubs_overwrite2 [OF len l(1,2) eo e] by simp
  have 2: "wsubs (cs_permitted ?mid) (cs_permitted ?old)"
    using wsubs_overwrite [OF len l(2) _ p] by simp
  have am: "length (cs_ambient ?mid) = 2" using l by simp
  show ?thesis
    using 1 2 clamp_ambient_sub [OF am] l len by (simp add: c' caps_le_def caps_ok_def length_overwrite)
qed

lemma read_items_length: "read_items rd is = Inr xs \<Longrightarrow> length xs = length is"
  by (induction "is" arbitrary: xs) (auto split: sum.splits)

lemma sys_capset_cases:
  assumes "sys_capset h wh null rd pid tid c = (r, c')"
  shows "c' = c \<or> (\<exists>n data. n \<le> 2 \<and> length data = 2 \<and> capset_credentials n data c = (r, c'))"
proof (cases "\<exists>hd n items. h = Inr hd \<and> linux_capability_u32s (ch_version hd) = Some n
    \<and> read_items rd [0..<n] = Inr items")
  case False
  with assms have "c' = c"
    unfolding sys_capset_def by (auto split: sum.splits option.splits if_splits)
  then show ?thesis ..
next
  case True
  then obtain hd n items where h: "h = Inr hd" "linux_capability_u32s (ch_version hd) = Some n"
    "read_items rd [0..<n] = Inr items" by blast
  from h(2) have n: "n \<le> 2" by (auto simp: linux_capability_u32s_def split: if_splits)
  let ?data = "items @ replicate (2 - n) \<lparr>cd_effective = 0, cd_permitted = 0, cd_inheritable = 0\<rparr>"
  have "length ?data = 2" using n read_items_length [OF h(3)] by simp
  with n assms h show ?thesis unfolding sys_capset_def
    by (auto split: if_splits)
qed

lemma sys_capset_le:
  assumes "caps_ok (cr_capabilities c)" and "sys_capset h wh null rd pid tid c = (r, c')"
  shows "caps_le (cr_capabilities c) (cr_capabilities c')"
  using sys_capset_cases [OF assms(2)] capset_credentials_le [OF assms(1)] caps_le_refl [OF assms(1)] by blast

text \<open>
  What a call of \<open>prctl\<close> may do to the credentials: no id changes, and the capability sets only as
  \<^const>\<open>caps_le\<close> allows.
\<close>

definition caps_change :: "prctl_proc \<Rightarrow> prctl_proc \<Rightarrow> bool" where
  "caps_change p p' \<longleftrightarrow>
     (\<exists>caps. pc_credentials p' = (pc_credentials p)\<lparr>cr_capabilities := caps\<rparr> \<and>
        (caps_ok (cr_capabilities (pc_credentials p)) \<longrightarrow> caps_le (cr_capabilities (pc_credentials p)) caps))"

definition pr_keeps :: "prctl_proc \<Rightarrow> prctl_result \<Rightarrow> bool" where
  "pr_keeps p r \<longleftrightarrow> caps_change p (snd (snd r)) \<and> ((\<exists>e. fst r = Inl e) \<longrightarrow> snd (snd r) = p)"

lemma caps_change_same: "pc_credentials p' = pc_credentials p \<Longrightarrow> caps_change p p'"
  unfolding caps_change_def using caps_le_refl
  by (intro exI [of _ "cr_capabilities (pc_credentials p)"]) simp

lemma caps_change_update:
  assumes "caps_ok (cr_capabilities (pc_credentials p)) \<Longrightarrow>
    caps_le (cr_capabilities (pc_credentials p)) (f (cr_capabilities (pc_credentials p)))"
  shows "caps_change p (caps_update f p)"
  using assms unfolding caps_change_def caps_update_def by auto

lemma pr_keeps_if: "(b \<Longrightarrow> pr_keeps p x) \<Longrightarrow> (\<not> b \<Longrightarrow> pr_keeps p y) \<Longrightarrow> pr_keeps p (if b then x else y)"
  by simp

lemma pr_keeps_option:
  "(v = None \<Longrightarrow> pr_keeps p x) \<Longrightarrow> (\<And>z. v = Some z \<Longrightarrow> pr_keeps p (f z)) \<Longrightarrow>
   pr_keeps p (case v of None \<Rightarrow> x | Some z \<Rightarrow> f z)"
  by (cases v) simp_all

lemma pr_keeps_sum:
  "(\<And>z. pr_keeps p (f z)) \<Longrightarrow> (\<And>z. pr_keeps p (g z)) \<Longrightarrow>
   pr_keeps p (case v of Inl z \<Rightarrow> f z | Inr z \<Rightarrow> g z)"
  by (cases v) simp_all

lemma pr_keeps_ok: "caps_change p p' \<Longrightarrow> pr_keeps p (pr_ok v p')"
  by (simp add: pr_keeps_def pr_ok_def)

lemma pr_keeps_err: "pr_keeps p (pr_err e p)" and pr_keeps_write: "pr_keeps p (pr_write wr out p)"
  by (simp_all add: pr_keeps_def pr_err_def pr_write_def caps_change_same split: option.split)

lemmas pr_keeps_intros = pr_keeps_if pr_keeps_option pr_keeps_sum pr_keeps_err pr_keeps_write pr_keeps_ok

lemma raise_ambient_keeps:
  "pr_keeps p (case (has_permitted cap caps, has_inheritable cap caps, raise_ambient cap caps) of
       (Some permitted, Some inheritable, Some c) \<Rightarrow>
         if \<not> permitted \<or> \<not> inheritable then pr_err EPERM p else pr_ok 0 (caps_update (\<lambda>_. c) p)
     | _ \<Rightarrow> pr_err EINVAL p)"
  if "caps = cr_capabilities (pc_credentials p)"
  using that
  by (auto split: option.split intro!: pr_keeps_err pr_keeps_ok caps_change_update intro: raise_ambient_le)

lemma prctl_cap_ambient_keeps: "pr_keeps p (prctl_cap_ambient cmd cap a4 a5 p)"
  unfolding prctl_cap_ambient_def Let_def
  by (rule pr_keeps_intros caps_change_same caps_change_update clear_ambient_le lower_ambient_le raise_ambient_keeps
      | assumption | simp)+

lemma sys_prctl_keeps: "pr_keeps p (sys_prctl rd wr opt a2 a3 a4 a5 p)"
  unfolding sys_prctl_def Let_def
  by (rule pr_keeps_intros prctl_cap_ambient_keeps caps_change_same caps_change_update drop_bounding_le refl
      | assumption | simp)+

text \<open>The id calls, one lemma per family: what an unprivileged caller can reach.\<close>

lemmas ids_defs = confined_def uid_set_def gid_set_def is_root_def set_opt_def

lemma set_uid_confined:
  assumes "cr_euid c \<noteq> 0"
  shows "confined c (snd (sys_setuid u c))" "confined c (snd (sys_setgid g c))"
    "confined c (snd (sys_setfsuid i c))" "confined c (snd (sys_setfsgid j c))"
    "confined c (snd (sys_setgroups n null rd c))"
  using assms
  by (auto simp: sys_setuid_def sys_setgid_def sys_setfsuid_def sys_setfsgid_def sys_setgroups_def ids_defs
      split: sum.split option.split)

lemma set_re_ids_confined:
  assumes "cr_euid c \<noteq> 0"
  shows "confined c (snd (setreuid_ids ru eu c))" "confined c (snd (setregid_ids rg eg c))"
  by (cases ru; cases eu; auto simp: assms setreuid_ids_def Let_def ids_defs)
     (cases rg; cases eg; auto simp: assms setregid_ids_def Let_def ids_defs)

lemma set_res_ids_confined:
  assumes "cr_euid c \<noteq> 0"
  shows "confined c (snd (setresuid_ids ru eu su c))" "confined c (snd (setresgid_ids rg eg sg c))"
  by (cases ru; cases eu; cases su; auto simp: assms setresuid_ids_def uid_matches_saved_set_def Let_def ids_defs)
     (cases rg; cases eg; cases sg; auto simp: assms setresgid_ids_def gid_matches_saved_set_def Let_def ids_defs)

lemma confined_refl: "confined c c"
  by (simp add: confined_def)

lemma confined_trans: "confined a b \<Longrightarrow> confined b c \<Longrightarrow> confined a c"
  unfolding confined_def by auto

lemma confined_caps: "confined c (c\<lparr>cr_capabilities := x\<rparr>)"
  by (simp add: ids_defs)

lemma re_calls_confined:
  assumes "cr_euid c \<noteq> 0"
  shows "confined c (snd (sys_setreuid a b c))" "confined c (snd (sys_setregid a b c))"
    "confined c (snd (sys_setresuid a b d c))" "confined c (snd (sys_setresgid a b d c))"
  using set_re_ids_confined [OF assms] set_res_ids_confined [OF assms]
  by (simp_all add: sys_setreuid_def sys_setregid_def sys_setresuid_def sys_setresgid_def confined_refl
      split: sum.split)

lemma sys_capset_confined: "confined c (snd (sys_capset h wh null rd pid tid c))"
proof -
  obtain r c' where c': "sys_capset h wh null rd pid tid c = (r, c')" by fastforce
  have "confined c (snd (capset_credentials n data c))" for n data
    by (simp add: capset_credentials_def Let_def confined_refl confined_caps)
  with confined_refl sys_capset_cases [OF c'] show ?thesis by (metis c' snd_conv)
qed

lemma id_call_snd: "pc_credentials (snd (id_call f p)) = snd (f (pc_credentials p))"
  by (simp add: id_call_def split: prod.split)

lemma prctl_change: "caps_change p (snd (cred_exec (Prctl rd wr opt a2 a3 a4 a5) p))"
  using sys_prctl_keeps [of p rd wr opt a2 a3 a4 a5] by (auto simp: pr_keeps_def split: prod.split)

lemma cred_exec_confined:
  assumes "cr_euid (pc_credentials p) \<noteq> 0"
  shows "confined (pc_credentials p) (pc_credentials (snd (cred_exec call p)))"
proof (cases call)
  case (CapSet h wh null rd pid tid)
  then show ?thesis
    by (simp add: id_call_snd sys_capset_confined)
next
  case (Prctl rd wr opt a2 a3 a4 a5)
  then show ?thesis using prctl_change [of p rd wr opt a2 a3 a4 a5] confined_caps
    unfolding caps_change_def Prctl by auto
qed (use set_uid_confined [OF assms] re_calls_confined [OF assms] in \<open>simp_all add: id_call_snd\<close>)

lemma cred_run_confined:
  assumes "0 \<notin> uid_set (pc_credentials p)"
  shows "confined (pc_credentials p) (pc_credentials (cred_run calls p))"
  using assms
proof (induction calls arbitrary: p)
  case Nil
  then show ?case by (simp add: cred_run_def confined_refl)
next
  case (Cons call calls)
  let ?p = "snd (cred_exec call p)"
  have c: "confined (pc_credentials p) (pc_credentials ?p)"
    using Cons.prems by (intro cred_exec_confined) (auto simp: uid_set_def)
  then have "0 \<notin> uid_set (pc_credentials ?p)" using Cons.prems by (auto simp: confined_def)
  from Cons.IH [OF this] c show ?case by (auto simp: cred_run_def intro: confined_trans)
qed

lemma id_calls_keep_caps:
  "cr_capabilities (snd (sys_setuid u c)) = cr_capabilities c"
  "cr_capabilities (snd (sys_setgid g c)) = cr_capabilities c"
  "cr_capabilities (snd (sys_setreuid i j c)) = cr_capabilities c"
  "cr_capabilities (snd (sys_setregid i j c)) = cr_capabilities c"
  "cr_capabilities (snd (sys_setresuid i j k c)) = cr_capabilities c"
  "cr_capabilities (snd (sys_setresgid i j k c)) = cr_capabilities c"
  "cr_capabilities (snd (sys_setfsuid i c)) = cr_capabilities c"
  "cr_capabilities (snd (sys_setfsgid i c)) = cr_capabilities c"
  "cr_capabilities (snd (sys_setgroups n null rd c)) = cr_capabilities c"
  by (simp_all add: sys_setuid_def sys_setgid_def sys_setreuid_def sys_setregid_def sys_setresuid_def
      sys_setresgid_def sys_setfsuid_def sys_setfsgid_def sys_setgroups_def setreuid_ids_def setregid_ids_def
      setresuid_ids_def setresgid_ids_def set_opt_def Let_def split: sum.split option.split)

lemma cred_exec_caps:
  assumes "caps_ok (cr_capabilities (pc_credentials p))"
  shows "caps_le (cr_capabilities (pc_credentials p)) (cr_capabilities (pc_credentials (snd (cred_exec call p))))"
proof (cases call)
  case (CapSet h wh null rd pid tid)
  obtain r c' where "sys_capset h wh null rd pid tid (pc_credentials p) = (r, c')" by fastforce
  with sys_capset_le [OF assms this] show ?thesis by (simp add: CapSet id_call_snd)
next
  case (Prctl rd wr opt a2 a3 a4 a5)
  then show ?thesis using prctl_change [of p rd wr opt a2 a3 a4 a5] assms
    unfolding caps_change_def Prctl by auto
qed (simp_all add: id_call_snd id_calls_keep_caps caps_le_refl assms)

lemma cred_run_caps:
  assumes "caps_ok (cr_capabilities (pc_credentials p))"
  shows "caps_le (cr_capabilities (pc_credentials p)) (cr_capabilities (pc_credentials (cred_run calls p)))"
  using assms
proof (induction calls arbitrary: p)
  case Nil
  then show ?case by (simp add: cred_run_def caps_le_refl)
next
  case (Cons call calls)
  note le = cred_exec_caps [OF Cons.prems, of call]
  then have "caps_ok (cr_capabilities (pc_credentials (snd (cred_exec call p))))" by (simp add: caps_le_def)
  from caps_le_trans [OF le Cons.IH [OF this]] show ?case by (simp add: cred_run_def)
qed

lemma id_call_error:
  assumes "\<And>c e. fst (f c) = Inl e \<Longrightarrow> snd (f c) = c" and "fst (id_call f p) = Inl e"
  shows "snd (id_call f p) = p"
proof -
  obtain r c' where f: "f (pc_credentials p) = (r, c')" by fastforce
  with assms(2) have "r = Inl e" by (simp add: id_call_def)
  with f assms(1) [of "pc_credentials p"] have "c' = pc_credentials p" by simp
  with f show ?thesis by (simp add: id_call_def)
qed

lemma keep_if:
  "(fst x = Inl e \<Longrightarrow> snd x = c) \<Longrightarrow> (fst y = Inl e \<Longrightarrow> snd y = c) \<Longrightarrow>
   fst (if b then x else y) = Inl e \<Longrightarrow> snd (if b then x else y) = c"
  by (cases b) simp_all

lemma keep_sum:
  "(\<And>a. fst (f a) = Inl e \<Longrightarrow> snd (f a) = c) \<Longrightarrow> (\<And>a. fst (g a) = Inl e \<Longrightarrow> snd (g a) = c) \<Longrightarrow>
   fst (case v of Inl a \<Rightarrow> f a | Inr a \<Rightarrow> g a) = Inl e \<Longrightarrow> snd (case v of Inl a \<Rightarrow> f a | Inr a \<Rightarrow> g a) = c"
  by (cases v) simp_all

lemma keep_err: "snd (r, c) = c" and no_err: "fst (Inr v, d) = Inl e \<Longrightarrow> thesis"
  by simp_all

lemma id_errors_keep:
  "fst (sys_setuid u c) = Inl e \<Longrightarrow> snd (sys_setuid u c) = c"
  "fst (sys_setgid g c) = Inl e \<Longrightarrow> snd (sys_setgid g c) = c"
  "fst (setreuid_ids ru eu c) = Inl e \<Longrightarrow> snd (setreuid_ids ru eu c) = c"
  "fst (setregid_ids rg eg c) = Inl e \<Longrightarrow> snd (setregid_ids rg eg c) = c"
  "fst (setresuid_ids ru eu su c) = Inl e \<Longrightarrow> snd (setresuid_ids ru eu su c) = c"
  "fst (setresgid_ids rg eg sg c) = Inl e \<Longrightarrow> snd (setresgid_ids rg eg sg c) = c"
  "fst (capset_credentials n data c) = Inl e \<Longrightarrow> snd (capset_credentials n data c) = c"
  unfolding sys_setuid_def sys_setgid_def setreuid_ids_def setregid_ids_def setresuid_ids_def
    setresgid_ids_def capset_credentials_def Let_def
  by (blast intro: keep_if keep_err elim: no_err)+

lemma id_syscall_errors_keep:
  "fst (sys_setreuid i j c) = Inl e \<Longrightarrow> snd (sys_setreuid i j c) = c"
  "fst (sys_setregid i j c) = Inl e \<Longrightarrow> snd (sys_setregid i j c) = c"
  "fst (sys_setresuid i j k c) = Inl e \<Longrightarrow> snd (sys_setresuid i j k c) = c"
  "fst (sys_setresgid i j k c) = Inl e \<Longrightarrow> snd (sys_setresgid i j k c) = c"
  "fst (sys_setfsuid i c) = Inl e \<Longrightarrow> snd (sys_setfsuid i c) = c"
  "fst (sys_setfsgid i c) = Inl e \<Longrightarrow> snd (sys_setfsgid i c) = c"
  "fst (sys_setgroups n null rd c) = Inl e \<Longrightarrow> snd (sys_setgroups n null rd c) = c"
  by (simp_all add: sys_setreuid_def sys_setregid_def sys_setresuid_def sys_setresgid_def sys_setfsuid_def
      sys_setfsgid_def id_errors_keep split: sum.splits)
     (unfold sys_setgroups_def, blast intro: keep_if keep_sum keep_err elim: no_err)

lemma sys_capset_error: "fst (sys_capset h wh null rd pid tid c) = Inl e \<Longrightarrow> snd (sys_capset h wh null rd pid tid c) = c"
  using sys_capset_cases [of h wh null rd pid tid c] id_errors_keep(7) [of _ _ c e] by (metis prod.collapse)

lemma prctl_error:
  assumes "fst (cred_exec (Prctl rd wr opt a2 a3 a4 a5) p) = Inl e"
  shows "snd (cred_exec (Prctl rd wr opt a2 a3 a4 a5) p) = p"
  using sys_prctl_keeps [of p rd wr opt a2 a3 a4 a5] assms by (auto simp: pr_keeps_def split: prod.splits)

text \<open>The permission triple of the class the subject belongs to, as a bit position of the file's mode.\<close>

definition access_class :: "access_subject \<Rightarrow> file_owner \<Rightarrow> nat" where
  "access_class a st = (if as_uid a = fo_uid st then 6 else if in_group a (fo_gid st) then 3 else 0)"

lemma bit_seven: "bit (7 :: u32) k \<longleftrightarrow> k < 3"
proof -
  have "(7 :: u32) = mask 3" by (simp add: mask_eq_exp_minus_1)
  then show ?thesis by (auto simp only: bit_mask_iff) (auto simp: possible_bit_def)
qed

lemma granted_iff:
  fixes w m :: u32
  shows "(drop_bit s w AND 7) AND (m AND 7) = m AND 7 \<longleftrightarrow> (\<forall>k < 3. bit m k \<longrightarrow> bit w (k + s))"
proof -
  have "(drop_bit s w AND 7) AND (m AND 7) = m AND 7 \<longleftrightarrow>
      (\<forall>k. bit ((drop_bit s w AND 7) AND (m AND 7)) k \<longleftrightarrow> bit (m AND 7) k)"
    by (metis bit_eqI)
  also have "\<dots> \<longleftrightarrow> (\<forall>k < 3. bit m k \<longrightarrow> bit w (k + s))"
    by (simp only: bit_and_iff bit_drop_bit_eq bit_seven comp_def) (auto simp: add.commute)
  finally show ?thesis .
qed

lemma and_bit_nonzero:
  fixes w :: u32
  shows "w AND push_bit n 1 \<noteq> 0 \<longleftrightarrow> bit w n"
  using and_exp_eq_0_iff_not_bit [of w n] by (simp add: push_bit_eq_mult)

lemma ok_bits: "X_OK = push_bit 0 1" "W_OK = push_bit 1 1"
  by (simp_all add: X_OK_def W_OK_def)

lemma exec_bits:
  fixes w :: u32
  shows "w AND 0x49 = 0 \<longleftrightarrow> \<not> bit w 0 \<and> \<not> bit w 3 \<and> \<not> bit w 6"
proof -
  have eq: "(0x49 :: u32) = push_bit 0 1 OR (push_bit 3 1 OR push_bit 6 1)" by simp
  have "w AND 0x49 = (w AND push_bit 0 1) OR ((w AND push_bit 3 1) OR (w AND push_bit 6 1))"
    by (simp only: eq bit.conj_disj_distrib)
  then show ?thesis using and_bit_nonzero [of w 0] and_bit_nonzero [of w 3] and_bit_nonzero [of w 6]
    by (auto simp: or_eq_0_iff)
qed

lemma as_bytes_ascii: "\<forall>b \<in> set name. b < 0x80 \<Longrightarrow> as_bytes name = name"
  by (induction name) (simp_all add: as_bytes_def char_utf8_def)

lemma takeWhile_take: "takeWhile P (take n xs) = take (min (length (takeWhile P xs)) n) xs"
proof (induction xs arbitrary: n)
  case (Cons x xs)
  then show ?case by (cases n) simp_all
qed simp

lemma prctl_name_eq: "prctl_name raw = takeWhile (\<lambda>b. b \<noteq> 0) (take 15 raw)"
  by (simp add: prctl_name_def PR_NAME_LEN_def takeWhile_take)

section \<open>Properties\<close>

text \<open>C12.
  Once none of the user ids of a process is 0, no sequence of calls that set user ids, group ids, groups,
  capabilities or process attributes gives it an id it did not have: its user ids and group ids stay among
  those it started with, its groups stay the same, and it never acts as root again.
\<close>

theorem ids_never_escalate:
  assumes "0 \<notin> uid_set (pc_credentials p)"
  shows "uid_set (pc_credentials (cred_run calls p)) \<subseteq> uid_set (pc_credentials p)
    \<and> gid_set (pc_credentials (cred_run calls p)) \<subseteq> gid_set (pc_credentials p)
    \<and> cr_groups (pc_credentials (cred_run calls p)) = cr_groups (pc_credentials p)
    \<and> \<not> is_root (pc_credentials (cred_run calls p))"
  using cred_run_confined [OF assms, of calls] assms by (auto simp: confined_def uid_set_def is_root_def)

definition init_proc :: prctl_proc where
  "init_proc = \<lparr>pc_credentials = credentials_root, pc_securebits = 0, pc_pdeath_signal = 0, pc_dumpable = True,
     pc_comm = [], pc_child_subreaper = False, pc_no_new_privs = False, pc_thp_disabled = False,
     pc_timer_slack_ns = 50000, pc_default_timer_slack_ns = 50000\<rparr>"

text \<open>A daemon that gave up root for user 1000 and then asks for root again.\<close>

definition dropped_proc :: prctl_proc where
  "dropped_proc = snd (cred_exec (SetUid 1000) init_proc)"

lemma dropped_uids: "uid_set (pc_credentials dropped_proc) = {1000}"
  by (simp add: dropped_proc_def init_proc_def id_call_def sys_setuid_def is_root_def credentials_root_def uid_set_def)

theorem ids_never_escalate_witness:
  "uid_set (pc_credentials (cred_run [SetUid 0, SetResUid 0 0 0, SetFsUid 0] dropped_proc)) \<subseteq> {1000}
   \<and> \<not> is_root (pc_credentials (cred_run [SetUid 0, SetResUid 0 0 0, SetFsUid 0] dropped_proc))
   \<and> is_root (pc_credentials init_proc)"
  using ids_never_escalate [of dropped_proc "[SetUid 0, SetResUid 0 0 0, SetFsUid 0]"]
  by (simp add: dropped_uids) (simp add: init_proc_def credentials_root_def is_root_def)

text \<open>C13.
  In every process whose capability sets are well formed, every sequence of these calls keeps them well formed:
  effective stays within permitted, ambient within both permitted and inheritable, and no call adds a capability
  to the permitted or to the bounding set.
\<close>

theorem capabilities_only_shrink:
  assumes "caps_ok (cr_capabilities (pc_credentials p))"
  shows "caps_ok (cr_capabilities (pc_credentials (cred_run calls p)))
    \<and> wsubs (cs_permitted (cr_capabilities (pc_credentials (cred_run calls p))))
        (cs_permitted (cr_capabilities (pc_credentials p)))
    \<and> wsubs (cs_bounding (cr_capabilities (pc_credentials (cred_run calls p))))
        (cs_bounding (cr_capabilities (pc_credentials p)))"
  using cred_run_caps [OF assms, of calls] by (simp add: caps_le_def)

lemma caps_root_ok: "caps_ok caps_root"
  by (simp add: caps_ok_def caps_root_def all_known_bits_def wsubs_def nth_Cons')

theorem capabilities_only_shrink_witness:
  "caps_ok (cr_capabilities (pc_credentials (cred_run [Prctl (Inl EFAULT) None 24 8 0 0 0] init_proc)))
   \<and> cs_bounding (cr_capabilities (pc_credentials (cred_run [Prctl (Inl EFAULT) None 24 8 0 0 0] init_proc)))
       = [0xFFFFFEFF, 0x1FF]"
proof
  have "caps_ok (cr_capabilities (pc_credentials init_proc))"
    by (simp add: init_proc_def credentials_root_def caps_root_ok)
  from capabilities_only_shrink [OF this]
  show "caps_ok (cr_capabilities (pc_credentials (cred_run [Prctl (Inl EFAULT) None 24 8 0 0 0] init_proc)))"
    by blast
  show "cs_bounding (cr_capabilities (pc_credentials (cred_run [Prctl (Inl EFAULT) None 24 8 0 0 0] init_proc)))
      = [0xFFFFFEFF, 0x1FF]"
    by code_simp
qed

text \<open>A call that sets ids, groups, capabilities or process attributes and fails changes nothing.
\<close>

theorem failed_credential_call_changes_nothing:
  assumes "fst (cred_exec call p) = Inl e"
  shows "snd (cred_exec call p) = p"
  using assms
proof (cases call)
  case (Prctl rd wr opt a2 a3 a4 a5)
  with assms show ?thesis using prctl_error by blast
qed (simp_all add: id_call_error [OF id_errors_keep(1)] id_call_error [OF id_errors_keep(2)]
    id_call_error [OF id_syscall_errors_keep(1)] id_call_error [OF id_syscall_errors_keep(2)]
    id_call_error [OF id_syscall_errors_keep(3)] id_call_error [OF id_syscall_errors_keep(4)]
    id_call_error [OF id_syscall_errors_keep(5)] id_call_error [OF id_syscall_errors_keep(6)]
    id_call_error [OF id_syscall_errors_keep(7)] id_call_error [OF sys_capset_error])

theorem failed_credential_call_changes_nothing_witness:
  "fst (cred_exec (SetResUid 1000 0 (- 1)) dropped_proc) = Inl EPERM
   \<and> snd (cred_exec (SetResUid 1000 0 (- 1)) dropped_proc) = dropped_proc"
proof -
  have e: "fst (cred_exec (SetResUid 1000 0 (- 1)) dropped_proc) = Inl EPERM" by code_simp
  from failed_credential_call_changes_nothing [OF e] e show ?thesis by simp
qed

text \<open>C14.
  The file access check grants exactly what the mode bits say. Nothing requested is granted; writing needs a
  writable mount; root needs an execute bit only to execute a regular file; everyone else needs each requested
  bit in the triple of its class, which is the owner's, else the group's, else the others'.
\<close>

theorem check_access_mode_iff:
  "check_access_mode read_only st mode a = None \<longleftrightarrow>
     mode = 0 \<or>
     \<not> (bit mode 1 \<and> read_only) \<and>
     (if as_uid a = 0
      then bit mode 0 \<and> fo_mode st AND S_IFMT = S_IFREG \<longrightarrow> bit (fo_mode st) 0 \<or> bit (fo_mode st) 3 \<or> bit (fo_mode st) 6
      else \<forall>k < 3. bit mode k \<longrightarrow> bit (fo_mode st) (k + access_class a st))"
proof -
  have w: "mode AND W_OK \<noteq> 0 \<longleftrightarrow> bit mode 1" "mode AND X_OK \<noteq> 0 \<longleftrightarrow> bit mode 0"
    unfolding ok_bits by (rule and_bit_nonzero)+
  have g: "(let requested = mode AND 7;
             granted = (if as_uid a = fo_uid st then drop_bit 6 (fo_mode st) AND 7
                        else if in_group a (fo_gid st) then drop_bit 3 (fo_mode st) AND 7
                        else fo_mode st AND 7)
         in if granted AND requested \<noteq> requested then Some EACCES else None) = None
     \<longleftrightarrow> (\<forall>k < 3. bit mode k \<longrightarrow> bit (fo_mode st) (k + access_class a st))"
    using granted_iff [of 6 "fo_mode st" mode] granted_iff [of 3 "fo_mode st" mode] granted_iff [of 0 "fo_mode st" mode]
    by (simp add: access_class_def Let_def)
  show ?thesis unfolding check_access_mode_def w g subject_is_root_def exec_bits
    using g by auto
qed

theorem check_access_mode_iff_witness:
  "check_access_mode False \<lparr>fo_mode = 0x81A4, fo_uid = 0, fo_gid = 0\<rparr> 4 \<lparr>as_uid = 7, as_gid = 7, as_groups = [0]\<rparr> = None
   \<and> bit (0x81A4 :: u32) (2 + 3)"
proof -
  have e: "check_access_mode False \<lparr>fo_mode = 0x81A4, fo_uid = 0, fo_gid = 0\<rparr> 4
      \<lparr>as_uid = 7, as_gid = 7, as_groups = [0]\<rparr> = None" by code_simp
  have "access_class \<lparr>as_uid = 7, as_gid = 7, as_groups = [0]\<rparr> \<lparr>fo_mode = 0x81A4, fo_uid = 0, fo_gid = 0\<rparr> = 3"
    by (simp add: access_class_def in_group_def)
  with e check_access_mode_iff [of False "\<lparr>fo_mode = 0x81A4, fo_uid = 0, fo_gid = 0\<rparr>" 4
      "\<lparr>as_uid = 7, as_gid = 7, as_groups = [0]\<rparr>"]
  have "\<forall>k < 3. bit (4 :: u32) k \<longrightarrow> bit (0x81A4 :: u32) (k + 3)" by simp
  then have "bit (4 :: u32) 2 \<longrightarrow> bit (0x81A4 :: u32) (2 + 3)" by (rule allE [of _ 2]) simp
  then have "bit (0x81A4 :: u32) (2 + 3)" by simp
  with e show ?thesis by (rule conjI)
qed

text \<open>A name of at most 15 ASCII bytes set with PR_SET_NAME is read back by PR_GET_NAME byte for byte, cut at the
  first NUL and padded with NULs to 16 bytes.
\<close>

theorem prctl_name_roundtrip:
  assumes "length raw = 16" and "\<forall>b \<in> set raw. b < 0x80"
  shows "\<exists>p'. sys_prctl (Inr raw) wr 15 a2 a3 a4 a5 p = (Inr 0, NoOut, p') \<and>
    sys_prctl rd None 16 b2 b3 b4 b5 p' =
      (Inr 0, OutBytes (let name = takeWhile (\<lambda>b. b \<noteq> 0) (take 15 raw) in name @ replicate (16 - length name) 0), p')"
proof -
  have a: "as_bytes (prctl_name raw) = prctl_name raw"
    using assms(2) by (intro as_bytes_ascii) (auto simp: prctl_name_def dest: in_set_takeD)
  have "length (prctl_name raw) \<le> 15" by (simp add: prctl_name_def PR_NAME_LEN_def)
  with a have "prctl_name_bytes (prctl_name raw) = prctl_name raw @ replicate (16 - length (prctl_name raw)) 0"
    by (simp add: prctl_name_bytes_def PR_NAME_LEN_def Let_def min_def)
  then show ?thesis
    by (simp add: sys_prctl_def pr_ok_def pr_write_def prctl_name_eq Let_def)
qed

theorem prctl_name_roundtrip_witness:
  "fst (snd (sys_prctl (Inl EFAULT) None 16 0 0 0 0
      (snd (snd (sys_prctl (Inr (0x73 # 0x68 # replicate 14 0)) None 15 0 0 0 0 init_proc)))))
   = OutBytes (0x73 # 0x68 # replicate 14 0)"
proof -
  have "length ((0x73 :: u8) # 0x68 # replicate 14 0) = 16" "\<forall>b \<in> set ((0x73 :: u8) # 0x68 # replicate 14 0). b < 0x80"
    by simp_all
  from prctl_name_roundtrip [OF this, of None 0 0 0 0 init_proc "Inl EFAULT" 0 0 0 0]
  obtain p' where "sys_prctl (Inr (0x73 # 0x68 # replicate 14 0)) None 15 0 0 0 0 init_proc = (Inr 0, NoOut, p')"
    and get: "sys_prctl (Inl EFAULT) None 16 0 0 0 0 p' = (Inr 0, OutBytes (let name =
        takeWhile (\<lambda>b. b \<noteq> 0) (take 15 (0x73 # 0x68 # replicate 14 0)) in name @ replicate (16 - length name) 0), p')"
    by blast
  moreover have "takeWhile (\<lambda>b. b \<noteq> 0) (take 15 ((0x73 :: u8) # 0x68 # replicate 14 0)) = [0x73, 0x68]" by code_simp
  ultimately show ?thesis by (simp add: Let_def)
qed

text \<open>
  A byte above 0x7F becomes a two byte character of the name, so what is read back differs from what was set.
\<close>

lemma prctl_name_latin1:
  "prctl_name_bytes (prctl_name (0xE9 # replicate 15 0)) = 0xC3 # 0xA9 # replicate 14 0"
  by code_simp

end
