(* ===== verification/Sysv_Ipc.thy ===== *)
theory Sysv_Ipc
  imports Credentials
begin

text \<open>
  What the System V semaphore and message queue managers share: the caller of an operation, the
  permission rule, the search for a free id, and the conversions of \<open>syscall/ipc_util.rs\<close>.

  The source has each of these twice (\<open>SemCaller\<close> and \<open>MsgCaller\<close>, \<open>SemSet::mode_allows\<close> and
  \<open>MsgQueue::mode_allows\<close>) with the same text; here it is once, with the owner fields as arguments.
\<close>

definition IPC_PRIVATE :: int where "IPC_PRIVATE = 0"
definition IPC_CREAT :: u32 where "IPC_CREAT = 0x200"
definition IPC_EXCL :: u32 where "IPC_EXCL = 0x400"
definition IPC_NOWAIT :: u32 where "IPC_NOWAIT = 0x800"

text \<open>\<open>0o777\<close>.\<close>

definition MODE_MASK :: u32 where "MODE_MASK = 0x1FF"

definition pid_to_i32 :: "nat \<Rightarrow> int" where
  "pid_to_i32 pid = (if int pid \<le> i32_max then int pid else i32_max)"

text \<open>\<open>as i32\<close> on a wider integer.\<close>

definition as_i32 :: "int \<Rightarrow> int" where
  "as_i32 z = sint (word_of_int z :: u32)"

text \<open>\<open>try_into().unwrap_or(i32::MAX)\<close>.\<close>

definition i32_or_max :: "nat \<Rightarrow> int" where
  "i32_or_max n = (if int n \<le> i32_max then int n else i32_max)"

record ipc_caller =
  ic_pid :: nat
  ic_euid :: u32
  ic_egid :: u32
  ic_groups :: "u32 list"
  ic_override :: bool

definition caller_from :: "nat \<Rightarrow> credentials \<Rightarrow> ipc_caller" where
  "caller_from pid c = \<lparr>ic_pid = pid, ic_euid = cr_euid c, ic_egid = cr_egid c, ic_groups = cr_groups c,
     ic_override = (cr_euid c = 0)\<rparr>"

definition mode_allows :: "u32 \<Rightarrow> u32 \<Rightarrow> u32 \<Rightarrow> ipc_caller \<Rightarrow> u32 \<Rightarrow> u32 \<Rightarrow> u32 \<Rightarrow> bool" where
  "mode_allows uid gid mode caller owner_bit group_bit other_bit \<longleftrightarrow>
     (if ic_euid caller = uid then mode AND owner_bit \<noteq> 0
      else if ic_egid caller = gid \<or> gid \<in> set (ic_groups caller) then mode AND group_bit \<noteq> 0
      else mode AND other_bit \<noteq> 0)"

text \<open>The loop \<open>while table.contains_key(&next_id) { next_id += 1; }\<close>.\<close>

function skip_used :: "(nat, 'o) btree \<Rightarrow> nat \<Rightarrow> nat" where
  "skip_used table n = (if bt_get table n \<noteq> None then skip_used table (Suc n) else n)"
  by pat_completeness auto

termination
proof (relation "measure (\<lambda>(table, n). card {k \<in> fst ` set table. n \<le> k})")
  show "wf (measure (\<lambda>(table, n). card {k \<in> fst ` set table. n \<le> k}))" by simp
next
  fix table :: "(nat, 'o) btree" and n
  assume "bt_get table n \<noteq> None"
  then have "n \<in> fst ` set table" by (simp add: bt_get_def map_of_eq_None_iff)
  then have "{k \<in> fst ` set table. Suc n \<le> k} \<subset> {k \<in> fst ` set table. n \<le> k}"
    by (intro psubsetI) (auto, metis (mono_tags, lifting) Suc_n_not_le_n fst_conv imageI mem_Collect_eq order_refl)
  then have "card {k \<in> fst ` set table. Suc n \<le> k} < card {k \<in> fst ` set table. n \<le> k}"
    by (intro psubset_card_mono) auto
  then show "((table, Suc n), (table, n)) \<in> measure (\<lambda>(table, n). card {k \<in> fst ` set table. n \<le> k})"
    by simp
qed

declare skip_used.simps [simp del]

lemma skip_used_free: "bt_get table (skip_used table n) = None"
  by (induction table n rule: skip_used.induct) (simp add: skip_used.simps)

lemma skip_used_ge: "n \<le> skip_used table n"
proof (induction table n rule: skip_used.induct)
  case (1 table n)
  then show ?case by (subst skip_used.simps) auto
qed

lemma skip_used_id: "bt_get table n = None \<Longrightarrow> skip_used table n = n"
  by (simp add: skip_used.simps)

text \<open>Within a table kept sorted by key, replacing the object of an id keeps the sums over the others.\<close>

lemma bt_insert_same_keys: "bt_get m k = Some v \<Longrightarrow> map fst (bt_insert k v' m) = map fst m" if "bt_ok m"
  using that
proof (induction m)
  case (Cons e m)
  obtain k' w where e: "e = (k', w)" by (cases e)
  show ?case
  proof (cases "k = k'")
    case False
    then have g: "bt_get m k = Some v" using Cons.prems e by (auto simp: bt_get_def)
    then have "k \<in> set (map fst m)" by (metis bt_get_def map_of_SomeD list.set_map image_eqI fst_conv)
    then have "k' < k" using Cons.prems(2) e by (auto simp: bt_ok_Cons)
    then show ?thesis using Cons.IH [OF g] Cons.prems(2) e by (auto simp: bt_ok_Cons)
  qed (use e in simp)
qed simp

lemma bt_insert_same_length: "bt_ok m \<Longrightarrow> bt_get m k = Some v \<Longrightarrow> length (bt_insert k v' m) = length m"
  using bt_insert_same_keys [of m k v v'] by (metis length_map)

lemma bt_insert_same_sum:
  fixes f :: "'v \<Rightarrow> nat"
  assumes "bt_ok m" and "bt_get m k = Some v" and "f v' = f v"
  shows "sum_list (map (\<lambda>e. f (snd e)) (bt_insert k v' m)) = sum_list (map (\<lambda>e. f (snd e)) m)"
  using assms
proof (induction m)
  case (Cons e m)
  obtain k' w where e: "e = (k', w)" by (cases e)
  show ?case
  proof (cases "k = k'")
    case False
    then have g: "bt_get m k = Some v" using Cons.prems e by (auto simp: bt_get_def)
    then have "k \<in> set (map fst m)" by (metis bt_get_def map_of_SomeD list.set_map image_eqI fst_conv)
    then have "k' < k" using Cons.prems(1) e by (auto simp: bt_ok_Cons)
    then show ?thesis using Cons.IH [OF _ g] Cons.prems e by (auto simp: bt_ok_Cons)
  qed (use e Cons.prems in simp)
qed simp

lemma bt_remove_le:
  fixes f :: "'v \<Rightarrow> nat"
  shows "length (bt_remove k m) \<le> length m"
    "sum_list (map (\<lambda>e. f (snd e)) (bt_remove k m)) \<le> sum_list (map (\<lambda>e. f (snd e)) m)"
  unfolding bt_remove_def by (rule length_filter_le) (induction m, auto)

lemma bt_map_sum:
  fixes f :: "'v \<Rightarrow> nat"
  assumes "\<And>v. f (g v) = f v"
  shows "sum_list (map (\<lambda>e. f (snd e)) (bt_map g m)) = sum_list (map (\<lambda>e. f (snd e)) m)"
  by (simp add: bt_map_def comp_def assms)

lemma length_bt_map [simp]: "length (bt_map f m) = length m"
  by (simp add: bt_map_def)

text \<open>Changing the objects in place without touching their keys keeps the two tables in agreement.\<close>

lemma keyed_ok_map:
  assumes "keyed_ok objs keyed key_of" and "\<And>ob. key_of (f ob) = key_of ob"
  shows "keyed_ok (\<lambda>i. map_option f (objs i)) keyed key_of"
  unfolding keyed_ok_def
proof (intro conjI allI impI)
  fix k i assume "keyed k = Some i"
  with assms(1) obtain ob where "k \<noteq> 0" "objs i = Some ob" "key_of ob = k" unfolding keyed_ok_def by blast
  with assms(2) show "k \<noteq> 0" and "\<exists>ob. map_option f (objs i) = Some ob \<and> key_of ob = k" by simp_all
next
  fix i ob assume "map_option f (objs i) = Some ob" and k: "key_of ob \<noteq> 0"
  then obtain ob0 where o: "objs i = Some ob0" "ob = f ob0" by auto
  have key: "key_of ob = key_of ob0" unfolding o(2) by (rule assms(2))
  with assms(1) k o(1) have "keyed (key_of ob0) = Some i" unfolding keyed_ok_def by metis
  with key show "keyed (key_of ob) = Some i" by metis
qed

end
