(* ===== verification/Sysv_Sem.thy ===== *)
theory Sysv_Sem
  imports Sysv_Ipc
begin

text \<open>
  System V semaphores (\<open>os/src/syscall/sem.rs\<close>).

  The manager holds the sets by id and the ids by key. Each operation of the source is a function on the
  manager; it returns the result, the new manager and the tasks it wakes. The wall clock (\<open>now\<close>, in seconds)
  is an argument. The sleeping loop of \<open>semtimedop\<close> takes one record of observations per pass: the clock, whether
  the scheduler lets the task block, what other tasks do to the manager while it sleeps, and the signals.
\<close>

section \<open>Data\<close>

datatype sem_error =
    SemNotFound | SemExists | SemInvalid | SemNoSpace | SemAccessDenied | SemNotPermitted | SemRange
  | SemTooBig | SemWouldBlock | SemInterrupted

primrec sem_error_to_sys_error :: "sem_error \<Rightarrow> errno" where
  "sem_error_to_sys_error SemNotFound = ENOENT"
| "sem_error_to_sys_error SemExists = EEXIST"
| "sem_error_to_sys_error SemInvalid = EINVAL"
| "sem_error_to_sys_error SemNoSpace = ENOSPC"
| "sem_error_to_sys_error SemAccessDenied = EACCES"
| "sem_error_to_sys_error SemNotPermitted = EPERM"
| "sem_error_to_sys_error SemRange = ERANGE"
| "sem_error_to_sys_error SemTooBig = EFBIG"
| "sem_error_to_sys_error SemWouldBlock = EAGAIN"
| "sem_error_to_sys_error SemInterrupted = EINTR"

definition SEMMNI :: nat where "SEMMNI = 4096"
definition SEMMSL :: nat where "SEMMSL = 32000"
definition SEMMNS :: nat where "SEMMNS = SEMMNI * 10"
definition SEMOPM :: nat where "SEMOPM = 500"
definition SEMVMX :: int where "SEMVMX = 32767"
definition SEMAEM :: int where "SEMAEM = SEMVMX"

record sembuf =
  sb_num :: u16
  sb_op :: u16
  sb_flg :: u16

record sem_value =
  sv_value :: int
  sv_pid :: int
  sv_ncnt :: nat
  sv_zcnt :: nat

datatype sem_wait_kind = NonZero | Zero

record sem_waiter =
  sw_task :: task_id
  sw_sem_num :: nat
  sw_kind :: sem_wait_kind

record sem_set =
  ss_key :: int
  ss_mode :: u32
  ss_uid :: u32
  ss_gid :: u32
  ss_cuid :: u32
  ss_cgid :: u32
  ss_ctime :: int
  ss_otime :: int
  ss_values :: "sem_value list"
  ss_waiters :: "sem_waiter list"

record sem_set_stat =
  st_key :: int
  st_uid :: u32
  st_gid :: u32
  st_cuid :: u32
  st_cgid :: u32
  st_mode :: u32
  st_otime :: int
  st_ctime :: int
  st_nsems :: nat

record sem_usage_info =
  su_used_ids :: nat
  su_total_sems :: nat
  su_highest_index :: nat

record sem_manager =
  sm_next_id :: nat
  sm_sets :: "(nat, sem_set) btree"
  sm_keyed_sets :: "(int, nat) btree"

section \<open>Operations of a set\<close>

definition sem_set_new :: "int \<Rightarrow> int \<Rightarrow> nat \<Rightarrow> u32 \<Rightarrow> u32 \<Rightarrow> u32 \<Rightarrow> sem_set" where
  "sem_set_new now key nsems mode uid gid =
     \<lparr>ss_key = key, ss_mode = mode, ss_uid = uid, ss_gid = gid, ss_cuid = uid, ss_cgid = gid, ss_ctime = now,
      ss_otime = 0, ss_values = replicate nsems \<lparr>sv_value = 0, sv_pid = 0, sv_ncnt = 0, sv_zcnt = 0\<rparr>,
      ss_waiters = []\<rparr>"

definition sem_can_read :: "sem_set \<Rightarrow> ipc_caller \<Rightarrow> bool" where
  "sem_can_read s caller \<longleftrightarrow>
     mode_allows (ss_uid s) (ss_gid s) (ss_mode s) caller 0x100 0x20 0x4 \<or> ic_override caller"

definition sem_can_alter :: "sem_set \<Rightarrow> ipc_caller \<Rightarrow> bool" where
  "sem_can_alter s caller \<longleftrightarrow>
     mode_allows (ss_uid s) (ss_gid s) (ss_mode s) caller 0x80 0x10 0x2 \<or> ic_override caller"

definition sem_is_owner_or_creator :: "sem_set \<Rightarrow> ipc_caller \<Rightarrow> bool" where
  "sem_is_owner_or_creator s caller \<longleftrightarrow>
     ic_euid caller = ss_uid s \<or> ic_euid caller = ss_cuid s \<or> ic_override caller"

definition sem_stat :: "sem_set \<Rightarrow> sem_set_stat" where
  "sem_stat s = \<lparr>st_key = ss_key s, st_uid = ss_uid s, st_gid = ss_gid s, st_cuid = ss_cuid s,
     st_cgid = ss_cgid s, st_mode = ss_mode s AND MODE_MASK, st_otime = ss_otime s, st_ctime = ss_ctime s,
     st_nsems = length (ss_values s)\<rparr>"

text \<open>One waiter less on the semaphore it waits for; the subtraction saturates, as on \<open>nat\<close>.\<close>

definition uncount :: "sem_waiter \<Rightarrow> sem_value list \<Rightarrow> sem_value list" where
  "uncount w values =
     (if sw_sem_num w < length values
      then (let v = values ! sw_sem_num w
            in values[sw_sem_num w := (case sw_kind w of
                   NonZero \<Rightarrow> v\<lparr>sv_ncnt := sv_ncnt v - 1\<rparr> | Zero \<Rightarrow> v\<lparr>sv_zcnt := sv_zcnt v - 1\<rparr>)])
      else values)"

definition sem_wake_waiters :: "sem_set \<Rightarrow> sem_set \<times> task_id list" where
  "sem_wake_waiters s =
     (s\<lparr>ss_values := fold uncount (ss_waiters s) (ss_values s), ss_waiters := []\<rparr>,
      map sw_task (ss_waiters s))"

section \<open>The manager\<close>

definition sem_manager_new :: sem_manager where
  "sem_manager_new = \<lparr>sm_next_id = 1, sm_sets = [], sm_keyed_sets = []\<rparr>"

definition sem_alloc_id :: "sem_manager \<Rightarrow> nat \<times> sem_manager" where
  "sem_alloc_id m = (let i = skip_used (sm_sets m) (sm_next_id m) in (i, m\<lparr>sm_next_id := i + 1\<rparr>))"

definition total_sems :: "sem_manager \<Rightarrow> nat" where
  "total_sems m = sum_list (map (\<lambda>e. length (ss_values (snd e))) (sm_sets m))"

definition sem_register :: "nat \<Rightarrow> sem_set \<Rightarrow> sem_manager \<Rightarrow> sem_manager" where
  "sem_register i s m = m\<lparr>sm_sets := bt_insert i s (sm_sets m),
     sm_keyed_sets := (if ss_key s \<noteq> IPC_PRIVATE then bt_insert (ss_key s) i (sm_keyed_sets m)
                       else sm_keyed_sets m)\<rparr>"

definition sem_unregister :: "nat \<Rightarrow> sem_set \<Rightarrow> sem_manager \<Rightarrow> sem_manager" where
  "sem_unregister i s m = m\<lparr>sm_sets := bt_remove i (sm_sets m),
     sm_keyed_sets := (if ss_key s \<noteq> IPC_PRIVATE then bt_remove (ss_key s) (sm_keyed_sets m)
                       else sm_keyed_sets m)\<rparr>"

text \<open>A change of a set in place, through \<open>get_mut\<close>.\<close>

definition sem_replace :: "nat \<Rightarrow> sem_set \<Rightarrow> sem_manager \<Rightarrow> sem_manager" where
  "sem_replace i s m = m\<lparr>sm_sets := bt_insert i s (sm_sets m)\<rparr>"

definition create_set ::
  "int \<Rightarrow> int \<Rightarrow> nat \<Rightarrow> u32 \<Rightarrow> u32 \<Rightarrow> u32 \<Rightarrow> sem_manager \<Rightarrow> (sem_error + nat) \<times> sem_manager" where
  "create_set now key nsems mode uid gid m =
     (if length (sm_sets m) \<ge> SEMMNI \<or> saturating_add (total_sems m) nsems > SEMMNS then (Inl SemNoSpace, m)
      else (case sem_alloc_id m of
          (semid, m') \<Rightarrow> (Inr semid, sem_register semid (sem_set_new now key nsems mode uid gid) m')))"

definition sem_get_or_create ::
  "int \<Rightarrow> int \<Rightarrow> nat \<Rightarrow> u32 \<Rightarrow> u32 \<Rightarrow> u32 \<Rightarrow> ipc_caller \<Rightarrow> sem_manager \<Rightarrow> (sem_error + nat) \<times> sem_manager" where
  "sem_get_or_create now key nsems semflg uid gid caller m =
     (let mode = semflg AND MODE_MASK; flags = semflg AND NOT MODE_MASK
      in if nsems = 0 \<or> SEMMSL < nsems then (Inl SemInvalid, m)
         else if flags AND NOT (IPC_CREAT OR IPC_EXCL) \<noteq> 0 then (Inl SemInvalid, m)
         else if key = IPC_PRIVATE then create_set now key nsems mode uid gid m
         else (case bt_get (sm_keyed_sets m) key of
             Some semid \<Rightarrow>
               if flags AND (IPC_CREAT OR IPC_EXCL) = (IPC_CREAT OR IPC_EXCL) then (Inl SemExists, m)
               else (case bt_get (sm_sets m) semid of
                   None \<Rightarrow> (Inl SemNotFound, m)
                 | Some s \<Rightarrow>
                     if length (ss_values s) < nsems then (Inl SemInvalid, m)
                     else if \<not> sem_can_read s caller \<and> \<not> sem_can_alter s caller then (Inl SemAccessDenied, m)
                     else (Inr semid, m))
           | None \<Rightarrow>
               if flags AND IPC_CREAT = 0 then (Inl SemNotFound, m)
               else create_set now key nsems mode uid gid m))"

type_synonym 'a sem_result = "(sem_error + 'a) \<times> sem_manager \<times> task_id list"

definition remove_set :: "nat \<Rightarrow> ipc_caller \<Rightarrow> sem_manager \<Rightarrow> unit sem_result" where
  "remove_set semid caller m =
     (case bt_get (sm_sets m) semid of
        None \<Rightarrow> (Inl SemInvalid, m, [])
      | Some s \<Rightarrow>
          if \<not> sem_is_owner_or_creator s caller then (Inl SemNotPermitted, m, [])
          else (Inr (), sem_unregister semid s m, snd (sem_wake_waiters s)))"

text \<open>The check that opens every query: the set exists and may be read.\<close>

definition readable_set :: "nat \<Rightarrow> ipc_caller \<Rightarrow> sem_manager \<Rightarrow> sem_error + sem_set" where
  "readable_set semid caller m =
     (case bt_get (sm_sets m) semid of
        None \<Rightarrow> Inl SemInvalid
      | Some s \<Rightarrow> if \<not> sem_can_read s caller then Inl SemAccessDenied else Inr s)"

definition sem_stat_by_id :: "nat \<Rightarrow> ipc_caller \<Rightarrow> sem_manager \<Rightarrow> sem_error + sem_set_stat" where
  "sem_stat_by_id semid caller m = map_sum id sem_stat (readable_set semid caller m)"

definition sem_stat_by_index ::
  "nat \<Rightarrow> ipc_caller \<Rightarrow> bool \<Rightarrow> sem_manager \<Rightarrow> sem_error + nat \<times> sem_set_stat" where
  "sem_stat_by_index index caller skip_permission m =
     (case bt_get (sm_sets m) index of
        None \<Rightarrow> Inl SemInvalid
      | Some s \<Rightarrow> if \<not> skip_permission \<and> \<not> sem_can_read s caller then Inl SemAccessDenied
                  else Inr (index, sem_stat s))"

definition sem_set_attrs ::
  "int \<Rightarrow> nat \<Rightarrow> u32 \<Rightarrow> u32 \<Rightarrow> u32 \<Rightarrow> ipc_caller \<Rightarrow> sem_manager \<Rightarrow> unit sem_result" where
  "sem_set_attrs now semid uid gid mode caller m =
     (case bt_get (sm_sets m) semid of
        None \<Rightarrow> (Inl SemInvalid, m, [])
      | Some s \<Rightarrow>
          if \<not> sem_is_owner_or_creator s caller then (Inl SemNotPermitted, m, [])
          else (Inr (), sem_replace semid
                 (s\<lparr>ss_uid := uid, ss_gid := gid, ss_mode := mode AND MODE_MASK, ss_ctime := now\<rparr>) m, []))"

definition nth_value :: "sem_set \<Rightarrow> nat \<Rightarrow> sem_error + sem_value" where
  "nth_value s semnum = (if semnum < length (ss_values s) then Inr (ss_values s ! semnum) else Inl SemInvalid)"

definition sem_get_value :: "nat \<Rightarrow> nat \<Rightarrow> ipc_caller \<Rightarrow> sem_manager \<Rightarrow> sem_error + int" where
  "sem_get_value semid semnum caller m =
     (case readable_set semid caller m of
        Inl e \<Rightarrow> Inl e | Inr s \<Rightarrow> map_sum id sv_value (nth_value s semnum))"

definition sem_get_pid :: "nat \<Rightarrow> nat \<Rightarrow> ipc_caller \<Rightarrow> sem_manager \<Rightarrow> sem_error + int" where
  "sem_get_pid semid semnum caller m =
     (case readable_set semid caller m of
        Inl e \<Rightarrow> Inl e | Inr s \<Rightarrow> map_sum id sv_pid (nth_value s semnum))"

definition get_wait_count :: "nat \<Rightarrow> nat \<Rightarrow> bool \<Rightarrow> ipc_caller \<Rightarrow> sem_manager \<Rightarrow> sem_error + nat" where
  "get_wait_count semid semnum zero caller m =
     (case readable_set semid caller m of
        Inl e \<Rightarrow> Inl e
      | Inr s \<Rightarrow> map_sum id (\<lambda>v. if zero then sv_zcnt v else sv_ncnt v) (nth_value s semnum))"

definition sem_get_all :: "nat \<Rightarrow> ipc_caller \<Rightarrow> sem_manager \<Rightarrow> sem_error + u16 list" where
  "sem_get_all semid caller m =
     map_sum id (\<lambda>s. map (\<lambda>v. word_of_int (sv_value v)) (ss_values s)) (readable_set semid caller m)"

text \<open>The set with its change stored and its waiters woken.\<close>

definition sem_commit :: "nat \<Rightarrow> sem_set \<Rightarrow> sem_manager \<Rightarrow> unit sem_result" where
  "sem_commit semid s m = (case sem_wake_waiters s of (s', woken) \<Rightarrow> (Inr (), sem_replace semid s' m, woken))"

definition sem_set_value ::
  "int \<Rightarrow> nat \<Rightarrow> nat \<Rightarrow> int \<Rightarrow> ipc_caller \<Rightarrow> sem_manager \<Rightarrow> unit sem_result" where
  "sem_set_value now semid semnum raw_value caller m =
     (if raw_value < 0 \<or> SEMVMX < raw_value then (Inl SemRange, m, [])
      else (case bt_get (sm_sets m) semid of
          None \<Rightarrow> (Inl SemInvalid, m, [])
        | Some s \<Rightarrow>
            if \<not> sem_can_alter s caller then (Inl SemAccessDenied, m, [])
            else if length (ss_values s) \<le> semnum then (Inl SemInvalid, m, [])
            else sem_commit semid
                   (s\<lparr>ss_values := (ss_values s)[semnum := (ss_values s ! semnum)
                          \<lparr>sv_value := raw_value, sv_pid := pid_to_i32 (ic_pid caller)\<rparr>],
                      ss_ctime := now\<rparr>) m))"

definition sem_set_all ::
  "int \<Rightarrow> nat \<Rightarrow> u16 list \<Rightarrow> ipc_caller \<Rightarrow> sem_manager \<Rightarrow> unit sem_result" where
  "sem_set_all now semid values caller m =
     (if \<exists>v \<in> set values. SEMVMX < uint v then (Inl SemRange, m, [])
      else (case bt_get (sm_sets m) semid of
          None \<Rightarrow> (Inl SemInvalid, m, [])
        | Some s \<Rightarrow>
            if \<not> sem_can_alter s caller then (Inl SemAccessDenied, m, [])
            else if length values \<noteq> length (ss_values s) then (Inl SemInvalid, m, [])
            else sem_commit semid
                   (s\<lparr>ss_values := map2 (\<lambda>sv v. sv\<lparr>sv_value := uint v, sv_pid := pid_to_i32 (ic_pid caller)\<rparr>)
                          (ss_values s) values,
                      ss_ctime := now\<rparr>) m))"

section \<open>semop\<close>

definition op_num :: "sembuf \<Rightarrow> nat" where "op_num op = unat (sb_num op)"
definition op_val :: "sembuf \<Rightarrow> int" where "op_val op = sint (sb_op op)"

text \<open>The three loops of \<open>try_semop\<close>: the checks, the trial run on a copy of the values, and the stores.\<close>

fun check_ops :: "sembuf list \<Rightarrow> sem_set \<Rightarrow> ipc_caller \<Rightarrow> sem_error option" where
  "check_ops [] s caller = None"
| "check_ops (op # ops) s caller =
     (if length (ss_values s) \<le> op_num op then Some SemTooBig
      else if op_val op = 0 then
        (if \<not> sem_can_read s caller then Some SemAccessDenied else check_ops ops s caller)
      else if \<not> sem_can_alter s caller then Some SemAccessDenied
      else check_ops ops s caller)"

fun run_ops :: "sembuf list \<Rightarrow> int list \<Rightarrow> sem_error + int list" where
  "run_ops [] new_values = Inr new_values"
| "run_ops (op # ops) new_values =
     (let current = new_values ! op_num op
      in if op_val op = 0 then (if current \<noteq> 0 then Inl SemWouldBlock else run_ops ops new_values)
         else (let nxt = current + op_val op
               in if op_val op < 0 \<and> nxt < 0 then Inl SemWouldBlock
                  else if SEMVMX < nxt then Inl SemRange
                  else run_ops ops (new_values[op_num op := nxt])))"

definition store_op :: "int \<Rightarrow> int list \<Rightarrow> sembuf \<Rightarrow> sem_value list \<Rightarrow> sem_value list" where
  "store_op pid new_values op values =
     (if op_val op \<noteq> 0
      then values[op_num op := (values ! op_num op)\<lparr>sv_value := new_values ! op_num op, sv_pid := pid\<rparr>]
      else values)"

definition try_semop :: "int \<Rightarrow> nat \<Rightarrow> sembuf list \<Rightarrow> ipc_caller \<Rightarrow> sem_manager \<Rightarrow> unit sem_result" where
  "try_semop now semid ops caller m =
     (if ops = [] then (Inl SemInvalid, m, [])
      else if SEMOPM < length ops then (Inl SemTooBig, m, [])
      else (case bt_get (sm_sets m) semid of
          None \<Rightarrow> (Inl SemInvalid, m, [])
        | Some s \<Rightarrow>
            (case check_ops ops s caller of
               Some e \<Rightarrow> (Inl e, m, [])
             | None \<Rightarrow>
                 (case run_ops ops (map sv_value (ss_values s)) of
                    Inl e \<Rightarrow> (Inl e, m, [])
                  | Inr new_values \<Rightarrow>
                      sem_commit semid
                        (s\<lparr>ss_values := fold (store_op (pid_to_i32 (ic_pid caller)) new_values) ops (ss_values s),
                           ss_otime := now\<rparr>) m))))"

fun first_waiting_run :: "sembuf list \<Rightarrow> int list \<Rightarrow> (nat \<times> sem_wait_kind) option" where
  "first_waiting_run [] values = None"
| "first_waiting_run (op # ops) values =
     (if length values \<le> op_num op then None
      else
        (let current = values ! op_num op
         in if op_val op = 0
            then (if current \<noteq> 0 then Some (op_num op, Zero) else first_waiting_run ops values)
            else (let nxt = current + op_val op
                  in if op_val op < 0 \<and> nxt < 0 then Some (op_num op, NonZero)
                     else if SEMVMX < nxt then None
                     else first_waiting_run ops (values[op_num op := nxt]))))"

definition first_waiting_op :: "sem_set \<Rightarrow> sembuf list \<Rightarrow> (nat \<times> sem_wait_kind) option" where
  "first_waiting_op s ops = first_waiting_run ops (map sv_value (ss_values s))"

text \<open>
  \<open>blocked\<close> is the outcome of \<open>block_current_task_no_schedule_unless_interrupting_signal\<close>: the task, now
  blocked, or \<open>None\<close>. The result is the task whose timer is armed when there is a deadline.
\<close>

definition count_waiter :: "sem_waiter \<Rightarrow> sem_value list \<Rightarrow> sem_value list" where
  "count_waiter w values =
     (let v = values ! sw_sem_num w
      in values[sw_sem_num w := (case sw_kind w of
           NonZero \<Rightarrow> v\<lparr>sv_ncnt := sv_ncnt v + 1\<rparr> | Zero \<Rightarrow> v\<lparr>sv_zcnt := sv_zcnt v + 1\<rparr>)])"

definition block_current_on_first_wait ::
  "nat \<Rightarrow> sembuf list \<Rightarrow> task_id option \<Rightarrow> sem_manager \<Rightarrow> (sem_error + task_id) \<times> sem_manager" where
  "block_current_on_first_wait semid ops blocked m =
     (case bt_get (sm_sets m) semid of
        None \<Rightarrow> (Inl SemInvalid, m)
      | Some s \<Rightarrow>
          (case first_waiting_op s ops of
             None \<Rightarrow> (Inl SemInvalid, m)
           | Some (semnum, kind) \<Rightarrow>
               if \<exists>op \<in> set ops. sb_flg op AND 0x800 \<noteq> 0 then (Inl SemWouldBlock, m)
               else (case blocked of
                   None \<Rightarrow> (Inl SemInterrupted, m)
                 | Some task \<Rightarrow>
                     (let w = \<lparr>sw_task = task, sw_sem_num = semnum, sw_kind = kind\<rparr>
                      in (Inr task, sem_replace semid
                            (s\<lparr>ss_values := count_waiter w (ss_values s), ss_waiters := ss_waiters s @ [w]\<rparr>) m)))))"

text \<open>The waiters of one set without those of \<open>task\<close>, and whether there was one.\<close>

definition drop_waiters :: "task_id \<Rightarrow> sem_set \<Rightarrow> sem_set" where
  "drop_waiters task s =
     s\<lparr>ss_values := fold uncount (filter (\<lambda>w. sw_task w = task) (ss_waiters s)) (ss_values s),
       ss_waiters := filter (\<lambda>w. sw_task w \<noteq> task) (ss_waiters s)\<rparr>"

definition sem_remove_waiter_for_task :: "task_id \<Rightarrow> sem_manager \<Rightarrow> bool \<times> sem_manager" where
  "sem_remove_waiter_for_task task m =
     (\<exists>e \<in> set (sm_sets m). \<exists>w \<in> set (ss_waiters (snd e)). sw_task w = task,
      m\<lparr>sm_sets := bt_map (drop_waiters task) (sm_sets m)\<rparr>)"

definition sem_highest_index :: "sem_manager \<Rightarrow> nat" where
  "sem_highest_index m = (case bt_last_key (sm_sets m) of None \<Rightarrow> 0 | Some k \<Rightarrow> k)"

definition sem_usage :: "sem_manager \<Rightarrow> sem_usage_info" where
  "sem_usage m = \<lparr>su_used_ids = length (sm_sets m), su_total_sems = total_sems m,
     su_highest_index = sem_highest_index m\<rparr>"

section \<open>System calls\<close>

definition sys_semget ::
  "int \<Rightarrow> nat \<Rightarrow> credentials \<Rightarrow> int \<Rightarrow> nat \<Rightarrow> u32 \<Rightarrow> sem_manager \<Rightarrow> (errno + nat) \<times> sem_manager" where
  "sys_semget now pid c key nsems semflg m =
     (case sem_get_or_create now key nsems semflg (cr_euid c) (cr_egid c) (caller_from pid c) m of
        (r, m') \<Rightarrow> (map_err sem_error_to_sys_error r, m'))"

record semid_ds =
  ds_key :: int
  ds_uid :: u32
  ds_gid :: u32
  ds_cuid :: u32
  ds_cgid :: u32
  ds_mode :: u32
  ds_otime :: int
  ds_ctime :: int
  ds_nsems :: nat

definition semid_ds_of :: "sem_set_stat \<Rightarrow> semid_ds" where
  "semid_ds_of stat = \<lparr>ds_key = as_i32 (st_key stat), ds_uid = st_uid stat, ds_gid = st_gid stat,
     ds_cuid = st_cuid stat, ds_cgid = st_cgid stat, ds_mode = st_mode stat, ds_otime = st_otime stat,
     ds_ctime = st_ctime stat, ds_nsems = st_nsems stat\<rparr>"

record seminfo =
  si_semmap :: int
  si_semmni :: int
  si_semmns :: int
  si_semmnu :: int
  si_semmsl :: int
  si_semopm :: int
  si_semume :: int
  si_semusz :: int
  si_semvmx :: int
  si_semaem :: int

definition base_seminfo :: seminfo where
  "base_seminfo = \<lparr>si_semmap = int SEMMNI, si_semmni = int SEMMNI, si_semmns = int SEMMNS, si_semmnu = int SEMMNI,
     si_semmsl = int SEMMSL, si_semopm = int SEMOPM, si_semume = int SEMOPM, si_semusz = 0, si_semvmx = SEMVMX,
     si_semaem = SEMAEM\<rparr>"

datatype sem_out = SemNoOut | SemDs semid_ds | SemArray "u16 list" | SemInfoOut seminfo

text \<open>A call that only reads the manager and writes its answer to user memory.\<close>

definition sem_answer ::
  "errno option \<Rightarrow> sem_manager \<Rightarrow> sem_error + 'a \<Rightarrow> ('a \<Rightarrow> int) \<Rightarrow> ('a \<Rightarrow> sem_out)
    \<Rightarrow> (errno + int) \<times> sem_out \<times> sem_manager \<times> task_id list" where
  "sem_answer wr m r val out =
     (case r of
        Inl e \<Rightarrow> (Inl (sem_error_to_sys_error e), SemNoOut, m, [])
      | Inr x \<Rightarrow> (case wr of Some e \<Rightarrow> (Inl e, SemNoOut, m, []) | None \<Rightarrow> (Inr (val x), out x, m, [])))"

definition sem_update ::
  "unit sem_result \<Rightarrow> (errno + int) \<times> sem_out \<times> sem_manager \<times> task_id list" where
  "sem_update r = (case r of (res, m, woken) \<Rightarrow>
     (case res of Inl e \<Rightarrow> Inl (sem_error_to_sys_error e) | Inr _ \<Rightarrow> Inr 0, SemNoOut, m, woken))"

text \<open>
  \<open>wr\<close> is the outcome of the write to user memory, \<open>rd_ds\<close> of the read of the owner, group and mode fields,
  \<open>rd_array n\<close> of the read of \<open>n\<close> values; \<open>rd_array\<close> runs without the lock, so \<open>others\<close> is what other tasks do
  to the manager meanwhile.
\<close>

definition sys_semctl ::
  "int \<Rightarrow> nat \<Rightarrow> credentials \<Rightarrow> errno option \<Rightarrow> errno + u32 \<times> u32 \<times> u32 \<Rightarrow> (nat \<Rightarrow> errno + u16 list)
    \<Rightarrow> (sem_manager \<Rightarrow> sem_manager) \<Rightarrow> nat \<Rightarrow> nat \<Rightarrow> int \<Rightarrow> usize \<Rightarrow> sem_manager
    \<Rightarrow> (errno + int) \<times> sem_out \<times> sem_manager \<times> task_id list" where
  "sys_semctl now pid c wr rd_ds rd_array others semid semnum cmd arg m =
     (let caller = caller_from pid c
      in if cmd = 0 then sem_update (remove_set semid caller m)
         else if cmd = 2 then
           sem_answer wr m (sem_stat_by_id semid caller m) (\<lambda>_. 0) (\<lambda>st. SemDs (semid_ds_of st))
         else if cmd = 1 then
           (case rd_ds of
              Inl e \<Rightarrow> (Inl e, SemNoOut, m, [])
            | Inr (uid, gid, mode) \<Rightarrow> sem_update (sem_set_attrs now semid uid gid mode caller m))
         else if cmd = 12 then sem_answer None m (sem_get_value semid semnum caller m) id (\<lambda>_. SemNoOut)
         else if cmd = 11 then sem_answer None m (sem_get_pid semid semnum caller m) id (\<lambda>_. SemNoOut)
         else if cmd = 14 \<or> cmd = 15 then
           sem_answer None m (get_wait_count semid semnum (cmd = 15) caller m) int (\<lambda>_. SemNoOut)
         else if cmd = 13 then sem_answer wr m (sem_get_all semid caller m) (\<lambda>_. 0) SemArray
         else if cmd = 16 then sem_update (sem_set_value now semid semnum (as_i32 (uint arg)) caller m)
         else if cmd = 17 then
           (case bt_get (sm_sets m) semid of
              None \<Rightarrow> (Inl EINVAL, SemNoOut, m, [])
            | Some s \<Rightarrow>
                (case rd_array (length (ss_values s)) of
                   Inl e \<Rightarrow> (Inl e, SemNoOut, others m, [])
                 | Inr values \<Rightarrow> sem_update (sem_set_all now semid values caller (others m))))
         else if cmd = 3 \<or> cmd = 19 then
           (let usage = sem_usage m;
                info = (if cmd = 19 then base_seminfo\<lparr>si_semusz := i32_or_max (su_used_ids usage),
                                                       si_semaem := i32_or_max (su_total_sems usage)\<rparr>
                        else base_seminfo)
            in sem_answer wr m (Inr info) (\<lambda>_. int (su_highest_index usage)) SemInfoOut)
         else if cmd = 18 \<or> cmd = 20 then
           sem_answer wr m (sem_stat_by_index semid caller (cmd = 20) m) (\<lambda>(i, _). int i)
             (\<lambda>(_, st). SemDs (semid_ds_of st))
         else (Inl EINVAL, SemNoOut, m, []))"

datatype sem_attempt = SemDone | SemBlocked task_id

definition try_or_block_semop ::
  "int \<Rightarrow> nat \<Rightarrow> sembuf list \<Rightarrow> ipc_caller \<Rightarrow> task_id option \<Rightarrow> sem_manager
    \<Rightarrow> (errno + sem_attempt) \<times> sem_manager \<times> task_id list" where
  "try_or_block_semop now semid ops caller blocked m =
     (case try_semop now semid ops caller m of
        (Inr _, m', woken) \<Rightarrow> (Inr SemDone, m', woken)
      | (Inl e, m', woken) \<Rightarrow>
          if e = SemWouldBlock then
            (case block_current_on_first_wait semid ops blocked m' of
               (Inl e', m'') \<Rightarrow> (Inl (sem_error_to_sys_error e'), m'', woken)
             | (Inr task, m'') \<Rightarrow> (Inr (SemBlocked task), m'', woken))
          else (Inl (sem_error_to_sys_error e), m', woken))"

text \<open>What one pass of the loop of \<open>semtimedop\<close> observes.\<close>

record sem_env =
  se_now_sec :: int
  se_time_before :: nat
  se_blocked :: "task_id option"
  se_others :: "sem_manager \<Rightarrow> sem_manager"
  se_current :: "task_id option"
  se_exit :: bool
  se_signal :: bool
  se_time_after :: nat

datatype semop_outcome = SemReturn "errno + int" | SemExit | SemAsleep

definition reached :: "nat option \<Rightarrow> nat \<Rightarrow> bool" where
  "reached deadline now_ms = (case deadline of None \<Rightarrow> False | Some d \<Rightarrow> d \<le> now_ms)"

text \<open>
  The loop. \<open>SemExit\<close>: a fatal signal ends the process. \<open>SemAsleep\<close>: the observations are used up, the task
  sleeps or is about to try again.
\<close>

fun semop_loop ::
  "nat \<Rightarrow> sembuf list \<Rightarrow> ipc_caller \<Rightarrow> nat option \<Rightarrow> sem_env list \<Rightarrow> sem_manager \<Rightarrow> semop_outcome \<times> sem_manager" where
  "semop_loop semid ops caller deadline [] m = (SemAsleep, m)"
| "semop_loop semid ops caller deadline (e # es) m =
     (if reached deadline (se_time_before e) then (SemReturn (Inl EAGAIN), m)
      else (case try_or_block_semop (se_now_sec e) semid ops caller (se_blocked e) m of
          (Inl err, m1, _) \<Rightarrow> (SemReturn (Inl err), m1)
        | (Inr SemDone, m1, _) \<Rightarrow> (SemReturn (Inr 0), m1)
        | (Inr (SemBlocked _), m1, _) \<Rightarrow>
            (case se_current e of
               None \<Rightarrow> (SemReturn (Inl EINTR), se_others e m1)
             | Some task \<Rightarrow>
                 (case sem_remove_waiter_for_task task (se_others e m1) of
                    (still_waiting, m2) \<Rightarrow>
                      if bt_get (sm_sets m2) semid = None then (SemReturn (Inl EIDRM), m2)
                      else if se_exit e then (SemExit, m2)
                      else if se_signal e then (SemReturn (Inl EINTR), m2)
                      else if still_waiting \<and> reached deadline (se_time_after e)
                      then (SemReturn (Inl EAGAIN), m2)
                      else semop_loop semid ops caller deadline es m2))))"

text \<open>\<open>sops\<close> is the outcome of reading the operations, \<open>timeout\<close> of reading and converting the timeout.\<close>

definition sys_semtimedop ::
  "nat \<Rightarrow> credentials \<Rightarrow> nat \<Rightarrow> nat \<Rightarrow> errno + sembuf list \<Rightarrow> errno + nat option \<Rightarrow> sem_env list
    \<Rightarrow> sem_manager \<Rightarrow> semop_outcome \<times> sem_manager" where
  "sys_semtimedop pid c semid nsops sops timeout envs m =
     (if nsops = 0 then (SemReturn (Inl EINVAL), m)
      else if SEMOPM < nsops then (SemReturn (Inl E2BIG), m)
      else (case sops of
          Inl e \<Rightarrow> (SemReturn (Inl e), m)
        | Inr ops \<Rightarrow>
            (case timeout of
               Inl e \<Rightarrow> (SemReturn (Inl e), m)
             | Inr deadline \<Rightarrow> semop_loop semid ops (caller_from pid c) deadline envs m)))"

definition sys_semop ::
  "nat \<Rightarrow> credentials \<Rightarrow> nat \<Rightarrow> nat \<Rightarrow> errno + sembuf list \<Rightarrow> sem_env list
    \<Rightarrow> sem_manager \<Rightarrow> semop_outcome \<times> sem_manager" where
  "sys_semop pid c semid nsops sops envs m = sys_semtimedop pid c semid nsops sops (Inr None) envs m"

section \<open>Invariant\<close>

definition wait_count :: "nat \<Rightarrow> sem_wait_kind \<Rightarrow> sem_waiter list \<Rightarrow> nat" where
  "wait_count i k ws = length (filter (\<lambda>w. sw_sem_num w = i \<and> sw_kind w = k) ws)"

text \<open>The two counters of a semaphore are the numbers of its waiters of each kind.\<close>

definition counts_ok :: "sem_value list \<Rightarrow> sem_waiter list \<Rightarrow> bool" where
  "counts_ok vs ws \<longleftrightarrow> (\<forall>w \<in> set ws. sw_sem_num w < length vs) \<and>
     (\<forall>i < length vs. sv_ncnt (vs ! i) = wait_count i NonZero ws \<and> sv_zcnt (vs ! i) = wait_count i Zero ws)"

definition values_ok :: "sem_value list \<Rightarrow> bool" where
  "values_ok vs \<longleftrightarrow> (\<forall>v \<in> set vs. 0 \<le> sv_value v \<and> sv_value v \<le> SEMVMX)"

definition sem_set_ok :: "sem_set \<Rightarrow> bool" where
  "sem_set_ok s \<longleftrightarrow> 0 < length (ss_values s) \<and> length (ss_values s) \<le> SEMMSL \<and>
     values_ok (ss_values s) \<and> counts_ok (ss_values s) (ss_waiters s)"

definition sem_ok :: "sem_manager \<Rightarrow> bool" where
  "sem_ok m \<longleftrightarrow> bt_ok (sm_sets m) \<and> bt_ok (sm_keyed_sets m) \<and>
     keyed_ok (bt_get (sm_sets m)) (bt_get (sm_keyed_sets m)) ss_key \<and>
     (\<forall>i s. bt_get (sm_sets m) i = Some s \<longrightarrow> 0 < i \<and> i < sm_next_id m \<and> sem_set_ok s) \<and>
     0 < sm_next_id m \<and> length (sm_sets m) \<le> SEMMNI \<and> total_sems m \<le> SEMMNS"

text \<open>Every operation of the manager that can change it.\<close>

inductive sem_step :: "sem_manager \<Rightarrow> task_id list \<Rightarrow> sem_manager \<Rightarrow> bool" where
  step_get: "sem_get_or_create now key nsems flg uid gid caller m = (r, m') \<Longrightarrow> sem_step m [] m'"
| step_remove: "remove_set semid caller m = (r, m', woken) \<Longrightarrow> sem_step m woken m'"
| step_attrs: "sem_set_attrs now semid uid gid mode caller m = (r, m', woken) \<Longrightarrow> sem_step m woken m'"
| step_value: "sem_set_value now semid semnum v caller m = (r, m', woken) \<Longrightarrow> sem_step m woken m'"
| step_all: "sem_set_all now semid vs caller m = (r, m', woken) \<Longrightarrow> sem_step m woken m'"
| step_op: "try_semop now semid ops caller m = (r, m', woken) \<Longrightarrow> sem_step m woken m'"
| step_block: "block_current_on_first_wait semid ops blocked m = (r, m') \<Longrightarrow> sem_step m [] m'"
| step_forget: "sem_remove_waiter_for_task task m = (r, m') \<Longrightarrow> sem_step m [] m'"

inductive sem_steps :: "sem_manager \<Rightarrow> sem_manager \<Rightarrow> bool" where
  steps_refl: "sem_steps m m"
| steps_step: "sem_steps m m' \<Longrightarrow> sem_step m' woken m'' \<Longrightarrow> sem_steps m m''"

section \<open>Lemmas\<close>

interpretation semreg: keyed_registry "\<lambda>m. bt_get (sm_sets m)" "\<lambda>m. bt_get (sm_keyed_sets m)" ss_key
  sem_register sem_unregister sem_replace
  by unfold_locales
     (simp_all add: sem_register_def sem_unregister_def sem_replace_def IPC_PRIVATE_def)

lemma wait_count_simps [simp]:
  "wait_count i k [] = 0"
  "wait_count i k (w # ws) = (if sw_sem_num w = i \<and> sw_kind w = k then 1 else 0) + wait_count i k ws"
  "wait_count i k (ws @ ws') = wait_count i k ws + wait_count i k ws'"
  by (simp_all add: wait_count_def)

lemma wait_count_split: "wait_count i k (filter P ws) + wait_count i k (filter (\<lambda>w. \<not> P w) ws) = wait_count i k ws"
  by (induction ws) auto

lemma length_uncount [simp]: "length (uncount w vs) = length vs"
  by (simp add: uncount_def Let_def)

lemma length_fold_uncount [simp]: "length (fold uncount ws vs) = length vs"
  by (induction ws arbitrary: vs) simp_all

lemma uncount_value [simp]: "i < length vs \<Longrightarrow> sv_value (uncount w vs ! i) = sv_value (vs ! i)"
  by (auto simp: uncount_def Let_def nth_list_update split: sem_wait_kind.split)

lemma fold_uncount_value [simp]: "i < length vs \<Longrightarrow> sv_value (fold uncount ws vs ! i) = sv_value (vs ! i)"
  by (induction ws arbitrary: vs) simp_all

lemma fold_uncount_values: "map sv_value (fold uncount ws vs) = map sv_value vs"
  by (rule nth_equalityI) simp_all

lemma uncount_counts:
  assumes "i < length vs"
  shows "sv_ncnt (uncount w vs ! i) = sv_ncnt (vs ! i) - wait_count i NonZero [w]"
    "sv_zcnt (uncount w vs ! i) = sv_zcnt (vs ! i) - wait_count i Zero [w]"
  using assms by (auto simp: uncount_def Let_def nth_list_update split: sem_wait_kind.split)

lemma fold_uncount_counts:
  assumes "i < length vs"
  shows "sv_ncnt (fold uncount ws vs ! i) = sv_ncnt (vs ! i) - wait_count i NonZero ws
    \<and> sv_zcnt (fold uncount ws vs ! i) = sv_zcnt (vs ! i) - wait_count i Zero ws"
  using assms
proof (induction ws arbitrary: vs)
  case (Cons w ws)
  then show ?case using uncount_counts [OF Cons.prems, of w] by simp
qed simp

lemma values_ok_same: "map sv_value vs = map sv_value ws \<Longrightarrow> values_ok vs = values_ok ws"
proof -
  have "values_ok us \<longleftrightarrow> (\<forall>x \<in> set (map sv_value us). 0 \<le> x \<and> x \<le> SEMVMX)" for us
    by (simp add: values_ok_def)
  then show "map sv_value vs = map sv_value ws \<Longrightarrow> values_ok vs = values_ok ws" by (simp only:)
qed

lemma counts_ok_wake: "counts_ok vs ws \<Longrightarrow> counts_ok (fold uncount ws vs) []"
  by (simp add: counts_ok_def fold_uncount_counts)

lemma counts_ok_drop:
  assumes "counts_ok vs ws"
  shows "counts_ok (fold uncount (filter P ws) vs) (filter (\<lambda>w. \<not> P w) ws)"
proof -
  have "wait_count i k ws - wait_count i k (filter P ws) = wait_count i k (filter (\<lambda>w. \<not> P w) ws)" for i k
    using wait_count_split [of i k P ws] by linarith
  with assms show ?thesis by (simp add: counts_ok_def fold_uncount_counts)
qed

lemma sem_wake_ok:
  assumes "sem_set_ok s"
  shows "sem_set_ok (fst (sem_wake_waiters s))"
  using assms values_ok_same [OF fold_uncount_values, of "ss_waiters s" "ss_values s"] counts_ok_wake
  by (simp add: sem_set_ok_def sem_wake_waiters_def)

lemma drop_waiters_ok: "sem_set_ok s \<Longrightarrow> sem_set_ok (drop_waiters t s)"
  using values_ok_same [OF fold_uncount_values, of "filter (\<lambda>w. sw_task w = t) (ss_waiters s)" "ss_values s"]
    counts_ok_drop [of "ss_values s" "ss_waiters s" "\<lambda>w. sw_task w = t"]
  by (simp add: sem_set_ok_def drop_waiters_def)

text \<open>Storing new values keeps the counters.\<close>

lemma counts_ok_update:
  assumes "counts_ok vs ws" and "length vs' = length vs"
    and "\<And>i. i < length vs \<Longrightarrow> sv_ncnt (vs' ! i) = sv_ncnt (vs ! i) \<and> sv_zcnt (vs' ! i) = sv_zcnt (vs ! i)"
  shows "counts_ok vs' ws"
  using assms by (simp add: counts_ok_def)

lemma sem_ok_replace:
  assumes ok: "sem_ok m" and i: "bt_get (sm_sets m) i = Some s"
    and s': "sem_set_ok s'" "ss_key s' = ss_key s" "length (ss_values s') = length (ss_values s)"
  shows "sem_ok (sem_replace i s' m)"
  using ok semreg.replace_keeps_keyed_ok [of m i s s'] i s'
    bt_insert_same_length [of "sm_sets m" i s s']
    bt_insert_same_sum [of "sm_sets m" i s "\<lambda>s. length (ss_values s)" s']
  by (auto simp: sem_ok_def sem_replace_def total_sems_def split: if_splits)

lemma sem_commit_ok:
  assumes "sem_ok m" and "bt_get (sm_sets m) i = Some s"
    and "sem_set_ok s'" "ss_key s' = ss_key s" "length (ss_values s') = length (ss_values s)"
    and "sem_commit i s' m = (r, m', woken)"
  shows "sem_ok m'"
proof -
  have "m' = sem_replace i (fst (sem_wake_waiters s')) m"
    using assms(6) by (auto simp: sem_commit_def split: prod.splits)
  moreover have "ss_key (fst (sem_wake_waiters s')) = ss_key s"
    "length (ss_values (fst (sem_wake_waiters s'))) = length (ss_values s)"
    using assms(4,5) by (simp_all add: sem_wake_waiters_def)
  ultimately show ?thesis using sem_ok_replace [OF assms(1,2) sem_wake_ok [OF assms(3)]] by simp
qed

lemma sem_ok_get: "sem_ok m \<Longrightarrow> bt_get (sm_sets m) i = Some s \<Longrightarrow> sem_set_ok s"
  by (simp add: sem_ok_def)

text \<open>The trial run: it stays within the bounds, touches only the semaphores it names and keeps the length.\<close>

lemma run_ops_length: "run_ops ops vs = Inr vs' \<Longrightarrow> length vs' = length vs"
  by (induction ops arbitrary: vs) (auto simp: Let_def split: if_splits)

lemma run_ops_bounds:
  assumes "run_ops ops vs = Inr vs'" and "\<forall>v \<in> set vs. 0 \<le> v \<and> v \<le> SEMVMX"
    and "\<forall>op \<in> set ops. op_num op < length vs"
  shows "\<forall>v \<in> set vs'. 0 \<le> v \<and> v \<le> SEMVMX"
  using assms
proof (induction ops arbitrary: vs)
  case (Cons op ops)
  let ?n = "vs ! op_num op + op_val op"
  show ?case
  proof (cases "op_val op = 0")
    case True
    with Cons show ?thesis by (auto simp: Let_def split: if_splits)
  next
    case False
    from Cons.prems have cur: "0 \<le> vs ! op_num op" by simp
    from False Cons.prems(1) have n: "0 \<le> ?n" "?n \<le> SEMVMX" and r: "run_ops ops (vs[op_num op := ?n]) = Inr vs'"
      using cur by (auto simp: Let_def split: if_splits)
    have "\<forall>v \<in> set (vs[op_num op := ?n]). 0 \<le> v \<and> v \<le> SEMVMX"
      using n Cons.prems(2) set_update_subset_insert [of vs "op_num op" ?n] by blast
    from Cons.IH [OF r this] Cons.prems(3) show ?thesis by simp
  qed
qed simp

lemma run_ops_untouched:
  assumes "run_ops ops vs = Inr vs'" and "\<forall>op \<in> set ops. op_val op \<noteq> 0 \<longrightarrow> op_num op \<noteq> i"
  shows "vs' ! i = vs ! i"
  using assms
proof (induction ops arbitrary: vs)
  case (Cons op ops)
  then show ?case by (cases "op_val op = 0") (simp_all add: Let_def split: if_split_asm)
qed simp

lemma check_ops_bound: "check_ops ops s caller = None \<Longrightarrow> op \<in> set ops \<Longrightarrow> op_num op < length (ss_values s)"
  by (induction ops) (auto split: if_splits)

lemma length_store_op [simp]: "length (store_op pid nv op vs) = length vs"
  by (simp add: store_op_def)

lemma length_fold_store [simp]: "length (fold (store_op pid nv) ops vs) = length vs"
  by (induction ops arbitrary: vs) simp_all

lemma fold_store_counts:
  assumes "i < length vs"
  shows "sv_ncnt (fold (store_op pid nv) ops vs ! i) = sv_ncnt (vs ! i)
    \<and> sv_zcnt (fold (store_op pid nv) ops vs ! i) = sv_zcnt (vs ! i)"
  using assms
proof (induction ops arbitrary: vs)
  case (Cons op ops)
  have "sv_ncnt (store_op pid nv op vs ! i) = sv_ncnt (vs ! i) \<and> sv_zcnt (store_op pid nv op vs ! i) = sv_zcnt (vs ! i)"
    using Cons.prems by (cases "op_num op = i") (simp_all add: store_op_def)
  with Cons show ?case by simp
qed simp

lemma fold_store_value:
  assumes "i < length vs"
  shows "sv_value (fold (store_op pid nv) ops vs ! i) =
    (if \<exists>op \<in> set ops. op_val op \<noteq> 0 \<and> op_num op = i then nv ! i else sv_value (vs ! i))"
  using assms
proof (induction ops arbitrary: vs)
  case (Cons op ops)
  have "sv_value (store_op pid nv op vs ! i) =
      (if op_val op \<noteq> 0 \<and> op_num op = i then nv ! i else sv_value (vs ! i))"
    using Cons.prems by (cases "op_num op = i") (simp_all add: store_op_def)
  with Cons show ?case by (cases "op_val op \<noteq> 0 \<and> op_num op = i") auto
qed simp

text \<open>So the stores write back exactly the result of the trial run.\<close>

lemma stored_values:
  assumes "run_ops ops (map sv_value vs) = Inr nv"
  shows "map sv_value (fold (store_op pid nv) ops vs) = nv"
proof (rule nth_equalityI)
  show len: "length (map sv_value (fold (store_op pid nv) ops vs)) = length nv"
    using run_ops_length [OF assms] by simp
  fix i assume "i < length (map sv_value (fold (store_op pid nv) ops vs))"
  then have i: "i < length vs" by simp
  show "map sv_value (fold (store_op pid nv) ops vs) ! i = nv ! i"
  proof (cases "\<exists>op \<in> set ops. op_val op \<noteq> 0 \<and> op_num op = i")
    case True
    then show ?thesis using i fold_store_value [OF i, of pid nv ops] by simp
  next
    case False
    then have "nv ! i = map sv_value vs ! i" by (intro run_ops_untouched [OF assms]) blast
    with False show ?thesis using i fold_store_value [OF i, of pid nv ops] by simp
  qed
qed

lemma sem_commit_result: "sem_commit i s m = (r, m', woken) \<Longrightarrow> r = Inr ()"
  by (simp add: sem_commit_def split: prod.split_asm)

lemma try_semop_cases:
  assumes "try_semop now semid ops caller m = (r, m', woken)"
  shows "(\<exists>e. r = Inl e \<and> m' = m \<and> woken = []) \<or>
    (\<exists>s nv. r = Inr () \<and> bt_get (sm_sets m) semid = Some s \<and> check_ops ops s caller = None
      \<and> run_ops ops (map sv_value (ss_values s)) = Inr nv
      \<and> sem_commit semid (s\<lparr>ss_values := fold (store_op (pid_to_i32 (ic_pid caller)) nv) ops (ss_values s),
            ss_otime := now\<rparr>) m = (r, m', woken))"
proof (cases "\<exists>s nv. bt_get (sm_sets m) semid = Some s \<and> check_ops ops s caller = None
    \<and> run_ops ops (map sv_value (ss_values s)) = Inr nv")
  case True
  then obtain s nv where s: "bt_get (sm_sets m) semid = Some s" "check_ops ops s caller = None"
    "run_ops ops (map sv_value (ss_values s)) = Inr nv" by blast
  show ?thesis
  proof (cases "ops = [] \<or> SEMOPM < length ops")
    case False
    with assms s have "sem_commit semid (s\<lparr>ss_values := fold (store_op (pid_to_i32 (ic_pid caller)) nv) ops
        (ss_values s), ss_otime := now\<rparr>) m = (r, m', woken)" by (simp add: try_semop_def)
    with s sem_commit_result [OF this] show ?thesis by blast
  next
    case True
    then have "(r, m', woken) = (Inl (if ops = [] then SemInvalid else SemTooBig), m, [])"
      using assms by (cases "ops = []") (simp_all add: try_semop_def)
    then show ?thesis by simp
  qed
next
  case False
  then show ?thesis using assms unfolding try_semop_def
    by (auto split: if_split_asm option.split_asm sum.split_asm)
qed

lemma stored_set_ok:
  assumes "sem_set_ok s" and "check_ops ops s caller = None"
    and "run_ops ops (map sv_value (ss_values s)) = Inr nv"
  shows "sem_set_ok (s\<lparr>ss_values := fold (store_op pid nv) ops (ss_values s), ss_otime := now\<rparr>)"
proof -
  let ?vs = "fold (store_op pid nv) ops (ss_values s)"
  from assms have "\<forall>v \<in> set (map sv_value (ss_values s)). 0 \<le> v \<and> v \<le> SEMVMX"
    by (simp add: sem_set_ok_def values_ok_def)
  from run_ops_bounds [OF assms(3) this] check_ops_bound [OF assms(2)]
  have "\<forall>v \<in> set nv. 0 \<le> v \<and> v \<le> SEMVMX" by simp
  then have "\<forall>v \<in> set (map sv_value ?vs). 0 \<le> v \<and> v \<le> SEMVMX" by (simp only: stored_values [OF assms(3)])
  then have "values_ok ?vs" by (simp add: values_ok_def)
  moreover from assms(1) have c: "counts_ok (ss_values s) (ss_waiters s)" by (simp add: sem_set_ok_def)
  have "counts_ok ?vs (ss_waiters s)"
    by (rule counts_ok_update [OF c]) (simp_all add: fold_store_counts)
  ultimately show ?thesis using assms(1) by (simp add: sem_set_ok_def)
qed

lemma try_semop_ok:
  assumes "sem_ok m" and "try_semop now semid ops caller m = (r, m', woken)"
  shows "sem_ok m'"
  using try_semop_cases [OF assms(2)]
proof (elim disjE exE conjE)
  fix s nv assume s: "bt_get (sm_sets m) semid = Some s" and c: "check_ops ops s caller = None"
    and run: "run_ops ops (map sv_value (ss_values s)) = Inr nv"
    and com: "sem_commit semid (s\<lparr>ss_values := fold (store_op (pid_to_i32 (ic_pid caller)) nv) ops (ss_values s),
            ss_otime := now\<rparr>) m = (r, m', woken)"
  show ?thesis
    by (rule sem_commit_ok [OF assms(1) s stored_set_ok [OF sem_ok_get [OF assms(1) s] c run] _ _ com]) simp_all
qed (use assms(1) in simp)

lemma set_value_ok:
  assumes ok: "sem_ok m" and r: "sem_set_value now semid semnum v caller m = (r, m', woken)"
  shows "sem_ok m'"
proof (cases "\<exists>s. bt_get (sm_sets m) semid = Some s \<and> 0 \<le> v \<and> v \<le> SEMVMX \<and> sem_can_alter s caller
    \<and> semnum < length (ss_values s)")
  case False
  with r have "m' = m" unfolding sem_set_value_def by (auto split: if_split_asm option.split_asm)
  with ok show ?thesis by simp
next
  case True
  then obtain s where s: "bt_get (sm_sets m) semid = Some s" "0 \<le> v" "v \<le> SEMVMX" "sem_can_alter s caller"
    "semnum < length (ss_values s)" by blast
  let ?vs = "(ss_values s)[semnum := (ss_values s ! semnum)\<lparr>sv_value := v, sv_pid := pid_to_i32 (ic_pid caller)\<rparr>]"
  have so: "sem_set_ok s" by (rule sem_ok_get [OF ok s(1)])
  then have c: "counts_ok (ss_values s) (ss_waiters s)" by (simp add: sem_set_ok_def)
  have "counts_ok ?vs (ss_waiters s)" by (rule counts_ok_update [OF c]) (simp_all add: nth_list_update s(5))
  moreover have "values_ok ?vs"
    using so s set_update_subset_insert [of "ss_values s" semnum] by (fastforce simp: sem_set_ok_def values_ok_def)
  ultimately have so': "sem_set_ok (s\<lparr>ss_values := ?vs, ss_ctime := now\<rparr>)" using so by (simp add: sem_set_ok_def)
  from r s have "sem_commit semid (s\<lparr>ss_values := ?vs, ss_ctime := now\<rparr>) m = (r, m', woken)"
    by (simp add: sem_set_value_def)
  from sem_commit_ok [OF ok s(1) so' _ _ this] show ?thesis by simp
qed

lemma set_all_ok:
  assumes ok: "sem_ok m" and r: "sem_set_all now semid vals caller m = (r, m', woken)"
  shows "sem_ok m'"
proof (cases "\<exists>s. bt_get (sm_sets m) semid = Some s \<and> (\<forall>v \<in> set vals. uint v \<le> SEMVMX) \<and> sem_can_alter s caller
    \<and> length vals = length (ss_values s)")
  case False
  with r have "m' = m" unfolding sem_set_all_def by (auto simp: not_le split: if_split_asm option.split_asm)
  with ok show ?thesis by simp
next
  case True
  then obtain s where s: "bt_get (sm_sets m) semid = Some s" "\<forall>v \<in> set vals. uint v \<le> SEMVMX" "sem_can_alter s caller"
    "length vals = length (ss_values s)" by blast
  let ?f = "\<lambda>sv v. sv\<lparr>sv_value := uint v, sv_pid := pid_to_i32 (ic_pid caller)\<rparr>"
  let ?vs = "map2 ?f (ss_values s) vals"
  have so: "sem_set_ok s" by (rule sem_ok_get [OF ok s(1)])
  then have c: "counts_ok (ss_values s) (ss_waiters s)" by (simp add: sem_set_ok_def)
  have "counts_ok ?vs (ss_waiters s)" by (rule counts_ok_update [OF c]) (simp_all add: s(4))
  moreover have "values_ok ?vs"
    using s(2) by (auto simp: values_ok_def dest: set_zip_rightD)
  ultimately have so': "sem_set_ok (s\<lparr>ss_values := ?vs, ss_ctime := now\<rparr>)" using so s(4) by (simp add: sem_set_ok_def)
  from s(2) have "\<not> (\<exists>v \<in> set vals. SEMVMX < uint v)" by (simp add: not_less)
  with r s have "sem_commit semid (s\<lparr>ss_values := ?vs, ss_ctime := now\<rparr>) m = (r, m', woken)"
    by (simp add: sem_set_all_def)
  from sem_commit_ok [OF ok s(1) so' _ _ this] s(4) show ?thesis by simp
qed

lemma set_attrs_ok:
  assumes "sem_ok m" and "sem_set_attrs now semid uid gid mode caller m = (r, m', woken)"
  shows "sem_ok m'"
  using assms sem_ok_get [OF assms(1), of semid]
  by (auto simp: sem_set_attrs_def sem_set_ok_def split: option.split_asm if_split_asm
      intro!: sem_ok_replace [OF assms(1)])

lemma first_waiting_bound: "first_waiting_op s ops = Some (n, k) \<Longrightarrow> n < length (ss_values s)"
proof -
  have "first_waiting_run ops vs = Some (n, k) \<Longrightarrow> n < length vs" for vs
  proof (induction ops arbitrary: vs)
    case (Cons op ops)
    from Cons.IH [of vs] Cons.IH [of "vs[op_num op := vs ! op_num op + op_val op]"] Cons.prems show ?case
      by (auto simp: Let_def split: if_split_asm)
  qed simp
  then show "first_waiting_op s ops = Some (n, k) \<Longrightarrow> n < length (ss_values s)"
    unfolding first_waiting_op_def by fastforce
qed

lemma counts_ok_count:
  assumes "counts_ok vs ws" and "sw_sem_num w < length vs"
  shows "counts_ok (count_waiter w vs) (ws @ [w])"
  using assms
  by (auto simp: counts_ok_def count_waiter_def Let_def nth_list_update split: sem_wait_kind.split)

lemma count_waiter_values: "sw_sem_num w < length vs \<Longrightarrow> map sv_value (count_waiter w vs) = map sv_value vs"
  by (rule nth_equalityI) (auto simp: count_waiter_def Let_def nth_list_update split: sem_wait_kind.split)

lemma block_cases:
  assumes "block_current_on_first_wait semid ops blocked m = (r, m')"
  shows "m' = m \<or> (\<exists>s w. bt_get (sm_sets m) semid = Some s \<and> sw_sem_num w < length (ss_values s) \<and>
    r = Inr (sw_task w) \<and> first_waiting_op s ops = Some (sw_sem_num w, sw_kind w) \<and>
    m' = sem_replace semid (s\<lparr>ss_values := count_waiter w (ss_values s), ss_waiters := ss_waiters s @ [w]\<rparr>) m)"
proof (cases "\<exists>s n k t. bt_get (sm_sets m) semid = Some s \<and> first_waiting_op s ops = Some (n, k) \<and> blocked = Some t
    \<and> \<not> (\<exists>op \<in> set ops. sb_flg op AND 0x800 \<noteq> 0)")
  case True
  then obtain s n k t where s: "bt_get (sm_sets m) semid = Some s" "first_waiting_op s ops = Some (n, k)"
    "blocked = Some t" "\<not> (\<exists>op \<in> set ops. sb_flg op AND 0x800 \<noteq> 0)" by blast
  let ?w = "\<lparr>sw_task = t, sw_sem_num = n, sw_kind = k\<rparr>"
  have "sw_sem_num ?w < length (ss_values s)" using first_waiting_bound [OF s(2)] by simp
  moreover have "r = Inr (sw_task ?w) \<and>
    m' = sem_replace semid (s\<lparr>ss_values := count_waiter ?w (ss_values s), ss_waiters := ss_waiters s @ [?w]\<rparr>) m"
    using assms s by (simp add: block_current_on_first_wait_def Let_def)
  ultimately show ?thesis using s(1,2) by (intro disjI2 exI [of _ s] exI [of _ ?w]) simp
next
  case False
  then have "m' = m" using assms unfolding block_current_on_first_wait_def
    by (auto split: option.split_asm if_split_asm prod.split_asm)
  then show ?thesis ..
qed

lemma block_ok:
  assumes ok: "sem_ok m" and r: "block_current_on_first_wait semid ops blocked m = (r, m')"
  shows "sem_ok m'"
  using block_cases [OF r]
proof (elim disjE exE conjE)
  fix s w assume s: "bt_get (sm_sets m) semid = Some s" and w: "sw_sem_num w < length (ss_values s)"
    and m': "m' = sem_replace semid (s\<lparr>ss_values := count_waiter w (ss_values s), ss_waiters := ss_waiters s @ [w]\<rparr>) m"
  have so: "sem_set_ok s" by (rule sem_ok_get [OF ok s])
  have len: "length (count_waiter w (ss_values s)) = length (ss_values s)" by (simp add: count_waiter_def Let_def)
  have "sem_set_ok (s\<lparr>ss_values := count_waiter w (ss_values s), ss_waiters := ss_waiters s @ [w]\<rparr>)"
    using so values_ok_same [OF count_waiter_values [OF w]] counts_ok_count [OF _ w] len
    by (simp add: sem_set_ok_def)
  then show ?thesis unfolding m' by (rule sem_ok_replace [OF ok s]) (simp_all add: len)
qed (use ok in simp)

lemma sem_set_new_ok: "0 < n \<Longrightarrow> n \<le> SEMMSL \<Longrightarrow> sem_set_ok (sem_set_new now key n mode uid gid)"
  by (simp add: sem_set_ok_def sem_set_new_def values_ok_def counts_ok_def SEMVMX_def)

text \<open>The id handed out is the counter itself, since every id in use is below it.\<close>

lemma sem_alloc_id_next:
  assumes "sem_ok m"
  shows "sem_alloc_id m = (sm_next_id m, m\<lparr>sm_next_id := Suc (sm_next_id m)\<rparr>)" "bt_get (sm_sets m) (sm_next_id m) = None"
proof -
  show "bt_get (sm_sets m) (sm_next_id m) = None"
  proof (rule ccontr)
    assume "bt_get (sm_sets m) (sm_next_id m) \<noteq> None"
    with assms show False unfolding sem_ok_def by blast
  qed
  then show "sem_alloc_id m = (sm_next_id m, m\<lparr>sm_next_id := Suc (sm_next_id m)\<rparr>)"
    by (simp add: sem_alloc_id_def skip_used_id Let_def)
qed

lemma sum_within: "saturating_add a b \<le> SEMMNS \<Longrightarrow> a + b \<le> SEMMNS"
  by (auto simp: saturating_add_def SEMMNS_def SEMMNI_def usize_max_def min_def split: if_splits)

lemma create_set_cases:
  assumes "sem_ok m" and "create_set now key n mode uid gid m = (r, m')"
  shows "(r = Inl SemNoSpace \<and> m' = m) \<or>
    (r = Inr (sm_next_id m) \<and> length (sm_sets m) < SEMMNI \<and> total_sems m + n \<le> SEMMNS \<and>
     m' = sem_register (sm_next_id m) (sem_set_new now key n mode uid gid) (m\<lparr>sm_next_id := Suc (sm_next_id m)\<rparr>))"
  using assms(2) sum_within
  by (auto simp: create_set_def sem_alloc_id_next [OF assms(1)] not_le not_less split: if_split_asm)

lemma sem_register_ok:
  assumes ok: "sem_ok m" and n: "0 < n" "n \<le> SEMMSL" and key: "key = 0 \<or> bt_get (sm_keyed_sets m) key = None"
    and room: "length (sm_sets m) < SEMMNI" "total_sems m + n \<le> SEMMNS"
  shows "sem_ok (sem_register (sm_next_id m) (sem_set_new now key n mode uid gid) (m\<lparr>sm_next_id := Suc (sm_next_id m)\<rparr>))"
proof -
  let ?s = "sem_set_new now key n mode uid gid" and ?m = "m\<lparr>sm_next_id := Suc (sm_next_id m)\<rparr>" and ?i = "sm_next_id m"
  have new: "bt_get (sm_sets m) ?i = None" by (rule sem_alloc_id_next(2) [OF ok])
  have k: "ss_key ?s = key" by (simp add: sem_set_new_def)
  have "keyed_ok (bt_get (sm_sets (sem_register ?i ?s ?m))) (bt_get (sm_keyed_sets (sem_register ?i ?s ?m))) ss_key"
    by (rule semreg.register_keeps_keyed_ok) (use ok new key k in \<open>simp_all add: sem_ok_def\<close>)
  moreover have "length (sm_sets (sem_register ?i ?s ?m)) = Suc (length (sm_sets m))"
    by (simp add: sem_register_def bt_insert_fresh_length [OF new])
  moreover have "total_sems (sem_register ?i ?s ?m) = n + total_sems m"
    using bt_insert_fresh_sum_list [OF new, of "\<lambda>s. length (ss_values s)" ?s]
    by (simp add: sem_register_def total_sems_def sem_set_new_def)
  moreover have "bt_ok (sm_sets (sem_register ?i ?s ?m))" "bt_ok (sm_keyed_sets (sem_register ?i ?s ?m))"
    using ok by (simp_all add: sem_ok_def sem_register_def)
  moreover have "0 < j \<and> j < Suc ?i \<and> sem_set_ok t"
    if "bt_get (sm_sets (sem_register ?i ?s ?m)) j = Some t" for j t
  proof (cases "j = ?i")
    case True
    with that sem_set_new_ok [OF n] ok show ?thesis by (auto simp: sem_register_def sem_ok_def)
  next
    case False
    with that have "bt_get (sm_sets m) j = Some t" by (simp add: sem_register_def)
    with ok show ?thesis unfolding sem_ok_def by (metis less_SucI)
  qed
  ultimately show ?thesis using room unfolding sem_ok_def by (simp add: sem_register_def)
qed

lemma create_set_ok:
  assumes "sem_ok m" and "0 < n" "n \<le> SEMMSL" and "key = 0 \<or> bt_get (sm_keyed_sets m) key = None"
    and "create_set now key n mode uid gid m = (r, m')"
  shows "sem_ok m'"
  using create_set_cases [OF assms(1,5)] sem_register_ok [OF assms(1-4)] assms(1) by blast

text \<open>Looking a set up changes nothing; creating one goes through \<^const>\<open>create_set\<close> with a fresh key.\<close>

lemma get_or_create_cases:
  assumes "sem_get_or_create now key n flg uid gid caller m = (r, m')"
  shows "m' = m \<or> (0 < n \<and> n \<le> SEMMSL \<and> (key = 0 \<or> bt_get (sm_keyed_sets m) key = None) \<and>
    create_set now key n (flg AND MODE_MASK) uid gid m = (r, m'))"
  using assms unfolding sem_get_or_create_def Let_def IPC_PRIVATE_def
  by (auto simp: not_less split: if_split_asm option.split_asm)

lemma get_or_create_ok:
  "sem_ok m \<Longrightarrow> sem_get_or_create now key n flg uid gid caller m = (r, m') \<Longrightarrow> sem_ok m'"
  using get_or_create_cases create_set_ok by metis

lemma remove_set_cases:
  assumes "remove_set semid caller m = (r, m', woken)"
  shows "(\<exists>e. r = Inl e \<and> m' = m \<and> woken = []) \<or>
    (\<exists>s. bt_get (sm_sets m) semid = Some s \<and> r = Inr () \<and> m' = sem_unregister semid s m \<and> woken = map sw_task (ss_waiters s))"
  using assms by (auto simp: remove_set_def sem_wake_waiters_def split: option.split_asm if_split_asm)

lemma remove_set_ok:
  assumes ok: "sem_ok m" and "remove_set semid caller m = (r, m', woken)"
  shows "sem_ok m'"
  using remove_set_cases [OF assms(2)]
proof (elim disjE exE conjE)
  fix s assume s: "bt_get (sm_sets m) semid = Some s" and m': "m' = sem_unregister semid s m"
  have "keyed_ok (bt_get (sm_sets m')) (bt_get (sm_keyed_sets m')) ss_key"
    unfolding m' by (rule semreg.unregister_keeps_keyed_ok [OF _ s]) (use ok in \<open>simp add: sem_ok_def\<close>)
  moreover have "length (sm_sets m') \<le> length (sm_sets m)" "total_sems m' \<le> total_sems m"
    using bt_remove_le(1) [of semid "sm_sets m"] bt_remove_le(2) [of "\<lambda>s. length (ss_values s)" semid "sm_sets m"]
    by (simp_all add: m' sem_unregister_def total_sems_def)
  moreover have "bt_get (sm_sets m) i = Some t" if "bt_get (sm_sets m') i = Some t" for i t
    using that by (simp add: m' sem_unregister_def split: if_split_asm)
  ultimately show ?thesis using ok unfolding sem_ok_def by (auto simp: m' sem_unregister_def)
qed (use ok in simp)

lemma drop_waiters_simps [simp]: "ss_key (drop_waiters t s) = ss_key s" "length (ss_values (drop_waiters t s)) = length (ss_values s)"
  by (simp_all add: drop_waiters_def)

lemma forget_ok:
  assumes ok: "sem_ok m" and "sem_remove_waiter_for_task t m = (r, m')"
  shows "sem_ok m'"
proof -
  have m': "m' = m\<lparr>sm_sets := bt_map (drop_waiters t) (sm_sets m)\<rparr>"
    using assms(2) by (simp add: sem_remove_waiter_for_task_def)
  have g: "bt_get (sm_sets m') = (\<lambda>i. map_option (drop_waiters t) (bt_get (sm_sets m) i))"
    by (simp add: m' fun_eq_iff)
  have "keyed_ok (bt_get (sm_sets m')) (bt_get (sm_keyed_sets m')) ss_key"
    unfolding g by (rule keyed_ok_map) (use ok in \<open>simp_all add: sem_ok_def m'\<close>)
  moreover have "total_sems m' = total_sems m"
    unfolding total_sems_def m' by (simp add: bt_map_sum [of "\<lambda>s. length (ss_values s)"])
  ultimately show ?thesis using ok drop_waiters_ok unfolding sem_ok_def by (fastforce simp: m')
qed

lemma sem_step_ok: "sem_step m woken m' \<Longrightarrow> sem_ok m \<Longrightarrow> sem_ok m'"
  by (induction rule: sem_step.induct)
     (blast intro: get_or_create_ok remove_set_ok set_attrs_ok set_value_ok set_all_ok try_semop_ok block_ok forget_ok)+

lemma sem_steps_ok: "sem_steps m m' \<Longrightarrow> sem_ok m \<Longrightarrow> sem_ok m'"
  by (induction rule: sem_steps.induct) (auto dest: sem_step_ok)

lemma sem_new_ok: "sem_ok sem_manager_new"
  by (simp add: sem_ok_def sem_manager_new_def keyed_ok_def total_sems_def)

subsection \<open>The sequential reading of a list of operations\<close>

definition sem_level :: "sembuf list \<Rightarrow> nat \<Rightarrow> int" where
  "sem_level ops i = sum_list (map op_val (filter (\<lambda>op. op_num op = i) ops))"

text \<open>Operation \<open>j\<close> can be done when the ones before it have been.\<close>

definition op_passes :: "int list \<Rightarrow> sembuf list \<Rightarrow> nat \<Rightarrow> bool" where
  "op_passes vs ops j \<longleftrightarrow>
     (let op = ops ! j; current = vs ! op_num op + sem_level (take j ops) (op_num op)
      in if op_val op = 0 then current = 0 else 0 \<le> current + op_val op \<and> current + op_val op \<le> SEMVMX)"

lemma sem_level_Cons: "sem_level (op # ops) i = (if op_num op = i then op_val op else 0) + sem_level ops i"
  by (simp add: sem_level_def)

lemma sem_level_Nil [simp]: "sem_level [] i = 0"
  by (simp add: sem_level_def)

lemma op_passes_Cons:
  assumes "\<forall>x \<in> set (op # ops). op_num x < length vs"
  shows "(\<forall>j < length (op # ops). op_passes vs (op # ops) j) \<longleftrightarrow>
    op_passes vs (op # ops) 0 \<and> (\<forall>j < length ops. op_passes (vs[op_num op := vs ! op_num op + op_val op]) ops j)"
proof -
  have "op_passes vs (op # ops) (Suc j) = op_passes (vs[op_num op := vs ! op_num op + op_val op]) ops j"
    if "j < length ops" for j
    using assms that by (simp add: op_passes_def sem_level_Cons Let_def nth_list_update add_ac)
  then show ?thesis by (auto simp: less_Suc_eq_0_disj)
qed

lemma run_ops_iff:
  assumes "\<forall>v \<in> set vs. 0 \<le> v" and "\<forall>op \<in> set ops. op_num op < length vs"
  shows "run_ops ops vs = Inr nv \<longleftrightarrow>
    (\<forall>j < length ops. op_passes vs ops j) \<and> nv = map (\<lambda>i. vs ! i + sem_level ops i) [0..<length vs]"
  using assms
proof (induction ops arbitrary: vs)
  case Nil
  then show ?case by (auto simp: map_nth)
next
  case (Cons op ops)
  let ?n = "op_num op" and ?vs = "vs[op_num op := vs ! op_num op + op_val op]"
  have cur: "0 \<le> vs ! ?n" and len: "?n < length vs" using Cons.prems by auto
  have p0: "op_passes vs (op # ops) 0 \<longleftrightarrow>
      (if op_val op = 0 then vs ! ?n = 0 else 0 \<le> vs ! ?n + op_val op \<and> vs ! ?n + op_val op \<le> SEMVMX)"
    by (simp add: op_passes_def Let_def)
  have lev: "map (\<lambda>i. ?vs ! i + sem_level ops i) [0..<length ?vs] =
      map (\<lambda>i. vs ! i + sem_level (op # ops) i) [0..<length vs]"
    by (rule nth_equalityI) (auto simp: sem_level_Cons nth_list_update)
  show ?case
  proof (cases "op_passes vs (op # ops) 0")
    case False
    then have "\<not> run_ops (op # ops) vs = Inr nv" using cur by (auto simp: p0 Let_def split: if_split_asm)
    with False show ?thesis by (auto simp: op_passes_Cons [OF Cons.prems(2)])
  next
    case True
    have run: "run_ops (op # ops) vs = run_ops ops ?vs"
    proof (cases "op_val op = 0")
      case zero: True
      with True have v: "vs ! ?n = 0" by (simp add: p0)
      have "?vs = vs" using zero by (metis add.right_neutral list_update_id)
      with zero v show ?thesis by (simp add: Let_def)
    qed (use True in \<open>simp add: p0 Let_def\<close>)
    have "0 \<le> vs ! ?n + op_val op" using True cur by (auto simp: p0 split: if_split_asm)
    then have "\<forall>v \<in> set ?vs. 0 \<le> v" using Cons.prems(1) set_update_subset_insert [of vs ?n] by blast
    moreover have "\<forall>op \<in> set ops. op_num op < length ?vs" using Cons.prems(2) by simp
    ultimately show ?thesis using Cons.IH [of ?vs] True
      by (simp only: run lev op_passes_Cons [OF Cons.prems(2)]) blast
  qed
qed

text \<open>The search for the operation to wait for stops where the trial run would block.\<close>

lemma first_waiting_iff:
  assumes "\<forall>op \<in> set ops. op_num op < length vs"
  shows "run_ops ops vs = Inl SemWouldBlock \<longleftrightarrow> first_waiting_run ops vs \<noteq> None"
  using assms
proof (induction ops arbitrary: vs)
  case (Cons op ops)
  have "\<forall>x \<in> set ops. op_num x < length (vs[op_num op := vs ! op_num op + op_val op])" using Cons.prems by simp
  note ih = Cons.IH [OF this] and ih' = Cons.IH [of vs]
  show ?case using Cons.prems ih ih' by (auto simp: Let_def)
qed simp

subsection \<open>What one step does to a waiter and to an id\<close>

definition commits :: "sem_manager \<Rightarrow> sem_manager \<Rightarrow> task_id list \<Rightarrow> bool" where
  "commits m m' woken \<longleftrightarrow> (m' = m \<and> woken = []) \<or>
     (\<exists>i s s' r. bt_get (sm_sets m) i = Some s \<and> ss_waiters s' = ss_waiters s \<and> sem_commit i s' m = (r, m', woken))"

lemma commits_same: "commits m m []"
  by (simp add: commits_def)

lemma commits_commit:
  "bt_get (sm_sets m) i = Some s \<Longrightarrow> ss_waiters s' = ss_waiters s \<Longrightarrow> sem_commit i s' m = (r, m', woken) \<Longrightarrow> commits m m' woken"
  unfolding commits_def by blast

lemma try_semop_commits:
  assumes "try_semop now semid ops caller m = (r, m', woken)"
  shows "commits m m' woken"
  using try_semop_cases [OF assms]
proof (elim disjE exE conjE)
  fix s nv assume s: "bt_get (sm_sets m) semid = Some s"
    and c: "sem_commit semid (s\<lparr>ss_values := fold (store_op (pid_to_i32 (ic_pid caller)) nv) ops (ss_values s),
            ss_otime := now\<rparr>) m = (r, m', woken)"
  show ?thesis by (rule commits_commit [OF s _ c]) simp
qed (simp add: commits_same)

lemma set_value_commits:
  assumes "sem_set_value now semid semnum v caller m = (r, m', woken)"
  shows "commits m m' woken"
proof (cases "bt_get (sm_sets m) semid")
  case None
  then show ?thesis using assms commits_same by (auto simp: sem_set_value_def split: if_split_asm)
next
  case (Some s)
  then show ?thesis using assms commits_same
    by (auto simp: sem_set_value_def split: if_split_asm) (erule commits_commit [OF Some, rotated], simp)
qed

lemma set_all_commits:
  assumes "sem_set_all now semid vals caller m = (r, m', woken)"
  shows "commits m m' woken"
proof (cases "bt_get (sm_sets m) semid")
  case None
  then show ?thesis using assms commits_same by (auto simp: sem_set_all_def split: if_split_asm)
next
  case (Some s)
  then show ?thesis using assms commits_same
    by (auto simp: sem_set_all_def split: if_split_asm) (erule commits_commit [OF Some, rotated], simp)
qed

lemma commits_wakes:
  assumes "commits m m' woken" and "bt_get (sm_sets m) j = Some t" and "w \<in> set (ss_waiters t)"
  shows "sw_task w \<in> set woken \<or> bt_get (sm_sets m') j = Some t"
proof (cases "m' = m")
  case False
  with assms(1) obtain i s s' r where s: "bt_get (sm_sets m) i = Some s" "ss_waiters s' = ss_waiters s"
    "sem_commit i s' m = (r, m', woken)" unfolding commits_def by blast
  then have "woken = map sw_task (ss_waiters s)" "m' = sem_replace i (fst (sem_wake_waiters s')) m"
    by (auto simp: sem_commit_def sem_wake_waiters_def)
  with s(1) assms(2,3) show ?thesis by (cases "j = i") (simp_all add: sem_replace_def)
qed (use assms(2) in simp)

lemma commits_ids:
  assumes "commits m m' woken"
  shows "sm_next_id m' = sm_next_id m \<and> (\<forall>j. bt_get (sm_sets m) j = None \<longrightarrow> bt_get (sm_sets m') j = None)"
proof (cases "m' = m")
  case False
  with assms obtain i s s' r where s: "bt_get (sm_sets m) i = Some s" "sem_commit i s' m = (r, m', woken)"
    unfolding commits_def by blast
  then have "m' = sem_replace i (fst (sem_wake_waiters s')) m" by (auto simp: sem_commit_def sem_wake_waiters_def)
  with s(1) show ?thesis by (auto simp: sem_replace_def)
qed simp

lemma get_or_create_sets:
  assumes "sem_ok m" and "sem_get_or_create now key n flg uid gid caller m = (r, m')"
  shows "m' = m \<or> (\<exists>s. sm_sets m' = bt_insert (sm_next_id m) s (sm_sets m) \<and> sm_next_id m' = Suc (sm_next_id m))"
proof (cases "m' = m")
  case False
  with get_or_create_cases [OF assms(2)]
  have "create_set now key n (flg AND MODE_MASK) uid gid m = (r, m')" by blast
  from create_set_cases [OF assms(1) this] False show ?thesis by (auto simp: sem_register_def)
qed simp

text \<open>The set still holds the waiter, and its values are those the waiter saw.\<close>

definition still_waits :: "nat \<Rightarrow> sem_waiter \<Rightarrow> sem_set \<Rightarrow> sem_manager \<Rightarrow> bool" where
  "still_waits j w t m' \<longleftrightarrow> (\<exists>t'. bt_get (sm_sets m') j = Some t' \<and>
     map sv_value (ss_values t') = map sv_value (ss_values t) \<and> w \<in> set (ss_waiters t'))"

lemma still_waits_same: "bt_get (sm_sets m') j = Some t \<Longrightarrow> w \<in> set (ss_waiters t) \<Longrightarrow> still_waits j w t m'"
  by (simp add: still_waits_def)

lemma commits_waiter:
  "commits m m' woken \<Longrightarrow> bt_get (sm_sets m) j = Some t \<Longrightarrow> w \<in> set (ss_waiters t) \<Longrightarrow>
   sw_task w \<in> set woken \<or> still_waits j w t m'"
  using commits_wakes still_waits_same by metis

lemma still_waits_replace:
  assumes "bt_get (sm_sets m) j = Some t" and "w \<in> set (ss_waiters t)" and "bt_get (sm_sets m) i = Some s"
    and "map sv_value (ss_values s') = map sv_value (ss_values s)" and "set (ss_waiters s) \<subseteq> set (ss_waiters s')"
  shows "still_waits j w t (sem_replace i s' m)"
  using assms by (cases "j = i") (auto simp: still_waits_def sem_replace_def)

lemma sem_step_waiter:
  assumes "sem_step m woken m'" and "sem_ok m" and t: "bt_get (sm_sets m) j = Some t" and w: "w \<in> set (ss_waiters t)"
  shows "sw_task w \<in> set woken \<or> still_waits j w t m' \<or> (\<exists>r. sem_remove_waiter_for_task (sw_task w) m = (r, m'))"
  using assms(1)
proof cases
  case (step_get now key nsems flg uid gid caller r)
  have "bt_get (sm_sets m') j = Some t"
    using get_or_create_sets [OF assms(2) step_get(2)] t sem_alloc_id_next(2) [OF assms(2)] by auto
  then show ?thesis using still_waits_same [OF _ w] by blast
next
  case (step_remove semid caller r)
  from remove_set_cases [OF step_remove(1)] show ?thesis
  proof (elim disjE exE conjE)
    fix s assume "bt_get (sm_sets m) semid = Some s" "m' = sem_unregister semid s m" "woken = map sw_task (ss_waiters s)"
    with t w show ?thesis by (cases "j = semid") (auto simp: sem_unregister_def still_waits_def)
  qed (use still_waits_same [OF t w] in simp)
next
  case (step_attrs now semid uid gid mode caller r)
  then show ?thesis using still_waits_same [OF t w] still_waits_replace [OF t w]
    by (auto simp: sem_set_attrs_def split: option.split_asm if_split_asm)
next
  case (step_block semid ops blocked r)
  from block_cases [OF step_block(2)] show ?thesis
  proof (elim disjE exE conjE)
    fix s x assume s: "bt_get (sm_sets m) semid = Some s" and x: "sw_sem_num x < length (ss_values s)"
      and m': "m' = sem_replace semid (s\<lparr>ss_values := count_waiter x (ss_values s), ss_waiters := ss_waiters s @ [x]\<rparr>) m"
    have "still_waits j w t m'" unfolding m'
      by (rule still_waits_replace [OF t w s]) (use count_waiter_values [OF x] in auto)
    then show ?thesis by blast
  qed (use still_waits_same [OF t w] in simp)
next
  case (step_forget task r)
  then have m': "bt_get (sm_sets m') j = Some (drop_waiters task t)"
    using t by (auto simp: sem_remove_waiter_for_task_def)
  show ?thesis
  proof (cases "sw_task w = task")
    case True
    with step_forget show ?thesis by blast
  next
    case False
    then show ?thesis using m' w by (auto simp: still_waits_def drop_waiters_def fold_uncount_values)
  qed
next
  case (step_value now semid semnum v caller r)
  from commits_waiter [OF set_value_commits [OF step_value(1)] t w] show ?thesis by blast
next
  case (step_all now semid vs caller r)
  from commits_waiter [OF set_all_commits [OF step_all(1)] t w] show ?thesis by blast
next
  case (step_op now semid ops caller r)
  from commits_waiter [OF try_semop_commits [OF step_op(1)] t w] show ?thesis by blast
qed

lemma sem_step_ids:
  assumes "sem_step m woken m'" and "sem_ok m"
  shows "sm_next_id m \<le> sm_next_id m' \<and>
    (\<forall>j < sm_next_id m. bt_get (sm_sets m) j = None \<longrightarrow> bt_get (sm_sets m') j = None)"
  using assms(1)
proof cases
  case (step_get now key nsems flg uid gid caller r)
  then show ?thesis using get_or_create_sets [OF assms(2) step_get(2)] by auto
next
  case (step_remove semid caller r)
  then show ?thesis using remove_set_cases [OF step_remove(1)] by (auto simp: sem_unregister_def)
next
  case (step_attrs now semid uid gid mode caller r)
  then show ?thesis by (auto simp: sem_set_attrs_def sem_replace_def split: option.split_asm if_split_asm)
next
  case (step_block semid ops blocked r)
  then show ?thesis using block_cases [OF step_block(2)] by (auto simp: sem_replace_def)
next
  case (step_forget task r)
  then show ?thesis by (auto simp: sem_remove_waiter_for_task_def)
next
  case (step_value now semid semnum v caller r)
  from commits_ids [OF set_value_commits [OF step_value(1)]] show ?thesis by simp
next
  case (step_all now semid vs caller r)
  from commits_ids [OF set_all_commits [OF step_all(1)]] show ?thesis by simp
next
  case (step_op now semid ops caller r)
  from commits_ids [OF try_semop_commits [OF step_op(1)]] show ?thesis by simp
qed

lemma sem_steps_dead:
  assumes "sem_steps m m'" and "sem_ok m" and "j < sm_next_id m" and "bt_get (sm_sets m) j = None"
  shows "j < sm_next_id m' \<and> bt_get (sm_sets m') j = None"
  using assms
proof (induction rule: sem_steps.induct)
  case (steps_step m m' woken m'')
  then have "sem_ok m'" "j < sm_next_id m'" "bt_get (sm_sets m') j = None" by (auto dest: sem_steps_ok)
  with sem_step_ids [OF steps_step(2)] show ?case by (meson order_less_le_trans)
qed simp

section \<open>Properties\<close>

text \<open>A manager with one set of two semaphores, and a task of user 0 that waits for the first to become positive.\<close>

definition demo_caller :: ipc_caller where
  "demo_caller = \<lparr>ic_pid = 7, ic_euid = 0, ic_egid = 0, ic_groups = [], ic_override = True\<rparr>"

definition demo_sems :: sem_manager where
  "demo_sems = snd (sem_get_or_create 100 42 2 0x3B6 0 0 demo_caller sem_manager_new)"

definition demo_down :: "sembuf list" where
  "demo_down = [\<lparr>sb_num = 0, sb_op = - 1, sb_flg = 0\<rparr>]"

definition demo_up :: "sembuf list" where
  "demo_up = [\<lparr>sb_num = 0, sb_op = 2, sb_flg = 0\<rparr>, \<lparr>sb_num = 0, sb_op = - 1, sb_flg = 0\<rparr>]"

definition demo_blocked :: sem_manager where
  "demo_blocked = snd (block_current_on_first_wait 1 demo_down (Some 5) demo_sems)"

definition demo_value :: sem_value where
  "demo_value = \<lparr>sv_value = 0, sv_pid = 0, sv_ncnt = 0, sv_zcnt = 0\<rparr>"

definition demo_set :: sem_set where
  "demo_set = \<lparr>ss_key = 42, ss_mode = 0x1B6, ss_uid = 0, ss_gid = 0, ss_cuid = 0, ss_cgid = 0, ss_ctime = 100,
     ss_otime = 0, ss_values = [demo_value, demo_value], ss_waiters = []\<rparr>"

lemma replicate_two: "replicate 2 x = [x, x]"
  by (simp add: numeral_2_eq_2)

lemma demo_sems_eq: "demo_sems = \<lparr>sm_next_id = 2, sm_sets = [(1, demo_set)], sm_keyed_sets = [(42, 1)]\<rparr>"
  by (simp add: demo_sems_def sem_get_or_create_def sem_manager_new_def create_set_def sem_alloc_id_def skip_used.simps
      sem_register_def sem_set_new_def SEMMSL_def SEMMNS_def SEMMNI_def MODE_MASK_def IPC_CREAT_def IPC_EXCL_def
      IPC_PRIVATE_def total_sems_def saturating_add_def usize_max_def demo_set_def demo_value_def replicate_two)

lemma demo_blocked_eq: "demo_blocked = \<lparr>sm_next_id = 2, sm_sets = [(1, demo_set\<lparr>ss_values :=
     [demo_value\<lparr>sv_ncnt := 1\<rparr>, demo_value], ss_waiters := [\<lparr>sw_task = 5, sw_sem_num = 0, sw_kind = NonZero\<rparr>]\<rparr>)],
     sm_keyed_sets = [(42, 1)]\<rparr>"
  by (simp add: demo_blocked_def demo_sems_eq block_current_on_first_wait_def first_waiting_op_def demo_down_def
      op_num_def op_val_def demo_set_def demo_value_def count_waiter_def sem_replace_def)

lemma demo_set_get: "bt_get (sm_sets demo_sems) 1 = Some demo_set"
  by (simp add: demo_sems_eq)

lemma demo_sems_steps: "sem_steps sem_manager_new demo_sems"
proof -
  obtain r m where g: "sem_get_or_create 100 42 2 0x3B6 0 0 demo_caller sem_manager_new = (r, m)" by fastforce
  then have "demo_sems = m" by (simp add: demo_sems_def)
  with steps_step [OF steps_refl step_get [OF g]] show ?thesis by simp
qed

lemma demo_blocked_steps: "sem_steps sem_manager_new demo_blocked"
proof -
  obtain r m where g: "block_current_on_first_wait 1 demo_down (Some 5) demo_sems = (r, m)" by fastforce
  then have "demo_blocked = m" by (simp add: demo_blocked_def)
  with steps_step [OF demo_sems_steps step_block [OF g]] show ?thesis by simp
qed

lemma demo_ok: "sem_ok demo_sems" "sem_ok demo_blocked"
  by (rule sem_steps_ok [OF demo_sems_steps sem_new_ok], rule sem_steps_ok [OF demo_blocked_steps sem_new_ok])

text \<open>C15.
  In every manager that the semaphore calls can produce, the id and the key table agree, ids lie below the next id,
  the numbers of sets and of semaphores stay within their limits, every value lies between 0 and SEMVMX, and the two
  wait counters of every semaphore are the numbers of tasks that wait for it to grow and to become zero.
\<close>

theorem sem_invariant:
  assumes "sem_steps sem_manager_new m"
  shows "sem_ok m"
  by (rule sem_steps_ok [OF assms sem_new_ok])

theorem sem_invariant_witness:
  "sem_ok demo_blocked \<and> get_wait_count 1 0 False demo_caller demo_blocked = Inr 1"
proof
  show "sem_ok demo_blocked" by (rule sem_invariant [OF demo_blocked_steps])
  show "get_wait_count 1 0 False demo_caller demo_blocked = Inr 1"
    by (simp add: demo_blocked_eq get_wait_count_def readable_set_def sem_can_read_def demo_caller_def nth_value_def)
qed

text \<open>C16.
  A list of semaphore operations is carried out as a whole or not at all. It succeeds exactly when each operation can
  be done after the ones before it; then every semaphore has changed by the sum of the operations on it, and all
  waiters of the set are woken. Otherwise the manager is unchanged.
\<close>

theorem semop_atomic:
  assumes "sem_ok m" and "bt_get (sm_sets m) semid = Some s" and "ops \<noteq> []" and "length ops \<le> SEMOPM"
    and "check_ops ops s caller = None"
  shows "(let vs = map sv_value (ss_values s)
    in if \<forall>j < length ops. op_passes vs ops j
       then \<exists>m' s'. try_semop now semid ops caller m = (Inr (), m', map sw_task (ss_waiters s)) \<and>
              bt_get (sm_sets m') = (bt_get (sm_sets m))(semid \<mapsto> s') \<and> ss_waiters s' = [] \<and>
              map sv_value (ss_values s') = map (\<lambda>i. vs ! i + sem_level ops i) [0..<length vs]
       else \<exists>e. try_semop now semid ops caller m = (Inl e, m, []))"
proof -
  let ?vs = "map sv_value (ss_values s)"
  have nonneg: "\<forall>v \<in> set ?vs. 0 \<le> v" using sem_ok_get [OF assms(1,2)] by (simp add: sem_set_ok_def values_ok_def)
  have num: "\<forall>op \<in> set ops. op_num op < length ?vs" using check_ops_bound [OF assms(5)] by simp
  note iff = run_ops_iff [OF nonneg num]
  show ?thesis
  proof (cases "run_ops ops ?vs")
    case (Inl e)
    then have "\<not> (\<forall>j < length ops. op_passes ?vs ops j)" using iff by fastforce
    moreover have "try_semop now semid ops caller m = (Inl e, m, [])" using assms Inl by (simp add: try_semop_def)
    ultimately show ?thesis by (simp add: Let_def)
  next
    case (Inr nv)
    let ?s = "s\<lparr>ss_values := fold (store_op (pid_to_i32 (ic_pid caller)) nv) ops (ss_values s), ss_otime := now\<rparr>"
    let ?t = "fst (sem_wake_waiters ?s)"
    have "try_semop now semid ops caller m = (Inr (), sem_replace semid ?t m, map sw_task (ss_waiters s))"
      using assms Inr by (simp add: try_semop_def sem_commit_def sem_wake_waiters_def)
    moreover have "bt_get (sm_sets (sem_replace semid ?t m)) = (bt_get (sm_sets m))(semid \<mapsto> ?t)"
      by (simp add: sem_replace_def)
    moreover have "ss_waiters ?t = []" by (simp add: sem_wake_waiters_def)
    moreover have "map sv_value (ss_values ?t) = map (\<lambda>i. ?vs ! i + sem_level ops i) [0..<length ?vs]"
    proof -
      have "map sv_value (ss_values ?t) = nv"
        by (simp add: sem_wake_waiters_def fold_uncount_values stored_values [OF Inr])
      with Inr iff [of nv] show ?thesis by metis
    qed
    moreover have passes: "\<forall>j < length ops. op_passes ?vs ops j" using Inr iff [of nv] by blast
    ultimately show ?thesis unfolding Let_def if_P [OF passes] by blast
  qed
qed

lemma demo_up_passes: "\<forall>j < length demo_up. op_passes (map sv_value (ss_values demo_set)) demo_up j"
proof -
  have "op_passes (map sv_value (ss_values demo_set)) demo_up 0" "op_passes (map sv_value (ss_values demo_set)) demo_up 1"
    by (simp_all add: op_passes_def demo_up_def demo_set_def demo_value_def op_num_def op_val_def sem_level_def SEMVMX_def)
  then show ?thesis by (simp add: demo_up_def less_Suc_eq)
qed

theorem semop_atomic_witness:
  "\<exists>m' s'. try_semop 101 1 demo_up demo_caller demo_sems = (Inr (), m', []) \<and>
     bt_get (sm_sets m') = (bt_get (sm_sets demo_sems))(1 \<mapsto> s') \<and> map sv_value (ss_values s') = [1, 0]"
proof -
  have h: "demo_up \<noteq> []" "length demo_up \<le> SEMOPM" "check_ops demo_up demo_set demo_caller = None"
    by (simp_all add: demo_up_def SEMOPM_def demo_set_def demo_caller_def op_num_def op_val_def sem_can_alter_def)
  have v: "map sw_task (ss_waiters demo_set) = []" "map (\<lambda>i. map sv_value (ss_values demo_set) ! i + sem_level demo_up i)
      [0..<length (map sv_value (ss_values demo_set))] = [1, 0]"
    by (simp_all add: demo_set_def demo_value_def demo_up_def sem_level_def op_num_def op_val_def)
  from semop_atomic [OF demo_ok(1) demo_set_get h, of 101] demo_up_passes
  have "\<exists>m' s'. try_semop 101 1 demo_up demo_caller demo_sems = (Inr (), m', map sw_task (ss_waiters demo_set)) \<and>
      bt_get (sm_sets m') = (bt_get (sm_sets demo_sems))(1 \<mapsto> s') \<and> ss_waiters s' = [] \<and>
      map sv_value (ss_values s') = map (\<lambda>i. map sv_value (ss_values demo_set) ! i + sem_level demo_up i)
        [0..<length (map sv_value (ss_values demo_set))]"
    unfolding Let_def by (simp only: if_True)
  then show ?thesis unfolding v by (elim exE conjE) (intro exI conjI)
qed

text \<open>When a list of operations has to wait, the caller is queued on exactly the semaphore and for exactly the change that
  the first blocking operation needs, the counter of that semaphore goes up by one, and the call sleeps. It does not
  fail because the two searches for the blocking operation disagree.
\<close>

theorem semop_sleeps_on_first_blocking_op:
  assumes "try_semop now semid ops caller m = (Inl SemWouldBlock, m, woken)"
    and "\<not> (\<exists>op \<in> set ops. sb_flg op AND 0x800 \<noteq> 0)"
  shows "\<exists>s w m'. bt_get (sm_sets m) semid = Some s \<and> first_waiting_op s ops = Some (sw_sem_num w, sw_kind w) \<and>
    sw_task w = task \<and> try_or_block_semop now semid ops caller (Some task) m = (Inr (SemBlocked task), m', woken) \<and>
    bt_get (sm_sets m') = (bt_get (sm_sets m))(semid \<mapsto>
      s\<lparr>ss_values := count_waiter w (ss_values s), ss_waiters := ss_waiters s @ [w]\<rparr>)"
proof -
  have n: "ops \<noteq> []" "length ops \<le> SEMOPM" using assms(1) by (auto simp: try_semop_def split: if_split_asm)
  obtain s where s: "bt_get (sm_sets m) semid = Some s"
    using assms(1) n by (auto simp: try_semop_def split: option.split_asm)
  have c: "check_ops ops s caller = None"
  proof (rule ccontr)
    assume "check_ops ops s caller \<noteq> None"
    then obtain e where e: "check_ops ops s caller = Some e" by blast
    have "check_ops ops s caller = Some e \<Longrightarrow> e = SemTooBig \<or> e = SemAccessDenied"
      by (induction ops) (auto split: if_split_asm)
    with e assms(1) n s show False by (auto simp: try_semop_def)
  qed
  have "run_ops ops (map sv_value (ss_values s)) = Inl SemWouldBlock"
    using assms(1) n s c by (auto simp: try_semop_def sem_commit_def split: sum.split_asm prod.split_asm)
  then have "first_waiting_op s ops \<noteq> None"
    using first_waiting_iff [of ops "map sv_value (ss_values s)"] check_ops_bound [OF c] by (simp add: first_waiting_op_def)
  then obtain i k where ik: "first_waiting_op s ops = Some (i, k)" by auto
  let ?w = "\<lparr>sw_task = task, sw_sem_num = i, sw_kind = k\<rparr>"
  let ?m = "sem_replace semid (s\<lparr>ss_values := count_waiter ?w (ss_values s), ss_waiters := ss_waiters s @ [?w]\<rparr>) m"
  have "block_current_on_first_wait semid ops (Some task) m = (Inr task, ?m)"
    using s ik assms(2) by (simp add: block_current_on_first_wait_def Let_def)
  then have "try_or_block_semop now semid ops caller (Some task) m = (Inr (SemBlocked task), ?m, woken)"
    using assms(1) by (simp add: try_or_block_semop_def)
  then show ?thesis using s ik by (intro exI [of _ s] exI [of _ ?w] exI [of _ ?m]) (simp add: sem_replace_def)
qed

lemma demo_would_block: "try_semop 101 1 demo_down demo_caller demo_sems = (Inl SemWouldBlock, demo_sems, [])"
  by (simp add: try_semop_def demo_sems_eq demo_down_def SEMOPM_def op_num_def op_val_def demo_set_def demo_value_def
      sem_can_alter_def demo_caller_def)

theorem semop_sleeps_on_first_blocking_op_witness:
  "\<exists>s w m'. bt_get (sm_sets demo_sems) 1 = Some s \<and> first_waiting_op s demo_down = Some (sw_sem_num w, sw_kind w) \<and>
     sw_task w = 5 \<and> try_or_block_semop 101 1 demo_down demo_caller (Some 5) demo_sems = (Inr (SemBlocked 5), m', []) \<and>
     bt_get (sm_sets m') = (bt_get (sm_sets demo_sems))(1 \<mapsto>
       s\<lparr>ss_values := count_waiter w (ss_values s), ss_waiters := ss_waiters s @ [w]\<rparr>)"
  by (rule semop_sleeps_on_first_blocking_op [OF demo_would_block]) (simp add: demo_down_def)

text \<open>C17.
  No wakeup is lost. While a task waits on a set, each operation of any task on any set either wakes it, or leaves it
  queued and the values of the set as they are, so that its operations still have to wait; only the task itself, when it
  runs again, takes its entry out.
\<close>

theorem sem_wakeup_not_lost:
  assumes "sem_steps sem_manager_new m" and "sem_step m woken m'"
    and "bt_get (sm_sets m) semid = Some s" and "w \<in> set (ss_waiters s)"
  shows "sw_task w \<in> set woken \<or> (\<exists>r. sem_remove_waiter_for_task (sw_task w) m = (r, m')) \<or>
    (\<exists>s'. bt_get (sm_sets m') semid = Some s' \<and> w \<in> set (ss_waiters s') \<and>
      (\<forall>ops. first_waiting_op s' ops = first_waiting_op s ops))"
  using sem_step_waiter [OF assms(2) sem_steps_ok [OF assms(1) sem_new_ok] assms(3,4)]
  unfolding still_waits_def first_waiting_op_def by (metis (no_types, lifting))

theorem sem_wakeup_not_lost_witness:
  "5 \<in> set (snd (snd (try_semop 101 1 demo_up demo_caller demo_blocked))) \<or>
   (\<exists>r. sem_remove_waiter_for_task 5 demo_blocked = (r, fst (snd (try_semop 101 1 demo_up demo_caller demo_blocked)))) \<or>
   (\<exists>s'. bt_get (sm_sets (fst (snd (try_semop 101 1 demo_up demo_caller demo_blocked)))) 1 = Some s' \<and>
      \<lparr>sw_task = 5, sw_sem_num = 0, sw_kind = NonZero\<rparr> \<in> set (ss_waiters s'))"
proof -
  let ?m = "fst (snd (try_semop 101 1 demo_up demo_caller demo_blocked))"
  let ?woken = "snd (snd (try_semop 101 1 demo_up demo_caller demo_blocked))"
  let ?w = "\<lparr>sw_task = 5, sw_sem_num = 0, sw_kind = NonZero\<rparr>"
  have st: "sem_step demo_blocked ?woken ?m"
    by (rule step_op [of 101 1 demo_up demo_caller _ "fst (try_semop 101 1 demo_up demo_caller demo_blocked)"]) simp
  obtain s where s: "bt_get (sm_sets demo_blocked) 1 = Some s" "?w \<in> set (ss_waiters s)" by (simp add: demo_blocked_eq)
  from sem_wakeup_not_lost [OF demo_blocked_steps st s] show ?thesis by auto
qed

text \<open>A task that sleeps on a set which is then removed returns with EIDRM, whatever else happens to the manager in between:
  the id of a removed set is never given out again, so the sleeper cannot be mistaken for a waiter of a new set.
\<close>

theorem removed_set_returns_EIDRM:
  assumes "sem_steps sem_manager_new m" and "\<not> reached deadline (se_time_before env)"
    and "try_or_block_semop (se_now_sec env) semid ops caller (se_blocked env) m = (Inr (SemBlocked task), m1, woken)"
    and "sem_steps m1 m2" and "remove_set semid remover m2 = (Inr (), m3, woken')" and "sem_steps m3 m4"
    and "se_others env m1 = m4" and "se_current env = Some task"
  shows "fst (semop_loop semid ops caller deadline (env # envs) m) = SemReturn (Inl EIDRM)"
proof -
  have ok: "sem_ok m" by (rule sem_steps_ok [OF assms(1) sem_new_ok])
  obtain r1 ma wo where t: "try_semop (se_now_sec env) semid ops caller m = (r1, ma, wo)" by (metis prod.exhaust)
  then have "block_current_on_first_wait semid ops (se_blocked env) ma = (Inr task, m1)"
    using assms(3) by (auto simp: try_or_block_semop_def split: sum.split_asm if_split_asm prod.split_asm)
  then have ok2: "sem_ok m2" using block_ok [OF try_semop_ok [OF ok t]] sem_steps_ok [OF assms(4)] by blast
  have gone: "bt_get (sm_sets m3) semid = None" and lt: "semid < sm_next_id m3"
    using remove_set_cases [OF assms(5)] ok2 by (auto simp: sem_unregister_def sem_ok_def)
  have "bt_get (sm_sets m4) semid = None"
    using sem_steps_dead [OF assms(6) remove_set_ok [OF ok2 assms(5)] lt gone] by blast
  moreover obtain still m5 where f: "sem_remove_waiter_for_task task m4 = (still, m5)" by fastforce
  ultimately have "bt_get (sm_sets m5) semid = None" by (auto simp: sem_remove_waiter_for_task_def)
  with f show ?thesis using assms(2,3,7,8) by simp
qed

definition demo_env :: sem_env where
  "demo_env = \<lparr>se_now_sec = 101, se_time_before = 0, se_blocked = Some 5,
     se_others = (\<lambda>m. fst (snd (remove_set 1 demo_caller m))), se_current = Some 5, se_exit = False,
     se_signal = False, se_time_after = 0\<rparr>"

theorem removed_set_returns_EIDRM_witness:
  "fst (semop_loop 1 demo_down demo_caller None [demo_env] demo_sems) = SemReturn (Inl EIDRM)"
proof -
  have "fst (block_current_on_first_wait 1 demo_down (Some 5) demo_sems) = Inr 5"
    by (simp add: block_current_on_first_wait_def demo_sems_eq first_waiting_op_def demo_down_def
        op_num_def op_val_def demo_set_def demo_value_def Let_def)
  then have b: "block_current_on_first_wait 1 demo_down (Some 5) demo_sems = (Inr 5, demo_blocked)"
    by (simp add: demo_blocked_def prod_eq_iff)
  have t: "try_or_block_semop (se_now_sec demo_env) 1 demo_down demo_caller (se_blocked demo_env) demo_sems =
      (Inr (SemBlocked 5), demo_blocked, [])"
    by (simp only: demo_env_def sem_env.select_convs try_or_block_semop_def demo_would_block b prod.case sum.case
        if_True simp_thms)
  have r: "remove_set 1 demo_caller demo_blocked = (Inr (), se_others demo_env demo_blocked, [5])"
    by (simp add: remove_set_def demo_blocked_eq sem_is_owner_or_creator_def demo_caller_def demo_env_def sem_wake_waiters_def)
  show ?thesis
    by (rule removed_set_returns_EIDRM [OF demo_sems_steps _ t steps_refl r steps_refl refl])
       (simp_all add: reached_def demo_env_def)
qed

end
