(* ===== verification/Sysv_Msg.thy ===== *)
theory Sysv_Msg
  imports Sysv_Ipc
begin

text \<open>
  System V message queues (\<open>os/src/syscall/msg.rs\<close>).

  The manager record also holds the four atomics of the module, which the sysctl files set: the limits
  \<open>MSGMNI\<close>, \<open>MSGMAX\<close>, \<open>MSGMNB\<close> and the id requested for the next queue (\<open>MSG_NEXT_ID\<close>, -1 for none). The
  sleeping loops of \<open>msgsnd\<close> and \<open>msgrcv\<close> take one record of observations per pass, as in the semaphore theory.
\<close>

section \<open>Data\<close>

datatype msg_error =
    MsgNotFound | MsgExists | MsgInvalid | MsgNoSpace | MsgAccessDenied | MsgNotPermitted | MsgTooBig
  | MsgNoMessage | MsgWouldBlock | MsgInterrupted

primrec msg_error_to_sys_error :: "msg_error \<Rightarrow> errno" where
  "msg_error_to_sys_error MsgNotFound = ENOENT"
| "msg_error_to_sys_error MsgExists = EEXIST"
| "msg_error_to_sys_error MsgInvalid = EINVAL"
| "msg_error_to_sys_error MsgNoSpace = ENOSPC"
| "msg_error_to_sys_error MsgAccessDenied = EACCES"
| "msg_error_to_sys_error MsgNotPermitted = EPERM"
| "msg_error_to_sys_error MsgTooBig = E2BIG"
| "msg_error_to_sys_error MsgNoMessage = ENOMSG"
| "msg_error_to_sys_error MsgWouldBlock = EAGAIN"
| "msg_error_to_sys_error MsgInterrupted = EINTR"

definition MSG_NOERROR :: u32 where "MSG_NOERROR = 0x1000"
definition MSG_EXCEPT :: u32 where "MSG_EXCEPT = 0x2000"
definition MSG_COPY :: u32 where "MSG_COPY = 0x4000"
definition MSGMNI_DEFAULT :: nat where "MSGMNI_DEFAULT = 16"
definition MSGMAX_DEFAULT :: nat where "MSGMAX_DEFAULT = 8192"
definition MSGMNB_DEFAULT :: nat where "MSGMNB_DEFAULT = 16384"

record message =
  ms_mtype :: int
  ms_text :: "u8 list"

record msg_queue =
  mq_key :: int
  mq_mode :: u32
  mq_uid :: u32
  mq_gid :: u32
  mq_cuid :: u32
  mq_cgid :: u32
  mq_stime :: int
  mq_rtime :: int
  mq_ctime :: int
  mq_qbytes :: nat
  mq_cbytes :: nat
  mq_lspid :: int
  mq_lrpid :: int
  mq_messages :: "message list"
  mq_waiters :: "task_id list"

record msg_queue_stat =
  qs_key :: int
  qs_uid :: u32
  qs_gid :: u32
  qs_cuid :: u32
  qs_cgid :: u32
  qs_mode :: u32
  qs_stime :: int
  qs_rtime :: int
  qs_ctime :: int
  qs_cbytes :: nat
  qs_qnum :: nat
  qs_qbytes :: nat
  qs_lspid :: int
  qs_lrpid :: int

record msg_usage_info =
  mu_used_ids :: nat
  mu_total_messages :: nat
  mu_total_bytes :: nat
  mu_highest_index :: nat

record msg_manager =
  mm_next_id :: nat
  mm_queues :: "(nat, msg_queue) btree"
  mm_keyed_queues :: "(int, nat) btree"
  mm_msgmni :: nat
  mm_msgmax :: nat
  mm_msgmnb :: nat
  mm_requested :: int

section \<open>Operations of a queue\<close>

definition msg_queue_new :: "int \<Rightarrow> nat \<Rightarrow> int \<Rightarrow> u32 \<Rightarrow> u32 \<Rightarrow> u32 \<Rightarrow> msg_queue" where
  "msg_queue_new now msgmnb key mode uid gid =
     \<lparr>mq_key = key, mq_mode = mode, mq_uid = uid, mq_gid = gid, mq_cuid = uid, mq_cgid = gid, mq_stime = 0,
      mq_rtime = 0, mq_ctime = now, mq_qbytes = msgmnb, mq_cbytes = 0, mq_lspid = 0, mq_lrpid = 0,
      mq_messages = [], mq_waiters = []\<rparr>"

definition msg_can_read :: "msg_queue \<Rightarrow> ipc_caller \<Rightarrow> bool" where
  "msg_can_read q caller \<longleftrightarrow>
     mode_allows (mq_uid q) (mq_gid q) (mq_mode q) caller 0x100 0x20 0x4 \<or> ic_override caller"

definition msg_can_write :: "msg_queue \<Rightarrow> ipc_caller \<Rightarrow> bool" where
  "msg_can_write q caller \<longleftrightarrow>
     mode_allows (mq_uid q) (mq_gid q) (mq_mode q) caller 0x80 0x10 0x2 \<or> ic_override caller"

definition msg_is_owner_or_creator :: "msg_queue \<Rightarrow> ipc_caller \<Rightarrow> bool" where
  "msg_is_owner_or_creator q caller \<longleftrightarrow>
     ic_euid caller = mq_uid q \<or> ic_euid caller = mq_cuid q \<or> ic_override caller"

definition has_capacity_for :: "msg_queue \<Rightarrow> nat \<Rightarrow> bool" where
  "has_capacity_for q len \<longleftrightarrow>
     saturating_add (mq_cbytes q) len \<le> mq_qbytes q \<and> length (mq_messages q) < mq_qbytes q"

definition msg_stat :: "msg_queue \<Rightarrow> msg_queue_stat" where
  "msg_stat q = \<lparr>qs_key = mq_key q, qs_uid = mq_uid q, qs_gid = mq_gid q, qs_cuid = mq_cuid q, qs_cgid = mq_cgid q,
     qs_mode = mq_mode q AND MODE_MASK, qs_stime = mq_stime q, qs_rtime = mq_rtime q, qs_ctime = mq_ctime q,
     qs_cbytes = mq_cbytes q, qs_qnum = length (mq_messages q), qs_qbytes = mq_qbytes q, qs_lspid = mq_lspid q,
     qs_lrpid = mq_lrpid q\<rparr>"

definition msg_wake_waiters :: "msg_queue \<Rightarrow> msg_queue \<times> task_id list" where
  "msg_wake_waiters q = (q\<lparr>mq_waiters := []\<rparr>, mq_waiters q)"

text \<open>\<open>Iterator::position\<close>.\<close>

fun position :: "('a \<Rightarrow> bool) \<Rightarrow> 'a list \<Rightarrow> nat option" where
  "position P [] = None"
| "position P (x # xs) = (if P x then Some 0 else map_option Suc (position P xs))"

text \<open>
  \<open>enumerate().filter(mtype <= max).min_by_key(mtype)\<close>: the index of the first message of the least type;
  \<open>best\<close> is the candidate so far, \<open>i\<close> the index of the head.
\<close>

fun min_type_from :: "int \<Rightarrow> nat \<Rightarrow> (nat \<times> int) option \<Rightarrow> message list \<Rightarrow> (nat \<times> int) option" where
  "min_type_from max_type i best [] = best"
| "min_type_from max_type i best (x # xs) =
     min_type_from max_type (Suc i)
       (if ms_mtype x \<le> max_type \<and> (case best of None \<Rightarrow> True | Some (_, t) \<Rightarrow> ms_mtype x < t)
        then Some (i, ms_mtype x) else best) xs"

definition saturating_neg :: "int \<Rightarrow> int" where
  "saturating_neg z = (if z = i64_min then i64_max else - z)"

definition find_message_index :: "message list \<Rightarrow> int \<Rightarrow> u32 \<Rightarrow> nat option" where
  "find_message_index messages msgtyp flags =
     (if flags AND MSG_COPY \<noteq> 0 then
        (if 0 \<le> msgtyp \<and> nat msgtyp < length messages then Some (nat msgtyp) else None)
      else if msgtyp = 0 then (if messages \<noteq> [] then Some 0 else None)
      else if 0 < msgtyp then
        (if flags AND MSG_EXCEPT \<noteq> 0 then position (\<lambda>x. ms_mtype x \<noteq> msgtyp) messages
         else position (\<lambda>x. ms_mtype x = msgtyp) messages)
      else map_option fst (min_type_from (saturating_neg msgtyp) 0 None messages))"

section \<open>The manager\<close>

definition msg_manager_new :: msg_manager where
  "msg_manager_new = \<lparr>mm_next_id = 1, mm_queues = [], mm_keyed_queues = [], mm_msgmni = MSGMNI_DEFAULT,
     mm_msgmax = MSGMAX_DEFAULT, mm_msgmnb = MSGMNB_DEFAULT, mm_requested = - 1\<rparr>"

definition set_msgmni :: "nat \<Rightarrow> msg_manager \<Rightarrow> bool \<times> msg_manager" where
  "set_msgmni v m = (if v = 0 then (False, m) else (True, m\<lparr>mm_msgmni := v\<rparr>))"

definition set_msgmax :: "nat \<Rightarrow> msg_manager \<Rightarrow> bool \<times> msg_manager" where
  "set_msgmax v m = (if v = 0 then (False, m) else (True, m\<lparr>mm_msgmax := v\<rparr>))"

definition set_msgmnb :: "nat \<Rightarrow> msg_manager \<Rightarrow> bool \<times> msg_manager" where
  "set_msgmnb v m = (if v = 0 then (False, m) else (True, m\<lparr>mm_msgmnb := v\<rparr>))"

definition set_msg_next_id :: "int \<Rightarrow> msg_manager \<Rightarrow> bool \<times> msg_manager" where
  "set_msg_next_id v m = (if v < - 1 then (False, m) else (True, m\<lparr>mm_requested := v\<rparr>))"

definition requested_next_id :: "msg_manager \<Rightarrow> nat option" where
  "requested_next_id m = (if 0 \<le> mm_requested m then Some (nat (mm_requested m)) else None)"

definition reset_next_id :: "msg_manager \<Rightarrow> msg_manager" where
  "reset_next_id m = m\<lparr>mm_requested := - 1\<rparr>"

text \<open>The branch without a usable request: both loops over the ids in use.\<close>

definition msg_alloc_next :: "msg_manager \<Rightarrow> nat \<times> msg_manager" where
  "msg_alloc_next m =
     (let i = skip_used (mm_queues m) (mm_next_id m)
      in (i, (reset_next_id m)\<lparr>mm_next_id := skip_used (mm_queues m) (i + 1)\<rparr>))"

definition msg_alloc_id :: "msg_manager \<Rightarrow> nat \<times> msg_manager" where
  "msg_alloc_id m =
     (case requested_next_id m of
        Some i \<Rightarrow> if bt_get (mm_queues m) i = None then (i, reset_next_id m) else msg_alloc_next m
      | None \<Rightarrow> msg_alloc_next m)"

definition msg_register :: "nat \<Rightarrow> msg_queue \<Rightarrow> msg_manager \<Rightarrow> msg_manager" where
  "msg_register i q m = m\<lparr>mm_queues := bt_insert i q (mm_queues m),
     mm_keyed_queues := (if mq_key q \<noteq> IPC_PRIVATE then bt_insert (mq_key q) i (mm_keyed_queues m)
                         else mm_keyed_queues m)\<rparr>"

definition msg_unregister :: "nat \<Rightarrow> msg_queue \<Rightarrow> msg_manager \<Rightarrow> msg_manager" where
  "msg_unregister i q m = m\<lparr>mm_queues := bt_remove i (mm_queues m),
     mm_keyed_queues := (if mq_key q \<noteq> IPC_PRIVATE then bt_remove (mq_key q) (mm_keyed_queues m)
                         else mm_keyed_queues m)\<rparr>"

definition msg_replace :: "nat \<Rightarrow> msg_queue \<Rightarrow> msg_manager \<Rightarrow> msg_manager" where
  "msg_replace i q m = m\<lparr>mm_queues := bt_insert i q (mm_queues m)\<rparr>"

definition create_queue ::
  "int \<Rightarrow> int \<Rightarrow> u32 \<Rightarrow> u32 \<Rightarrow> u32 \<Rightarrow> msg_manager \<Rightarrow> (msg_error + nat) \<times> msg_manager" where
  "create_queue now key mode uid gid m =
     (if mm_msgmni m \<le> length (mm_queues m) then (Inl MsgNoSpace, m)
      else (case msg_alloc_id m of
          (msqid, m') \<Rightarrow> (Inr msqid, msg_register msqid (msg_queue_new now (mm_msgmnb m) key mode uid gid) m')))"

definition msg_get_or_create ::
  "int \<Rightarrow> int \<Rightarrow> u32 \<Rightarrow> u32 \<Rightarrow> u32 \<Rightarrow> ipc_caller \<Rightarrow> msg_manager \<Rightarrow> (msg_error + nat) \<times> msg_manager" where
  "msg_get_or_create now key msgflg uid gid caller m =
     (let mode = msgflg AND MODE_MASK; flags = msgflg AND NOT MODE_MASK
      in if flags AND NOT (IPC_CREAT OR IPC_EXCL) \<noteq> 0 then (Inl MsgInvalid, m)
         else if key = IPC_PRIVATE then create_queue now key mode uid gid m
         else (case bt_get (mm_keyed_queues m) key of
             Some msqid \<Rightarrow>
               if flags AND (IPC_CREAT OR IPC_EXCL) = (IPC_CREAT OR IPC_EXCL) then (Inl MsgExists, m)
               else (case bt_get (mm_queues m) msqid of
                   None \<Rightarrow> (Inl MsgNotFound, m)
                 | Some q \<Rightarrow>
                     if mode AND 0x124 \<noteq> 0 \<and> \<not> msg_can_read q caller then (Inl MsgAccessDenied, m)
                     else if mode AND 0x92 \<noteq> 0 \<and> \<not> msg_can_write q caller then (Inl MsgAccessDenied, m)
                     else (Inr msqid, m))
           | None \<Rightarrow>
               if flags AND IPC_CREAT = 0 then (Inl MsgNotFound, m)
               else create_queue now key mode uid gid m))"

type_synonym 'a msg_result = "(msg_error + 'a) \<times> msg_manager \<times> task_id list"

definition remove_queue :: "nat \<Rightarrow> ipc_caller \<Rightarrow> msg_manager \<Rightarrow> unit msg_result" where
  "remove_queue msqid caller m =
     (case bt_get (mm_queues m) msqid of
        None \<Rightarrow> (Inl MsgInvalid, m, [])
      | Some q \<Rightarrow>
          if \<not> msg_is_owner_or_creator q caller then (Inl MsgNotPermitted, m, [])
          else (Inr (), msg_unregister msqid q m, snd (msg_wake_waiters q)))"

definition msg_stat_by_id :: "nat \<Rightarrow> ipc_caller \<Rightarrow> msg_manager \<Rightarrow> msg_error + msg_queue_stat" where
  "msg_stat_by_id msqid caller m =
     (case bt_get (mm_queues m) msqid of
        None \<Rightarrow> Inl MsgInvalid
      | Some q \<Rightarrow> if \<not> msg_can_read q caller then Inl MsgAccessDenied else Inr (msg_stat q))"

definition msg_stat_by_index ::
  "nat \<Rightarrow> ipc_caller \<Rightarrow> bool \<Rightarrow> msg_manager \<Rightarrow> msg_error + nat \<times> msg_queue_stat" where
  "msg_stat_by_index index caller skip_permission m =
     (case bt_get (mm_queues m) index of
        None \<Rightarrow> Inl MsgInvalid
      | Some q \<Rightarrow> if \<not> skip_permission \<and> \<not> msg_can_read q caller then Inl MsgAccessDenied
                  else Inr (index, msg_stat q))"

text \<open>The queue with its change stored and its waiters woken.\<close>

definition msg_commit :: "'a \<Rightarrow> nat \<Rightarrow> msg_queue \<Rightarrow> msg_manager \<Rightarrow> 'a msg_result" where
  "msg_commit x msqid q m = (case msg_wake_waiters q of (q', woken) \<Rightarrow> (Inr x, msg_replace msqid q' m, woken))"

definition msg_set_attrs ::
  "int \<Rightarrow> nat \<Rightarrow> u32 \<Rightarrow> u32 \<Rightarrow> u32 \<Rightarrow> nat \<Rightarrow> ipc_caller \<Rightarrow> msg_manager \<Rightarrow> unit msg_result" where
  "msg_set_attrs now msqid uid gid mode qbytes caller m =
     (case bt_get (mm_queues m) msqid of
        None \<Rightarrow> (Inl MsgInvalid, m, [])
      | Some q \<Rightarrow>
          if \<not> msg_is_owner_or_creator q caller then (Inl MsgNotPermitted, m, [])
          else msg_commit () msqid
                 (q\<lparr>mq_uid := uid, mq_gid := gid, mq_mode := mode AND MODE_MASK, mq_qbytes := max qbytes 1,
                    mq_ctime := now\<rparr>) m)"

definition msg_send :: "int \<Rightarrow> nat \<Rightarrow> message \<Rightarrow> ipc_caller \<Rightarrow> msg_manager \<Rightarrow> unit msg_result" where
  "msg_send now msqid msg caller m =
     (if mm_msgmax m < length (ms_text msg) then (Inl MsgInvalid, m, [])
      else (case bt_get (mm_queues m) msqid of
          None \<Rightarrow> (Inl MsgInvalid, m, [])
        | Some q \<Rightarrow>
            if \<not> msg_can_write q caller then (Inl MsgAccessDenied, m, [])
            else if \<not> has_capacity_for q (length (ms_text msg)) then (Inl MsgWouldBlock, m, [])
            else msg_commit () msqid
                   (q\<lparr>mq_cbytes := saturating_add (mq_cbytes q) (length (ms_text msg)),
                      mq_messages := mq_messages q @ [msg], mq_lspid := pid_to_i32 (ic_pid caller),
                      mq_stime := now\<rparr>) m))"

text \<open>\<open>Vec::remove\<close>.\<close>

definition vec_remove :: "nat \<Rightarrow> 'a list \<Rightarrow> 'a list" where
  "vec_remove i xs = take i xs @ drop (Suc i) xs"

definition msg_receive ::
  "int \<Rightarrow> nat \<Rightarrow> int \<Rightarrow> nat \<Rightarrow> u32 \<Rightarrow> ipc_caller \<Rightarrow> msg_manager \<Rightarrow> message msg_result" where
  "msg_receive now msqid msgtyp msgsz flags caller m =
     (case bt_get (mm_queues m) msqid of
        None \<Rightarrow> (Inl MsgInvalid, m, [])
      | Some q \<Rightarrow>
          if \<not> msg_can_read q caller then (Inl MsgAccessDenied, m, [])
          else
            (let copy_mode = flags AND MSG_COPY \<noteq> 0
             in if copy_mode \<and> (flags AND IPC_NOWAIT = 0 \<or> flags AND MSG_EXCEPT \<noteq> 0 \<or> msgtyp < 0)
                then (Inl MsgInvalid, m, [])
                else (case find_message_index (mq_messages q) msgtyp flags of
                    None \<Rightarrow> (Inl (if flags AND IPC_NOWAIT \<noteq> 0 \<or> copy_mode then MsgNoMessage else MsgWouldBlock), m, [])
                  | Some index \<Rightarrow>
                      if length (mq_messages q) \<le> index then (Inl MsgNoMessage, m, [])
                      else
                        (let msg = mq_messages q ! index
                         in if msgsz < length (ms_text msg) \<and> flags AND MSG_NOERROR = 0 then (Inl MsgTooBig, m, [])
                            else if \<not> copy_mode
                            then msg_commit msg msqid
                                   (q\<lparr>mq_cbytes := mq_cbytes q - length (ms_text msg),
                                      mq_messages := vec_remove index (mq_messages q),
                                      mq_lrpid := pid_to_i32 (ic_pid caller), mq_rtime := now\<rparr>) m
                            else (Inr msg, m, [])))))"

definition block_current :: "nat \<Rightarrow> task_id option \<Rightarrow> msg_manager \<Rightarrow> (msg_error + task_id) \<times> msg_manager" where
  "block_current msqid blocked m =
     (case bt_get (mm_queues m) msqid of
        None \<Rightarrow> (Inl MsgInvalid, m)
      | Some q \<Rightarrow>
          (case blocked of
             None \<Rightarrow> (Inl MsgInterrupted, m)
           | Some task \<Rightarrow> (Inr task, msg_replace msqid (q\<lparr>mq_waiters := mq_waiters q @ [task]\<rparr>) m)))"

definition msg_remove_waiter_for_task :: "task_id \<Rightarrow> msg_manager \<Rightarrow> msg_manager" where
  "msg_remove_waiter_for_task task m =
     m\<lparr>mm_queues := bt_map (\<lambda>q. q\<lparr>mq_waiters := filter (\<lambda>t. t \<noteq> task) (mq_waiters q)\<rparr>) (mm_queues m)\<rparr>"

definition msg_highest_index :: "msg_manager \<Rightarrow> nat" where
  "msg_highest_index m = (case bt_last_key (mm_queues m) of None \<Rightarrow> 0 | Some k \<Rightarrow> k)"

definition msg_usage :: "msg_manager \<Rightarrow> msg_usage_info" where
  "msg_usage m = \<lparr>mu_used_ids = length (mm_queues m),
     mu_total_messages = sum_list (map (\<lambda>e. length (mq_messages (snd e))) (mm_queues m)),
     mu_total_bytes = sum_list (map (\<lambda>e. mq_cbytes (snd e)) (mm_queues m)),
     mu_highest_index = msg_highest_index m\<rparr>"

section \<open>System calls\<close>

definition sys_msgget ::
  "int \<Rightarrow> nat \<Rightarrow> credentials \<Rightarrow> int \<Rightarrow> u32 \<Rightarrow> msg_manager \<Rightarrow> (errno + nat) \<times> msg_manager" where
  "sys_msgget now pid c key msgflg m =
     (case msg_get_or_create now key msgflg (cr_euid c) (cr_egid c) (caller_from pid c) m of
        (r, m') \<Rightarrow> (map_err msg_error_to_sys_error r, m'))"

record msqid_ds =
  md_key :: int
  md_uid :: u32
  md_gid :: u32
  md_cuid :: u32
  md_cgid :: u32
  md_mode :: u32
  md_stime :: int
  md_rtime :: int
  md_ctime :: int
  md_cbytes :: nat
  md_qnum :: nat
  md_qbytes :: nat
  md_lspid :: int
  md_lrpid :: int

definition msqid_ds_of :: "msg_queue_stat \<Rightarrow> msqid_ds" where
  "msqid_ds_of s = \<lparr>md_key = as_i32 (qs_key s), md_uid = qs_uid s, md_gid = qs_gid s, md_cuid = qs_cuid s,
     md_cgid = qs_cgid s, md_mode = qs_mode s, md_stime = qs_stime s, md_rtime = qs_rtime s, md_ctime = qs_ctime s,
     md_cbytes = qs_cbytes s, md_qnum = qs_qnum s, md_qbytes = qs_qbytes s, md_lspid = qs_lspid s,
     md_lrpid = qs_lrpid s\<rparr>"

record msginfo =
  mi_msgpool :: int
  mi_msgmap :: int
  mi_msgmax :: int
  mi_msgmnb :: int
  mi_msgmni :: int
  mi_msgssz :: int
  mi_msgtql :: int
  mi_msgseg :: u16

definition base_msginfo :: "msg_manager \<Rightarrow> msginfo" where
  "base_msginfo m = \<lparr>mi_msgpool = i32_or_max (mm_msgmni m), mi_msgmap = i32_or_max (mm_msgmni m),
     mi_msgmax = i32_or_max (mm_msgmax m), mi_msgmnb = i32_or_max (mm_msgmnb m), mi_msgmni = i32_or_max (mm_msgmni m),
     mi_msgssz = 16, mi_msgtql = i32_or_max (min (mm_msgmni m * 64) usize_max), mi_msgseg = 0xFFFF\<rparr>"

datatype msg_out = MsgNoOut | MsgDs msqid_ds | MsgInfoOut msginfo | MsgData int "u8 list"

definition msg_answer ::
  "errno option \<Rightarrow> msg_manager \<Rightarrow> msg_error + 'a \<Rightarrow> ('a \<Rightarrow> int) \<Rightarrow> ('a \<Rightarrow> msg_out)
    \<Rightarrow> (errno + int) \<times> msg_out \<times> msg_manager \<times> task_id list" where
  "msg_answer wr m r val out =
     (case r of
        Inl e \<Rightarrow> (Inl (msg_error_to_sys_error e), MsgNoOut, m, [])
      | Inr x \<Rightarrow> (case wr of Some e \<Rightarrow> (Inl e, MsgNoOut, m, []) | None \<Rightarrow> (Inr (val x), out x, m, [])))"

definition msg_update ::
  "unit msg_result \<Rightarrow> (errno + int) \<times> msg_out \<times> msg_manager \<times> task_id list" where
  "msg_update r = (case r of (res, m, woken) \<Rightarrow>
     (case res of Inl e \<Rightarrow> Inl (msg_error_to_sys_error e) | Inr _ \<Rightarrow> Inr 0, MsgNoOut, m, woken))"

text \<open>\<open>wr\<close> is the outcome of the write to user memory, \<open>rd_ds\<close> of the read of owner, group, mode and size.\<close>

definition sys_msgctl ::
  "int \<Rightarrow> nat \<Rightarrow> credentials \<Rightarrow> errno option \<Rightarrow> errno + u32 \<times> u32 \<times> u32 \<times> nat \<Rightarrow> nat \<Rightarrow> int \<Rightarrow> msg_manager
    \<Rightarrow> (errno + int) \<times> msg_out \<times> msg_manager \<times> task_id list" where
  "sys_msgctl now pid c wr rd_ds msqid cmd m =
     (let caller = caller_from pid c
      in if cmd = 0 then msg_update (remove_queue msqid caller m)
         else if cmd = 2 then
           msg_answer wr m (msg_stat_by_id msqid caller m) (\<lambda>_. 0) (\<lambda>s. MsgDs (msqid_ds_of s))
         else if cmd = 1 then
           (case rd_ds of
              Inl e \<Rightarrow> (Inl e, MsgNoOut, m, [])
            | Inr (uid, gid, mode, qbytes) \<Rightarrow> msg_update (msg_set_attrs now msqid uid gid mode qbytes caller m))
         else if cmd = 3 \<or> cmd = 12 then
           (let usage = msg_usage m;
                info = (if cmd = 12 then (base_msginfo m)\<lparr>mi_msgpool := i32_or_max (mu_used_ids usage),
                           mi_msgmap := i32_or_max (mu_total_messages usage),
                           mi_msgtql := i32_or_max (mu_total_bytes usage)\<rparr>
                        else base_msginfo m)
            in msg_answer wr m (Inr info) (\<lambda>_. int (mu_highest_index usage)) MsgInfoOut)
         else if cmd = 11 \<or> cmd = 13 then
           msg_answer wr m (msg_stat_by_index msqid caller (cmd = 13) m) (\<lambda>(i, _). int i)
             (\<lambda>(_, s). MsgDs (msqid_ds_of s))
         else (Inl EINVAL, MsgNoOut, m, []))"

datatype msg_attempt = MsgDone int msg_out | MsgBlocked task_id

type_synonym attempt_result = "(errno + msg_attempt) \<times> msg_manager \<times> task_id list"

definition msg_block :: "nat \<Rightarrow> task_id option \<Rightarrow> msg_manager \<Rightarrow> attempt_result" where
  "msg_block msqid blocked m =
     (case block_current msqid blocked m of
        (Inl e, m') \<Rightarrow> (Inl (msg_error_to_sys_error e), m', [])
      | (Inr task, m') \<Rightarrow> (Inr (MsgBlocked task), m', []))"

definition try_or_block_msgsnd ::
  "int \<Rightarrow> nat \<Rightarrow> message \<Rightarrow> u32 \<Rightarrow> ipc_caller \<Rightarrow> task_id option \<Rightarrow> msg_manager \<Rightarrow> attempt_result" where
  "try_or_block_msgsnd now msqid msg flags caller blocked m =
     (case msg_send now msqid msg caller m of
        (Inr _, m', woken) \<Rightarrow> (Inr (MsgDone 0 MsgNoOut), m', woken)
      | (Inl e, m', woken) \<Rightarrow>
          if e = MsgWouldBlock \<and> flags AND IPC_NOWAIT = 0 then msg_block msqid blocked m'
          else (Inl (msg_error_to_sys_error e), m', woken))"

text \<open>\<open>wr\<close> is the outcome of copying the type and the text to user memory, which happens under the lock.\<close>

definition try_or_block_msgrcv ::
  "int \<Rightarrow> nat \<Rightarrow> errno option \<Rightarrow> int \<Rightarrow> nat \<Rightarrow> u32 \<Rightarrow> ipc_caller \<Rightarrow> task_id option \<Rightarrow> msg_manager \<Rightarrow> attempt_result" where
  "try_or_block_msgrcv now msqid wr msgtyp msgsz flags caller blocked m =
     (case msg_receive now msqid msgtyp msgsz flags caller m of
        (Inr msg, m', woken) \<Rightarrow>
          (let copy_len = min msgsz (length (ms_text msg))
           in case wr of
                Some e \<Rightarrow> (Inl e, m', woken)
              | None \<Rightarrow> (Inr (MsgDone (int copy_len) (MsgData (ms_mtype msg) (take copy_len (ms_text msg)))), m', woken))
      | (Inl e, m', woken) \<Rightarrow>
          if e = MsgWouldBlock then msg_block msqid blocked m'
          else (Inl (msg_error_to_sys_error e), m', woken))"

text \<open>
  What one pass of the sleeping loops observes; \<open>me_others\<close> is what other tasks do to the manager while the task
  sleeps, \<open>me_others_after\<close> what they do between the two locks of the cleanup.
\<close>

record msg_env =
  me_now :: int
  me_blocked :: "task_id option"
  me_write :: "errno option"
  me_others :: "msg_manager \<Rightarrow> msg_manager"
  me_current :: "task_id option"
  me_exit :: bool
  me_signal :: bool
  me_others_after :: "msg_manager \<Rightarrow> msg_manager"

datatype msg_outcome = MsgReturn "errno + int" msg_out | MsgExit | MsgAsleep

text \<open>\<open>Inl\<close>: the loop ends with this outcome; \<open>Inr ()\<close>: it goes around again.\<close>

definition post_msg_sleep_cleanup :: "nat \<Rightarrow> msg_env \<Rightarrow> msg_manager \<Rightarrow> (msg_outcome + unit) \<times> msg_manager" where
  "post_msg_sleep_cleanup msqid e m =
     (case me_current e of
        None \<Rightarrow> (Inl (MsgReturn (Inl EINTR) MsgNoOut), m)
      | Some task \<Rightarrow>
          (let m1 = msg_remove_waiter_for_task task m
           in if me_exit e then (Inl MsgExit, m1)
              else if me_signal e then (Inl (MsgReturn (Inl EINTR) MsgNoOut), m1)
              else (let m2 = me_others_after e m1
                    in if bt_get (mm_queues m2) msqid = None then (Inl (MsgReturn (Inl EIDRM) MsgNoOut), m2)
                       else (Inr (), m2))))"

fun msg_loop ::
  "(msg_env \<Rightarrow> msg_manager \<Rightarrow> attempt_result) \<Rightarrow> nat \<Rightarrow> msg_env list \<Rightarrow> msg_manager \<Rightarrow> msg_outcome \<times> msg_manager" where
  "msg_loop attempt msqid [] m = (MsgAsleep, m)"
| "msg_loop attempt msqid (e # es) m =
     (case attempt e m of
        (Inl err, m1, _) \<Rightarrow> (MsgReturn (Inl err) MsgNoOut, m1)
      | (Inr (MsgDone r out), m1, _) \<Rightarrow> (MsgReturn (Inr r) out, m1)
      | (Inr (MsgBlocked _), m1, _) \<Rightarrow>
          (case post_msg_sleep_cleanup msqid e (me_others e m1) of
             (Inl outcome, m2) \<Rightarrow> (outcome, m2)
           | (Inr _, m2) \<Rightarrow> msg_loop attempt msqid es m2))"

text \<open>\<open>rd_type\<close> and \<open>rd_text\<close> are the outcomes of reading the type and the text from user memory.\<close>

definition sys_msgsnd ::
  "nat \<Rightarrow> credentials \<Rightarrow> nat \<Rightarrow> errno + int \<Rightarrow> errno + u8 list \<Rightarrow> nat \<Rightarrow> u32 \<Rightarrow> msg_env list \<Rightarrow> msg_manager
    \<Rightarrow> msg_outcome \<times> msg_manager" where
  "sys_msgsnd pid c msqid rd_type rd_text msgsz msgflg envs m =
     (if i64_max < int msgsz then (MsgReturn (Inl EINVAL) MsgNoOut, m)
      else (case rd_type of
          Inl e \<Rightarrow> (MsgReturn (Inl e) MsgNoOut, m)
        | Inr mtype \<Rightarrow>
            if mtype \<le> 0 then (MsgReturn (Inl EINVAL) MsgNoOut, m)
            else (case rd_text of
                Inl e \<Rightarrow> (MsgReturn (Inl e) MsgNoOut, m)
              | Inr text \<Rightarrow>
                  msg_loop (\<lambda>e. try_or_block_msgsnd (me_now e) msqid \<lparr>ms_mtype = mtype, ms_text = text\<rparr> msgflg
                      (caller_from pid c) (me_blocked e)) msqid envs m)))"

definition sys_msgrcv ::
  "nat \<Rightarrow> credentials \<Rightarrow> nat \<Rightarrow> nat \<Rightarrow> int \<Rightarrow> u32 \<Rightarrow> msg_env list \<Rightarrow> msg_manager \<Rightarrow> msg_outcome \<times> msg_manager" where
  "sys_msgrcv pid c msqid msgsz msgtyp msgflg envs m =
     (if i64_max < int msgsz then (MsgReturn (Inl EINVAL) MsgNoOut, m)
      else msg_loop (\<lambda>e. try_or_block_msgrcv (me_now e) msqid (me_write e) msgtyp msgsz msgflg
             (caller_from pid c) (me_blocked e)) msqid envs m)"

section \<open>Invariant\<close>

definition text_bytes :: "message list \<Rightarrow> nat" where
  "text_bytes ms = sum_list (map (\<lambda>x. length (ms_text x)) ms)"

text \<open>A queue is in order when its byte count is the sum of its texts and a message type is positive.\<close>

definition msg_queue_ok :: "msg_queue \<Rightarrow> bool" where
  "msg_queue_ok q \<longleftrightarrow> mq_cbytes q = text_bytes (mq_messages q) \<and> (\<forall>x \<in> set (mq_messages q). 0 < ms_mtype x) \<and>
     0 < mq_qbytes q"

definition msg_ok :: "msg_manager \<Rightarrow> bool" where
  "msg_ok m \<longleftrightarrow> bt_ok (mm_queues m) \<and> bt_ok (mm_keyed_queues m) \<and>
     keyed_ok (bt_get (mm_queues m)) (bt_get (mm_keyed_queues m)) mq_key \<and>
     (\<forall>i q. bt_get (mm_queues m) i = Some q \<longrightarrow> msg_queue_ok q) \<and> 0 < mm_msgmnb m"

text \<open>
  The operations that change the manager. A message sent has a positive type (\<open>sys_msgsnd\<close> checks it) and fits in the
  memory that an address can count, together with the bytes already queued.
\<close>

inductive msg_step :: "msg_manager \<Rightarrow> task_id list \<Rightarrow> msg_manager \<Rightarrow> bool" where
  mstep_get: "msg_get_or_create now key flg uid gid caller m = (r, m') \<Longrightarrow> msg_step m [] m'"
| mstep_remove: "remove_queue msqid caller m = (r, m', woken) \<Longrightarrow> msg_step m woken m'"
| mstep_attrs: "msg_set_attrs now msqid uid gid mode qb caller m = (r, m', woken) \<Longrightarrow> msg_step m woken m'"
| mstep_send: "msg_send now msqid msg caller m = (r, m', woken) \<Longrightarrow> 0 < ms_mtype msg \<Longrightarrow>
    (\<And>q. bt_get (mm_queues m) msqid = Some q \<Longrightarrow> mq_cbytes q + length (ms_text msg) \<le> usize_max) \<Longrightarrow> msg_step m woken m'"
| mstep_receive: "msg_receive now msqid typ sz flags caller m = (r, m', woken) \<Longrightarrow> msg_step m woken m'"
| mstep_block: "block_current msqid blocked m = (r, m') \<Longrightarrow> msg_step m [] m'"
| mstep_forget: "msg_step m [] (msg_remove_waiter_for_task task m)"
| mstep_mni: "msg_step m [] (snd (set_msgmni v m))"
| mstep_max: "msg_step m [] (snd (set_msgmax v m))"
| mstep_mnb: "msg_step m [] (snd (set_msgmnb v m))"
| mstep_next: "msg_step m [] (snd (set_msg_next_id z m))"

inductive msg_steps :: "msg_manager \<Rightarrow> msg_manager \<Rightarrow> bool" where
  msteps_refl: "msg_steps m m"
| msteps_step: "msg_steps m m' \<Longrightarrow> msg_step m' woken m'' \<Longrightarrow> msg_steps m m''"

section \<open>Lemmas\<close>

interpretation msgreg: keyed_registry "\<lambda>m. bt_get (mm_queues m)" "\<lambda>m. bt_get (mm_keyed_queues m)" mq_key
  msg_register msg_unregister msg_replace
  by unfold_locales
     (simp_all add: msg_register_def msg_unregister_def msg_replace_def IPC_PRIVATE_def)

lemma text_bytes_simps [simp]:
  "text_bytes [] = 0" "text_bytes (x # xs) = length (ms_text x) + text_bytes xs"
  "text_bytes (xs @ ys) = text_bytes xs + text_bytes ys"
  by (simp_all add: text_bytes_def)

lemma vec_remove_split: "i < length xs \<Longrightarrow> xs = take i xs @ xs ! i # drop (Suc i) xs"
  by (rule id_take_nth_drop)

lemma text_bytes_remove: "i < length xs \<Longrightarrow> text_bytes (vec_remove i xs) = text_bytes xs - length (ms_text (xs ! i))"
proof -
  assume i: "i < length xs"
  have "text_bytes xs = text_bytes (take i xs @ xs ! i # drop (Suc i) xs)" using vec_remove_split [OF i] by metis
  then show ?thesis by (simp add: vec_remove_def)
qed

lemma set_vec_remove: "set (vec_remove i xs) \<subseteq> set xs"
  unfolding vec_remove_def using set_take_subset set_drop_subset by fastforce

lemma msg_commit_eq: "msg_commit x i q m = (Inr x, msg_replace i (q\<lparr>mq_waiters := []\<rparr>) m, mq_waiters q)"
  by (simp add: msg_commit_def msg_wake_waiters_def)

lemma send_cases:
  assumes "msg_send now msqid msg caller m = (r, m', woken)"
  shows "(\<exists>e. r = Inl e \<and> m' = m \<and> woken = []) \<or>
    (\<exists>q. r = Inr () \<and> bt_get (mm_queues m) msqid = Some q \<and> has_capacity_for q (length (ms_text msg)) \<and>
      woken = mq_waiters q \<and>
      m' = msg_replace msqid (q\<lparr>mq_cbytes := saturating_add (mq_cbytes q) (length (ms_text msg)),
        mq_messages := mq_messages q @ [msg], mq_lspid := pid_to_i32 (ic_pid caller), mq_stime := now, mq_waiters := []\<rparr>) m)"
  using assms by (auto simp: msg_send_def msg_commit_eq split: if_split_asm option.split_asm)

lemma receive_cases:
  assumes "msg_receive now msqid typ sz flags caller m = (r, m', woken)"
  shows "(\<exists>e. r = Inl e \<and> m' = m \<and> woken = []) \<or>
    (\<exists>q i. r = Inr (mq_messages q ! i) \<and> bt_get (mm_queues m) msqid = Some q \<and> i < length (mq_messages q) \<and>
      find_message_index (mq_messages q) typ flags = Some i \<and>
      (sz < length (ms_text (mq_messages q ! i)) \<longrightarrow> flags AND MSG_NOERROR \<noteq> 0) \<and>
      (if flags AND MSG_COPY \<noteq> 0 then m' = m \<and> woken = []
       else woken = mq_waiters q \<and>
        m' = msg_replace msqid (q\<lparr>mq_cbytes := mq_cbytes q - length (ms_text (mq_messages q ! i)),
          mq_messages := vec_remove i (mq_messages q), mq_lrpid := pid_to_i32 (ic_pid caller), mq_rtime := now,
          mq_waiters := []\<rparr>) m))"
proof (cases "bt_get (mm_queues m) msqid")
  case None
  with assms show ?thesis by (auto simp: msg_receive_def)
next
  case (Some q)
  show ?thesis
  proof (cases "\<exists>i. find_message_index (mq_messages q) typ flags = Some i \<and> i < length (mq_messages q)")
    case False
    with assms Some show ?thesis
      by (auto simp: msg_receive_def Let_def not_less split: if_split_asm option.split_asm)
  next
    case True
    then obtain i where i: "find_message_index (mq_messages q) typ flags = Some i" "i < length (mq_messages q)" by blast
    show ?thesis
    proof (cases "\<exists>e. r = Inl e")
      case True
      then have "m' = m \<and> woken = []" using assms Some i
        by (auto simp: msg_receive_def Let_def msg_commit_eq split: if_split_asm)
      with True show ?thesis by blast
    next
      case False
      have "r = Inr (mq_messages q ! i) \<and> (sz < length (ms_text (mq_messages q ! i)) \<longrightarrow> flags AND MSG_NOERROR \<noteq> 0) \<and>
        (if flags AND MSG_COPY \<noteq> 0 then m' = m \<and> woken = []
         else woken = mq_waiters q \<and>
          m' = msg_replace msqid (q\<lparr>mq_cbytes := mq_cbytes q - length (ms_text (mq_messages q ! i)),
            mq_messages := vec_remove i (mq_messages q), mq_lrpid := pid_to_i32 (ic_pid caller), mq_rtime := now,
            mq_waiters := []\<rparr>) m)"
        using assms Some i False by (auto simp: msg_receive_def Let_def msg_commit_eq split: if_split_asm)
      with Some i show ?thesis by blast
    qed
  qed
qed

lemma attrs_cases:
  assumes "msg_set_attrs now msqid uid gid mode qb caller m = (r, m', woken)"
  shows "(m' = m \<and> woken = []) \<or>
    (\<exists>q. bt_get (mm_queues m) msqid = Some q \<and> woken = mq_waiters q \<and>
      m' = msg_replace msqid (q\<lparr>mq_uid := uid, mq_gid := gid, mq_mode := mode AND MODE_MASK, mq_qbytes := max qb 1,
        mq_ctime := now, mq_waiters := []\<rparr>) m)"
  using assms by (auto simp: msg_set_attrs_def msg_commit_eq split: option.split_asm if_split_asm)

lemma block_msg_cases:
  assumes "block_current msqid blocked m = (r, m')"
  shows "m' = m \<or> (\<exists>q task. bt_get (mm_queues m) msqid = Some q \<and>
    m' = msg_replace msqid (q\<lparr>mq_waiters := mq_waiters q @ [task]\<rparr>) m)"
  using assms by (auto simp: block_current_def split: option.split_asm)

lemma remove_queue_cases:
  assumes "remove_queue msqid caller m = (r, m', woken)"
  shows "(m' = m \<and> woken = []) \<or>
    (\<exists>q. bt_get (mm_queues m) msqid = Some q \<and> m' = msg_unregister msqid q m \<and> woken = mq_waiters q)"
  using assms by (auto simp: remove_queue_def msg_wake_waiters_def split: option.split_asm if_split_asm)

lemma msg_alloc_id_fresh:
  assumes "msg_alloc_id m = (i, m')"
  shows "bt_get (mm_queues m) i = None \<and> mm_queues m' = mm_queues m \<and> mm_keyed_queues m' = mm_keyed_queues m
    \<and> mm_msgmnb m' = mm_msgmnb m"
  using assms skip_used_free [of "mm_queues m" "mm_next_id m"]
  by (auto simp: msg_alloc_id_def msg_alloc_next_def reset_next_id_def Let_def split: option.split_asm if_split_asm)

lemma create_queue_cases:
  assumes "create_queue now key mode uid gid m = (r, m')"
  shows "(r = Inl MsgNoSpace \<and> m' = m) \<or>
    (\<exists>i m1. r = Inr i \<and> bt_get (mm_queues m) i = None \<and> mm_queues m1 = mm_queues m \<and>
      mm_keyed_queues m1 = mm_keyed_queues m \<and> mm_msgmnb m1 = mm_msgmnb m \<and>
      m' = msg_register i (msg_queue_new now (mm_msgmnb m) key mode uid gid) m1)"
proof (cases "mm_msgmni m \<le> length (mm_queues m)")
  case True
  with assms show ?thesis by (simp add: create_queue_def)
next
  case False
  obtain i m1 where a: "msg_alloc_id m = (i, m1)" by fastforce
  with False assms have "r = Inr i" "m' = msg_register i (msg_queue_new now (mm_msgmnb m) key mode uid gid) m1"
    by (simp_all add: create_queue_def)
  with msg_alloc_id_fresh [OF a] show ?thesis by blast
qed

lemma msg_get_or_create_cases:
  assumes "msg_get_or_create now key flg uid gid caller m = (r, m')"
  shows "m' = m \<or> ((key = 0 \<or> bt_get (mm_keyed_queues m) key = None) \<and>
    create_queue now key (flg AND MODE_MASK) uid gid m = (r, m'))"
  using assms unfolding msg_get_or_create_def Let_def IPC_PRIVATE_def
  by (auto split: if_split_asm option.split_asm)

lemma msg_ok_replace:
  assumes ok: "msg_ok m" and i: "bt_get (mm_queues m) i = Some q" and q': "msg_queue_ok q'" "mq_key q' = mq_key q"
  shows "msg_ok (msg_replace i q' m)"
  using ok msgreg.replace_keeps_keyed_ok [of m i q q'] i q'
  by (auto simp: msg_ok_def msg_replace_def split: if_split_asm)

lemma msg_ok_get: "msg_ok m \<Longrightarrow> bt_get (mm_queues m) i = Some q \<Longrightarrow> msg_queue_ok q"
  by (simp add: msg_ok_def)

lemma msg_get_ok:
  assumes ok: "msg_ok m" and r: "msg_get_or_create now key flg uid gid caller m = (r, m')"
  shows "msg_ok m'"
proof (cases "m' = m")
  case False
  with msg_get_or_create_cases [OF r] have key: "key = 0 \<or> bt_get (mm_keyed_queues m) key = None"
    and c: "create_queue now key (flg AND MODE_MASK) uid gid m = (r, m')" by auto
  from create_queue_cases [OF c] False obtain i m1 where new: "bt_get (mm_queues m) i = None"
    and m1: "mm_queues m1 = mm_queues m" "mm_keyed_queues m1 = mm_keyed_queues m" "mm_msgmnb m1 = mm_msgmnb m"
    and m': "m' = msg_register i (msg_queue_new now (mm_msgmnb m) key (flg AND MODE_MASK) uid gid) m1" by blast
  let ?q = "msg_queue_new now (mm_msgmnb m) key (flg AND MODE_MASK) uid gid"
  have k: "mq_key ?q = key" by (simp add: msg_queue_new_def)
  have q: "msg_queue_ok ?q" using ok by (simp add: msg_queue_ok_def msg_queue_new_def msg_ok_def)
  have "keyed_ok (bt_get (mm_queues m')) (bt_get (mm_keyed_queues m')) mq_key"
    unfolding m' by (rule msgreg.register_keeps_keyed_ok) (use ok new key k m1 in \<open>simp_all add: msg_ok_def\<close>)
  moreover have "msg_queue_ok t" if "bt_get (mm_queues m') j = Some t" for j t
    using that q msg_ok_get [OF ok, of j t] by (auto simp: m' msg_register_def m1 split: if_split_asm)
  ultimately show ?thesis using ok by (simp add: msg_ok_def m' msg_register_def m1)
qed (use ok in simp)

lemma msg_remove_ok:
  assumes ok: "msg_ok m" and "remove_queue msqid caller m = (r, m', woken)"
  shows "msg_ok m'"
  using remove_queue_cases [OF assms(2)]
proof (elim disjE exE conjE)
  fix q assume q: "bt_get (mm_queues m) msqid = Some q" and m': "m' = msg_unregister msqid q m"
  have "keyed_ok (bt_get (mm_queues m')) (bt_get (mm_keyed_queues m')) mq_key"
    unfolding m' by (rule msgreg.unregister_keeps_keyed_ok [OF _ q]) (use ok in \<open>simp add: msg_ok_def\<close>)
  moreover have "bt_get (mm_queues m) i = Some t" if "bt_get (mm_queues m') i = Some t" for i t
    using that by (simp add: m' msg_unregister_def split: if_split_asm)
  ultimately show ?thesis using ok unfolding msg_ok_def by (auto simp: m' msg_unregister_def)
qed (use ok in simp)

lemma msg_attrs_ok:
  assumes ok: "msg_ok m" and r: "msg_set_attrs now msqid uid gid mode qb caller m = (r, m', woken)"
  shows "msg_ok m'"
  using attrs_cases [OF r]
proof (elim disjE exE conjE)
  fix q assume q: "bt_get (mm_queues m) msqid = Some q"
    and m': "m' = msg_replace msqid (q\<lparr>mq_uid := uid, mq_gid := gid, mq_mode := mode AND MODE_MASK,
        mq_qbytes := max qb 1, mq_ctime := now, mq_waiters := []\<rparr>) m"
  show ?thesis unfolding m' using msg_ok_get [OF ok q] by (intro msg_ok_replace [OF ok q]) (auto simp: msg_queue_ok_def)
qed (use ok in simp)

lemma msg_send_ok:
  assumes ok: "msg_ok m" and r: "msg_send now msqid msg caller m = (r, m', woken)" and t: "0 < ms_mtype msg"
    and fits: "\<And>q. bt_get (mm_queues m) msqid = Some q \<Longrightarrow> mq_cbytes q + length (ms_text msg) \<le> usize_max"
  shows "msg_ok m'"
  using send_cases [OF r]
proof (elim disjE exE conjE)
  fix q assume q: "bt_get (mm_queues m) msqid = Some q"
    and m': "m' = msg_replace msqid (q\<lparr>mq_cbytes := saturating_add (mq_cbytes q) (length (ms_text msg)),
        mq_messages := mq_messages q @ [msg], mq_lspid := pid_to_i32 (ic_pid caller), mq_stime := now, mq_waiters := []\<rparr>) m"
  show ?thesis unfolding m' using msg_ok_get [OF ok q] t fits [OF q]
    by (intro msg_ok_replace [OF ok q]) (auto simp: msg_queue_ok_def saturating_add_def)
qed (use ok in simp)

lemma msg_receive_ok:
  assumes ok: "msg_ok m" and r: "msg_receive now msqid typ sz flags caller m = (r, m', woken)"
  shows "msg_ok m'"
  using receive_cases [OF r]
proof (elim disjE exE conjE)
  fix q i assume q: "bt_get (mm_queues m) msqid = Some q" and i: "i < length (mq_messages q)"
    and m': "if flags AND MSG_COPY \<noteq> 0 then m' = m \<and> woken = []
       else woken = mq_waiters q \<and>
        m' = msg_replace msqid (q\<lparr>mq_cbytes := mq_cbytes q - length (ms_text (mq_messages q ! i)),
          mq_messages := vec_remove i (mq_messages q), mq_lrpid := pid_to_i32 (ic_pid caller), mq_rtime := now,
          mq_waiters := []\<rparr>) m"
  have "msg_queue_ok (q\<lparr>mq_cbytes := mq_cbytes q - length (ms_text (mq_messages q ! i)),
      mq_messages := vec_remove i (mq_messages q), mq_lrpid := pid_to_i32 (ic_pid caller), mq_rtime := now,
      mq_waiters := []\<rparr>)"
    using msg_ok_get [OF ok q] text_bytes_remove [OF i] set_vec_remove [of i "mq_messages q"]
    by (auto simp: msg_queue_ok_def)
  from msg_ok_replace [OF ok q this] m' ok show ?thesis by (cases "flags AND MSG_COPY \<noteq> 0") simp_all
qed (use ok in simp)

lemma msg_block_ok:
  assumes ok: "msg_ok m" and r: "block_current msqid blocked m = (r, m')"
  shows "msg_ok m'"
  using block_msg_cases [OF r]
proof (elim disjE exE conjE)
  fix q task assume q: "bt_get (mm_queues m) msqid = Some q"
    and m': "m' = msg_replace msqid (q\<lparr>mq_waiters := mq_waiters q @ [task]\<rparr>) m"
  show ?thesis unfolding m' using msg_ok_get [OF ok q] by (intro msg_ok_replace [OF ok q]) (auto simp: msg_queue_ok_def)
qed (use ok in simp)

lemma msg_forget_ok:
  assumes ok: "msg_ok m"
  shows "msg_ok (msg_remove_waiter_for_task task m)"
proof -
  let ?f = "\<lambda>q. q\<lparr>mq_waiters := filter (\<lambda>t. t \<noteq> task) (mq_waiters q)\<rparr>"
  have g: "bt_get (bt_map ?f (mm_queues m)) = (\<lambda>i. map_option ?f (bt_get (mm_queues m) i))" by (simp add: fun_eq_iff)
  have k: "keyed_ok (\<lambda>i. map_option ?f (bt_get (mm_queues m) i)) (bt_get (mm_keyed_queues m)) mq_key"
    by (rule keyed_ok_map) (use ok in \<open>simp_all add: msg_ok_def\<close>)
  have "msg_queue_ok (?f q)" if "msg_queue_ok q" for q using that by (simp add: msg_queue_ok_def)
  with ok k show ?thesis by (auto simp: msg_ok_def msg_remove_waiter_for_task_def g)
qed

lemma msg_sysctl_ok:
  assumes "msg_ok m"
  shows "msg_ok (snd (set_msgmni v m))" "msg_ok (snd (set_msgmax v m))" "msg_ok (snd (set_msgmnb v m))"
    "msg_ok (snd (set_msg_next_id z m))"
  using assms by (simp_all add: msg_ok_def set_msgmni_def set_msgmax_def set_msgmnb_def set_msg_next_id_def)

lemma msg_step_ok: "msg_step m woken m' \<Longrightarrow> msg_ok m \<Longrightarrow> msg_ok m'"
  by (induction rule: msg_step.induct)
     (blast intro: msg_get_ok msg_remove_ok msg_attrs_ok msg_send_ok msg_receive_ok msg_block_ok msg_forget_ok
       msg_sysctl_ok)+

lemma msg_steps_ok: "msg_steps m m' \<Longrightarrow> msg_ok m \<Longrightarrow> msg_ok m'"
  by (induction rule: msg_steps.induct) (auto dest: msg_step_ok)

lemma msg_new_ok: "msg_ok msg_manager_new"
  by (simp add: msg_ok_def msg_manager_new_def keyed_ok_def MSGMNB_DEFAULT_def)

subsection \<open>Selection\<close>

text \<open>What the manual says of the message a receiver gets: the one at index \<open>i\<close>.\<close>

definition selects :: "message list \<Rightarrow> int \<Rightarrow> bool \<Rightarrow> nat \<Rightarrow> bool" where
  "selects ms typ except i \<longleftrightarrow> i < length ms \<and>
     (if typ = 0 then i = 0
      else if 0 < typ then
        (if except then ms_mtype (ms ! i) \<noteq> typ \<and> (\<forall>j < i. ms_mtype (ms ! j) = typ)
         else ms_mtype (ms ! i) = typ \<and> (\<forall>j < i. ms_mtype (ms ! j) \<noteq> typ))
      else ms_mtype (ms ! i) \<le> saturating_neg typ \<and> (\<forall>j < length ms. ms_mtype (ms ! i) \<le> ms_mtype (ms ! j)) \<and>
        (\<forall>j < i. ms_mtype (ms ! i) < ms_mtype (ms ! j)))"

lemma position_Some: "position P xs = Some i \<longleftrightarrow> i < length xs \<and> P (xs ! i) \<and> (\<forall>j < i. \<not> P (xs ! j))"
proof (induction xs arbitrary: i)
  case (Cons x xs)
  then show ?case by (cases i) (auto simp: less_Suc_eq_0_disj)
qed simp

lemma position_None: "position P xs = None \<longleftrightarrow> (\<forall>x \<in> set xs. \<not> P x)"
  by (induction xs) auto

definition is_best :: "int \<Rightarrow> message list \<Rightarrow> (nat \<times> int) option \<Rightarrow> bool" where
  "is_best mx ys best \<longleftrightarrow>
     (case best of
        None \<Rightarrow> \<forall>x \<in> set ys. mx < ms_mtype x
      | Some (k, t) \<Rightarrow> k < length ys \<and> ms_mtype (ys ! k) = t \<and> t \<le> mx \<and>
          (\<forall>j < length ys. t \<le> ms_mtype (ys ! j)) \<and> (\<forall>j < k. t < ms_mtype (ys ! j)))"

lemma is_best_snoc:
  assumes "is_best mx ys best"
  shows "is_best mx (ys @ [x])
    (if ms_mtype x \<le> mx \<and> (case best of None \<Rightarrow> True | Some (_, t) \<Rightarrow> ms_mtype x < t)
     then Some (length ys, ms_mtype x) else best)"
proof (cases best)
  case None
  with assms have all: "\<forall>j < length ys. mx < ms_mtype (ys ! j)" by (simp add: is_best_def)
  then have "\<forall>j < length ys. x' \<le> mx \<longrightarrow> x' < ms_mtype (ys ! j)" for x' by fastforce
  with None assms show ?thesis by (auto simp: is_best_def nth_append less_Suc_eq order_less_imp_le)
next
  case (Some p)
  obtain k t where p: "p = (k, t)" by (cases p)
  with Some assms have h: "k < length ys" "ms_mtype (ys ! k) = t" "t \<le> mx" "\<forall>j < length ys. t \<le> ms_mtype (ys ! j)"
    "\<forall>j < k. t < ms_mtype (ys ! j)" by (simp_all add: is_best_def)
  show ?thesis
  proof (cases "ms_mtype x \<le> mx \<and> ms_mtype x < t")
    case True
    then have "\<forall>j < length ys. ms_mtype x < ms_mtype (ys ! j)" using h(4) by force
    with True Some p show ?thesis by (auto simp: is_best_def nth_append less_Suc_eq)
  next
    case False
    then have "t \<le> ms_mtype x" using h(3) by linarith
    with False Some p h show ?thesis by (auto simp: is_best_def nth_append less_Suc_eq)
  qed
qed

lemma min_type_from_best: "is_best mx ys best \<Longrightarrow> is_best mx (ys @ xs) (min_type_from mx (length ys) best xs)"
proof (induction xs arbitrary: ys best)
  case (Cons x xs)
  from Cons.IH [OF is_best_snoc [OF Cons.prems, of x]] show ?case by simp
qed simp

lemma min_type_best: "is_best mx ms (min_type_from mx 0 None ms)"
  using min_type_from_best [of mx "[]" None ms] by (simp add: is_best_def)

lemma find_selects:
  assumes "flags AND MSG_COPY = 0" and "find_message_index ms typ flags = Some i"
  shows "selects ms typ (flags AND MSG_EXCEPT \<noteq> 0) i"
proof -
  consider "typ = 0" | "0 < typ" | "typ < 0" by linarith
  then show ?thesis
  proof cases
    case 3
    then obtain t where "min_type_from (saturating_neg typ) 0 None ms = Some (i, t)"
      using assms by (auto simp: find_message_index_def)
    with min_type_best [of "saturating_neg typ" ms] 3 show ?thesis by (simp add: is_best_def selects_def)
  qed (use assms in \<open>auto simp: find_message_index_def selects_def position_Some split: if_split_asm\<close>)
qed

lemma find_none:
  assumes "flags AND MSG_COPY = 0" and "find_message_index ms typ flags = None"
  shows "\<not> selects ms typ (flags AND MSG_EXCEPT \<noteq> 0) i"
proof -
  consider "typ = 0" | "0 < typ" | "typ < 0" by linarith
  then show ?thesis
  proof cases
    case 3
    then have "min_type_from (saturating_neg typ) 0 None ms = None" using assms by (simp add: find_message_index_def)
    with min_type_best [of "saturating_neg typ" ms] have "\<forall>x \<in> set ms. saturating_neg typ < ms_mtype x"
      by (simp add: is_best_def)
    then have "saturating_neg typ < ms_mtype (ms ! i)" if "i < length ms" using that by simp
    with 3 show ?thesis by (auto simp: selects_def)
  qed (use assms in \<open>auto simp: find_message_index_def selects_def position_None split: if_split_asm\<close>)
qed

text \<open>However it is selected, a message is the oldest of its type.\<close>

lemma selects_oldest: "selects ms typ except i \<Longrightarrow> j < i \<Longrightarrow> ms_mtype (ms ! j) \<noteq> ms_mtype (ms ! i)"
  by (auto simp: selects_def split: if_split_asm)

lemma filter_remove_oldest:
  assumes i: "i < length ms" and old: "\<And>j. j < i \<Longrightarrow> ms_mtype (ms ! j) \<noteq> ms_mtype (ms ! i)"
  shows "filter (\<lambda>x. ms_mtype x = t) ms =
    (if ms_mtype (ms ! i) = t then [ms ! i] else []) @ filter (\<lambda>x. ms_mtype x = t) (vec_remove i ms)"
proof -
  have split: "filter (\<lambda>x. ms_mtype x = t) ms =
      filter (\<lambda>x. ms_mtype x = t) (take i ms @ ms ! i # drop (Suc i) ms)" using vec_remove_split [OF i] by metis
  show ?thesis
  proof (cases "ms_mtype (ms ! i) = t")
    case True
    have "filter (\<lambda>x. ms_mtype x = t) (take i ms) = []"
      using old True i by (auto simp: filter_empty_conv in_set_conv_nth)
    with split True show ?thesis by (simp add: vec_remove_def)
  qed (simp add: split vec_remove_def)
qed

text \<open>
  A sequence of sends and receives on any queues. The result lists what was accepted by and what was taken from the
  queue \<open>k\<close>.
\<close>

datatype msg_call = Snd int nat message ipc_caller | Rcv int nat int nat u32 ipc_caller

fun msg_run :: "nat \<Rightarrow> msg_call list \<Rightarrow> msg_manager \<Rightarrow> message list \<times> message list \<times> msg_manager" where
  "msg_run k [] m = ([], [], m)"
| "msg_run k (Snd now i msg caller # cs) m =
     (case msg_send now i msg caller m of (r, m1, _) \<Rightarrow>
        (case msg_run k cs m1 of (sent, got, m2) \<Rightarrow>
           (if i = k \<and> r = Inr () then msg # sent else sent, got, m2)))"
| "msg_run k (Rcv now i typ sz flags caller # cs) m =
     (case msg_receive now i typ sz flags caller m of (r, m1, _) \<Rightarrow>
        (case msg_run k cs m1 of (sent, got, m2) \<Rightarrow>
           (sent, (case r of Inl _ \<Rightarrow> got
                   | Inr msg \<Rightarrow> if i = k \<and> flags AND MSG_COPY = 0 then msg # got else got), m2)))"

abbreviation of_type :: "int \<Rightarrow> message list \<Rightarrow> message list" where
  "of_type t ms \<equiv> filter (\<lambda>x. ms_mtype x = t) ms"

lemma send_effect:
  assumes "msg_send now i msg caller m = (r, m1, woken)" and "bt_get (mm_queues m) k = Some q"
  shows "\<exists>q1. bt_get (mm_queues m1) k = Some q1 \<and>
    mq_messages q1 = mq_messages q @ (if i = k \<and> r = Inr () then [msg] else [])"
  using send_cases [OF assms(1)] assms(2) by (auto simp: msg_replace_def)

lemma receive_effect:
  assumes "msg_receive now i typ sz flags caller m = (r, m1, woken)" and q: "bt_get (mm_queues m) k = Some q"
  shows "\<exists>q1. bt_get (mm_queues m1) k = Some q1 \<and> of_type t (mq_messages q) =
    of_type t (case r of Inl _ \<Rightarrow> [] | Inr msg \<Rightarrow> if i = k \<and> flags AND MSG_COPY = 0 then [msg] else []) @
    of_type t (mq_messages q1)"
  using receive_cases [OF assms(1)]
proof (elim disjE exE conjE)
  fix q' j assume r: "r = Inr (mq_messages q' ! j)" and q': "bt_get (mm_queues m) i = Some q'"
    and j: "j < length (mq_messages q')" and f: "find_message_index (mq_messages q') typ flags = Some j"
    and m1: "if flags AND MSG_COPY \<noteq> 0 then m1 = m \<and> woken = []
       else woken = mq_waiters q' \<and>
        m1 = msg_replace i (q'\<lparr>mq_cbytes := mq_cbytes q' - length (ms_text (mq_messages q' ! j)),
          mq_messages := vec_remove j (mq_messages q'), mq_lrpid := pid_to_i32 (ic_pid caller), mq_rtime := now,
          mq_waiters := []\<rparr>) m"
  show ?thesis
  proof (cases "flags AND MSG_COPY = 0 \<and> i = k")
    case True
    then have "q' = q" using q q' by simp
    moreover have "of_type t (mq_messages q') =
        (if ms_mtype (mq_messages q' ! j) = t then [mq_messages q' ! j] else []) @ of_type t (vec_remove j (mq_messages q'))"
      using selects_oldest [OF find_selects [OF _ f]] True by (intro filter_remove_oldest [OF j]) blast
    ultimately show ?thesis using True m1 r by (auto simp: msg_replace_def)
  next
    case False
    with m1 q r show ?thesis by (cases "flags AND MSG_COPY = 0") (auto simp: msg_replace_def)
  qed
qed (use q in auto)

lemma msg_run_fifo:
  assumes "bt_get (mm_queues m) k = Some q" and "msg_run k cs m = (sent, got, m')"
  shows "\<exists>q'. bt_get (mm_queues m') k = Some q' \<and>
    of_type t (mq_messages q @ sent) = of_type t got @ of_type t (mq_messages q')"
  using assms
proof (induction cs arbitrary: m q sent got m')
  case (Cons c cs)
  show ?case
  proof (cases c)
    case (Snd now i msg caller)
    obtain r m1 w where r: "msg_send now i msg caller m = (r, m1, w)" by (metis prod.exhaust)
    obtain sent1 got1 m2 where run: "msg_run k cs m1 = (sent1, got1, m2)" by (metis prod.exhaust)
    from send_effect [OF r Cons.prems(1)] obtain q1 where q1: "bt_get (mm_queues m1) k = Some q1"
      "mq_messages q1 = mq_messages q @ (if i = k \<and> r = Inr () then [msg] else [])" by blast
    from Cons.IH [OF q1(1) run] Cons.prems(2) Snd r run q1(2) show ?thesis by (auto split: if_split_asm)
  next
    case (Rcv now i mtyp sz flags caller)
    obtain r m1 w where r: "msg_receive now i mtyp sz flags caller m = (r, m1, w)" by (metis prod.exhaust)
    obtain sent1 got1 m2 where run: "msg_run k cs m1 = (sent1, got1, m2)" by (metis prod.exhaust)
    from receive_effect [OF r Cons.prems(1)] obtain q1 where q1: "bt_get (mm_queues m1) k = Some q1"
      "of_type t (mq_messages q) = of_type t (case r of Inl _ \<Rightarrow> []
          | Inr msg \<Rightarrow> if i = k \<and> flags AND MSG_COPY = 0 then [msg] else []) @ of_type t (mq_messages q1)" by blast
    from Cons.IH [OF q1(1) run] obtain q' where q': "bt_get (mm_queues m2) k = Some q'"
      "of_type t (mq_messages q1 @ sent1) = of_type t got1 @ of_type t (mq_messages q')" by blast
    have "sent = sent1" "m' = m2" "got = (case r of Inl _ \<Rightarrow> got1
        | Inr msg \<Rightarrow> if i = k \<and> flags AND MSG_COPY = 0 then msg # got1 else got1)"
      using Cons.prems(2) Rcv r run by (auto split: sum.split_asm)
    with q' q1(2) show ?thesis by (auto split: sum.split)
  qed
qed simp

lemma msg_step_waiter:
  assumes "msg_step m woken m'" and q: "bt_get (mm_queues m) k = Some q" and t: "task \<in> set (mq_waiters q)"
  shows "task \<in> set woken \<or> m' = msg_remove_waiter_for_task task m \<or>
    (\<exists>q'. bt_get (mm_queues m') k = Some q' \<and> task \<in> set (mq_waiters q') \<and> mq_messages q' = mq_messages q \<and>
      mq_cbytes q' = mq_cbytes q \<and> mq_qbytes q' = mq_qbytes q)"
  using assms(1)
proof cases
  case (mstep_get now key flg uid gid caller r)
  from msg_get_or_create_cases [OF mstep_get(2)] create_queue_cases [of now key "flg AND MODE_MASK" uid gid m r m']
  have "bt_get (mm_queues m') k = Some q" using q by (auto simp: msg_register_def)
  with t show ?thesis by blast
next
  case (mstep_remove msqid caller r)
  from remove_queue_cases [OF mstep_remove(1)] q t show ?thesis by (cases "k = msqid") (auto simp: msg_unregister_def)
next
  case (mstep_attrs now msqid uid gid mode qb caller r)
  from attrs_cases [OF mstep_attrs(1)] q t show ?thesis by (cases "k = msqid") (auto simp: msg_replace_def)
next
  case (mstep_send now msqid msg caller r)
  from send_cases [OF mstep_send(1)] q t show ?thesis by (cases "k = msqid") (auto simp: msg_replace_def)
next
  case (mstep_receive now msqid mtyp sz flags caller r)
  from receive_cases [OF mstep_receive(1)] q t show ?thesis
    by (cases "k = msqid"; cases "flags AND MSG_COPY = 0") (auto simp: msg_replace_def)
next
  case (mstep_block msqid blocked r)
  from block_msg_cases [OF mstep_block(2)] q t show ?thesis by (cases "k = msqid") (auto simp: msg_replace_def)
next
  case (mstep_forget task')
  with q t show ?thesis by (cases "task' = task") (auto simp: msg_remove_waiter_for_task_def)
qed (use q t in \<open>auto simp: set_msgmni_def set_msgmax_def set_msgmnb_def set_msg_next_id_def\<close>)

section \<open>Properties\<close>

definition demo_msg_caller :: ipc_caller where
  "demo_msg_caller = \<lparr>ic_pid = 9, ic_euid = 0, ic_egid = 0, ic_groups = [], ic_override = True\<rparr>"

text \<open>A queue with three messages, of types 5, 2 and 2, and a sleeping task.\<close>

definition demo_queue :: msg_queue where
  "demo_queue = (msg_queue_new 100 16384 0 0x180 0 0)\<lparr>mq_cbytes := 3, mq_messages :=
     [\<lparr>ms_mtype = 5, ms_text = [1]\<rparr>, \<lparr>ms_mtype = 2, ms_text = [2]\<rparr>, \<lparr>ms_mtype = 2, ms_text = [3]\<rparr>], mq_waiters := [4]\<rparr>"

definition demo_msgs :: msg_manager where
  "demo_msgs = msg_manager_new\<lparr>mm_next_id := 2, mm_queues := [(1, demo_queue)]\<rparr>"

lemma demo_msgs_get: "bt_get (mm_queues demo_msgs) 1 = Some demo_queue"
  by (simp add: demo_msgs_def)

lemma demo_can: "msg_can_read demo_queue demo_msg_caller" "msg_can_write demo_queue demo_msg_caller"
  by (simp_all add: msg_can_read_def msg_can_write_def demo_msg_caller_def)

lemmas demo_queue_defs = demo_queue_def msg_queue_new_def

text \<open>C18.
  In every manager that the message queue calls and the sysctl files can produce, the id and the key table agree, the
  byte count of each queue is the total length of its messages, and every message has a positive type.
\<close>

theorem msg_invariant:
  assumes "msg_steps msg_manager_new m"
  shows "msg_ok m"
  by (rule msg_steps_ok [OF assms msg_new_ok])

definition demo_get :: msg_manager where
  "demo_get = snd (msg_get_or_create 100 7 0x380 0 0 demo_msg_caller msg_manager_new)"

lemma demo_get_steps: "msg_steps msg_manager_new demo_get"
proof -
  obtain r m where g: "msg_get_or_create 100 7 0x380 0 0 demo_msg_caller msg_manager_new = (r, m)" by fastforce
  then have "demo_get = m" by (simp add: demo_get_def)
  with msteps_step [OF msteps_refl mstep_get [OF g]] show ?thesis by simp
qed

theorem msg_invariant_witness:
  "msg_ok demo_get \<and> bt_get (mm_keyed_queues demo_get) 7 = Some 1"
proof
  show "msg_ok demo_get" by (rule msg_invariant [OF demo_get_steps])
  show "bt_get (mm_keyed_queues demo_get) 7 = Some 1"
    by (simp add: demo_get_def msg_get_or_create_def msg_manager_new_def create_queue_def msg_alloc_id_def
        msg_alloc_next_def requested_next_id_def reset_next_id_def skip_used.simps msg_register_def msg_queue_new_def
        MODE_MASK_def IPC_CREAT_def IPC_EXCL_def IPC_PRIVATE_def MSGMNI_DEFAULT_def)
qed

text \<open>A receive that may read the queue and does not copy takes the message the manual names: the oldest one, the oldest of
  a given type, the oldest of any other type, or the oldest of the lowest type up to a bound. It removes just this
  message, keeps the order of the others and wakes all waiters. A message that does not fit the buffer is left in the
  queue unless truncation was asked for. Without such a message the call reports that or has to wait.
\<close>

theorem msg_receive_correct:
  assumes "bt_get (mm_queues m) msqid = Some q" and "msg_can_read q caller" and "flags AND MSG_COPY = 0"
  shows "(\<exists>i. selects (mq_messages q) mtyp (flags AND MSG_EXCEPT \<noteq> 0) i \<and>
      (if sz < length (ms_text (mq_messages q ! i)) \<and> flags AND MSG_NOERROR = 0
       then msg_receive now msqid mtyp sz flags caller m = (Inl MsgTooBig, m, [])
       else \<exists>m' q'. msg_receive now msqid mtyp sz flags caller m = (Inr (mq_messages q ! i), m', mq_waiters q) \<and>
              bt_get (mm_queues m') = (bt_get (mm_queues m))(msqid \<mapsto> q') \<and> mq_waiters q' = [] \<and>
              mq_messages q' = take i (mq_messages q) @ drop (Suc i) (mq_messages q))) \<or>
    ((\<forall>i. \<not> selects (mq_messages q) mtyp (flags AND MSG_EXCEPT \<noteq> 0) i) \<and>
      msg_receive now msqid mtyp sz flags caller m =
        (Inl (if flags AND IPC_NOWAIT \<noteq> 0 then MsgNoMessage else MsgWouldBlock), m, []))"
proof (cases "find_message_index (mq_messages q) mtyp flags")
  case None
  then show ?thesis using assms find_none [OF assms(3) None] by (simp add: msg_receive_def)
next
  case (Some i)
  have sel: "selects (mq_messages q) mtyp (flags AND MSG_EXCEPT \<noteq> 0) i" by (rule find_selects [OF assms(3) Some])
  then have i: "i < length (mq_messages q)" by (simp add: selects_def)
  let ?big = "sz < length (ms_text (mq_messages q ! i)) \<and> flags AND MSG_NOERROR = 0"
  let ?q = "q\<lparr>mq_cbytes := mq_cbytes q - length (ms_text (mq_messages q ! i)),
      mq_messages := vec_remove i (mq_messages q), mq_lrpid := pid_to_i32 (ic_pid caller), mq_rtime := now, mq_waiters := []\<rparr>"
  have r: "msg_receive now msqid mtyp sz flags caller m =
      (if ?big then (Inl MsgTooBig, m, []) else (Inr (mq_messages q ! i), msg_replace msqid ?q m, mq_waiters q))"
    using assms Some i by (simp add: msg_receive_def msg_commit_eq Let_def)
  have g: "bt_get (mm_queues (msg_replace msqid ?q m)) = (bt_get (mm_queues m))(msqid \<mapsto> ?q)"
    by (simp add: msg_replace_def)
  have "mq_messages ?q = take i (mq_messages q) @ drop (Suc i) (mq_messages q)" "mq_waiters ?q = []"
    by (simp_all add: vec_remove_def)
  with g have "\<not> ?big \<Longrightarrow> \<exists>m' q'. msg_receive now msqid mtyp sz flags caller m = (Inr (mq_messages q ! i), m', mq_waiters q) \<and>
        bt_get (mm_queues m') = (bt_get (mm_queues m))(msqid \<mapsto> q') \<and> mq_waiters q' = [] \<and>
        mq_messages q' = take i (mq_messages q) @ drop (Suc i) (mq_messages q)"
    unfolding r by (intro exI conjI) (simp only: if_False, assumption+)
  with sel r show ?thesis by (intro disjI1 exI [of _ i]) (cases ?big, simp_all)
qed

lemma demo_selects: "selects (mq_messages demo_queue) (- 4) False i \<Longrightarrow> i = 1"
  by (auto simp: selects_def demo_queue_defs less_Suc_eq saturating_neg_def i64_min_def nth_Cons' split: if_split_asm)

theorem msg_receive_correct_witness:
  "\<exists>m' q'. msg_receive 101 1 (- 4) 10 0 demo_msg_caller demo_msgs = (Inr \<lparr>ms_mtype = 2, ms_text = [2]\<rparr>, m', [4]) \<and>
     bt_get (mm_queues m') = (bt_get (mm_queues demo_msgs))(1 \<mapsto> q') \<and>
     mq_messages q' = [\<lparr>ms_mtype = 5, ms_text = [1]\<rparr>, \<lparr>ms_mtype = 2, ms_text = [3]\<rparr>]"
proof -
  have one: "selects (mq_messages demo_queue) (- 4) False 1"
    by (auto simp: selects_def demo_queue_defs less_Suc_eq saturating_neg_def i64_min_def nth_Cons')
  have c: "(0 :: u32) AND MSG_COPY = 0" "((0 :: u32) AND MSG_EXCEPT \<noteq> 0) = False" by simp_all
  from msg_receive_correct [OF demo_msgs_get demo_can(1) c(1), of "- 4" 10 101] one demo_selects
  obtain i where "selects (mq_messages demo_queue) (- 4) False i" and
    "if 10 < length (ms_text (mq_messages demo_queue ! i)) \<and> (0 :: u32) AND MSG_NOERROR = 0
       then msg_receive 101 1 (- 4) 10 0 demo_msg_caller demo_msgs = (Inl MsgTooBig, demo_msgs, [])
       else \<exists>m' q'. msg_receive 101 1 (- 4) 10 0 demo_msg_caller demo_msgs =
              (Inr (mq_messages demo_queue ! i), m', mq_waiters demo_queue) \<and>
            bt_get (mm_queues m') = (bt_get (mm_queues demo_msgs))(1 \<mapsto> q') \<and> mq_waiters q' = [] \<and>
            mq_messages q' = take i (mq_messages demo_queue) @ drop (Suc i) (mq_messages demo_queue)"
    unfolding c(2) by blast
  moreover from this(1) have "i = 1" by (rule demo_selects)
  moreover have "\<not> 10 < length (ms_text (mq_messages demo_queue ! 1))" "mq_waiters demo_queue = [4]"
    "mq_messages demo_queue ! 1 = \<lparr>ms_mtype = 2, ms_text = [2]\<rparr>"
    "take 1 (mq_messages demo_queue) @ drop (Suc 1) (mq_messages demo_queue) =
       [\<lparr>ms_mtype = 5, ms_text = [1]\<rparr>, \<lparr>ms_mtype = 2, ms_text = [3]\<rparr>]"
    by (simp_all add: demo_queue_defs)
  ultimately show ?thesis by (simp only: simp_thms if_False) (elim exE conjE, intro exI conjI)
qed

text \<open>C19.
  Messages of one type are received in the order in which they were sent. Over any sequence of sends and receives, with
  any selectors, the messages of that type which a queue held or accepted are those taken from it followed by those it
  still holds.
\<close>

theorem msg_type_fifo:
  assumes "bt_get (mm_queues m) k = Some q" and "msg_run k calls m = (sent, got, m')"
  shows "\<exists>q'. bt_get (mm_queues m') k = Some q' \<and>
    filter (\<lambda>x. ms_mtype x = t) (mq_messages q @ sent) =
    filter (\<lambda>x. ms_mtype x = t) got @ filter (\<lambda>x. ms_mtype x = t) (mq_messages q')"
  by (rule msg_run_fifo [OF assms])

theorem msg_type_fifo_witness:
  "\<exists>sent got m' q'. msg_run 1 [Rcv 101 1 2 10 0 demo_msg_caller, Rcv 101 1 0 10 0 demo_msg_caller] demo_msgs = (sent, got, m')
     \<and> bt_get (mm_queues m') 1 = Some q' \<and> filter (\<lambda>x. ms_mtype x = 2) (mq_messages demo_queue @ sent) =
       filter (\<lambda>x. ms_mtype x = 2) got @ filter (\<lambda>x. ms_mtype x = 2) (mq_messages q')"
proof -
  let ?cs = "[Rcv 101 1 2 10 0 demo_msg_caller, Rcv 101 1 0 10 0 demo_msg_caller]"
  obtain sent got m' where r: "msg_run 1 ?cs demo_msgs = (sent, got, m')" by (metis prod.exhaust)
  from msg_type_fifo [OF demo_msgs_get r, of 2] r show ?thesis by blast
qed

text \<open>C20.
  No wakeup is lost on a message queue. While a task waits on a queue, each operation of any task either wakes it, or
  leaves it waiting with the same messages and the same room in the queue; only the task itself takes its entry out.
\<close>

theorem msg_wakeup_not_lost:
  assumes "msg_step m woken m'" and "bt_get (mm_queues m) k = Some q" and "task \<in> set (mq_waiters q)"
  shows "task \<in> set woken \<or> m' = msg_remove_waiter_for_task task m \<or>
    (\<exists>q'. bt_get (mm_queues m') k = Some q' \<and> task \<in> set (mq_waiters q') \<and> mq_messages q' = mq_messages q \<and>
      (\<forall>len. has_capacity_for q' len = has_capacity_for q len))"
  using msg_step_waiter [OF assms] unfolding has_capacity_for_def by metis

theorem msg_wakeup_not_lost_witness:
  "\<exists>r m' woken. msg_receive 101 1 2 10 0 demo_msg_caller demo_msgs = (r, m', woken) \<and>
     (4 \<in> set woken \<or> m' = msg_remove_waiter_for_task 4 demo_msgs \<or>
      (\<exists>q'. bt_get (mm_queues m') 1 = Some q' \<and> 4 \<in> set (mq_waiters q') \<and> mq_messages q' = mq_messages demo_queue))"
proof -
  obtain r m' woken where r: "msg_receive 101 1 2 10 0 demo_msg_caller demo_msgs = (r, m', woken)" by (metis prod.exhaust)
  have w: "4 \<in> set (mq_waiters demo_queue)" by (simp add: demo_queue_defs)
  from msg_wakeup_not_lost [OF mstep_receive [OF r] demo_msgs_get w] r show ?thesis by blast
qed

end
