(* ===== verification/Record_Locks.thy ===== *)
theory Record_Locks
  imports Kernel_Prelude "HOL-Library.Product_Lexorder"
begin

text \<open>
  File locks (\<open>os/src/syscall/fs/fd_lock.rs\<close>): POSIX and open-file-description record locks, and \<open>flock\<close>.

  The two tables and the atomic \<open>ACTIVE_LOCK_CLASSES\<close> are the fields of one record, together with the per-process flag
  \<open>has_posix_record_locks\<close>. An open file description is known by its pointer, a number here. What the calls ask of the
  file (its node, its stat result, its position, its access mode) are fields of a record. The waiting loops take one
  observation per pass: the sleeping task and what others do to the state until it runs again.
\<close>

section \<open>Data\<close>

definition F_RDLCK :: int where "F_RDLCK = 0"
definition F_WRLCK :: int where "F_WRLCK = 1"
definition F_UNLCK :: int where "F_UNLCK = 2"
definition SEEK_SET :: int where "SEEK_SET = 0"
definition SEEK_CUR :: int where "SEEK_CUR = 1"
definition SEEK_END :: int where "SEEK_END = 2"
definition LOCK_TO_EOF :: int where "LOCK_TO_EOF = i64_max"
definition LOCK_SH :: u32 where "LOCK_SH = 1"
definition LOCK_EX :: u32 where "LOCK_EX = 2"
definition LOCK_NB :: u32 where "LOCK_NB = 4"
definition LOCK_UN :: u32 where "LOCK_UN = 8"
definition FLOCK_VALID_FLAGS :: u32 where "FLOCK_VALID_FLAGS = LOCK_SH OR LOCK_EX OR LOCK_NB OR LOCK_UN"

record linux_flock =
  l_type :: int
  l_whence :: int
  l_start :: int
  l_len :: int
  l_pid :: int

record lock_key =
  lk_dev :: nat
  lk_ino :: nat

datatype record_lock_owner = Process nat | FileDescription file_id

fun same_owner :: "record_lock_owner \<Rightarrow> record_lock_owner \<Rightarrow> bool" where
  "same_owner (Process left) (Process right) = (left = right)"
| "same_owner (FileDescription left) (FileDescription right) = (left = right)"
| "same_owner _ _ = False"

fun is_process :: "nat \<Rightarrow> record_lock_owner \<Rightarrow> bool" where
  "is_process pid (Process owner_pid) = (owner_pid = pid)"
| "is_process pid (FileDescription _) = False"

fun is_description :: "file_id \<Rightarrow> record_lock_owner \<Rightarrow> bool" where
  "is_description file (FileDescription owner) = (owner = file)"
| "is_description file (Process _) = False"

fun reported_pid :: "record_lock_owner \<Rightarrow> int" where
  "reported_pid (Process pid) = sint (word_of_nat pid :: u32)"
| "reported_pid (FileDescription _) = - 1"

fun owner_sort_key :: "record_lock_owner \<Rightarrow> nat \<times> nat" where
  "owner_sort_key (Process pid) = (0, pid)"
| "owner_sort_key (FileDescription file) = (1, file)"

record posix_lock =
  pl_key :: lock_key
  pl_owner :: record_lock_owner
  pl_type :: int
  pl_start :: int
  pl_end :: int

record released_range =
  rr_key :: lock_key
  rr_start :: int
  rr_end :: int

record waiting_lock =
  wl_key :: lock_key
  wl_owner :: record_lock_owner
  wl_type :: int
  wl_start :: int
  wl_end :: int
  wl_task :: task_id

datatype flock_mode = Shared | Exclusive

record flock_lock =
  fl_key :: lock_key
  fl_owner :: file_id
  fl_mode :: flock_mode

record waiting_flock =
  wf_key :: lock_key
  wf_owner :: file_id
  wf_task :: task_id

record record_lock_table =
  rt_locks :: "posix_lock list"
  rt_waiters :: "waiting_lock list"

record flock_table =
  ft_locks :: "flock_lock list"
  ft_waiters :: "waiting_flock list"

definition lock_conflicts :: "int \<Rightarrow> int \<Rightarrow> bool" where
  "lock_conflicts existing_type requested_type \<longleftrightarrow> existing_type = F_WRLCK \<or> requested_type = F_WRLCK"

definition flock_modes_conflict :: "flock_mode \<Rightarrow> flock_mode \<Rightarrow> bool" where
  "flock_modes_conflict existing_mode requested_mode \<longleftrightarrow> existing_mode = Exclusive \<or> requested_mode = Exclusive"

definition ranges_overlap :: "int \<Rightarrow> int \<Rightarrow> int \<Rightarrow> int \<Rightarrow> bool" where
  "ranges_overlap first_start first_end second_start second_end \<longleftrightarrow>
     first_start \<le> second_end \<and> second_start \<le> first_end"

section \<open>The table of record locks\<close>

definition find_conflicts ::
  "lock_key \<Rightarrow> record_lock_owner \<Rightarrow> int \<Rightarrow> int \<Rightarrow> int \<Rightarrow> record_lock_table \<Rightarrow> posix_lock list" where
  "find_conflicts key owner requested_type start fin t =
     filter (\<lambda>lock. pl_key lock = key \<and> \<not> same_owner (pl_owner lock) owner
         \<and> lock_conflicts (pl_type lock) requested_type
         \<and> ranges_overlap (pl_start lock) (pl_end lock) start fin) (rt_locks t)"

text \<open>\<open>min_by_key(|lock| (lock.start, lock.end))\<close>: the first of the least locks.\<close>

fun min_lock :: "posix_lock list \<Rightarrow> posix_lock option" where
  "min_lock [] = None"
| "min_lock (x # xs) =
     (case min_lock xs of
        None \<Rightarrow> Some x
      | Some y \<Rightarrow> if (pl_start y, pl_end y) < (pl_start x, pl_end x) then Some y else Some x)"

definition find_conflict ::
  "lock_key \<Rightarrow> record_lock_owner \<Rightarrow> int \<Rightarrow> int \<Rightarrow> int \<Rightarrow> record_lock_table \<Rightarrow> posix_lock option" where
  "find_conflict key owner requested_type start fin t = min_lock (find_conflicts key owner requested_type start fin t)"

text \<open>What one lock leaves behind when a range of its owner is removed.\<close>

definition cut_lock :: "int \<Rightarrow> int \<Rightarrow> posix_lock \<Rightarrow> posix_lock list" where
  "cut_lock start fin lock =
     (if pl_start lock < start then [lock\<lparr>pl_end := start - 1\<rparr>] else []) @
     (if fin \<noteq> LOCK_TO_EOF \<and> fin < pl_end lock then [lock\<lparr>pl_start := fin + 1\<rparr>] else [])"

definition touched :: "lock_key \<Rightarrow> record_lock_owner \<Rightarrow> int \<Rightarrow> int \<Rightarrow> posix_lock \<Rightarrow> bool" where
  "touched key owner start fin lock \<longleftrightarrow> pl_key lock = key \<and> same_owner (pl_owner lock) owner \<and>
     ranges_overlap (pl_start lock) (pl_end lock) start fin"

definition remove_owned_range ::
  "lock_key \<Rightarrow> record_lock_owner \<Rightarrow> int \<Rightarrow> int \<Rightarrow> record_lock_table \<Rightarrow> released_range list \<times> record_lock_table" where
  "remove_owned_range key owner start fin t =
     (map (\<lambda>lock. \<lparr>rr_key = key, rr_start = max (pl_start lock) start, rr_end = min (pl_end lock) fin\<rparr>)
        (filter (touched key owner start fin) (rt_locks t)),
      t\<lparr>rt_locks := concat (map (\<lambda>lock. if touched key owner start fin lock then cut_lock start fin lock else [lock])
          (rt_locks t))\<rparr>)"

definition released_hits :: "released_range list \<Rightarrow> waiting_lock \<Rightarrow> bool" where
  "released_hits released waiter \<longleftrightarrow>
     (\<exists>range \<in> set released. wl_key waiter = rr_key range \<and>
        ranges_overlap (wl_start waiter) (wl_end waiter) (rr_start range) (rr_end range))"

definition take_waiters_for_released ::
  "released_range list \<Rightarrow> record_lock_table \<Rightarrow> task_id list \<times> record_lock_table" where
  "take_waiters_for_released released t =
     (if released = [] then ([], t)
      else (map wl_task (filter (released_hits released) (rt_waiters t)),
            t\<lparr>rt_waiters := filter (\<lambda>waiter. \<not> released_hits released waiter) (rt_waiters t)\<rparr>))"

text \<open>The sort key of a lock, compared lexicographically.\<close>

definition lock_sort_key :: "posix_lock \<Rightarrow> (nat \<times> nat) \<times> (nat \<times> nat) \<times> int \<times> int \<times> int" where
  "lock_sort_key lock =
     ((lk_dev (pl_key lock), lk_ino (pl_key lock)), owner_sort_key (pl_owner lock), pl_type lock, pl_start lock, pl_end lock)"

definition mergeable :: "posix_lock \<Rightarrow> posix_lock \<Rightarrow> bool" where
  "mergeable lst lock \<longleftrightarrow> pl_key lst = pl_key lock \<and> same_owner (pl_owner lst) (pl_owner lock) \<and>
     pl_type lst = pl_type lock \<and>
     (pl_end lst = LOCK_TO_EOF \<or> pl_start lock \<le> saturating_i64 (pl_end lst + 1))"

text \<open>The merging loop; \<open>merged\<close> is kept with its last element first.\<close>

fun merge_loop :: "posix_lock list \<Rightarrow> posix_lock list \<Rightarrow> posix_lock list" where
  "merge_loop merged [] = rev merged"
| "merge_loop [] (lock # locks) = merge_loop [lock] locks"
| "merge_loop (lst # merged) (lock # locks) =
     (if mergeable lst lock
      then merge_loop (lst\<lparr>pl_end := max (pl_end lst) (pl_end lock)\<rparr> # merged) locks
      else merge_loop (lock # lst # merged) locks)"

definition merge_adjacent :: "record_lock_table \<Rightarrow> record_lock_table" where
  "merge_adjacent t = t\<lparr>rt_locks := merge_loop [] (sort_key lock_sort_key (rt_locks t))\<rparr>"

definition record_set_lock ::
  "lock_key \<Rightarrow> record_lock_owner \<Rightarrow> int \<Rightarrow> int \<Rightarrow> int \<Rightarrow> record_lock_table
    \<Rightarrow> (errno + task_id list) \<times> record_lock_table" where
  "record_set_lock key owner ty start fin t =
     (if ty \<noteq> F_UNLCK \<and> find_conflicts key owner ty start fin t \<noteq> [] then (Inl EAGAIN, t)
      else
        (case remove_owned_range key owner start fin t of (released, t1) \<Rightarrow>
          (case take_waiters_for_released released t1 of (wakeups, t2) \<Rightarrow>
             (Inr wakeups,
              if ty \<noteq> F_UNLCK
              then merge_adjacent (t2\<lparr>rt_locks := rt_locks t2 @
                     [\<lparr>pl_key = key, pl_owner = owner, pl_type = ty, pl_start = start, pl_end = fin\<rparr>]\<rparr>)
              else t2))))"

definition range_of :: "posix_lock \<Rightarrow> released_range" where
  "range_of lock = \<lparr>rr_key = pl_key lock, rr_start = pl_start lock, rr_end = pl_end lock\<rparr>"

definition release_for_process_file ::
  "lock_key \<Rightarrow> nat \<Rightarrow> record_lock_table \<Rightarrow> task_id list \<times> record_lock_table" where
  "release_for_process_file key pid t =
     (case remove_owned_range key (Process pid) 0 LOCK_TO_EOF t of
        (released, t1) \<Rightarrow> take_waiters_for_released released t1)"

definition remove_waiters_for_pid :: "nat \<Rightarrow> record_lock_table \<Rightarrow> record_lock_table" where
  "remove_waiters_for_pid pid t =
     t\<lparr>rt_waiters := filter (\<lambda>waiter. \<not> is_process pid (wl_owner waiter)) (rt_waiters t)\<rparr>"

definition remove_waiters_for_file_description :: "file_id \<Rightarrow> record_lock_table \<Rightarrow> record_lock_table" where
  "remove_waiters_for_file_description file t =
     t\<lparr>rt_waiters := filter (\<lambda>waiter. \<not> is_description file (wl_owner waiter)) (rt_waiters t)\<rparr>"

definition release_for_process :: "nat \<Rightarrow> record_lock_table \<Rightarrow> task_id list \<times> record_lock_table" where
  "release_for_process pid t =
     (let t1 = remove_waiters_for_pid pid t
      in take_waiters_for_released (map range_of (filter (\<lambda>lock. is_process pid (pl_owner lock)) (rt_locks t1)))
           (t1\<lparr>rt_locks := filter (\<lambda>lock. \<not> is_process pid (pl_owner lock)) (rt_locks t1)\<rparr>))"

definition release_for_file_description :: "file_id \<Rightarrow> record_lock_table \<Rightarrow> task_id list \<times> record_lock_table" where
  "release_for_file_description file t =
     (let t1 = remove_waiters_for_file_description file t
      in take_waiters_for_released (map range_of (filter (\<lambda>lock. is_description file (pl_owner lock)) (rt_locks t1)))
           (t1\<lparr>rt_locks := filter (\<lambda>lock. \<not> is_description file (pl_owner lock)) (rt_locks t1)\<rparr>))"

definition has_file_description_state :: "file_id \<Rightarrow> record_lock_table \<Rightarrow> bool" where
  "has_file_description_state file t \<longleftrightarrow> (\<exists>lock \<in> set (rt_locks t). is_description file (pl_owner lock)) \<or>
     (\<exists>waiter \<in> set (rt_waiters t). is_description file (wl_owner waiter))"

definition has_process_locks :: "nat \<Rightarrow> record_lock_table \<Rightarrow> bool" where
  "has_process_locks pid t \<longleftrightarrow> (\<exists>lock \<in> set (rt_locks t). is_process pid (pl_owner lock))"

definition record_enqueue_waiter :: "waiting_lock \<Rightarrow> record_lock_table \<Rightarrow> record_lock_table" where
  "record_enqueue_waiter w t = t\<lparr>rt_waiters := rt_waiters t @ [w]\<rparr>"

definition would_deadlock :: "record_lock_owner \<Rightarrow> posix_lock list \<Rightarrow> record_lock_table \<Rightarrow> bool" where
  "would_deadlock owner conflicts t \<longleftrightarrow>
     (\<exists>conflict \<in> set conflicts. \<exists>waiter \<in> set (rt_waiters t).
        same_owner (wl_owner waiter) (pl_owner conflict) \<and>
        (\<exists>owned \<in> set (rt_locks t). same_owner (pl_owner owned) owner \<and> pl_key owned = wl_key waiter \<and>
           lock_conflicts (pl_type owned) (wl_type waiter) \<and>
           ranges_overlap (pl_start owned) (pl_end owned) (wl_start waiter) (wl_end waiter)))"

section \<open>The table of flock locks\<close>

definition flock_has_conflict :: "lock_key \<Rightarrow> file_id \<Rightarrow> flock_mode \<Rightarrow> flock_table \<Rightarrow> bool" where
  "flock_has_conflict key owner mode t \<longleftrightarrow>
     (\<exists>lock \<in> set (ft_locks t). fl_key lock = key \<and> fl_owner lock \<noteq> owner \<and> flock_modes_conflict (fl_mode lock) mode)"

definition remove_owner_lock :: "lock_key \<Rightarrow> file_id \<Rightarrow> flock_table \<Rightarrow> flock_table" where
  "remove_owner_lock key owner t = t\<lparr>ft_locks := filter (\<lambda>lock. fl_key lock \<noteq> key \<or> fl_owner lock \<noteq> owner) (ft_locks t)\<rparr>"

definition take_waiters_for_keys :: "lock_key list \<Rightarrow> flock_table \<Rightarrow> task_id list \<times> flock_table" where
  "take_waiters_for_keys keys t =
     (if keys = [] then ([], t)
      else (map wf_task (filter (\<lambda>waiter. wf_key waiter \<in> set keys) (ft_waiters t)),
            t\<lparr>ft_waiters := filter (\<lambda>waiter. wf_key waiter \<notin> set keys) (ft_waiters t)\<rparr>))"

definition flock_set_lock ::
  "lock_key \<Rightarrow> file_id \<Rightarrow> flock_mode \<Rightarrow> flock_table \<Rightarrow> (errno + task_id list) \<times> flock_table" where
  "flock_set_lock key owner mode t =
     (if flock_has_conflict key owner mode t then (Inl EAGAIN, t)
      else
        (let t1 = remove_owner_lock key owner t;
             t2 = t1\<lparr>ft_locks := ft_locks t1 @ [\<lparr>fl_key = key, fl_owner = owner, fl_mode = mode\<rparr>]\<rparr>
         in case take_waiters_for_keys [key] t2 of (wakeups, t3) \<Rightarrow> (Inr wakeups, t3)))"

definition flock_unlock :: "lock_key \<Rightarrow> file_id \<Rightarrow> flock_table \<Rightarrow> task_id list \<times> flock_table" where
  "flock_unlock key owner t = take_waiters_for_keys [key] (remove_owner_lock key owner t)"

definition release_owner :: "file_id \<Rightarrow> flock_table \<Rightarrow> task_id list \<times> flock_table" where
  "release_owner owner t =
     (let t1 = t\<lparr>ft_waiters := filter (\<lambda>waiter. wf_owner waiter \<noteq> owner) (ft_waiters t)\<rparr>;
          released_keys = rev (remdups (rev (map fl_key (filter (\<lambda>lock. fl_owner lock = owner) (ft_locks t1)))))
      in take_waiters_for_keys released_keys
           (t1\<lparr>ft_locks := filter (\<lambda>lock. fl_owner lock \<noteq> owner) (ft_locks t1)\<rparr>))"

definition has_owner_state :: "file_id \<Rightarrow> flock_table \<Rightarrow> bool" where
  "has_owner_state owner t \<longleftrightarrow> (\<exists>lock \<in> set (ft_locks t). fl_owner lock = owner) \<or>
     (\<exists>waiter \<in> set (ft_waiters t). wf_owner waiter = owner)"

definition flock_enqueue_waiter :: "waiting_flock \<Rightarrow> flock_table \<Rightarrow> flock_table" where
  "flock_enqueue_waiter w t = t\<lparr>ft_waiters := ft_waiters t @ [w]\<rparr>"

section \<open>Calls\<close>

definition POSIX_LOCKS_ACTIVE :: usize where "POSIX_LOCKS_ACTIVE = 1"
definition OFD_LOCKS_ACTIVE :: usize where "OFD_LOCKS_ACTIVE = 2"
definition FLOCKS_ACTIVE :: usize where "FLOCKS_ACTIVE = 4"
definition RECORD_LOCKS_ACTIVE :: usize where "RECORD_LOCKS_ACTIVE = POSIX_LOCKS_ACTIVE OR OFD_LOCKS_ACTIVE"

record lock_state =
  ls_record :: record_lock_table
  ls_flock :: flock_table
  ls_active :: usize
  ls_has_posix :: "nat \<Rightarrow> bool"

definition owner_class :: "record_lock_owner \<Rightarrow> usize" where
  "owner_class owner = (case owner of Process _ \<Rightarrow> POSIX_LOCKS_ACTIVE | FileDescription _ \<Rightarrow> OFD_LOCKS_ACTIVE)"

definition publish_record_lock_activity :: "record_lock_table \<Rightarrow> usize \<Rightarrow> usize" where
  "publish_record_lock_activity t active =
     (let record_classes = fold (\<lambda>owner classes. classes OR owner_class owner)
            (map pl_owner (rt_locks t) @ map wl_owner (rt_waiters t)) 0
      in (active AND NOT RECORD_LOCKS_ACTIVE) OR record_classes)"

definition publish_flock_activity :: "flock_table \<Rightarrow> usize \<Rightarrow> usize" where
  "publish_flock_activity t active =
     (if ft_locks t = [] \<and> ft_waiters t = [] then active AND NOT FLOCKS_ACTIVE else active OR FLOCKS_ACTIVE)"

text \<open>A new table, published.\<close>

definition put_record :: "record_lock_table \<Rightarrow> lock_state \<Rightarrow> lock_state" where
  "put_record t s = s\<lparr>ls_record := t, ls_active := publish_record_lock_activity t (ls_active s)\<rparr>"

definition put_flock :: "flock_table \<Rightarrow> lock_state \<Rightarrow> lock_state" where
  "put_flock t s = s\<lparr>ls_flock := t, ls_active := publish_flock_activity t (ls_active s)\<rparr>"

text \<open>What the calls ask of an open file.\<close>

record lock_file =
  lf_id :: file_id
  lf_readable :: bool
  lf_writable :: bool
  lf_node :: "(nat \<times> nat) option"
  lf_stat :: "errno + nat \<times> nat \<times> nat"
  lf_pos :: "errno + nat"

definition lock_key_of :: "lock_file \<Rightarrow> errno + lock_key" where
  "lock_key_of f =
     (case lf_node f of
        Some (mount, ino) \<Rightarrow> Inr \<lparr>lk_dev = mount, lk_ino = ino\<rparr>
      | None \<Rightarrow> (case lf_stat f of Inl e \<Rightarrow> Inl e | Inr (dev, ino, _) \<Rightarrow> Inr \<lparr>lk_dev = dev, lk_ino = ino\<rparr>))"

definition i64_try_from :: "nat \<Rightarrow> errno + int" where
  "i64_try_from n = (if int n \<le> i64_max then Inr (int n) else Inl EINVAL)"

definition flock_base :: "lock_file \<Rightarrow> int \<Rightarrow> errno + int" where
  "flock_base f whence =
     (if whence = SEEK_SET then Inr 0
      else if whence = SEEK_CUR then (case lf_pos f of Inl e \<Rightarrow> Inl e | Inr pos \<Rightarrow> i64_try_from pos)
      else (case lf_stat f of Inl e \<Rightarrow> Inl e | Inr (_, _, sz) \<Rightarrow> i64_try_from sz))"

definition valid_flock_whence :: "int \<Rightarrow> bool" where
  "valid_flock_whence whence \<longleftrightarrow> whence = SEEK_SET \<or> whence = SEEK_CUR \<or> whence = SEEK_END"

definition valid_getlk_type :: "int \<Rightarrow> bool" where
  "valid_getlk_type ty \<longleftrightarrow> ty = F_RDLCK \<or> ty = F_WRLCK"

definition valid_setlk_type :: "int \<Rightarrow> bool" where
  "valid_setlk_type ty \<longleftrightarrow> ty = F_RDLCK \<or> ty = F_WRLCK \<or> ty = F_UNLCK"

definition flock_range :: "lock_file \<Rightarrow> linux_flock \<Rightarrow> errno + int \<times> int" where
  "flock_range f flock =
     (if \<not> valid_flock_whence (l_whence flock) then Inl EINVAL
      else (case flock_base f (l_whence flock) of
          Inl e \<Rightarrow> Inl e
        | Inr base \<Rightarrow>
            (case checked_i64 (base + l_start flock) of
               None \<Rightarrow> Inl EINVAL
             | Some start \<Rightarrow>
                 if start < 0 then Inl EINVAL
                 else if 0 < l_len flock then
                   (case checked_i64 (l_len flock - 1) of
                      None \<Rightarrow> Inl EINVAL
                    | Some len_last \<Rightarrow>
                        (case checked_i64 (start + len_last) of None \<Rightarrow> Inl EINVAL | Some fin \<Rightarrow> Inr (start, fin)))
                 else if l_len flock < 0 then
                   (case checked_i64 (start - 1) of
                      None \<Rightarrow> Inl EINVAL
                    | Some fin \<Rightarrow>
                        (case checked_i64 (start + l_len flock) of
                           None \<Rightarrow> Inl EINVAL
                         | Some start' \<Rightarrow> if start' < 0 then Inl EINVAL else Inr (start', fin)))
                 else Inr (start, LOCK_TO_EOF))))"

definition flock_len :: "int \<Rightarrow> int \<Rightarrow> int" where
  "flock_len start fin = (if fin = LOCK_TO_EOF then 0 else fin - start + 1)"

definition check_lock_access :: "lock_file \<Rightarrow> int \<Rightarrow> errno option" where
  "check_lock_access f ty =
     (if ty = F_RDLCK \<and> \<not> lf_readable f then Some EBADF
      else if ty = F_WRLCK \<and> \<not> lf_writable f then Some EBADF
      else None)"

text \<open>\<open>rd\<close> is the outcome of reading the request, \<open>wr\<close> of writing the answer.\<close>

definition fcntl_getlk_with_owner ::
  "errno + linux_flock \<Rightarrow> errno option \<Rightarrow> lock_file \<Rightarrow> record_lock_owner \<Rightarrow> lock_state \<Rightarrow> errno + linux_flock" where
  "fcntl_getlk_with_owner rd wr f owner s =
     (case rd of
        Inl e \<Rightarrow> Inl e
      | Inr flock \<Rightarrow>
          if \<not> valid_getlk_type (l_type flock) then Inl EINVAL
          else (case flock_range f flock of
              Inl e \<Rightarrow> Inl e
            | Inr (start, fin) \<Rightarrow>
                (case lock_key_of f of
                   Inl e \<Rightarrow> Inl e
                 | Inr key \<Rightarrow>
                     (let answer = (case find_conflict key owner (l_type flock) start fin (ls_record s) of
                          Some conflict \<Rightarrow> flock\<lparr>l_type := pl_type conflict, l_whence := SEEK_SET,
                            l_start := pl_start conflict, l_len := flock_len (pl_start conflict) (pl_end conflict),
                            l_pid := reported_pid (pl_owner conflict)\<rparr>
                        | None \<Rightarrow> flock\<lparr>l_type := F_UNLCK\<rparr>)
                      in case wr of Some e \<Rightarrow> Inl e | None \<Rightarrow> Inr answer))))"

definition fcntl_getlk ::
  "errno + linux_flock \<Rightarrow> errno option \<Rightarrow> lock_file \<Rightarrow> nat \<Rightarrow> lock_state \<Rightarrow> errno + linux_flock" where
  "fcntl_getlk rd wr f pid s = fcntl_getlk_with_owner rd wr f (Process pid) s"

definition fcntl_ofd_getlk ::
  "errno + linux_flock \<Rightarrow> errno option \<Rightarrow> lock_file \<Rightarrow> lock_state \<Rightarrow> errno + linux_flock" where
  "fcntl_ofd_getlk rd wr f s = fcntl_getlk_with_owner rd wr f (FileDescription (lf_id f)) s"

text \<open>The stored table, the flag of the owning process, and the published classes.\<close>

definition note_owner :: "record_lock_owner \<Rightarrow> record_lock_table \<Rightarrow> lock_state \<Rightarrow> lock_state" where
  "note_owner owner t s =
     (case owner of
        Process pid \<Rightarrow> s\<lparr>ls_has_posix := (ls_has_posix s)(pid := has_process_locks pid t)\<rparr>
      | FileDescription _ \<Rightarrow> s)"

definition setlk_parse :: "errno + linux_flock \<Rightarrow> lock_file \<Rightarrow> errno + lock_key \<times> int \<times> int \<times> int" where
  "setlk_parse rd f =
     (case rd of
        Inl e \<Rightarrow> Inl e
      | Inr flock \<Rightarrow>
          if \<not> valid_setlk_type (l_type flock) then Inl EINVAL
          else (case check_lock_access f (l_type flock) of
              Some e \<Rightarrow> Inl e
            | None \<Rightarrow>
                (case flock_range f flock of
                   Inl e \<Rightarrow> Inl e
                 | Inr (start, fin) \<Rightarrow>
                     (case lock_key_of f of Inl e \<Rightarrow> Inl e | Inr key \<Rightarrow> Inr (key, l_type flock, start, fin)))))"

definition fcntl_setlk_with_owner ::
  "errno + linux_flock \<Rightarrow> lock_file \<Rightarrow> record_lock_owner \<Rightarrow> lock_state \<Rightarrow> (errno + int) \<times> lock_state \<times> task_id list" where
  "fcntl_setlk_with_owner rd f owner s =
     (case setlk_parse rd f of
        Inl e \<Rightarrow> (Inl e, s, [])
      | Inr (key, ty, start, fin) \<Rightarrow>
          (case record_set_lock key owner ty start fin (ls_record s) of
             (Inl e, t) \<Rightarrow> (Inl e, s\<lparr>ls_record := t\<rparr>, [])
           | (Inr wakeups, t) \<Rightarrow> (Inr 0, put_record t (note_owner owner t s), wakeups)))"

definition fcntl_setlk ::
  "errno + linux_flock \<Rightarrow> lock_file \<Rightarrow> nat \<Rightarrow> lock_state \<Rightarrow> (errno + int) \<times> lock_state \<times> task_id list" where
  "fcntl_setlk rd f pid s = fcntl_setlk_with_owner rd f (Process pid) s"

text \<open>The open-file-description calls read the request twice: \<open>rd0\<close> for the pid field, \<open>rd\<close> for the rest.\<close>

definition fcntl_ofd_setlk ::
  "errno + linux_flock \<Rightarrow> errno + linux_flock \<Rightarrow> lock_file \<Rightarrow> lock_state \<Rightarrow> (errno + int) \<times> lock_state \<times> task_id list" where
  "fcntl_ofd_setlk rd0 rd f s =
     (case rd0 of
        Inl e \<Rightarrow> (Inl e, s, [])
      | Inr flock \<Rightarrow>
          if l_pid flock \<noteq> 0 then (Inl EINVAL, s, [])
          else fcntl_setlk_with_owner rd f (FileDescription (lf_id f)) s)"

text \<open>One pass of the loop of \<open>F_SETLKW\<close>: \<open>task\<close> is the caller, which goes to sleep when there is a conflict.\<close>

datatype setlkw_result = LockReturn "errno + int" | LockSleeps

definition setlkw_pass ::
  "lock_key \<Rightarrow> int \<Rightarrow> int \<Rightarrow> int \<Rightarrow> record_lock_owner \<Rightarrow> bool \<Rightarrow> task_id \<Rightarrow> lock_state
    \<Rightarrow> setlkw_result \<times> lock_state \<times> task_id list" where
  "setlkw_pass key ty start fin owner detect_deadlock task s =
     (let t = ls_record s;
          conflicts = (if ty = F_UNLCK then [] else find_conflicts key owner ty start fin t)
      in if conflicts = [] then
           (case record_set_lock key owner ty start fin t of
              (Inl e, t') \<Rightarrow> (LockReturn (Inl e), s\<lparr>ls_record := t'\<rparr>, [])
            | (Inr wakeups, t') \<Rightarrow> (LockReturn (Inr 0), put_record t' (note_owner owner t' s), wakeups))
         else if detect_deadlock \<and> would_deadlock owner conflicts t then (LockReturn (Inl EDEADLK), s, [])
         else (LockSleeps, put_record (record_enqueue_waiter \<lparr>wl_key = key, wl_owner = owner, wl_type = ty,
                 wl_start = start, wl_end = fin, wl_task = task\<rparr> t) s, []))"

fun setlkw_loop ::
  "lock_key \<Rightarrow> int \<Rightarrow> int \<Rightarrow> int \<Rightarrow> record_lock_owner \<Rightarrow> bool \<Rightarrow> task_id \<Rightarrow> (lock_state \<Rightarrow> lock_state) list \<Rightarrow> lock_state
    \<Rightarrow> (errno + int) option \<times> lock_state" where
  "setlkw_loop key ty start fin owner dd task others s =
     (case setlkw_pass key ty start fin owner dd task s of
        (LockReturn r, s', _) \<Rightarrow> (Some r, s')
      | (LockSleeps, s', _) \<Rightarrow>
          (case others of [] \<Rightarrow> (None, s')
           | f # fs \<Rightarrow> setlkw_loop key ty start fin owner dd task fs (f s')))"

definition fcntl_setlkw_with_owner ::
  "errno + linux_flock \<Rightarrow> lock_file \<Rightarrow> record_lock_owner \<Rightarrow> bool \<Rightarrow> task_id \<Rightarrow> (lock_state \<Rightarrow> lock_state) list \<Rightarrow> lock_state
    \<Rightarrow> (errno + int) option \<times> lock_state" where
  "fcntl_setlkw_with_owner rd f owner detect_deadlock task others s =
     (case setlk_parse rd f of
        Inl e \<Rightarrow> (Some (Inl e), s)
      | Inr (key, ty, start, fin) \<Rightarrow> setlkw_loop key ty start fin owner detect_deadlock task others s)"

definition fcntl_setlkw ::
  "errno + linux_flock \<Rightarrow> lock_file \<Rightarrow> nat \<Rightarrow> task_id \<Rightarrow> (lock_state \<Rightarrow> lock_state) list \<Rightarrow> lock_state
    \<Rightarrow> (errno + int) option \<times> lock_state" where
  "fcntl_setlkw rd f pid task others s = fcntl_setlkw_with_owner rd f (Process pid) True task others s"

definition fcntl_ofd_setlkw ::
  "errno + linux_flock \<Rightarrow> errno + linux_flock \<Rightarrow> lock_file \<Rightarrow> task_id \<Rightarrow> (lock_state \<Rightarrow> lock_state) list \<Rightarrow> lock_state
    \<Rightarrow> (errno + int) option \<times> lock_state" where
  "fcntl_ofd_setlkw rd0 rd f task others s =
     (case rd0 of
        Inl e \<Rightarrow> (Some (Inl e), s)
      | Inr flock \<Rightarrow>
          if l_pid flock \<noteq> 0 then (Some (Inl EINVAL), s)
          else fcntl_setlkw_with_owner rd f (FileDescription (lf_id f)) False task others s)"

definition parse_flock_operation :: "u32 \<Rightarrow> errno + flock_mode option \<times> bool" where
  "parse_flock_operation operation =
     (if operation AND NOT FLOCK_VALID_FLAGS \<noteq> 0 then Inl EINVAL
      else
        (let mode_bits = operation AND (LOCK_SH OR LOCK_EX OR LOCK_UN); nb = (operation AND LOCK_NB \<noteq> 0)
         in if mode_bits = LOCK_SH then Inr (Some Shared, nb)
            else if mode_bits = LOCK_EX then Inr (Some Exclusive, nb)
            else if mode_bits = LOCK_UN then Inr (None, nb)
            else Inl EINVAL))"

fun flock_loop ::
  "lock_key \<Rightarrow> file_id \<Rightarrow> flock_mode \<Rightarrow> bool \<Rightarrow> task_id \<Rightarrow> (lock_state \<Rightarrow> lock_state) list \<Rightarrow> lock_state
    \<Rightarrow> (errno + int) option \<times> lock_state" where
  "flock_loop key owner mode nonblocking task others s =
     (case flock_set_lock key owner mode (ls_flock s) of
        (Inr wakeups, t) \<Rightarrow> (Some (Inr 0), put_flock t s)
      | (Inl e, t) \<Rightarrow>
          if nonblocking then (Some (Inl e), s\<lparr>ls_flock := t\<rparr>)
          else
            (let s' = put_flock (flock_enqueue_waiter \<lparr>wf_key = key, wf_owner = owner, wf_task = task\<rparr> t) s
             in case others of [] \<Rightarrow> (None, s') | f # fs \<Rightarrow> flock_loop key owner mode nonblocking task fs (f s')))"

definition flock_operation ::
  "lock_file \<Rightarrow> u32 \<Rightarrow> task_id \<Rightarrow> (lock_state \<Rightarrow> lock_state) list \<Rightarrow> lock_state \<Rightarrow> (errno + int) option \<times> lock_state" where
  "flock_operation f operation task others s =
     (case parse_flock_operation operation of
        Inl e \<Rightarrow> (Some (Inl e), s)
      | Inr (mode, nonblocking) \<Rightarrow>
          (case lock_key_of f of
             Inl e \<Rightarrow> (Some (Inl e), s)
           | Inr key \<Rightarrow>
               (case mode of
                  Some md \<Rightarrow> flock_loop key (lf_id f) md nonblocking task others s
                | None \<Rightarrow> (Some (Inr 0), put_flock (snd (flock_unlock key (lf_id f) (ls_flock s))) s))))"

text \<open>
  Closing a descriptor. \<open>referenced\<close> says whether some process still refers to the open file description.
\<close>

definition release_record_locks_for_close :: "lock_file \<Rightarrow> nat \<Rightarrow> lock_state \<Rightarrow> lock_state" where
  "release_record_locks_for_close f pid s =
     (if \<not> ls_has_posix s pid then s
      else (case lock_key_of f of
          Inl _ \<Rightarrow> s
        | Inr key \<Rightarrow>
            (let t = snd (release_for_process_file key pid (ls_record s))
             in put_record t (s\<lparr>ls_has_posix := (ls_has_posix s)(pid := has_process_locks pid t)\<rparr>))))"

definition release_ofd_record_locks_for_close :: "lock_file \<Rightarrow> bool \<Rightarrow> lock_state \<Rightarrow> lock_state" where
  "release_ofd_record_locks_for_close f referenced s =
     (if \<not> has_file_description_state (lf_id f) (ls_record s) then s
      else if referenced then s
      else put_record (snd (release_for_file_description (lf_id f) (ls_record s))) s)"

definition release_flock_locks_for_close :: "lock_file \<Rightarrow> bool \<Rightarrow> lock_state \<Rightarrow> lock_state" where
  "release_flock_locks_for_close f referenced s =
     (if \<not> has_owner_state (lf_id f) (ls_flock s) then s
      else if referenced then s
      else put_flock (snd (release_owner (lf_id f) (ls_flock s))) s)"

definition release_file_locks_for_close :: "lock_file \<Rightarrow> nat \<Rightarrow> bool \<Rightarrow> lock_state \<Rightarrow> lock_state" where
  "release_file_locks_for_close f pid referenced s =
     (let active = ls_active s;
          s1 = (if active AND POSIX_LOCKS_ACTIVE \<noteq> 0 then release_record_locks_for_close f pid s else s);
          s2 = (if active AND OFD_LOCKS_ACTIVE \<noteq> 0 then release_ofd_record_locks_for_close f referenced s1 else s1)
      in if active AND FLOCKS_ACTIVE \<noteq> 0 then release_flock_locks_for_close f referenced s2 else s2)"

definition release_record_locks_for_process :: "nat \<Rightarrow> lock_state \<Rightarrow> lock_state" where
  "release_record_locks_for_process pid s =
     (if ls_active s AND POSIX_LOCKS_ACTIVE = 0 then s
      else put_record (snd (release_for_process pid (ls_record s))) s)"

section \<open>Invariant\<close>

text \<open>The table read as a relation: who holds which kind of lock on which byte.\<close>

definition holds :: "posix_lock list \<Rightarrow> lock_key \<Rightarrow> record_lock_owner \<Rightarrow> int \<Rightarrow> int \<Rightarrow> bool" where
  "holds locks key owner ty p \<longleftrightarrow>
     (\<exists>lock \<in> set locks. pl_key lock = key \<and> pl_owner lock = owner \<and> pl_type lock = ty \<and>
        pl_start lock \<le> p \<and> p \<le> pl_end lock)"

definition range_ok :: "int \<Rightarrow> int \<Rightarrow> bool" where
  "range_ok start fin \<longleftrightarrow> 0 \<le> start \<and> start \<le> fin \<and> fin \<le> i64_max"

definition lock_ok :: "posix_lock \<Rightarrow> bool" where
  "lock_ok lock \<longleftrightarrow> range_ok (pl_start lock) (pl_end lock)"

definition waiter_ok :: "waiting_lock \<Rightarrow> bool" where
  "waiter_ok w \<longleftrightarrow> range_ok (wl_start w) (wl_end w)"

text \<open>A request that some other owner's lock stands in the way of.\<close>

definition blocked_by ::
  "posix_lock list \<Rightarrow> lock_key \<Rightarrow> record_lock_owner \<Rightarrow> int \<Rightarrow> int \<Rightarrow> int \<Rightarrow> bool" where
  "blocked_by locks key owner ty start fin \<longleftrightarrow>
     (\<exists>owner' ty' p. owner' \<noteq> owner \<and> holds locks key owner' ty' p \<and> lock_conflicts ty' ty \<and> start \<le> p \<and> p \<le> fin)"

definition exclusive :: "posix_lock list \<Rightarrow> bool" where
  "exclusive locks \<longleftrightarrow>
     (\<forall>key o1 t1 o2 t2 p. holds locks key o1 t1 p \<and> holds locks key o2 t2 p \<and> lock_conflicts t1 t2 \<longrightarrow>
        o1 = o2 \<and> t1 = t2)"

definition record_table_ok :: "record_lock_table \<Rightarrow> bool" where
  "record_table_ok t \<longleftrightarrow> (\<forall>lock \<in> set (rt_locks t). lock_ok lock) \<and> exclusive (rt_locks t) \<and>
     (\<forall>w \<in> set (rt_waiters t). waiter_ok w \<and>
        blocked_by (rt_locks t) (wl_key w) (wl_owner w) (wl_type w) (wl_start w) (wl_end w))"

definition flock_table_ok :: "flock_table \<Rightarrow> bool" where
  "flock_table_ok t \<longleftrightarrow> (\<forall>a \<in> set (ft_locks t). \<forall>b \<in> set (ft_locks t).
     fl_key a = fl_key b \<and> flock_modes_conflict (fl_mode a) (fl_mode b) \<longrightarrow> fl_owner a = fl_owner b)"

text \<open>The summary word and the process flags never hide a lock.\<close>

definition summary_ok :: "lock_state \<Rightarrow> bool" where
  "summary_ok s \<longleftrightarrow>
     (\<forall>lock \<in> set (rt_locks (ls_record s)). ls_active s AND owner_class (pl_owner lock) \<noteq> 0) \<and>
     (\<forall>w \<in> set (rt_waiters (ls_record s)). ls_active s AND owner_class (wl_owner w) \<noteq> 0) \<and>
     (ft_locks (ls_flock s) \<noteq> [] \<or> ft_waiters (ls_flock s) \<noteq> [] \<longrightarrow> ls_active s AND FLOCKS_ACTIVE \<noteq> 0) \<and>
     (\<forall>pid. has_process_locks pid (ls_record s) \<longrightarrow> ls_has_posix s pid)"

definition lock_state_ok :: "lock_state \<Rightarrow> bool" where
  "lock_state_ok s \<longleftrightarrow> record_table_ok (ls_record s) \<and> flock_table_ok (ls_flock s) \<and> summary_ok s"

definition lock_state_new :: lock_state where
  "lock_state_new = \<lparr>ls_record = \<lparr>rt_locks = [], rt_waiters = []\<rparr>, ls_flock = \<lparr>ft_locks = [], ft_waiters = []\<rparr>,
     ls_active = 0, ls_has_posix = (\<lambda>_. False)\<rparr>"

text \<open>The states that the calls of all processes produce; a waiting call contributes one pass of its loop at a time.\<close>

inductive lock_reachable :: "lock_state \<Rightarrow> bool" where
  reach_new: "lock_reachable lock_state_new"
| reach_setlk: "lock_reachable s \<Longrightarrow> fcntl_setlk_with_owner rd f owner s = (r, s', woken) \<Longrightarrow> lock_reachable s'"
| reach_setlkw: "lock_reachable s \<Longrightarrow> fcntl_setlkw_with_owner rd f owner dd task [] s = (r, s') \<Longrightarrow> lock_reachable s'"
| reach_flock: "lock_reachable s \<Longrightarrow> flock_operation f operation task [] s = (r, s') \<Longrightarrow> lock_reachable s'"
| reach_close: "lock_reachable s \<Longrightarrow> lock_reachable (release_file_locks_for_close f pid referenced s)"
| reach_exit: "lock_reachable s \<Longrightarrow> lock_reachable (release_record_locks_for_process pid s)"

section \<open>Lemmas\<close>

lemma same_owner_iff [simp]: "same_owner a b \<longleftrightarrow> a = b"
  by (cases a; cases b) auto

lemma is_process_iff [simp]: "is_process pid owner \<longleftrightarrow> owner = Process pid"
  by (cases owner) auto

lemma is_description_iff [simp]: "is_description file owner \<longleftrightarrow> owner = FileDescription file"
  by (cases owner) auto

lemma holds_simps [simp]:
  "\<not> holds [] k ow ty p"
  "holds (l # ls) k ow ty p \<longleftrightarrow>
     (pl_key l = k \<and> pl_owner l = ow \<and> pl_type l = ty \<and> pl_start l \<le> p \<and> p \<le> pl_end l) \<or> holds ls k ow ty p"
  "holds (ls @ ls') k ow ty p \<longleftrightarrow> holds ls k ow ty p \<or> holds ls' k ow ty p"
  by (auto simp: holds_def)

lemma holds_cong: "set ls = set ls' \<Longrightarrow> holds ls k ow ty p = holds ls' k ow ty p"
  by (simp add: holds_def)

lemma holds_filter: "holds (filter (\<lambda>l. P (pl_owner l)) ls) k ow ty p \<longleftrightarrow> holds ls k ow ty p \<and> P ow"
  by (auto simp: holds_def)

lemma LOCK_TO_EOF_max [simp]: "LOCK_TO_EOF = i64_max"
  by (simp add: LOCK_TO_EOF_def)

text \<open>What is left of a lock after a cut.\<close>

lemma cut_lock_ok: "lock_ok l \<Longrightarrow> range_ok s e \<Longrightarrow> x \<in> set (cut_lock s e l) \<Longrightarrow> lock_ok x"
  by (auto simp: cut_lock_def lock_ok_def range_ok_def split: if_splits)

lemma cut_lock_holds:
  assumes "lock_ok l" and "range_ok s e" and "ranges_overlap (pl_start l) (pl_end l) s e"
  shows "holds (cut_lock s e l) k ow ty p \<longleftrightarrow>
    pl_key l = k \<and> pl_owner l = ow \<and> pl_type l = ty \<and> pl_start l \<le> p \<and> p \<le> pl_end l \<and> \<not> (s \<le> p \<and> p \<le> e)"
  using assms by (auto simp: cut_lock_def lock_ok_def range_ok_def ranges_overlap_def)

lemma cut_locks_holds:
  assumes "\<forall>l \<in> set ls. lock_ok l" and "range_ok s e"
  shows "holds (concat (map (\<lambda>l. if touched key owner s e l then cut_lock s e l else [l]) ls)) k ow ty p \<longleftrightarrow>
    holds ls k ow ty p \<and> \<not> (k = key \<and> ow = owner \<and> s \<le> p \<and> p \<le> e)"
  using assms(1)
proof (induction ls)
  case (Cons l ls)
  show ?case
  proof (cases "touched key owner s e l")
    case True
    then have "ranges_overlap (pl_start l) (pl_end l) s e" by (simp add: touched_def)
    with Cons True show ?thesis by (auto simp: cut_lock_holds [OF _ assms(2)] touched_def)
  next
    case False
    with Cons show ?thesis by (auto simp: touched_def ranges_overlap_def)
  qed
qed simp

lemma cut_locks_ok:
  assumes "\<forall>l \<in> set ls. lock_ok l" and "range_ok s e"
  shows "\<forall>l \<in> set (concat (map (\<lambda>l. if touched key owner s e l then cut_lock s e l else [l]) ls)). lock_ok l"
  using assms cut_lock_ok by (auto split: if_splits)

text \<open>Merging keeps every byte as it was.\<close>

definition weak_key :: "posix_lock \<Rightarrow> (nat \<times> nat) \<times> (nat \<times> nat) \<times> int \<times> int" where
  "weak_key l = ((lk_dev (pl_key l), lk_ino (pl_key l)), owner_sort_key (pl_owner l), pl_type l, pl_start l)"

lemma weak_key_le: "lock_sort_key a \<le> lock_sort_key b \<Longrightarrow> weak_key a \<le> weak_key b"
  by (auto simp: lock_sort_key_def weak_key_def less_eq_prod_def less_prod_def split: prod.splits)

lemma weak_key_start:
  "weak_key a \<le> weak_key b \<Longrightarrow> pl_key a = pl_key b \<Longrightarrow> pl_owner a = pl_owner b \<Longrightarrow> pl_type a = pl_type b \<Longrightarrow>
   pl_start a \<le> pl_start b"
  by (auto simp: weak_key_def less_eq_prod_def less_prod_def)

lemma merge_two:
  assumes "mergeable a b" and "pl_start a \<le> pl_start b" and "lock_ok a" "lock_ok b"
  shows "lock_ok (a\<lparr>pl_end := max (pl_end a) (pl_end b)\<rparr>)"
    "holds [a\<lparr>pl_end := max (pl_end a) (pl_end b)\<rparr>] k ow ty p \<longleftrightarrow> holds [a, b] k ow ty p"
proof -
  have r: "range_ok (pl_start a) (pl_end a)" "range_ok (pl_start b) (pl_end b)" using assms by (simp_all add: lock_ok_def)
  have touch: "pl_start b \<le> pl_end a + 1"
    using assms(1) r by (auto simp: mergeable_def saturating_i64_def range_ok_def i64_min_def min_def max_def split: if_splits)
  show "lock_ok (a\<lparr>pl_end := max (pl_end a) (pl_end b)\<rparr>)" using r by (auto simp: lock_ok_def range_ok_def)
  show "holds [a\<lparr>pl_end := max (pl_end a) (pl_end b)\<rparr>] k ow ty p \<longleftrightarrow> holds [a, b] k ow ty p"
    using assms(1,2) touch by (auto simp: mergeable_def)
qed

lemma merge_loop_sem:
  assumes "\<forall>l \<in> set (merged @ locks). lock_ok l"
    and "sorted_wrt (\<lambda>a b. weak_key a \<le> weak_key b) (take 1 merged @ locks)"
  shows "(\<forall>l \<in> set (merge_loop merged locks). lock_ok l) \<and>
    (\<forall>k ow ty p. holds (merge_loop merged locks) k ow ty p \<longleftrightarrow> holds (merged @ locks) k ow ty p)"
  using assms
proof (induction merged locks rule: merge_loop.induct)
  case (1 merged)
  then show ?case by (auto simp: holds_def)
next
  case (2 lock locks)
  then show ?case by simp
next
  case (3 lst merged lock locks)
  let ?new = "lst\<lparr>pl_end := max (pl_end lst) (pl_end lock)\<rparr>"
  show ?case
  proof (cases "mergeable lst lock")
    case True
    have le: "weak_key lst \<le> weak_key lock" using "3.prems"(2) by simp
    have "pl_start lst \<le> pl_start lock" using True weak_key_start [OF le] by (simp add: mergeable_def)
    note two = merge_two [OF True this]
    have ok: "lock_ok lst" "lock_ok lock" using "3.prems"(1) by simp_all
    have wk: "weak_key ?new = weak_key lst" by (simp add: weak_key_def)
    have "\<forall>l \<in> set ((?new # merged) @ locks). lock_ok l" using "3.prems"(1) two(1) [OF ok] by simp
    moreover have "sorted_wrt (\<lambda>a b. weak_key a \<le> weak_key b) (take 1 (?new # merged) @ locks)"
      using "3.prems"(2) wk by simp
    ultimately have ih: "(\<forall>l \<in> set (merge_loop (?new # merged) locks). lock_ok l) \<and>
        (\<forall>k ow ty p. holds (merge_loop (?new # merged) locks) k ow ty p \<longleftrightarrow> holds ((?new # merged) @ locks) k ow ty p)"
      using "3.IH"(1) [OF True] by blast
    have "holds ((?new # merged) @ locks) k ow ty p \<longleftrightarrow> holds ((lst # merged) @ lock # locks) k ow ty p" for k ow ty p
      using two(2) [OF ok, of k ow ty p] by auto
    with ih True show ?thesis by simp
  next
    case False
    have "sorted_wrt (\<lambda>a b. weak_key a \<le> weak_key b) (take 1 (lock # lst # merged) @ locks)" using "3.prems"(2) by simp
    with "3.IH"(2) [OF False] "3.prems"(1) False show ?thesis by auto
  qed
qed

lemma merge_adjacent_sem:
  assumes "\<forall>l \<in> set (rt_locks t). lock_ok l"
  shows "(\<forall>l \<in> set (rt_locks (merge_adjacent t)). lock_ok l)"
    "holds (rt_locks (merge_adjacent t)) k ow ty p \<longleftrightarrow> holds (rt_locks t) k ow ty p"
proof -
  let ?ls = "sort_key lock_sort_key (rt_locks t)"
  have "sorted (map lock_sort_key ?ls)" by (rule sorted_sort_key)
  then have "sorted_wrt (\<lambda>a b. weak_key a \<le> weak_key b) ?ls"
    unfolding sorted_map by (rule sorted_wrt_mono_rel [rotated]) (rule weak_key_le)
  with assms merge_loop_sem [of "[]" ?ls]
  have "(\<forall>l \<in> set (merge_loop [] ?ls). lock_ok l) \<and> holds (merge_loop [] ?ls) k ow ty p = holds ?ls k ow ty p" by simp
  then show "(\<forall>l \<in> set (rt_locks (merge_adjacent t)). lock_ok l)"
    "holds (rt_locks (merge_adjacent t)) k ow ty p \<longleftrightarrow> holds (rt_locks t) k ow ty p"
    by (simp_all add: merge_adjacent_def holds_cong [of ?ls "rt_locks t"])
qed

text \<open>The conflict search finds exactly the requests that are blocked.\<close>

lemma overlap_point: "range_ok a b \<Longrightarrow> range_ok c d \<Longrightarrow> ranges_overlap a b c d \<longleftrightarrow> (\<exists>p. a \<le> p \<and> p \<le> b \<and> c \<le> p \<and> p \<le> d)"
  by (auto simp: range_ok_def ranges_overlap_def intro!: exI [of _ "max a c"])

lemma find_conflicts_iff:
  assumes "\<forall>l \<in> set (rt_locks t). lock_ok l" and "range_ok s e"
  shows "find_conflicts key owner ty s e t \<noteq> [] \<longleftrightarrow> blocked_by (rt_locks t) key owner ty s e"
proof -
  have "find_conflicts key owner ty s e t \<noteq> [] \<longleftrightarrow>
      (\<exists>l \<in> set (rt_locks t). pl_key l = key \<and> pl_owner l \<noteq> owner \<and> lock_conflicts (pl_type l) ty \<and>
        ranges_overlap (pl_start l) (pl_end l) s e)"
    by (auto simp: find_conflicts_def filter_empty_conv)
  also have "\<dots> \<longleftrightarrow> (\<exists>l \<in> set (rt_locks t). pl_key l = key \<and> pl_owner l \<noteq> owner \<and> lock_conflicts (pl_type l) ty \<and>
        (\<exists>p. pl_start l \<le> p \<and> p \<le> pl_end l \<and> s \<le> p \<and> p \<le> e))"
    using assms overlap_point by (intro bex_cong refl) (auto simp: lock_ok_def)
  finally show ?thesis by (auto simp: blocked_by_def holds_def)
qed

lemma take_waiters_eq:
  "take_waiters_for_released released t =
     (map wl_task (filter (released_hits released) (rt_waiters t)),
      t\<lparr>rt_waiters := filter (\<lambda>w. \<not> released_hits released w) (rt_waiters t)\<rparr>)"
proof (cases "released = []")
  case True
  then have "released_hits released = (\<lambda>_. False)" by (simp add: released_hits_def fun_eq_iff)
  with True show ?thesis by (simp add: take_waiters_for_released_def)
qed (simp add: take_waiters_for_released_def)

lemma released_misses:
  assumes "\<not> released_hits released w" and "rr \<in> set released" and "rr_key rr = wl_key w" and "rr_start rr \<le> p" "p \<le> rr_end rr"
  shows "\<not> (wl_start w \<le> p \<and> p \<le> wl_end w)"
  using assms by (force simp: released_hits_def ranges_overlap_def)

text \<open>
  The common part of all operations that give locks up: outside a set \<open>R\<close> of owner and byte, nothing is lost, and no
  waiter that stays queued asks for a byte of \<open>R\<close> that was locked.
\<close>

lemma record_table_keep:
  assumes ok: "record_table_ok t" and locks: "\<forall>l \<in> set locks'. lock_ok l" and excl: "exclusive locks'"
    and keep: "\<And>k ow ty p. holds (rt_locks t) k ow ty p \<Longrightarrow> \<not> R k ow p \<Longrightarrow> holds locks' k ow ty p"
    and sub: "set ws' \<subseteq> set (rt_waiters t)"
    and free: "\<And>w ow ty p. w \<in> set ws' \<Longrightarrow> holds (rt_locks t) (wl_key w) ow ty p \<Longrightarrow> R (wl_key w) ow p \<Longrightarrow>
        \<not> (wl_start w \<le> p \<and> p \<le> wl_end w)"
  shows "record_table_ok (t\<lparr>rt_locks := locks', rt_waiters := ws'\<rparr>)"
proof -
  have "waiter_ok w \<and> blocked_by locks' (wl_key w) (wl_owner w) (wl_type w) (wl_start w) (wl_end w)" if w: "w \<in> set ws'" for w
  proof -
    from w sub ok have "waiter_ok w" and b: "blocked_by (rt_locks t) (wl_key w) (wl_owner w) (wl_type w) (wl_start w) (wl_end w)"
      by (auto simp: record_table_ok_def)
    from b obtain ow ty p where "ow \<noteq> wl_owner w" and h: "holds (rt_locks t) (wl_key w) ow ty p"
      and c: "lock_conflicts ty (wl_type w)" "wl_start w \<le> p" "p \<le> wl_end w" unfolding blocked_by_def by blast
    moreover have "\<not> R (wl_key w) ow p" using free [OF w h] c by blast
    ultimately show ?thesis using keep [OF h] \<open>waiter_ok w\<close> unfolding blocked_by_def by blast
  qed
  with locks excl show ?thesis by (simp add: record_table_ok_def)
qed

lemma exclusive_mono:
  assumes "exclusive ls" and "\<And>k ow ty p. holds ls' k ow ty p \<Longrightarrow> holds ls k ow ty p"
  shows "exclusive ls'"
  using assms unfolding exclusive_def by metis

lemma record_table_exclusive: "record_table_ok t \<Longrightarrow> exclusive (rt_locks t)"
  by (simp add: record_table_ok_def)

lemma remove_range_ok:
  assumes ok: "record_table_ok t" and r: "range_ok s e"
  shows "case remove_owned_range key owner s e t of (released, t1) \<Rightarrow>
    record_table_ok (snd (take_waiters_for_released released t1)) \<and>
    (\<forall>k ow ty p. holds (rt_locks (snd (take_waiters_for_released released t1))) k ow ty p \<longleftrightarrow>
       holds (rt_locks t) k ow ty p \<and> \<not> (k = key \<and> ow = owner \<and> s \<le> p \<and> p \<le> e))"
proof -
  let ?rel = "map (\<lambda>lock. \<lparr>rr_key = key, rr_start = max (pl_start lock) s, rr_end = min (pl_end lock) e\<rparr>)
        (filter (touched key owner s e) (rt_locks t))"
  let ?locks = "concat (map (\<lambda>lock. if touched key owner s e lock then cut_lock s e lock else [lock]) (rt_locks t))"
  let ?ws = "filter (\<lambda>w. \<not> released_hits ?rel w) (rt_waiters t)"
  have lok: "\<forall>l \<in> set (rt_locks t). lock_ok l" using ok by (simp add: record_table_ok_def)
  note sem = cut_locks_holds [OF lok r, of key owner]
  have "record_table_ok (t\<lparr>rt_locks := ?locks, rt_waiters := ?ws\<rparr>)"
  proof (rule record_table_keep [OF ok, where R = "\<lambda>k ow p. k = key \<and> ow = owner \<and> s \<le> p \<and> p \<le> e"])
    show "\<forall>l \<in> set ?locks. lock_ok l" by (rule cut_locks_ok [OF lok r])
    show "exclusive ?locks" by (rule exclusive_mono [OF record_table_exclusive [OF ok]]) (simp only: sem)
    show "set ?ws \<subseteq> set (rt_waiters t)" by auto
    show "holds ?locks k ow ty p" if "holds (rt_locks t) k ow ty p" "\<not> (k = key \<and> ow = owner \<and> s \<le> p \<and> p \<le> e)" for k ow ty p
      using that sem by blast
    show "\<not> (wl_start w \<le> p \<and> p \<le> wl_end w)"
      if w: "w \<in> set ?ws" and h: "holds (rt_locks t) (wl_key w) ow ty p" and "wl_key w = key \<and> ow = owner \<and> s \<le> p \<and> p \<le> e"
      for w ow ty p
    proof -
      from h that(3) obtain l where l: "l \<in> set (rt_locks t)" "pl_key l = key" "pl_owner l = owner" "pl_start l \<le> p" "p \<le> pl_end l"
        by (auto simp: holds_def)
      with that(3) have "touched key owner s e l" by (auto simp: touched_def ranges_overlap_def)
      with l(1) have "\<lparr>rr_key = key, rr_start = max (pl_start l) s, rr_end = min (pl_end l) e\<rparr> \<in> set ?rel" by auto
      from released_misses [OF _ this, of w p] w that(3) l show ?thesis by simp
    qed
  qed
  with sem show ?thesis by (simp add: remove_owned_range_def take_waiters_eq)
qed

lemma drop_owner_ok:
  assumes ok: "record_table_ok t" and ws: "set ws \<subseteq> set (rt_waiters t)"
  shows "record_table_ok (snd (take_waiters_for_released (map range_of (filter (\<lambda>l. pl_owner l = owner) (rt_locks t)))
      (t\<lparr>rt_waiters := ws, rt_locks := filter (\<lambda>l. pl_owner l \<noteq> owner) (rt_locks t)\<rparr>)))"
proof -
  let ?rel = "map range_of (filter (\<lambda>l. pl_owner l = owner) (rt_locks t))"
  let ?locks = "filter (\<lambda>l. pl_owner l \<noteq> owner) (rt_locks t)"
  let ?ws = "filter (\<lambda>w. \<not> released_hits ?rel w) ws"
  have sem: "holds ?locks k ow ty p \<longleftrightarrow> holds (rt_locks t) k ow ty p \<and> ow \<noteq> owner" for k ow ty p
    by (rule holds_filter)
  have "record_table_ok (t\<lparr>rt_locks := ?locks, rt_waiters := ?ws\<rparr>)"
  proof (rule record_table_keep [OF ok, where R = "\<lambda>k ow p. ow = owner"])
    show "\<forall>l \<in> set ?locks. lock_ok l" using ok by (simp add: record_table_ok_def)
    show "exclusive ?locks" by (rule exclusive_mono [OF record_table_exclusive [OF ok]]) (simp only: sem)
    show "set ?ws \<subseteq> set (rt_waiters t)" using ws by auto
    show "holds ?locks k ow ty p" if "holds (rt_locks t) k ow ty p" "ow \<noteq> owner" for k ow ty p using that sem by blast
    show "\<not> (wl_start w \<le> p \<and> p \<le> wl_end w)"
      if w: "w \<in> set ?ws" and h: "holds (rt_locks t) (wl_key w) ow ty p" and "ow = owner" for w ow ty p
    proof -
      from h that(3) obtain l where l: "l \<in> set (rt_locks t)" "pl_key l = wl_key w" "pl_owner l = owner" "pl_start l \<le> p" "p \<le> pl_end l"
        by (auto simp: holds_def)
      then have "range_of l \<in> set ?rel" by auto
      from released_misses [OF _ this, of w p] w l show ?thesis by (auto simp: range_of_def)
    qed
  qed
  then show ?thesis by (simp add: take_waiters_eq)
qed

lemma exclusive_put:
  assumes old: "exclusive ls" and nb: "\<not> blocked_by ls key owner ty s e"
    and h: "\<And>k ow ty' p. holds ls' k ow ty' p \<longleftrightarrow>
      (if k = key \<and> ow = owner \<and> s \<le> p \<and> p \<le> e then ty' = ty else holds ls k ow ty' p)"
  shows "exclusive ls'"
  unfolding exclusive_def
proof (intro allI impI, elim conjE)
  fix k o1 t1 o2 t2 p
  assume h1: "holds ls' k o1 t1 p" and h2: "holds ls' k o2 t2 p" and c: "lock_conflicts t1 t2"
  have c': "lock_conflicts t2 t1" using c by (auto simp: lock_conflicts_def)
  have clash: False if "k = key" "s \<le> p" "p \<le> e" "ow \<noteq> owner" "holds ls key ow t p" "lock_conflicts t ty" for ow t
    using nb that unfolding blocked_by_def by blast
  show "o1 = o2 \<and> t1 = t2"
  proof (cases "k = key \<and> s \<le> p \<and> p \<le> e")
    case True
    consider "o1 = owner" "o2 = owner" | "o1 = owner" "o2 \<noteq> owner" | "o1 \<noteq> owner" "o2 = owner"
      | "o1 \<noteq> owner" "o2 \<noteq> owner" by blast
    then show ?thesis
    proof cases
      case 1
      with True h1 h2 show ?thesis by (simp add: h)
    next
      case 2
      with True h1 h2 have "t1 = ty" "holds ls key o2 t2 p" by (simp_all add: h)
      with clash [of o2 t2] True 2 c' show ?thesis by blast
    next
      case 3
      with True h1 h2 have "t2 = ty" "holds ls key o1 t1 p" by (simp_all add: h)
      with clash [of o1 t1] True 3 c show ?thesis by blast
    next
      case 4
      with True h1 h2 have "holds ls k o1 t1 p" "holds ls k o2 t2 p" by (simp_all add: h)
      with old c show ?thesis unfolding exclusive_def by blast
    qed
  next
    case False
    then have "holds ls k o1 t1 p" "holds ls k o2 t2 p" using h1 h2 unfolding h by auto
    with old c show ?thesis unfolding exclusive_def by blast
  qed
qed

lemma record_set_lock_cases:
  assumes ok: "record_table_ok t" and r: "range_ok s e" and set: "record_set_lock key owner ty s e t = (res, t')"
  shows "(res = Inl EAGAIN \<and> t' = t \<and> ty \<noteq> F_UNLCK \<and> blocked_by (rt_locks t) key owner ty s e) \<or>
    (\<exists>w. res = Inr w \<and> record_table_ok t' \<and> (ty = F_UNLCK \<or> \<not> blocked_by (rt_locks t) key owner ty s e) \<and>
     (\<forall>k ow ty' p. holds (rt_locks t') k ow ty' p \<longleftrightarrow>
       (if k = key \<and> ow = owner \<and> s \<le> p \<and> p \<le> e then ty \<noteq> F_UNLCK \<and> ty' = ty else holds (rt_locks t) k ow ty' p)))"
proof -
  have lok: "\<forall>l \<in> set (rt_locks t). lock_ok l" using ok by (simp add: record_table_ok_def)
  note iff = find_conflicts_iff [OF lok r, of key owner ty]
  show ?thesis
  proof (cases "ty \<noteq> F_UNLCK \<and> find_conflicts key owner ty s e t \<noteq> []")
    case True
    with set iff show ?thesis by (simp add: record_set_lock_def)
  next
    case False
    then have free: "ty = F_UNLCK \<or> \<not> blocked_by (rt_locks t) key owner ty s e" using iff by blast
    obtain rel t1 where rm: "remove_owned_range key owner s e t = (rel, t1)" by fastforce
    obtain w t2 where tw: "take_waiters_for_released rel t1 = (w, t2)" by fastforce
    from remove_range_ok [OF ok r, of key owner] rm tw
    have t2: "record_table_ok t2" and h2: "\<And>k ow ty p. holds (rt_locks t2) k ow ty p \<longleftrightarrow>
        holds (rt_locks t) k ow ty p \<and> \<not> (k = key \<and> ow = owner \<and> s \<le> p \<and> p \<le> e)" by auto
    show ?thesis
    proof (cases "ty = F_UNLCK")
      case True
      with False rm tw set have "res = Inr w" "t' = t2" by (auto simp: record_set_lock_def)
      with True t2 h2 show ?thesis by auto
    next
      case new: False
      let ?l = "\<lparr>pl_key = key, pl_owner = owner, pl_type = ty, pl_start = s, pl_end = e\<rparr>"
      let ?t3 = "t2\<lparr>rt_locks := rt_locks t2 @ [?l]\<rparr>"
      from new False rm tw set have res: "res = Inr w" and t': "t' = merge_adjacent ?t3"
        by (auto simp: record_set_lock_def)
      have ok3: "\<forall>l \<in> set (rt_locks ?t3). lock_ok l" using t2 r by (auto simp: record_table_ok_def lock_ok_def)
      have h: "holds (rt_locks t') k ow ty' p \<longleftrightarrow>
          (if k = key \<and> ow = owner \<and> s \<le> p \<and> p \<le> e then ty' = ty else holds (rt_locks t) k ow ty' p)" for k ow ty' p
        unfolding t' merge_adjacent_sem(2) [OF ok3] by (auto simp: h2)
      have ex: "exclusive (rt_locks t')"
        by (rule exclusive_put [OF record_table_exclusive [OF ok] _ h]) (use free new in blast)
      have "record_table_ok (t2\<lparr>rt_locks := rt_locks t', rt_waiters := rt_waiters t2\<rparr>)"
        by (rule record_table_keep [OF t2 _ ex, where R = "\<lambda>_ _ _. False"])
           (use merge_adjacent_sem(1) [OF ok3] h h2 t' in \<open>auto split: if_split_asm\<close>)
      moreover have "t2\<lparr>rt_locks := rt_locks t', rt_waiters := rt_waiters t2\<rparr> = t'"
        by (simp add: t' merge_adjacent_def)
      ultimately have "record_table_ok t'" by simp
      with res h free new show ?thesis by auto
    qed
  qed
qed

lemma flock_range_ok:
  assumes "flock_range f flock = Inr (s, e)"
  shows "range_ok s e"
  using assms
  by (auto simp: flock_range_def checked_i64_def range_ok_def i64_max_def split: if_split_asm sum.split_asm option.split_asm)

text \<open>The bits of the summary word.\<close>

lemma and_pow_nonzero: "w AND 2 ^ n \<noteq> 0 \<longleftrightarrow> bit w n" for w :: usize
  using and_exp_eq_0_iff_not_bit [of w n] by simp

definition class_bit :: "record_lock_owner \<Rightarrow> nat" where
  "class_bit ow = (case ow of Process _ \<Rightarrow> 0 | FileDescription _ \<Rightarrow> 1)"

lemma class_bits:
  "owner_class ow = 2 ^ (class_bit ow)" "FLOCKS_ACTIVE = 2 ^ 2"
  "POSIX_LOCKS_ACTIVE = 2 ^ 0" "OFD_LOCKS_ACTIVE = 2 ^ 1"
  by (simp_all add: owner_class_def class_bit_def POSIX_LOCKS_ACTIVE_def OFD_LOCKS_ACTIVE_def FLOCKS_ACTIVE_def
      split: record_lock_owner.split)

lemma fold_or_bit: "bit (fold (\<lambda>ow c. c OR owner_class ow) os c) n \<longleftrightarrow> bit c n \<or> (\<exists>ow \<in> set os. bit (owner_class ow) n)"
  by (induction os arbitrary: c) (auto simp: bit_or_iff)

lemma class_own_bit: "bit (owner_class ow) (class_bit ow)"
  by (simp add: owner_class_def class_bit_def POSIX_LOCKS_ACTIVE_def OFD_LOCKS_ACTIVE_def split: record_lock_owner.split)

lemma publish_record_bits:
  "ow \<in> set (map pl_owner (rt_locks t) @ map wl_owner (rt_waiters t)) \<Longrightarrow>
     publish_record_lock_activity t a AND owner_class ow \<noteq> 0"
  "a AND FLOCKS_ACTIVE \<noteq> 0 \<Longrightarrow> publish_record_lock_activity t a AND FLOCKS_ACTIVE \<noteq> 0"
proof -
  let ?c = "fold (\<lambda>ow c. c OR owner_class ow) (map pl_owner (rt_locks t) @ map wl_owner (rt_waiters t)) 0"
  have p: "publish_record_lock_activity t a = (a AND NOT RECORD_LOCKS_ACTIVE) OR ?c"
    by (simp add: publish_record_lock_activity_def)
  show "publish_record_lock_activity t a AND owner_class ow \<noteq> 0"
    if "ow \<in> set (map pl_owner (rt_locks t) @ map wl_owner (rt_waiters t))"
  proof -
    have "bit ?c (class_bit ow)"
      unfolding fold_or_bit using that class_own_bit by blast
    then show ?thesis unfolding p class_bits(1) [of ow] and_pow_nonzero by (simp add: bit_or_iff)
  qed
  show "publish_record_lock_activity t a AND FLOCKS_ACTIVE \<noteq> 0" if "a AND FLOCKS_ACTIVE \<noteq> 0"
  proof -
    have "bit a 2" using that unfolding class_bits(2) and_pow_nonzero .
    moreover have "\<not> bit RECORD_LOCKS_ACTIVE 2"
      by (simp add: RECORD_LOCKS_ACTIVE_def POSIX_LOCKS_ACTIVE_def OFD_LOCKS_ACTIVE_def)
    ultimately have "bit (publish_record_lock_activity t a) 2"
      unfolding p by (simp add: bit_or_iff bit_and_iff bit_not_iff)
    then show ?thesis unfolding class_bits(2) and_pow_nonzero .
  qed
qed

lemma publish_flock_bits:
  "ft_locks t \<noteq> [] \<or> ft_waiters t \<noteq> [] \<Longrightarrow> publish_flock_activity t a AND FLOCKS_ACTIVE \<noteq> 0"
  "a AND owner_class ow \<noteq> 0 \<Longrightarrow> publish_flock_activity t a AND owner_class ow \<noteq> 0"
proof -
  show "publish_flock_activity t a AND FLOCKS_ACTIVE \<noteq> 0" if "ft_locks t \<noteq> [] \<or> ft_waiters t \<noteq> []"
  proof -
    have "bit (a OR FLOCKS_ACTIVE) 2" by (simp add: bit_or_iff FLOCKS_ACTIVE_def)
    with that have "bit (publish_flock_activity t a) 2" by (auto simp: publish_flock_activity_def)
    then show ?thesis unfolding class_bits(2) and_pow_nonzero .
  qed
  show "publish_flock_activity t a AND owner_class ow \<noteq> 0" if "a AND owner_class ow \<noteq> 0"
  proof -
    let ?n = "class_bit ow"
    have "bit a ?n" using that unfolding class_bits(1) [of ow] and_pow_nonzero .
    moreover have "\<not> bit FLOCKS_ACTIVE ?n" by (simp add: FLOCKS_ACTIVE_def class_bit_def split: record_lock_owner.split)
    moreover have "bit a ?n \<Longrightarrow> possible_bit TYPE(usize) ?n" by (rule bit_imp_possible_bit)
    ultimately have "bit (publish_flock_activity t a) ?n"
      by (simp add: publish_flock_activity_def bit_or_iff bit_and_iff bit_not_iff)
    then show ?thesis unfolding class_bits(1) [of ow] and_pow_nonzero .
  qed
qed

lemma put_record_summary:
  assumes "ft_locks (ls_flock s) \<noteq> [] \<or> ft_waiters (ls_flock s) \<noteq> [] \<longrightarrow> ls_active s AND FLOCKS_ACTIVE \<noteq> 0"
    and "\<forall>pid. has_process_locks pid t \<longrightarrow> ls_has_posix s pid"
  shows "summary_ok (put_record t s)"
  using assms publish_record_bits(1) [of _ t "ls_active s"] publish_record_bits(2) [of "ls_active s" t]
  by (auto simp: summary_ok_def put_record_def)

lemma put_flock_summary: "summary_ok s \<Longrightarrow> summary_ok (put_flock t s)"
  using publish_flock_bits(1) [of t "ls_active s"] publish_flock_bits(2) [of "ls_active s" _ t]
  by (auto simp: summary_ok_def put_flock_def)

lemma has_process_holds:
  assumes "\<forall>l \<in> set (rt_locks t). lock_ok l"
  shows "has_process_locks pid t \<longleftrightarrow> (\<exists>k ty p. holds (rt_locks t) k (Process pid) ty p)"
proof -
  have "\<exists>k ty p. holds (rt_locks t) k (Process pid) ty p" if "l \<in> set (rt_locks t)" "pl_owner l = Process pid" for l
    using that assms by (intro exI [of _ "pl_key l"] exI [of _ "pl_type l"] exI [of _ "pl_start l"])
      (auto simp: holds_def lock_ok_def range_ok_def)
  then show ?thesis by (auto simp: has_process_locks_def holds_def)
qed

lemma record_locks_ok: "record_table_ok t \<Longrightarrow> \<forall>l \<in> set (rt_locks t). lock_ok l"
  by (simp add: record_table_ok_def)

text \<open>Storing the table after a successful call of \<open>owner\<close>.\<close>

lemma store_ok:
  assumes s: "lock_state_ok s" and t: "record_table_ok t"
    and others: "\<And>k pid ty p. Process pid \<noteq> owner \<Longrightarrow> holds (rt_locks t) k (Process pid) ty p \<Longrightarrow>
        holds (rt_locks (ls_record s)) k (Process pid) ty p"
  shows "lock_state_ok (put_record t (note_owner owner t s))"
proof -
  have "ls_has_posix (note_owner owner t s) pid" if h: "has_process_locks pid t" for pid
  proof (cases "owner = Process pid")
    case True
    with h show ?thesis by (simp add: note_owner_def)
  next
    case False
    from h has_process_holds [OF record_locks_ok [OF t]] obtain k ty p where "holds (rt_locks t) k (Process pid) ty p" by blast
    with others [of pid k ty p] False have "holds (rt_locks (ls_record s)) k (Process pid) ty p" by auto
    moreover have "record_table_ok (ls_record s)" using s by (simp add: lock_state_ok_def)
    ultimately have "has_process_locks pid (ls_record s)" using has_process_holds [OF record_locks_ok] by blast
    then have "ls_has_posix s pid" using s by (simp add: lock_state_ok_def summary_ok_def)
    with False show ?thesis by (cases owner) (auto simp: note_owner_def)
  qed
  moreover have "ft_locks (ls_flock s) \<noteq> [] \<or> ft_waiters (ls_flock s) \<noteq> [] \<longrightarrow> ls_active s AND FLOCKS_ACTIVE \<noteq> 0"
    using s by (simp add: lock_state_ok_def summary_ok_def)
  moreover have "ls_flock (note_owner owner t s) = ls_flock s" "ls_active (note_owner owner t s) = ls_active s"
    by (simp_all add: note_owner_def split: record_lock_owner.split)
  ultimately have "summary_ok (put_record t (note_owner owner t s))" by (intro put_record_summary) auto
  with s t show ?thesis
    by (simp add: lock_state_ok_def put_record_def note_owner_def split: record_lock_owner.split)
qed

lemma set_store_ok:
  assumes s: "lock_state_ok s" and r: "range_ok st e"
    and set: "record_set_lock key owner ty st e (ls_record s) = (Inr w, t)"
  shows "lock_state_ok (put_record t (note_owner owner t s))"
proof -
  have "record_table_ok (ls_record s)" using s by (simp add: lock_state_ok_def)
  from record_set_lock_cases [OF this r set] have t: "record_table_ok t"
    and h: "\<And>k ow ty' p. holds (rt_locks t) k ow ty' p \<longleftrightarrow> (if k = key \<and> ow = owner \<and> st \<le> p \<and> p \<le> e
       then ty \<noteq> F_UNLCK \<and> ty' = ty else holds (rt_locks (ls_record s)) k ow ty' p)" by auto
  show ?thesis by (rule store_ok [OF s t]) (auto simp: h split: if_split_asm)
qed

lemma set_fail_same:
  assumes "record_table_ok t" and "range_ok st e" and "record_set_lock key owner ty st e t = (Inl x, t')"
  shows "t' = t"
  using record_set_lock_cases [OF assms] by auto

lemma setlk_parse_ok: "setlk_parse rd f = Inr (key, ty, s, e) \<Longrightarrow> range_ok s e \<and> valid_setlk_type ty"
  by (auto simp: setlk_parse_def dest: flock_range_ok split: sum.split_asm if_split_asm option.split_asm)

lemma setlk_ok:
  assumes s: "lock_state_ok s" and c: "fcntl_setlk_with_owner rd f owner s = (r, s', woken)"
  shows "lock_state_ok s'"
proof (cases "setlk_parse rd f")
  case (Inl e)
  with s c show ?thesis by (simp add: fcntl_setlk_with_owner_def)
next
  case (Inr q)
  obtain key ty st e where q: "q = (key, ty, st, e)" by (cases q) auto
  have rg: "range_ok st e" using setlk_parse_ok Inr q by blast
  obtain res t where set: "record_set_lock key owner ty st e (ls_record s) = (res, t)" by fastforce
  show ?thesis
  proof (cases res)
    case x: (Inl x)
    have "t = ls_record s" using set_fail_same [OF _ rg] set x s by (simp add: lock_state_ok_def)
    with s c Inr q set x show ?thesis by (simp add: fcntl_setlk_with_owner_def)
  next
    case w: (Inr w)
    with c Inr q set have "s' = put_record t (note_owner owner t s)" by (simp add: fcntl_setlk_with_owner_def)
    with set_store_ok [OF s rg] set w show ?thesis by simp
  qed
qed

lemma enqueue_ok:
  assumes "record_table_ok t" and "range_ok st e" and "blocked_by (rt_locks t) key owner ty st e"
  shows "record_table_ok (record_enqueue_waiter \<lparr>wl_key = key, wl_owner = owner, wl_type = ty, wl_start = st,
    wl_end = e, wl_task = task\<rparr> t)"
  using assms by (auto simp: record_table_ok_def record_enqueue_waiter_def waiter_ok_def)

lemma setlkw_pass_ok:
  assumes s: "lock_state_ok s" and rg: "range_ok st e"
    and c: "setlkw_pass key ty st e owner dd task s = (r, s', woken)"
  shows "lock_state_ok s'"
proof -
  let ?conf = "if ty = F_UNLCK then [] else find_conflicts key owner ty st e (ls_record s)"
  have t: "record_table_ok (ls_record s)" using s by (simp add: lock_state_ok_def)
  show ?thesis
  proof (cases "?conf = []")
    case True
    obtain res t' where set: "record_set_lock key owner ty st e (ls_record s) = (res, t')" by fastforce
    show ?thesis
    proof (cases res)
      case x: (Inl x)
      have "t' = ls_record s" using set_fail_same [OF t rg] set x by simp
      with s c True set x show ?thesis by (simp add: setlkw_pass_def)
    next
      case w: (Inr w)
      with c True set have "s' = put_record t' (note_owner owner t' s)" by (simp add: setlkw_pass_def)
      with set_store_ok [OF s rg] set w show ?thesis by simp
    qed
  next
    case False
    then have b: "blocked_by (rt_locks (ls_record s)) key owner ty st e"
      using find_conflicts_iff [OF record_locks_ok [OF t] rg] by (auto split: if_split_asm)
    let ?t = "record_enqueue_waiter \<lparr>wl_key = key, wl_owner = owner, wl_type = ty, wl_start = st, wl_end = e, wl_task = task\<rparr>
        (ls_record s)"
    from False c have "s' = s \<or> s' = put_record ?t s" by (auto simp: setlkw_pass_def Let_def split: if_split_asm)
    moreover have "summary_ok (put_record ?t s)"
      using s by (intro put_record_summary)
        (auto simp: lock_state_ok_def summary_ok_def has_process_locks_def record_enqueue_waiter_def)
    then have "lock_state_ok (put_record ?t s)"
      using s enqueue_ok [OF t rg b] by (simp add: lock_state_ok_def put_record_def)
    ultimately show ?thesis using s by blast
  qed
qed

lemma setlkw_ok:
  assumes s: "lock_state_ok s" and c: "fcntl_setlkw_with_owner rd f owner dd task [] s = (r, s')"
  shows "lock_state_ok s'"
proof (cases "setlk_parse rd f")
  case (Inl e)
  with s c show ?thesis by (simp add: fcntl_setlkw_with_owner_def)
next
  case (Inr q)
  obtain key ty st e where q: "q = (key, ty, st, e)" by (cases q) auto
  have rg: "range_ok st e" using setlk_parse_ok Inr q by blast
  obtain x s1 w where p: "setlkw_pass key ty st e owner dd task s = (x, s1, w)" by (metis prod.exhaust)
  then have "s' = s1" using c Inr q by (cases x) (simp_all add: fcntl_setlkw_with_owner_def)
  with setlkw_pass_ok [OF s rg p] show ?thesis by simp
qed

lemma flock_take_locks [simp]: "ft_locks (snd (take_waiters_for_keys ks t)) = ft_locks t"
  by (simp add: take_waiters_for_keys_def)

lemma flock_set_lock_ok:
  assumes ok: "flock_table_ok t" and set: "flock_set_lock key owner mode t = (r, t')"
  shows "flock_table_ok t'"
proof (cases "flock_has_conflict key owner mode t")
  case True
  with ok set show ?thesis by (simp add: flock_set_lock_def)
next
  case False
  let ?new = "\<lparr>fl_key = key, fl_owner = owner, fl_mode = mode\<rparr>"
  have "ft_locks t' = filter (\<lambda>l. fl_key l \<noteq> key \<or> fl_owner l \<noteq> owner) (ft_locks t) @ [?new]"
    using set False by (simp add: flock_set_lock_def remove_owner_lock_def take_waiters_for_keys_def Let_def) auto
  moreover have "fl_owner l = owner" if "l \<in> set (ft_locks t)" "fl_key l = key" "flock_modes_conflict (fl_mode l) mode" for l
    using False that by (auto simp: flock_has_conflict_def)
  ultimately show ?thesis using ok
    by (auto simp: flock_table_ok_def flock_modes_conflict_def)
qed

lemma flock_filter_ok: "flock_table_ok t \<Longrightarrow> set (ft_locks t') \<subseteq> set (ft_locks t) \<Longrightarrow> flock_table_ok t'"
  by (auto simp: flock_table_ok_def)

lemma put_flock_ok: "lock_state_ok s \<Longrightarrow> flock_table_ok t \<Longrightarrow> lock_state_ok (put_flock t s)"
  using put_flock_summary [of s t] by (simp add: lock_state_ok_def) (simp add: put_flock_def)

lemma flock_ok:
  assumes s: "lock_state_ok s" and c: "flock_operation f operation task [] s = (r, s')"
  shows "lock_state_ok s'"
proof (cases "parse_flock_operation operation")
  case (Inl e)
  with s c show ?thesis by (simp add: flock_operation_def)
next
  case (Inr q)
  obtain mode nb where q: "q = (mode, nb)" by (cases q)
  have fl: "flock_table_ok (ls_flock s)" using s by (simp add: lock_state_ok_def)
  show ?thesis
  proof (cases "lock_key_of f")
    case (Inl e)
    with s c Inr q show ?thesis by (simp add: flock_operation_def)
  next
    case key: (Inr key)
    show ?thesis
    proof (cases mode)
      case None
      with c Inr q key have "s' = put_flock (snd (flock_unlock key (lf_id f) (ls_flock s))) s"
        by (simp add: flock_operation_def)
      moreover have "flock_table_ok (snd (flock_unlock key (lf_id f) (ls_flock s)))"
        by (rule flock_filter_ok [OF fl]) (auto simp: flock_unlock_def remove_owner_lock_def)
      ultimately show ?thesis using put_flock_ok [OF s] by simp
    next
      case (Some md)
      obtain x t where set: "flock_set_lock key (lf_id f) md (ls_flock s) = (x, t)" by fastforce
      have t: "flock_table_ok t" by (rule flock_set_lock_ok [OF fl set])
      have same: "t = ls_flock s" if "x = Inl e" for e
        using set that by (auto simp: flock_set_lock_def Let_def split: if_split_asm prod.split_asm)
      have "flock_table_ok (flock_enqueue_waiter w t)" for w
        by (rule flock_filter_ok [OF t]) (simp add: flock_enqueue_waiter_def)
      with c Inr q key Some set same s t show ?thesis
        by (cases x) (auto simp: flock_operation_def Let_def put_flock_ok split: if_split_asm)
    qed
  qed
qed

lemma holds_process_file:
  assumes "record_table_ok t"
  shows "record_table_ok (snd (release_for_process_file key pid t))"
    "p \<le> i64_max \<Longrightarrow> 0 \<le> p \<Longrightarrow> holds (rt_locks (snd (release_for_process_file key pid t))) k ow ty p \<longleftrightarrow>
      holds (rt_locks t) k ow ty p \<and> \<not> (k = key \<and> ow = Process pid)"
    "holds (rt_locks (snd (release_for_process_file key pid t))) k ow ty p \<Longrightarrow> holds (rt_locks t) k ow ty p"
proof -
  obtain rel t1 where rm: "remove_owned_range key (Process pid) 0 LOCK_TO_EOF t = (rel, t1)" by fastforce
  have rg: "range_ok 0 LOCK_TO_EOF" by (simp add: range_ok_def i64_max_def)
  from remove_range_ok [OF assms rg, of key "Process pid"] rm
  show "record_table_ok (snd (release_for_process_file key pid t))"
    "p \<le> i64_max \<Longrightarrow> 0 \<le> p \<Longrightarrow> holds (rt_locks (snd (release_for_process_file key pid t))) k ow ty p \<longleftrightarrow>
      holds (rt_locks t) k ow ty p \<and> \<not> (k = key \<and> ow = Process pid)"
    "holds (rt_locks (snd (release_for_process_file key pid t))) k ow ty p \<Longrightarrow> holds (rt_locks t) k ow ty p"
    by (auto simp: release_for_process_file_def)
qed

lemma close_record_ok:
  assumes s: "lock_state_ok s"
  shows "lock_state_ok (release_record_locks_for_close f pid s)"
proof (cases "ls_has_posix s pid \<and> (\<exists>key. lock_key_of f = Inr key)")
  case False
  with s show ?thesis by (auto simp: release_record_locks_for_close_def split: sum.split)
next
  case True
  then obtain key where key: "lock_key_of f = Inr key" "ls_has_posix s pid" by blast
  let ?t = "snd (release_for_process_file key pid (ls_record s))"
  have t: "record_table_ok (ls_record s)" using s by (simp add: lock_state_ok_def)
  have "lock_state_ok (put_record ?t (note_owner (Process pid) ?t s))"
    by (rule store_ok [OF s holds_process_file(1) [OF t]]) (rule holds_process_file(3) [OF t])
  with key show ?thesis by (simp add: release_record_locks_for_close_def Let_def note_owner_def)
qed

text \<open>Dropping an owner: the two callers differ in the owner and in the waiters they drop first.\<close>

lemma release_sem:
  shows "rt_locks (snd (release_for_process pid t)) = filter (\<lambda>l. pl_owner l \<noteq> Process pid) (rt_locks t)"
    "rt_locks (snd (release_for_file_description file t)) = filter (\<lambda>l. pl_owner l \<noteq> FileDescription file) (rt_locks t)"
  by (simp_all add: release_for_process_def release_for_file_description_def take_waiters_eq Let_def
      remove_waiters_for_pid_def remove_waiters_for_file_description_def)

lemma release_ok:
  assumes "record_table_ok t"
  shows "record_table_ok (snd (release_for_process pid t))" "record_table_ok (snd (release_for_file_description file t))"
proof -
  have "set (filter P (rt_waiters t)) \<subseteq> set (rt_waiters t)" for P by auto
  from drop_owner_ok [OF assms this, of "Process pid" "\<lambda>w. wl_owner w \<noteq> Process pid"]
    drop_owner_ok [OF assms this, of "FileDescription file" "\<lambda>w. wl_owner w \<noteq> FileDescription file"]
  show "record_table_ok (snd (release_for_process pid t))" "record_table_ok (snd (release_for_file_description file t))"
    by (simp_all add: release_for_process_def release_for_file_description_def Let_def
        remove_waiters_for_pid_def remove_waiters_for_file_description_def)
qed

lemma put_smaller_ok:
  assumes s: "lock_state_ok s" and t: "record_table_ok t" and sub: "set (rt_locks t) \<subseteq> set (rt_locks (ls_record s))"
  shows "lock_state_ok (put_record t s)"
proof -
  have "has_process_locks pid (ls_record s)" if "has_process_locks pid t" for pid
    using that sub by (auto simp: has_process_locks_def)
  then have "summary_ok (put_record t s)"
    using s by (intro put_record_summary) (auto simp: lock_state_ok_def summary_ok_def)
  with s t show ?thesis by (simp add: lock_state_ok_def put_record_def)
qed

lemma close_ofd_ok: "lock_state_ok s \<Longrightarrow> lock_state_ok (release_ofd_record_locks_for_close f referenced s)"
  using put_smaller_ok [of s "snd (release_for_file_description (lf_id f) (ls_record s))"] release_ok(2)
  by (auto simp: release_ofd_record_locks_for_close_def release_sem lock_state_ok_def)

lemma close_flock_ok: "lock_state_ok s \<Longrightarrow> lock_state_ok (release_flock_locks_for_close f referenced s)"
proof -
  assume s: "lock_state_ok s"
  have "flock_table_ok (snd (release_owner (lf_id f) (ls_flock s)))"
    by (rule flock_filter_ok [of "ls_flock s"]) (use s in \<open>auto simp: lock_state_ok_def release_owner_def Let_def\<close>)
  with put_flock_ok [OF s] s show ?thesis by (simp add: release_flock_locks_for_close_def)
qed

lemma close_ok: "lock_state_ok s \<Longrightarrow> lock_state_ok (release_file_locks_for_close f pid referenced s)"
  by (simp add: release_file_locks_for_close_def Let_def close_record_ok close_ofd_ok close_flock_ok)

lemma exit_ok: "lock_state_ok s \<Longrightarrow> lock_state_ok (release_record_locks_for_process pid s)"
  using put_smaller_ok [of s "snd (release_for_process pid (ls_record s))"] release_ok(1)
  by (auto simp: release_record_locks_for_process_def release_sem lock_state_ok_def)

lemma lock_new_ok: "lock_state_ok lock_state_new"
  by (simp add: lock_state_ok_def lock_state_new_def record_table_ok_def exclusive_def flock_table_ok_def
      summary_ok_def has_process_locks_def)

lemma lock_reachable_ok: "lock_reachable s \<Longrightarrow> lock_state_ok s"
  by (induction rule: lock_reachable.induct)
     (blast intro: lock_new_ok setlk_ok setlkw_ok flock_ok close_ok exit_ok)+

lemma lock_class_active: "lock_state_ok s \<Longrightarrow> l \<in> set (rt_locks (ls_record s)) \<Longrightarrow> ls_active s AND owner_class (pl_owner l) \<noteq> 0"
  by (simp add: lock_state_ok_def summary_ok_def)

lemma flock_close_record: "ls_record (release_flock_locks_for_close f referenced s) = ls_record s"
  by (simp add: release_flock_locks_for_close_def put_flock_def)

lemma record_close_flock:
  "ls_flock (release_record_locks_for_close f pid s) = ls_flock s"
  "ls_flock (release_ofd_record_locks_for_close f referenced s) = ls_flock s"
  by (simp_all add: release_record_locks_for_close_def release_ofd_record_locks_for_close_def put_record_def Let_def
      split: sum.split)

lemma ofd_close_sub:
  "set (rt_locks (ls_record (release_ofd_record_locks_for_close f referenced s))) \<subseteq> set (rt_locks (ls_record s))"
  by (auto simp: release_ofd_record_locks_for_close_def put_record_def release_sem)

lemma lock_holds: "lock_ok l \<Longrightarrow> l \<in> set ls \<Longrightarrow> holds ls (pl_key l) (pl_owner l) (pl_type l) (pl_start l)"
  by (auto simp: holds_def lock_ok_def range_ok_def)

lemma posix_closed:
  assumes s: "lock_state_ok s" and key: "lock_key_of f = Inr key"
  shows "\<not> holds (rt_locks (ls_record (if ls_active s AND POSIX_LOCKS_ACTIVE \<noteq> 0
      then release_record_locks_for_close f pid s else s))) key (Process pid) ty p"
proof
  assume h: "holds (rt_locks (ls_record (if ls_active s AND POSIX_LOCKS_ACTIVE \<noteq> 0
      then release_record_locks_for_close f pid s else s))) key (Process pid) ty p"
  have t: "record_table_ok (ls_record s)" using s by (simp add: lock_state_ok_def)
  let ?t = "snd (release_for_process_file key pid (ls_record s))"
  consider "ls_active s AND POSIX_LOCKS_ACTIVE = 0 \<or> \<not> ls_has_posix s pid" "holds (rt_locks (ls_record s)) key (Process pid) ty p"
    | "holds (rt_locks ?t) key (Process pid) ty p"
    using h key by (auto simp: release_record_locks_for_close_def put_record_def Let_def split: if_split_asm)
  then show False
  proof cases
    case 1
    then obtain l where l: "l \<in> set (rt_locks (ls_record s))" "pl_owner l = Process pid" by (auto simp: holds_def)
    then have "has_process_locks pid (ls_record s)" by (auto simp: has_process_locks_def)
    moreover have "ls_active s AND POSIX_LOCKS_ACTIVE \<noteq> 0"
      using lock_class_active [OF s l(1)] l(2) by (simp add: owner_class_def)
    ultimately show False using 1 s by (simp add: lock_state_ok_def summary_ok_def)
  next
    case 2
    then have h0: "holds (rt_locks (ls_record s)) key (Process pid) ty p" by (rule holds_process_file(3) [OF t])
    then have "0 \<le> p \<and> p \<le> i64_max"
      using record_locks_ok [OF t] by (fastforce simp: holds_def lock_ok_def range_ok_def)
    with holds_process_file(2) [OF t, of p key pid key "Process pid" ty] 2 show False by blast
  qed
qed

lemma ofd_closed:
  assumes s: "lock_state_ok s" and "\<not> referenced"
    and l: "l \<in> set (rt_locks (ls_record (let s1 = (if ls_active s AND POSIX_LOCKS_ACTIVE \<noteq> 0
        then release_record_locks_for_close f pid s else s)
      in if ls_active s AND OFD_LOCKS_ACTIVE \<noteq> 0 then release_ofd_record_locks_for_close f referenced s1 else s1)))"
  shows "pl_owner l \<noteq> FileDescription (lf_id f)"
proof
  assume own: "pl_owner l = FileDescription (lf_id f)"
  let ?s1 = "if ls_active s AND POSIX_LOCKS_ACTIVE \<noteq> 0 then release_record_locks_for_close f pid s else s"
  have ok1: "lock_state_ok ?s1" using s close_record_ok [OF s] by simp
  show False
  proof (cases "ls_active s AND OFD_LOCKS_ACTIVE \<noteq> 0")
    case True
    then have "l \<in> set (rt_locks (ls_record (release_ofd_record_locks_for_close f referenced ?s1)))"
      using l by (simp only: Let_def if_True not_False_eq_True)
    with own assms(2) show False
      by (auto simp: release_ofd_record_locks_for_close_def has_file_description_state_def put_record_def release_sem
          simp del: if_split split: if_split_asm)
  next
    case False
    then have l1: "l \<in> set (rt_locks (ls_record ?s1))" using l by (simp add: Let_def)
    have t: "record_table_ok (ls_record s)" "record_table_ok (ls_record ?s1)"
      using s ok1 by (simp_all only: lock_state_ok_def)
    have "holds (rt_locks (ls_record ?s1)) (pl_key l) (FileDescription (lf_id f)) (pl_type l) (pl_start l)"
      using lock_holds [OF _ l1] record_locks_ok [OF t(2)] l1 own by metis
    then have "holds (rt_locks (ls_record s)) (pl_key l) (FileDescription (lf_id f)) (pl_type l) (pl_start l)"
      using holds_process_file(3) [OF t(1)]
      by (auto simp: release_record_locks_for_close_def put_record_def Let_def split: if_split_asm sum.split_asm)
    then obtain l' where "l' \<in> set (rt_locks (ls_record s))" "pl_owner l' = FileDescription (lf_id f)" by (auto simp: holds_def)
    with lock_class_active [OF s] False show False by (fastforce simp: owner_class_def)
  qed
qed

lemma flock_closed:
  assumes s: "lock_state_ok s" and fl: "ls_flock s2 = ls_flock s" and "\<not> referenced"
    and l: "l \<in> set (ft_locks (ls_flock (if ls_active s AND FLOCKS_ACTIVE \<noteq> 0
      then release_flock_locks_for_close f referenced s2 else s2)))"
  shows "fl_owner l \<noteq> lf_id f"
proof (cases "ls_active s AND FLOCKS_ACTIVE \<noteq> 0")
  case True
  with l assms(3) show ?thesis
    by (auto simp: release_flock_locks_for_close_def has_owner_state_def put_flock_def release_owner_def Let_def
        split: if_split_asm)
next
  case False
  with s l fl show ?thesis by (auto simp: lock_state_ok_def summary_ok_def)
qed

section \<open>Properties\<close>

text \<open>Three processes and three files; process \<open>n\<close> locks the first byte of file \<open>n\<close> for writing.\<close>

definition demo_file :: "nat \<Rightarrow> lock_file" where
  "demo_file n = \<lparr>lf_id = n, lf_readable = True, lf_writable = True, lf_node = Some (1, n), lf_stat = Inl EIO,
     lf_pos = Inl EIO\<rparr>"

definition demo_key :: "nat \<Rightarrow> lock_key" where
  "demo_key n = \<lparr>lk_dev = 1, lk_ino = n\<rparr>"

definition demo_req :: "int \<Rightarrow> linux_flock" where
  "demo_req ty = \<lparr>l_type = ty, l_whence = 0, l_start = 0, l_len = 1, l_pid = 0\<rparr>"

definition demo_wait :: "nat \<Rightarrow> nat \<Rightarrow> lock_state \<Rightarrow> (errno + int) option \<times> lock_state" where
  "demo_wait pid file s = fcntl_setlkw (Inr (demo_req F_WRLCK)) (demo_file file) pid pid [] s"

definition demo_held :: lock_state where
  "demo_held = snd (demo_wait 3 3 (snd (demo_wait 2 2 (snd (demo_wait 1 1 lock_state_new)))))"

lemma demo_wait_reachable: "lock_reachable s \<Longrightarrow> lock_reachable (snd (demo_wait pid file s))"
  unfolding demo_wait_def fcntl_setlkw_def by (erule reach_setlkw) (rule prod.collapse [symmetric])

lemma demo_held_reachable: "lock_reachable demo_held"
  unfolding demo_held_def by (intro demo_wait_reachable reach_new)

text \<open>C21.
  Setting a record lock changes exactly the bytes it names, for the owner that asks. It is refused with EAGAIN, and
  then changes nothing, exactly when another owner holds a conflicting lock on one of these bytes; unlocking is never
  refused. Splitting and merging of the stored ranges is not visible.
\<close>

theorem record_set_lock_refines:
  assumes "lock_reachable s" and "range_ok start fin"
  shows "if ty \<noteq> F_UNLCK \<and> blocked_by (rt_locks (ls_record s)) key owner ty start fin
    then record_set_lock key owner ty start fin (ls_record s) = (Inl EAGAIN, ls_record s)
    else \<exists>woken t. record_set_lock key owner ty start fin (ls_record s) = (Inr woken, t) \<and>
      (\<forall>k ow ty' p. holds (rt_locks t) k ow ty' p \<longleftrightarrow>
        (if k = key \<and> ow = owner \<and> start \<le> p \<and> p \<le> fin then ty \<noteq> F_UNLCK \<and> ty' = ty
         else holds (rt_locks (ls_record s)) k ow ty' p))"
proof -
  have t: "record_table_ok (ls_record s)" using lock_reachable_ok [OF assms(1)] by (simp add: lock_state_ok_def)
  obtain res t' where r: "record_set_lock key owner ty start fin (ls_record s) = (res, t')" by fastforce
  show ?thesis
  proof (cases "ty \<noteq> F_UNLCK \<and> blocked_by (rt_locks (ls_record s)) key owner ty start fin")
    case True
    with record_set_lock_cases [OF t assms(2) r] r show ?thesis by auto
  next
    case False
    with record_set_lock_cases [OF t assms(2) r] r show ?thesis unfolding if_not_P [OF False] by blast
  qed
qed

lemma demo_blocked: "blocked_by (rt_locks (ls_record demo_held)) (demo_key 1) (Process 2) F_RDLCK 0 5"
proof -
  have "holds (rt_locks (ls_record demo_held)) (demo_key 1) (Process 1) F_WRLCK 0" by code_simp
  then show ?thesis unfolding blocked_by_def
    by (intro exI [of _ "Process 1"] exI [of _ F_WRLCK] exI [of _ 0]) (simp add: lock_conflicts_def)
qed

theorem record_set_lock_refines_witness:
  "record_set_lock (demo_key 1) (Process 2) F_RDLCK 0 5 (ls_record demo_held) = (Inl EAGAIN, ls_record demo_held)"
proof -
  have rg: "range_ok 0 5" by (simp add: range_ok_def i64_max_def)
  have b: "F_RDLCK \<noteq> F_UNLCK \<and> blocked_by (rt_locks (ls_record demo_held)) (demo_key 1) (Process 2) F_RDLCK 0 5"
    using demo_blocked by (simp add: F_RDLCK_def F_UNLCK_def)
  from record_set_lock_refines [OF demo_held_reachable rg, of F_RDLCK "demo_key 1" "Process 2"]
  show ?thesis unfolding if_P [OF b] .
qed

text \<open>C22.
  Locks exclude each other. In every reachable state, if two record locks cover the same byte of a file and one of them
  is a write lock, they are of the same owner and of the same kind; and if two flock locks are on the same file and one
  is exclusive, they belong to the same open file description.
\<close>

theorem locks_exclude:
  assumes "lock_reachable s"
  shows "(\<forall>key o1 t1 o2 t2 p. holds (rt_locks (ls_record s)) key o1 t1 p \<and> holds (rt_locks (ls_record s)) key o2 t2 p \<and>
      (t1 = F_WRLCK \<or> t2 = F_WRLCK) \<longrightarrow> o1 = o2 \<and> t1 = t2) \<and>
    (\<forall>a \<in> set (ft_locks (ls_flock s)). \<forall>b \<in> set (ft_locks (ls_flock s)).
      fl_key a = fl_key b \<and> fl_mode a = Exclusive \<longrightarrow> fl_owner a = fl_owner b)"
  using lock_reachable_ok [OF assms]
  unfolding lock_state_ok_def record_table_ok_def exclusive_def flock_table_ok_def lock_conflicts_def flock_modes_conflict_def
  by blast

theorem locks_exclude_witness:
  "lock_reachable demo_held \<and> holds (rt_locks (ls_record demo_held)) (demo_key 1) (Process 1) F_WRLCK 0 \<and>
   \<not> holds (rt_locks (ls_record demo_held)) (demo_key 1) (Process 2) F_RDLCK 0"
proof -
  have h: "holds (rt_locks (ls_record demo_held)) (demo_key 1) (Process 1) F_WRLCK 0" by code_simp
  have "\<not> holds (rt_locks (ls_record demo_held)) (demo_key 1) (Process 2) F_RDLCK 0"
  proof
    assume "holds (rt_locks (ls_record demo_held)) (demo_key 1) (Process 2) F_RDLCK 0"
    with h locks_exclude [OF demo_held_reachable] have "Process 1 = Process 2" by blast
    then show False by simp
  qed
  with h demo_held_reachable show ?thesis by blast
qed

text \<open>C23.
  No task sleeps on a record lock that it could have. In every reachable state each queued request is blocked by a
  conflicting lock that another owner holds on one of its bytes: whoever gives such bytes up takes the waiters out of
  the queue and wakes them.
\<close>

theorem sleepers_are_blocked:
  assumes "lock_reachable s" and "w \<in> set (rt_waiters (ls_record s))"
  shows "\<exists>owner ty p. owner \<noteq> wl_owner w \<and> holds (rt_locks (ls_record s)) (wl_key w) owner ty p \<and>
    (ty = F_WRLCK \<or> wl_type w = F_WRLCK) \<and> wl_start w \<le> p \<and> p \<le> wl_end w"
  using lock_reachable_ok [OF assms(1)] assms(2)
  unfolding lock_state_ok_def record_table_ok_def blocked_by_def lock_conflicts_def by blast

definition demo_asleep :: lock_state where
  "demo_asleep = snd (demo_wait 2 3 (snd (demo_wait 1 2 demo_held)))"

lemma demo_asleep_reachable: "lock_reachable demo_asleep"
  unfolding demo_asleep_def by (intro demo_wait_reachable demo_held_reachable)

definition demo_waiter :: waiting_lock where
  "demo_waiter = \<lparr>wl_key = demo_key 2, wl_owner = Process 1, wl_type = F_WRLCK, wl_start = 0, wl_end = 0, wl_task = 1\<rparr>"

theorem sleepers_are_blocked_witness:
  "\<exists>owner ty p. owner \<noteq> Process 1 \<and> holds (rt_locks (ls_record demo_asleep)) (demo_key 2) owner ty p \<and>
     (ty = F_WRLCK \<or> F_WRLCK = F_WRLCK) \<and> 0 \<le> p \<and> p \<le> 0"
proof -
  have "demo_waiter \<in> set (rt_waiters (ls_record demo_asleep))" by code_simp
  from sleepers_are_blocked [OF demo_asleep_reachable this] show ?thesis by (simp add: demo_waiter_def)
qed

text \<open>Closing a descriptor gives up the locks it should. Afterwards the process holds no POSIX record lock on the file, and
  when no process refers to the open file description any more, no record lock and no flock lock of that description
  is left. The shortcuts through the summary word and the process flag never skip a lock.
\<close>

theorem close_releases_locks:
  assumes "lock_reachable s" and "lock_key_of f = Inr key"
  shows "\<not> holds (rt_locks (ls_record (release_file_locks_for_close f pid referenced s))) key (Process pid) ty p \<and>
    (referenced \<or> (\<forall>lock \<in> set (rt_locks (ls_record (release_file_locks_for_close f pid referenced s))).
        pl_owner lock \<noteq> FileDescription (lf_id f)) \<and>
      (\<forall>lock \<in> set (ft_locks (ls_flock (release_file_locks_for_close f pid referenced s))). fl_owner lock \<noteq> lf_id f))"
proof -
  let ?s1 = "if ls_active s AND POSIX_LOCKS_ACTIVE \<noteq> 0 then release_record_locks_for_close f pid s else s"
  let ?s2 = "if ls_active s AND OFD_LOCKS_ACTIVE \<noteq> 0 then release_ofd_record_locks_for_close f referenced ?s1 else ?s1"
  have s: "lock_state_ok s" by (rule lock_reachable_ok [OF assms(1)])
  have s3: "release_file_locks_for_close f pid referenced s =
      (if ls_active s AND FLOCKS_ACTIVE \<noteq> 0 then release_flock_locks_for_close f referenced ?s2 else ?s2)"
    by (simp add: release_file_locks_for_close_def Let_def)
  have rec: "ls_record (release_file_locks_for_close f pid referenced s) = ls_record ?s2"
    unfolding s3 by (simp add: flock_close_record)
  have fl: "ls_flock ?s2 = ls_flock s"
    by (simp add: record_close_flock)
  have "\<not> holds (rt_locks (ls_record ?s1)) key (Process pid) ty p" by (rule posix_closed [OF s assms(2)])
  then have "\<not> holds (rt_locks (ls_record ?s2)) key (Process pid) ty p"
    using ofd_close_sub [of f referenced ?s1] unfolding holds_def by (auto split: if_split_asm)
  moreover have "pl_owner lock \<noteq> FileDescription (lf_id f)"
    if "\<not> referenced" "lock \<in> set (rt_locks (ls_record ?s2))" for lock
    using that(2) ofd_closed [OF s that(1), of lock f pid, unfolded Let_def] by blast
  moreover have "fl_owner lock \<noteq> lf_id f"
    if "\<not> referenced" "lock \<in> set (ft_locks (ls_flock (release_file_locks_for_close f pid referenced s)))" for lock
    using that flock_closed [OF s fl that(1), of lock f] unfolding s3 by blast
  ultimately show ?thesis unfolding rec by blast
qed

theorem close_releases_locks_witness:
  "\<not> holds (rt_locks (ls_record (release_file_locks_for_close (demo_file 1) 1 False demo_held))) (demo_key 1) (Process 1) F_WRLCK 0
   \<and> holds (rt_locks (ls_record demo_held)) (demo_key 1) (Process 1) F_WRLCK 0"
proof -
  have "lock_key_of (demo_file 1) = Inr (demo_key 1)" by (simp add: lock_key_of_def demo_file_def demo_key_def)
  from close_releases_locks [OF demo_held_reachable this]
  have "\<not> holds (rt_locks (ls_record (release_file_locks_for_close (demo_file 1) 1 False demo_held))) (demo_key 1) (Process 1) F_WRLCK 0"
    by blast
  moreover have "holds (rt_locks (ls_record demo_held)) (demo_key 1) (Process 1) F_WRLCK 0" by code_simp
  ultimately show ?thesis by blast
qed


end
