(* ===== verification/Futex_Queue.thy ===== *)
theory Futex_Queue
  imports Kernel_Prelude "HOL-Library.Product_Lexorder"
begin

text \<open>
  The sharded wait queues of the futex manager (\<open>task/futex.rs\<close>).

  A futex word is identified by a key; the waiters of a key stand in first-in first-out order in the bucket its hash
  selects. A waiter is an \<open>Arc<FutexWaiter>\<close> shared by the queue and the waiting call, so waiters live in a list
  and the queues hold their positions. A task also records the bucket its waiter stands in (\<open>task/tcb.rs\<close>); the
  assertions of these records are panics here, the left side of a sum.

  Every operation runs under the lock of its bucket, so it is one step. The invariant \<open>futex_ok\<close> says that the
  queues, the states of the waiters and the records of the tasks agree; \<open>futex_sem\<close> is its part about the meaning
  of the queues, over the queues seen as a function of the key.
\<close>

section \<open>Keys\<close>

datatype futex_shared_key =
    File usize u32 usize
  | VfsNode usize u32 usize
  | FileObject usize usize
  | Shm usize usize
  | AnonymousPage usize usize

datatype futex_key =
    Private usize usize
  | Shared futex_shared_key
  | SharedVirtual usize usize

text \<open>The derived order: by constructor, then by the fields.\<close>

fun shared_key_rank :: "futex_shared_key \<Rightarrow> nat \<times> usize \<times> u32 \<times> usize" where
  "shared_key_rank (File mount ino offset) = (0, mount, ino, offset)"
| "shared_key_rank (VfsNode mount ino offset) = (1, mount, ino, offset)"
| "shared_key_rank (FileObject object offset) = (2, object, 0, offset)"
| "shared_key_rank (Shm shmid offset) = (3, shmid, 0, offset)"
| "shared_key_rank (AnonymousPage ppn offset) = (4, ppn, 0, offset)"

fun futex_key_rank :: "futex_key \<Rightarrow> nat \<times> usize \<times> usize \<times> nat \<times> usize \<times> u32 \<times> usize" where
  "futex_key_rank (Private process_id addr) = (0, process_id, addr, 0, 0, 0, 0)"
| "futex_key_rank (Shared key) = (1, 0, 0, shared_key_rank key)"
| "futex_key_rank (SharedVirtual process_id addr) = (2, process_id, addr, 0, 0, 0, 0)"

lemma shared_key_rank_inject [simp]: "shared_key_rank a = shared_key_rank b \<longleftrightarrow> a = b"
  by (cases a; cases b) auto

lemma futex_key_rank_inject [simp]: "futex_key_rank a = futex_key_rank b \<longleftrightarrow> a = b"
  by (cases a; cases b) auto

instantiation futex_key :: linorder
begin

definition less_eq_futex_key :: "futex_key \<Rightarrow> futex_key \<Rightarrow> bool" where
  "less_eq_futex_key a b \<longleftrightarrow> futex_key_rank a \<le> futex_key_rank b"

definition less_futex_key :: "futex_key \<Rightarrow> futex_key \<Rightarrow> bool" where
  "less_futex_key a b \<longleftrightarrow> futex_key_rank a < futex_key_rank b"

instance
  by standard (auto simp: less_eq_futex_key_def less_futex_key_def simp del: less_eq_prod_simp less_prod_simp
      intro: order_trans antisym)

end

definition FUTEX_BUCKET_COUNT :: nat where "FUTEX_BUCKET_COUNT = 64"

fun futex_hash :: "futex_key \<Rightarrow> usize" where
  "futex_hash (Private process_id addr) = drop_bit 2 addr XOR process_id"
| "futex_hash (Shared (File mount ino offset)) = drop_bit 2 offset XOR word_rotl 5 mount XOR ucast ino"
| "futex_hash (Shared (VfsNode mount ino offset)) = drop_bit 2 offset XOR word_rotl 5 mount XOR ucast ino"
| "futex_hash (Shared (FileObject object offset)) = drop_bit 2 offset XOR word_rotl 11 object"
| "futex_hash (Shared (Shm shmid offset)) = drop_bit 2 offset XOR word_rotl 7 shmid"
| "futex_hash (Shared (AnonymousPage ppn offset)) = drop_bit 2 offset XOR word_rotl 3 ppn"
| "futex_hash (SharedVirtual process_id addr) = drop_bit 2 addr XOR process_id"

definition bucket_index :: "futex_key \<Rightarrow> nat" where
  "bucket_index key = unat (futex_hash key AND (of_nat FUTEX_BUCKET_COUNT - 1))"

section \<open>Waiters and buckets\<close>

datatype futex_waiter_state = FUTEX_WAITER_QUEUED | FUTEX_WAITER_WOKEN | FUTEX_WAITER_CANCELLED

type_synonym fwaiter_id = nat

record futex_waiter =
  fw_task :: task_id
  fw_bitset :: u32
  fw_bucket :: nat
  fw_state :: futex_waiter_state

type_synonym futex_bucket = "(futex_key, fwaiter_id list) btree"

datatype futex_wait_cleanup = Woken | StillQueued | AlreadyUnqueued

datatype futex_panic = SecondFutexWait task_id | UnqueuedRequeue task_id | LostBucketOwnership task_id

record futex_manager =
  fm_buckets :: "futex_bucket list"
  fm_waiters :: "futex_waiter list"
  fm_wait :: "task_id \<Rightarrow> nat option"

definition futex_manager_new :: futex_manager where
  "futex_manager_new = \<lparr>fm_buckets = replicate FUTEX_BUCKET_COUNT [], fm_waiters = [], fm_wait = (\<lambda>_. None)\<rparr>"

definition put_bucket :: "nat \<Rightarrow> futex_bucket \<Rightarrow> futex_manager \<Rightarrow> futex_manager" where
  "put_bucket i b m = m\<lparr>fm_buckets := (fm_buckets m)[i := b]\<rparr>"

definition is_queued :: "futex_manager \<Rightarrow> fwaiter_id \<Rightarrow> bool" where
  "is_queued m w \<longleftrightarrow> fw_state (fm_waiters m ! w) = FUTEX_WAITER_QUEUED"

definition store_state :: "fwaiter_id \<Rightarrow> futex_waiter_state \<Rightarrow> futex_manager \<Rightarrow> futex_manager" where
  "store_state w st m = m\<lparr>fm_waiters := (fm_waiters m)[w := (fm_waiters m ! w)\<lparr>fw_state := st\<rparr>]\<rparr>"

text \<open>The bucket that a task records while it waits.\<close>

definition begin_futex_wait :: "task_id \<Rightarrow> nat \<Rightarrow> futex_manager \<Rightarrow> futex_panic + futex_manager" where
  "begin_futex_wait t bucket m =
     (if fm_wait m t = None then Inr (m\<lparr>fm_wait := (fm_wait m)(t \<mapsto> bucket)\<rparr>) else Inl (SecondFutexWait t))"

definition move_futex_wait :: "task_id \<Rightarrow> nat \<Rightarrow> futex_manager \<Rightarrow> futex_panic + futex_manager" where
  "move_futex_wait t bucket m =
     (if fm_wait m t \<noteq> None then Inr (m\<lparr>fm_wait := (fm_wait m)(t \<mapsto> bucket)\<rparr>) else Inl (UnqueuedRequeue t))"

definition finish_futex_wait :: "task_id \<Rightarrow> nat \<Rightarrow> futex_manager \<Rightarrow> futex_panic + futex_manager" where
  "finish_futex_wait t bucket m =
     (if fm_wait m t = Some bucket then Inr (m\<lparr>fm_wait := (fm_wait m)(t := None)\<rparr>) else Inl (LostBucketOwnership t))"

definition remove_empty_queue :: "futex_key \<Rightarrow> futex_bucket \<Rightarrow> futex_bucket" where
  "remove_empty_queue key b = (if bt_get b key = Some [] then bt_remove key b else b)"

section \<open>The operations of the manager\<close>

text \<open>
  \<open>blocked\<close> is the outcome of \<open>block_current_task_no_schedule_unless_interrupting_signal\<close>: the current task, now
  blocked, or \<open>None\<close> when a signal is pending.
\<close>

definition block_current_on ::
  "futex_key \<Rightarrow> u32 \<Rightarrow> task_id option \<Rightarrow> futex_manager \<Rightarrow> futex_panic + fwaiter_id option \<times> futex_manager" where
  "block_current_on key bitset blocked m =
     (let i = bucket_index key
      in case blocked of
          None \<Rightarrow> Inr (None, m)
        | Some t \<Rightarrow>
            (case begin_futex_wait t i m of
               Inl p \<Rightarrow> Inl p
             | Inr m1 \<Rightarrow>
                 (let w = length (fm_waiters m1);
                      m2 = m1\<lparr>fm_waiters := fm_waiters m1 @
                        [\<lparr>fw_task = t, fw_bitset = bitset, fw_bucket = i, fw_state = FUTEX_WAITER_QUEUED\<rparr>]\<rparr>;
                      bucket = fm_buckets m2 ! i;
                      queue = (case bt_get bucket key of None \<Rightarrow> [] | Some q \<Rightarrow> q)
                  in Inr (Some w, put_bucket i (bt_insert key (queue @ [w]) bucket) m2))))"

text \<open>Taking one waiter off the queue it stands in: its state, and the record of its task.\<close>

definition wake_waiter :: "futex_key \<Rightarrow> fwaiter_id \<Rightarrow> futex_manager \<Rightarrow> futex_panic + task_id \<times> futex_manager" where
  "wake_waiter key w m =
     (let t = fw_task (fm_waiters m ! w)
      in case finish_futex_wait t (bucket_index key) (store_state w FUTEX_WAITER_WOKEN m) of
          Inl p \<Rightarrow> Inl p
        | Inr m' \<Rightarrow> Inr (t, m'))"

fun wake_scan ::
  "futex_key \<Rightarrow> nat \<Rightarrow> u32 \<Rightarrow> fwaiter_id list \<Rightarrow> futex_manager
    \<Rightarrow> futex_panic + task_id list \<times> fwaiter_id list \<times> futex_manager" where
  "wake_scan key limit bitset [] m = Inr ([], [], m)"
| "wake_scan key limit bitset (w # q) m =
     (if limit = 0 then Inr ([], w # q, m)
      else if \<not> is_queued m w then wake_scan key limit bitset q m
      else if fw_bitset (fm_waiters m ! w) AND bitset = 0 then
        (case wake_scan key limit bitset q m of
           Inl p \<Rightarrow> Inl p
         | Inr (tasks, kept, m') \<Rightarrow> Inr (tasks, w # kept, m'))
      else
        (case wake_waiter key w m of
           Inl p \<Rightarrow> Inl p
         | Inr (t, m1) \<Rightarrow>
             (case wake_scan key (limit - 1) bitset q m1 of
                Inl p \<Rightarrow> Inl p
              | Inr (tasks, kept, m') \<Rightarrow> Inr (t # tasks, kept, m'))))"

definition wake :: "futex_key \<Rightarrow> nat \<Rightarrow> u32 \<Rightarrow> futex_manager \<Rightarrow> futex_panic + task_id list \<times> futex_manager" where
  "wake key limit bitset m =
     (let i = bucket_index key; bucket = fm_buckets m ! i
      in case bt_get bucket key of
          None \<Rightarrow> Inr ([], m)
        | Some queue \<Rightarrow>
            (case wake_scan key limit bitset queue m of
               Inl p \<Rightarrow> Inl p
             | Inr (tasks, kept, m') \<Rightarrow>
                 Inr (tasks, put_bucket i (remove_empty_queue key (bt_insert key kept bucket)) m')))"

fun wake_one_scan ::
  "futex_key \<Rightarrow> u32 \<Rightarrow> fwaiter_id list \<Rightarrow> futex_manager
    \<Rightarrow> futex_panic + task_id option \<times> fwaiter_id list \<times> futex_manager" where
  "wake_one_scan key bitset [] m = Inr (None, [], m)"
| "wake_one_scan key bitset (w # q) m =
     (if \<not> is_queued m w then wake_one_scan key bitset q m
      else if fw_bitset (fm_waiters m ! w) AND bitset = 0 then
        (case wake_one_scan key bitset q m of
           Inl p \<Rightarrow> Inl p
         | Inr (t, kept, m') \<Rightarrow> Inr (t, w # kept, m'))
      else
        (case wake_waiter key w m of
           Inl p \<Rightarrow> Inl p
         | Inr (t, m1) \<Rightarrow> Inr (Some t, q, m1)))"

definition wake_one_inner ::
  "futex_key \<Rightarrow> u32 \<Rightarrow> bool \<Rightarrow> futex_manager \<Rightarrow> futex_panic + (task_id option \<times> bool) \<times> futex_manager" where
  "wake_one_inner key bitset check_remaining m =
     (let i = bucket_index key; bucket = fm_buckets m ! i
      in case bt_get bucket key of
          None \<Rightarrow> Inr ((None, False), m)
        | Some queue \<Rightarrow>
            (case wake_one_scan key bitset queue m of
               Inl p \<Rightarrow> Inl p
             | Inr (t, kept, m') \<Rightarrow>
                 Inr ((t, check_remaining \<and> (\<exists>w \<in> set kept. is_queued m' w)),
                      put_bucket i (remove_empty_queue key (bt_insert key kept bucket)) m')))"

definition wake_one :: "futex_key \<Rightarrow> u32 \<Rightarrow> futex_manager \<Rightarrow> futex_panic + task_id option \<times> futex_manager" where
  "wake_one key bitset m =
     (case wake_one_inner key bitset False m of
        Inl p \<Rightarrow> Inl p
      | Inr ((t, _), m') \<Rightarrow> Inr (t, m'))"

definition FUTEX_BITSET_MATCH_ANY :: u32 where "FUTEX_BITSET_MATCH_ANY = - 1"

definition wake_one_with_remaining ::
  "futex_key \<Rightarrow> futex_manager \<Rightarrow> futex_panic + (task_id option \<times> bool) \<times> futex_manager" where
  "wake_one_with_remaining key m = wake_one_inner key FUTEX_BITSET_MATCH_ANY True m"

definition has_waiters :: "futex_key \<Rightarrow> futex_manager \<Rightarrow> bool" where
  "has_waiters key m =
     (case bt_get (fm_buckets m ! bucket_index key) key of
        None \<Rightarrow> False
      | Some queue \<Rightarrow> \<exists>w \<in> set queue. is_queued m w)"

text \<open>Requeueing: the first waiters are woken, the next ones move to the target, the others stay.\<close>

fun requeue_scan ::
  "futex_key \<Rightarrow> nat \<Rightarrow> nat \<Rightarrow> fwaiter_id list \<Rightarrow> task_id list \<Rightarrow> fwaiter_id list \<Rightarrow> fwaiter_id list \<Rightarrow> futex_manager
    \<Rightarrow> futex_panic + task_id list \<times> fwaiter_id list \<times> fwaiter_id list \<times> futex_manager" where
  "requeue_scan source wake_limit requeue_limit [] tasks moved kept m = Inr (tasks, moved, kept, m)"
| "requeue_scan source wake_limit requeue_limit (w # q) tasks moved kept m =
     (if \<not> is_queued m w then requeue_scan source wake_limit requeue_limit q tasks moved kept m
      else if length tasks < wake_limit then
        (case wake_waiter source w m of
           Inl p \<Rightarrow> Inl p
         | Inr (t, m1) \<Rightarrow> requeue_scan source wake_limit requeue_limit q (tasks @ [t]) moved kept m1)
      else if length moved < requeue_limit then
        requeue_scan source wake_limit requeue_limit q tasks (moved @ [w]) kept m
      else requeue_scan source wake_limit requeue_limit q tasks moved (kept @ [w]) m)"

definition take_requeue_source ::
  "futex_key \<Rightarrow> nat \<Rightarrow> nat \<Rightarrow> futex_manager \<Rightarrow> futex_panic + task_id list \<times> fwaiter_id list \<times> futex_manager" where
  "take_requeue_source source wake_limit requeue_limit m =
     (let i = bucket_index source; bucket = fm_buckets m ! i
      in case bt_get bucket source of
          None \<Rightarrow> Inr ([], [], m)
        | Some queue \<Rightarrow>
            (case requeue_scan source wake_limit requeue_limit queue [] [] [] m of
               Inl p \<Rightarrow> Inl p
             | Inr (tasks, moved, kept, m') \<Rightarrow>
                 Inr (tasks, moved, put_bucket i (remove_empty_queue source (bt_insert source kept bucket)) m')))"

text \<open>One waiter appended to the target queue: the queue first, then the bucket of the waiter and of its task.\<close>

definition requeue_one :: "futex_key \<Rightarrow> nat \<Rightarrow> fwaiter_id \<Rightarrow> futex_manager \<Rightarrow> futex_panic + futex_manager" where
  "requeue_one target i w m =
     (let bucket = fm_buckets m ! i;
          queue = (case bt_get bucket target of None \<Rightarrow> [] | Some q \<Rightarrow> q);
          m1 = put_bucket i (bt_insert target (queue @ [w]) bucket) m;
          m2 = m1\<lparr>fm_waiters := (fm_waiters m1)[w := (fm_waiters m1 ! w)\<lparr>fw_bucket := i\<rparr>]\<rparr>
      in move_futex_wait (fw_task (fm_waiters m2 ! w)) i m2)"

fun insert_requeued :: "futex_key \<Rightarrow> nat \<Rightarrow> fwaiter_id list \<Rightarrow> futex_manager \<Rightarrow> futex_panic + futex_manager" where
  "insert_requeued target i [] m = Inr m"
| "insert_requeued target i (w # moved) m =
     (case requeue_one target i w m of
        Inl p \<Rightarrow> Inl p
      | Inr m' \<Rightarrow> insert_requeued target i moved m')"

text \<open>
  \<open>requeue\<close> runs with both buckets locked. The three branches of the source differ in the order in which they lock,
  which is \<open>requeue_locks\<close>.
\<close>

definition requeue_locks :: "futex_key \<Rightarrow> futex_key \<Rightarrow> nat list" where
  "requeue_locks source target =
     (if bucket_index source = bucket_index target then [bucket_index source]
      else if bucket_index source < bucket_index target then [bucket_index source, bucket_index target]
      else [bucket_index target, bucket_index source])"

definition requeue ::
  "futex_key \<Rightarrow> futex_key \<Rightarrow> nat \<Rightarrow> nat \<Rightarrow> futex_manager \<Rightarrow> futex_panic + (task_id list \<times> nat) \<times> futex_manager" where
  "requeue source target wake_limit requeue_limit m =
     (case take_requeue_source source wake_limit requeue_limit m of
        Inl p \<Rightarrow> Inl p
      | Inr (tasks, moved, m1) \<Rightarrow>
          (case insert_requeued target (bucket_index target) moved m1 of
             Inl p \<Rightarrow> Inl p
           | Inr m2 \<Rightarrow> Inr ((tasks, length moved), m2)))"

text \<open>\<open>retain\<close> over all queues of a bucket, dropping the queues that become empty.\<close>

definition retain_waiters :: "(fwaiter_id \<Rightarrow> bool) \<Rightarrow> futex_bucket \<Rightarrow> futex_bucket" where
  "retain_waiters keep b = filter (\<lambda>e. snd e \<noteq> []) (bt_map (filter keep) b)"

text \<open>
  The cleanup after a wait. \<open>cleanup_attempt\<close> is the part under the lock of the bucket that was read before;
  \<open>None\<close> means that the loop goes round again.
\<close>

definition cleanup_attempt ::
  "fwaiter_id \<Rightarrow> nat \<Rightarrow> futex_manager \<Rightarrow> futex_panic + futex_wait_cleanup option \<times> futex_manager" where
  "cleanup_attempt w i m =
     (if fw_bucket (fm_waiters m ! w) \<noteq> i then Inr (None, m)
      else
        (let bucket = fm_buckets m ! i; removed = (\<exists>e \<in> set bucket. w \<in> set (snd e));
             m1 = put_bucket i (retain_waiters (\<lambda>v. v \<noteq> w) bucket) m
         in if removed then
              (case finish_futex_wait (fw_task (fm_waiters m1 ! w)) i (store_state w FUTEX_WAITER_CANCELLED m1) of
                 Inl p \<Rightarrow> Inl p
               | Inr m2 \<Rightarrow> Inr (Some StillQueued, m2))
            else Inr (None, m1)))"

text \<open>
  \<open>others\<close> are what other tasks do between reading the bucket index and locking the bucket, once for each round. The
  outcome is \<open>None\<close> when the last round listed ends without an answer.
\<close>

fun remove_waiter_for_task ::
  "fwaiter_id \<Rightarrow> (futex_manager \<Rightarrow> futex_manager) list \<Rightarrow> futex_manager
    \<Rightarrow> futex_panic + futex_wait_cleanup option \<times> futex_manager" where
  "remove_waiter_for_task w [] m = Inr (None, m)"
| "remove_waiter_for_task w (f # fs) m =
     (case fw_state (fm_waiters m ! w) of
        FUTEX_WAITER_WOKEN \<Rightarrow> Inr (Some Woken, m)
      | FUTEX_WAITER_CANCELLED \<Rightarrow> Inr (Some AlreadyUnqueued, m)
      | FUTEX_WAITER_QUEUED \<Rightarrow>
          (case cleanup_attempt w (fw_bucket (fm_waiters m ! w)) (f m) of
             Inl p \<Rightarrow> Inl p
           | Inr (Some r, m') \<Rightarrow> Inr (Some r, m')
           | Inr (None, m') \<Rightarrow> remove_waiter_for_task w fs m'))"

text \<open>The removal of the tasks of an exiting or exec-ing thread group.\<close>

definition cancel_task_waiters :: "task_id \<Rightarrow> nat \<Rightarrow> futex_manager \<Rightarrow> futex_manager" where
  "cancel_task_waiters t i m =
     (let hit = filter (\<lambda>w. fw_task (fm_waiters m ! w) = t) (concat (map snd (fm_buckets m ! i)));
          m1 = put_bucket i (retain_waiters (\<lambda>w. fw_task (fm_waiters m ! w) \<noteq> t) (fm_buckets m ! i)) m
      in fold (\<lambda>w. store_state w FUTEX_WAITER_CANCELLED) hit m1)"

fun remove_tasks :: "task_id list \<Rightarrow> futex_manager \<Rightarrow> futex_panic + futex_manager" where
  "remove_tasks [] m = Inr m"
| "remove_tasks (t # ts) m =
     (case fm_wait m t of
        None \<Rightarrow> remove_tasks ts m
      | Some i \<Rightarrow>
          (case finish_futex_wait t i (cancel_task_waiters t i m) of
             Inl p \<Rightarrow> Inl p
           | Inr m' \<Rightarrow> remove_tasks ts m'))"

section \<open>Invariant\<close>

text \<open>The waiters of a key, in order.\<close>

definition queue_of :: "futex_manager \<Rightarrow> futex_key \<Rightarrow> fwaiter_id list" where
  "queue_of m key = (case bt_get (fm_buckets m ! bucket_index key) key of None \<Rightarrow> [] | Some q \<Rightarrow> q)"

definition buckets_ok :: "futex_bucket list \<Rightarrow> bool" where
  "buckets_ok bs \<longleftrightarrow> length bs = FUTEX_BUCKET_COUNT \<and>
     (\<forall>i < length bs. bt_ok (bs ! i) \<and> (\<forall>k q. bt_get (bs ! i) k = Some q \<longrightarrow> bucket_index k = i \<and> q \<noteq> []))"

text \<open>
  The queues as a function \<open>Q\<close> of the key, with \<open>Q None\<close> for waiters that a requeue has taken out and not
  yet put back: a waiter stands in a queue exactly while it is queued, a task waits at most once, and a task records the
  bucket of its waiter.
\<close>

definition futex_sem ::
  "(futex_key option \<Rightarrow> fwaiter_id list) \<Rightarrow> futex_waiter list \<Rightarrow> (task_id \<Rightarrow> nat option) \<Rightarrow> bool" where
  "futex_sem Q W T \<longleftrightarrow>
     (\<forall>c w. w \<in> set (Q c) \<longrightarrow> w < length W \<and> fw_state (W ! w) = FUTEX_WAITER_QUEUED \<and>
        T (fw_task (W ! w)) = Some (fw_bucket (W ! w)) \<and> (\<forall>k. c = Some k \<longrightarrow> fw_bucket (W ! w) = bucket_index k)) \<and>
     (\<forall>c. distinct (Q c)) \<and>
     (\<forall>c c' w w'. w \<in> set (Q c) \<and> w' \<in> set (Q c') \<and> fw_task (W ! w) = fw_task (W ! w') \<longrightarrow> c = c' \<and> w = w') \<and>
     (\<forall>w < length W. fw_state (W ! w) = FUTEX_WAITER_QUEUED \<longrightarrow> (\<exists>c. w \<in> set (Q c))) \<and>
     (\<forall>t. T t \<noteq> None \<longrightarrow> (\<exists>c w. w \<in> set (Q c) \<and> fw_task (W ! w) = t))"

definition futex_ok :: "futex_manager \<Rightarrow> bool" where
  "futex_ok m \<longleftrightarrow> buckets_ok (fm_buckets m) \<and> futex_sem (case_option [] (queue_of m)) (fm_waiters m) (fm_wait m)"

section \<open>Lemmas\<close>

subsection \<open>Buckets\<close>

lemma bucket_index_less [simp]: "bucket_index k < FUTEX_BUCKET_COUNT"
proof -
  have "futex_hash k AND 63 = take_bit 6 (futex_hash k)"
    by (simp add: take_bit_eq_mask mask_eq_exp_minus_1)
  then show ?thesis
    using take_bit_nat_less_exp [of 6 "unat (futex_hash k)"]
    by (simp add: bucket_index_def FUTEX_BUCKET_COUNT_def unsigned_take_bit_eq)
qed

lemma queue_of_cong [simp]:
  "queue_of (m\<lparr>fm_waiters := x\<rparr>) = queue_of m"
  "queue_of (m\<lparr>fm_wait := y\<rparr>) = queue_of m"
  by (simp_all add: queue_of_def fun_eq_iff)

lemma case_option_upd: "case_option a (f(k := q)) = (case_option a f)(Some k := q)"
  by (auto simp: fun_eq_iff split: option.split)

text \<open>Writing back the queue of one key.\<close>

lemma put_bucket_simps [simp]:
  "fm_waiters (put_bucket i b m) = fm_waiters m"
  "fm_wait (put_bucket i b m) = fm_wait m"
  "fm_buckets (put_bucket i b m) = (fm_buckets m)[i := b]"
  by (simp_all add: put_bucket_def)

lemma bt_get_remove_empty:
  "bt_get (remove_empty_queue k (bt_insert k q b)) = (bt_get b)(k := (if q = [] then None else Some q))"
  by (auto simp: remove_empty_queue_def fun_eq_iff)

lemma bt_ok_remove_empty: "bt_ok b \<Longrightarrow> bt_ok (remove_empty_queue k (bt_insert k q b))"
  by (simp add: remove_empty_queue_def)

lemma put_queue:
  assumes "buckets_ok (fm_buckets m)"
    and "b = remove_empty_queue k (bt_insert k q (fm_buckets m ! bucket_index k))"
  shows "buckets_ok ((fm_buckets m)[bucket_index k := b])"
    and "queue_of (put_bucket (bucket_index k) b m) = (queue_of m)(k := q)"
proof -
  have l: "bucket_index k < length (fm_buckets m)" using assms(1) by (simp add: buckets_ok_def)
  with assms show "buckets_ok ((fm_buckets m)[bucket_index k := b])"
    by (auto simp: buckets_ok_def nth_list_update bt_get_remove_empty bt_ok_remove_empty split: if_split_asm) (metis bucket_index_less)
  show "queue_of (put_bucket (bucket_index k) b m) = (queue_of m)(k := q)"
    using l assms(2) by (auto simp: queue_of_def fun_eq_iff nth_list_update bt_get_remove_empty)
qed

lemma put_queue_nonempty:
  assumes "buckets_ok (fm_buckets m)" and "q \<noteq> []"
    and "b = bt_insert k q (fm_buckets m ! bucket_index k)"
  shows "buckets_ok ((fm_buckets m)[bucket_index k := b])"
    and "queue_of (put_bucket (bucket_index k) b m) = (queue_of m)(k := q)"
proof -
  have "b = remove_empty_queue k (bt_insert k q (fm_buckets m ! bucket_index k))"
    using assms(2,3) by (simp add: remove_empty_queue_def)
  from put_queue [OF assms(1) this] show "buckets_ok ((fm_buckets m)[bucket_index k := b])"
    and "queue_of (put_bucket (bucket_index k) b m) = (queue_of m)(k := q)" by blast+
qed

lemma bt_get_filter:
  "bt_ok b \<Longrightarrow> bt_get (filter (\<lambda>e. P (snd e)) b) k = (case bt_get b k of None \<Rightarrow> None | Some v \<Rightarrow> if P v then Some v else None)"
proof (induction b)
  case (Cons e b)
  then have "fst e \<notin> fst ` set b" by (auto simp: bt_ok_Cons)
  then have "bt_get b (fst e) = None" by (simp add: bt_get_def map_of_eq_None_iff)
  with Cons show ?case by (cases e) (auto simp: bt_ok_Cons split: option.split)
qed simp

lemma bt_remove_insert_fresh: "bt_get b k = None \<Longrightarrow> bt_remove k (bt_insert k v b) = b"
  by (induction k v b rule: bt_insert.induct) (auto simp: bt_remove_def bt_get_def map_of_eq_None_iff filter_id_conv split: if_split_asm)

lemma bt_get_retain:
  "bt_ok b \<Longrightarrow> bt_get (retain_waiters keep b) k =
     (case bt_get b k of None \<Rightarrow> None | Some q \<Rightarrow> if filter keep q = [] then None else Some (filter keep q))"
  using bt_get_filter [of "bt_map (filter keep) b" "\<lambda>q. q \<noteq> []" k]
  by (auto simp: retain_waiters_def split: option.split)

lemma put_retain:
  assumes "buckets_ok (fm_buckets m)" and "i < FUTEX_BUCKET_COUNT"
    and "b = retain_waiters keep (fm_buckets m ! i)"
  shows "buckets_ok ((fm_buckets m)[i := b])"
    and "queue_of (put_bucket i b m) k = (if bucket_index k = i then filter keep (queue_of m k) else queue_of m k)"
proof -
  have l: "i < length (fm_buckets m)" and ok: "bt_ok (fm_buckets m ! i)"
    using assms(1,2) by (auto simp: buckets_ok_def)
  have "bt_ok b" using ok assms(3) by (simp add: retain_waiters_def bt_ok_filter)
  with l assms(1,3) ok show "buckets_ok ((fm_buckets m)[i := b])"
    by (auto simp: buckets_ok_def nth_list_update bt_get_retain split: if_split_asm option.split_asm)
  show "queue_of (put_bucket i b m) k = (if bucket_index k = i then filter keep (queue_of m k) else queue_of m k)"
    using l ok assms(3) by (auto simp: queue_of_def bt_get_retain split: option.split)
qed

subsection \<open>The meaning of the queues\<close>

lemma sem_member:
  assumes "futex_sem Q W T" and "w \<in> set (Q c)"
  shows "w < length W" and "fw_state (W ! w) = FUTEX_WAITER_QUEUED"
    and "T (fw_task (W ! w)) = Some (fw_bucket (W ! w))" and "c = Some k \<Longrightarrow> fw_bucket (W ! w) = bucket_index k"
  using assms unfolding futex_sem_def by blast+

lemma sem_distinct: "futex_sem Q W T \<Longrightarrow> distinct (Q c)"
  unfolding futex_sem_def by blast

lemma sem_task_unique:
  "futex_sem Q W T \<Longrightarrow> w \<in> set (Q c) \<Longrightarrow> w' \<in> set (Q c') \<Longrightarrow> fw_task (W ! w) = fw_task (W ! w') \<Longrightarrow> c = c' \<and> w = w'"
  unfolding futex_sem_def by blast

lemma sem_queued: "futex_sem Q W T \<Longrightarrow> w < length W \<Longrightarrow> fw_state (W ! w) = FUTEX_WAITER_QUEUED \<Longrightarrow> \<exists>c. w \<in> set (Q c)"
  unfolding futex_sem_def by blast

lemma sem_waiting: "futex_sem Q W T \<Longrightarrow> T t \<noteq> None \<Longrightarrow> \<exists>c w. w \<in> set (Q c) \<and> fw_task (W ! w) = t"
  unfolding futex_sem_def by blast

text \<open>A waiter leaves its queue.\<close>

lemma sem_unqueue:
  assumes sem: "futex_sem Q W T" and w: "w \<in> set (Q c)" and st: "st \<noteq> FUTEX_WAITER_QUEUED"
    and Q': "Q' = Q(c := filter (\<lambda>v. v \<noteq> w) (Q c))"
  shows "futex_sem Q' (W[w := (W ! w)\<lparr>fw_state := st\<rparr>]) (T(fw_task (W ! w) := None))"
proof -
  have lt: "w < length W" by (rule sem_member [OF sem w])
  have mem: "v \<in> set (Q' d) \<longleftrightarrow> v \<in> set (Q d) \<and> v \<noteq> w" for v d
    using sem_task_unique [OF sem w, of v d] by (auto simp: Q')
  have task: "fw_task (W ! v) \<noteq> fw_task (W ! w)" if "v \<in> set (Q d)" "v \<noteq> w" for v d
    using sem_task_unique [OF sem w that(1)] that(2) by metis
  have nth: "W[w := x] ! v = W ! v" if "v \<noteq> w" for v x using that by simp
  show ?thesis
    unfolding futex_sem_def
  proof (intro conjI allI impI, goal_cases)
    case (1 d v) then show ?case using sem_member(1) [OF sem, of v d] by (simp add: mem)
  next
    case (2 d v) then show ?case using sem_member(2) [OF sem, of v d] by (simp add: mem)
  next
    case (3 d v) then show ?case using sem_member(3) [OF sem, of v d] task [of v d] by (simp add: mem)
  next
    case (4 d v k) then show ?case using sem_member(4) [OF sem, of v d k] by (simp add: mem)
  next
    case (5 d) then show ?case using sem_distinct [OF sem] by (simp add: Q')
  next
    case (6 d d' v v') then show ?case using sem_task_unique [OF sem, of v d v' d'] by (auto simp: mem)
  next
    case (7 d d' v v') then show ?case using sem_task_unique [OF sem, of v d v' d'] by (auto simp: mem)
  next
    case (8 v)
    then have "v \<noteq> w" using st lt by (auto simp: nth_list_update)
    with 8 sem_queued [OF sem, of v] show ?case by (simp add: mem)
  next
    case (9 t)
    then have t: "t \<noteq> fw_task (W ! w)" "T t \<noteq> None" by (auto split: if_split_asm)
    from sem_waiting [OF sem t(2)] obtain d v where "v \<in> set (Q d)" "fw_task (W ! v) = t" by blast
    with t(1) show ?case by (metis mem nth)
  qed
qed

text \<open>A new waiter joins the end of a queue.\<close>

lemma sem_new:
  assumes sem: "futex_sem Q W T" and t: "T t = None" and Q': "Q' = Q(Some k := Q (Some k) @ [length W])"
    and x: "x = \<lparr>fw_task = t, fw_bitset = bs, fw_bucket = bucket_index k, fw_state = FUTEX_WAITER_QUEUED\<rparr>"
  shows "futex_sem Q' (W @ [x]) (T(t \<mapsto> bucket_index k))"
proof -
  have mem: "v \<in> set (Q' d) \<longleftrightarrow> v \<in> set (Q d) \<or> v = length W \<and> d = Some k" for v d
    by (auto simp: Q')
  have old: "(W @ [x]) ! v = W ! v" "v < length W" "fw_task (W ! v) \<noteq> t" if "v \<in> set (Q d)" for v d
    using sem_member(1,3) [OF sem that] t by (auto simp: nth_append)
  show ?thesis
    unfolding futex_sem_def
  proof (intro conjI allI impI, goal_cases)
    case (1 d v) then show ?case using old(2) [of v d] by (auto simp: mem)
  next
    case (2 d v) then show ?case using sem_member(2) [OF sem, of v d] old(1) [of v d] by (auto simp: mem x)
  next
    case (3 d v) then show ?case using sem_member(3) [OF sem, of v d] old [of v d] by (auto simp: mem x)
  next
    case (4 d v k') then show ?case using sem_member(4) [OF sem, of v d k'] old(1) [of v d] by (auto simp: mem x)
  next
    case (5 d) then show ?case using sem_distinct [OF sem, of d] old(2) [of "length W" d] by (auto simp: Q')
  next
    case (6 d d' v v') then show ?case
      using sem_task_unique [OF sem, of v d v' d'] old [of v d] old [of v' d'] by (auto simp: mem x)
  next
    case (7 d d' v v') then show ?case
      using sem_task_unique [OF sem, of v d v' d'] old [of v d] old [of v' d'] by (auto simp: mem x)
  next
    case (8 v) then show ?case
      using sem_queued [OF sem, of v] by (cases "v = length W") (auto simp: mem nth_append)
  next
    case (9 u)
    show ?case
    proof (cases "u = t")
      case True
      then have "length W \<in> set (Q' (Some k)) \<and> fw_task ((W @ [x]) ! length W) = u" by (simp add: mem x)
      then show ?thesis by blast
    next
      case False
      with 9 sem_waiting [OF sem, of u] obtain d v where "v \<in> set (Q d)" "fw_task (W ! v) = u" by auto
      with old(1) [of v d] have "v \<in> set (Q' d) \<and> fw_task ((W @ [x]) ! v) = u" by (simp add: mem)
      then show ?thesis by blast
    qed
  qed
qed

text \<open>A waiter moves from one queue to the end of another.\<close>

lemma sem_move:
  assumes sem: "futex_sem Q W T" and w: "w \<in> set (Q c)" and c: "c \<noteq> c'" and b: "\<And>k. c' = Some k \<Longrightarrow> b = bucket_index k"
    and Q': "Q' = Q(c := filter (\<lambda>v. v \<noteq> w) (Q c), c' := Q c' @ [w])"
  shows "futex_sem Q' (W[w := (W ! w)\<lparr>fw_bucket := b\<rparr>]) (T(fw_task (W ! w) \<mapsto> b))"
proof -
  let ?W = "W[w := (W ! w)\<lparr>fw_bucket := b\<rparr>]"
  have lt: "w < length W" by (rule sem_member [OF sem w])
  have mem: "v \<in> set (Q' d) \<longleftrightarrow> v \<in> set (Q d) \<and> v \<noteq> w \<or> v = w \<and> d = c'" for v d
    using sem_task_unique [OF sem w, of v d] c by (auto simp: Q')
  have task: "fw_task (W ! v) \<noteq> fw_task (W ! w)" if "v \<in> set (Q d)" "v \<noteq> w" for v d
    using sem_task_unique [OF sem w that(1)] that(2) by metis
  have same: "fw_task (?W ! v) = fw_task (W ! v)" "fw_state (?W ! v) = fw_state (W ! v)" for v
    using lt by (cases "v = w"; simp)+
  have bucket: "fw_bucket (?W ! v) = (if v = w then b else fw_bucket (W ! v))" for v
    using lt by simp
  have notin: "w \<notin> set (Q c')" using sem_task_unique [OF sem w, of w c'] c by blast
  show ?thesis
    unfolding futex_sem_def same bucket
  proof (intro conjI allI impI, goal_cases)
    case (1 d v) then show ?case using sem_member(1) [OF sem, of v d] lt by (auto simp: mem)
  next
    case (2 d v) then show ?case using sem_member(2) [OF sem, of v d] sem_member(2) [OF sem w] by (auto simp: mem)
  next
    case (3 d v) then show ?case using sem_member(3) [OF sem, of v d] task [of v d] by (auto simp: mem)
  next
    case (4 d v k) then show ?case using sem_member(4) [OF sem, of v d k] b by (auto simp: mem)
  next
    case (5 d) then show ?case using sem_distinct [OF sem, of d] notin by (auto simp: Q')
  next
    case (6 d d' v v') then show ?case
      using sem_task_unique [OF sem, of v d v' d'] task [of v d] task [of v' d'] by (auto simp: mem)
  next
    case (7 d d' v v') then show ?case
      using sem_task_unique [OF sem, of v d v' d'] task [of v d] task [of v' d'] by (auto simp: mem)
  next
    case (8 v) then show ?case using sem_queued [OF sem, of v] mem [of v] by (cases "v = w") auto
  next
    case (9 u)
    show ?case
    proof (cases "u = fw_task (W ! w)")
      case True
      with mem [of w c'] show ?thesis by blast
    next
      case False
      with 9 sem_waiting [OF sem, of u] obtain d v where "v \<in> set (Q d)" "fw_task (W ! v) = u" by auto
      with False mem [of v d] show ?thesis by blast
    qed
  qed
qed

subsection \<open>Waking\<close>

text \<open>What waking one waiter leaves behind.\<close>

definition mark_woken :: "fwaiter_id \<Rightarrow> futex_manager \<Rightarrow> futex_manager" where
  "mark_woken w m =
     (store_state w FUTEX_WAITER_WOKEN m)\<lparr>fm_wait := (fm_wait m)(fw_task (fm_waiters m ! w) := None)\<rparr>"

definition matches :: "futex_manager \<Rightarrow> u32 \<Rightarrow> fwaiter_id \<Rightarrow> bool" where
  "matches m bitset w \<longleftrightarrow> fw_bitset (fm_waiters m ! w) AND bitset \<noteq> 0"

definition task_of :: "futex_manager \<Rightarrow> fwaiter_id \<Rightarrow> task_id" where
  "task_of m w = fw_task (fm_waiters m ! w)"

lemma mark_woken_simps [simp]:
  "fm_buckets (mark_woken w m) = fm_buckets m"
  "fm_waiters (mark_woken w m) = (fm_waiters m)[w := (fm_waiters m ! w)\<lparr>fw_state := FUTEX_WAITER_WOKEN\<rparr>]"
  "fm_wait (mark_woken w m) = (fm_wait m)(fw_task (fm_waiters m ! w) := None)"
  by (simp_all add: mark_woken_def store_state_def)

lemma list_update_if: "xs[i := x] ! j = (if i = j \<and> j < length xs then x else xs ! j)"
  by (cases "i = j") (auto simp: list_update_beyond)

lemma mark_woken_other:
  "matches (mark_woken w m) bitset = matches m bitset"
  "task_of (mark_woken w m) = task_of m"
  by (simp_all add: fun_eq_iff matches_def task_of_def list_update_if)

lemma fold_mark_woken_simps:
  "fm_buckets (fold mark_woken ws m) = fm_buckets m"
  "length (fm_waiters (fold mark_woken ws m)) = length (fm_waiters m)"
  "task_of (fold mark_woken ws m) = task_of m"
  by (induction ws arbitrary: m) (simp_all add: mark_woken_other)

lemma fold_mark_woken_state:
  "w < length (fm_waiters m) \<Longrightarrow> fw_state (fm_waiters (fold mark_woken ws m) ! w) =
     (if w \<in> set ws then FUTEX_WAITER_WOKEN else fw_state (fm_waiters m ! w))"
  by (induction ws arbitrary: m) (auto simp: nth_list_update)

lemma wake_waiter_eq:
  assumes "futex_sem Q (fm_waiters m) (fm_wait m)" and "w \<in> set (Q (Some key))"
  shows "wake_waiter key w m = Inr (task_of m w, mark_woken w m)"
  using sem_member(3,4) [OF assms] assms
  by (simp add: wake_waiter_def finish_futex_wait_def store_state_def task_of_def mark_woken_def Let_def)

lemma filter_neq_id: "w \<notin> set xs \<Longrightarrow> filter (\<lambda>v. v \<noteq> w) xs = xs"
  by (induction xs) auto

lemma filter_neq_split: "distinct (xs @ w # ys) \<Longrightarrow> filter (\<lambda>v. v \<noteq> w) (xs @ w # ys) = xs @ ys"
  by (simp add: filter_neq_id)

lemma sem_woken:
  assumes "futex_sem (Q(Some key := pre @ w # q)) (fm_waiters m) (fm_wait m)"
  shows "futex_sem (Q(Some key := pre @ q)) (fm_waiters (mark_woken w m)) (fm_wait (mark_woken w m))"
proof -
  have "distinct (pre @ w # q)" using sem_distinct [OF assms, of "Some key"] by simp
  from sem_unqueue [OF assms, of w "Some key" FUTEX_WAITER_WOKEN "Q(Some key := pre @ q)"] filter_neq_split [OF this]
  show ?thesis by simp
qed

lemma wake_scan_eq:
  assumes "futex_sem (Q(Some key := pre @ q)) (fm_waiters m) (fm_wait m)"
    and "hit = take limit (filter (matches m bitset) q)"
  shows "wake_scan key limit bitset q m = Inr (map (task_of m) hit, filter (\<lambda>w. w \<notin> set hit) q, fold mark_woken hit m) \<and>
    futex_sem (Q(Some key := pre @ filter (\<lambda>w. w \<notin> set hit) q)) (fm_waiters (fold mark_woken hit m)) (fm_wait (fold mark_woken hit m))"
  using assms
proof (induction q arbitrary: pre limit m hit)
  case (Cons w q)
  let ?W = "fm_waiters m"
  have d: "distinct (pre @ w # q)" using sem_distinct [OF Cons.prems(1), of "Some key"] by simp
  have queued: "is_queued m w" using sem_member(2) [OF Cons.prems(1), of w "Some key"] by (simp add: is_queued_def)
  consider "limit = 0" | "limit \<noteq> 0" "\<not> matches m bitset w" | n where "limit = Suc n" "matches m bitset w"
    by (cases limit) auto
  then show ?case
  proof cases
    case 1
    with Cons.prems show ?thesis by simp
  next
    case 2
    have "set hit \<subseteq> set q" using 2 Cons.prems(2) by (auto dest: in_set_takeD)
    then have "w \<notin> set hit" using d by auto
    with Cons.IH [of "pre @ [w]" m hit limit] Cons.prems 2 queued show ?thesis
      by (simp add: matches_def)
  next
    case 3
    let ?m = "mark_woken w m"
    define hit' where "hit' = take n (filter (matches ?m bitset) q)"
    have hit: "hit = w # hit'" using Cons.prems(2) 3 by (simp add: hit'_def mark_woken_other)
    have "set hit' \<subseteq> set q" by (auto simp: hit'_def dest: in_set_takeD)
    then have rest: "filter (\<lambda>v. v \<notin> set hit) (w # q) = filter (\<lambda>v. v \<notin> set hit') q"
      using d by (auto simp: hit intro: filter_cong)
    have "wake_waiter key w m = Inr (task_of m w, ?m)"
      by (rule wake_waiter_eq [OF Cons.prems(1)]) simp
    with Cons.IH [OF sem_woken [OF Cons.prems(1)] hit'_def] 3 queued show ?thesis
      unfolding rest by (simp add: hit mark_woken_other matches_def)
  qed
qed simp

lemma wake_one_scan_eq:
  "wake_one_scan key bitset q m =
     (case wake_scan key 1 bitset q m of
        Inl p \<Rightarrow> Inl p
      | Inr (ts, kept, m') \<Rightarrow> Inr (case ts of [] \<Rightarrow> None | t # _ \<Rightarrow> Some t, kept, m'))"
proof (induction q arbitrary: m)
  case (Cons w q)
  have "wake_scan key 0 bitset q m' = Inr ([], q, m')" for m' by (cases q) simp_all
  with Cons show ?case by (auto split: sum.split)
qed simp

lemma futex_ok_parts: "futex_ok m \<Longrightarrow> buckets_ok (fm_buckets m)"
    "futex_ok m \<Longrightarrow> futex_sem (case_option [] (queue_of m)) (fm_waiters m) (fm_wait m)"
  by (simp_all add: futex_ok_def)

lemma queue_of_buckets: "fm_buckets m' = fm_buckets m \<Longrightarrow> queue_of m' = queue_of m"
  by (simp add: queue_of_def fun_eq_iff)

text \<open>The first waiters of a key that match, up to the limit.\<close>

definition chosen :: "futex_key \<Rightarrow> nat \<Rightarrow> u32 \<Rightarrow> futex_manager \<Rightarrow> fwaiter_id list" where
  "chosen key limit bitset m = take limit (filter (matches m bitset) (queue_of m key))"

lemma wake_result:
  assumes "futex_ok m" and "hit = chosen key limit bitset m"
  shows "\<exists>m'. wake key limit bitset m = Inr (map (task_of m) hit, m') \<and> futex_ok m' \<and>
    queue_of m' = (queue_of m)(key := filter (\<lambda>w. w \<notin> set hit) (queue_of m key)) \<and>
    fm_waiters m' = fm_waiters (fold mark_woken hit m) \<and> fm_wait m' = fm_wait (fold mark_woken hit m)"
proof (cases "bt_get (fm_buckets m ! bucket_index key) key")
  case None
  then have "queue_of m key = []" by (simp add: queue_of_def)
  moreover from this have "hit = []" using assms(2) by (simp add: chosen_def)
  ultimately show ?thesis using None assms(1) by (simp add: wake_def fun_upd_idem)
next
  case (Some q)
  then have q: "queue_of m key = q" by (simp add: queue_of_def)
  note ok = futex_ok_parts [OF assms(1)]
  let ?kept = "filter (\<lambda>w. w \<notin> set hit) q" and ?m = "fold mark_woken hit m"
  have upd: "(case_option [] (queue_of m))(Some key := [] @ q) = case_option [] (queue_of m)"
    using q by (auto simp: fun_eq_iff split: option.split)
  have hit: "hit = take limit (filter (matches m bitset) q)" using assms(2) q by (simp add: chosen_def)
  have "futex_sem ((case_option [] (queue_of m))(Some key := [] @ q)) (fm_waiters m) (fm_wait m)"
    unfolding upd by (rule ok(2))
  from wake_scan_eq [OF this hit]
  have scan: "wake_scan key limit bitset q m = Inr (map (task_of m) hit, ?kept, ?m)"
    and sem: "futex_sem ((case_option [] (queue_of m))(Some key := ?kept)) (fm_waiters ?m) (fm_wait ?m)"
    by simp_all
  define m' where "m' = put_bucket (bucket_index key) (remove_empty_queue key (bt_insert key ?kept (fm_buckets ?m ! bucket_index key))) ?m"
  have "buckets_ok (fm_buckets ?m)" using ok(1) by (simp add: fold_mark_woken_simps)
  from put_queue [OF this refl, of key ?kept] have b: "buckets_ok (fm_buckets m')" and
    qm: "queue_of m' = (queue_of ?m)(key := ?kept)" by (simp_all add: m'_def)
  have qq: "queue_of ?m = queue_of m" by (rule queue_of_buckets) (rule fold_mark_woken_simps)
  have "futex_ok m'" using b sem by (simp add: futex_ok_def qm qq case_option_upd) (simp add: m'_def)
  moreover have "wake key limit bitset m = Inr (map (task_of m) hit, m')"
    using Some scan by (simp add: wake_def m'_def fold_mark_woken_simps Let_def)
  ultimately show ?thesis using qm qq q by (auto simp: m'_def)
qed

lemma wake_one_inner_eq:
  "wake_one_inner key bitset check m =
     (case wake key 1 bitset m of
        Inl p \<Rightarrow> Inl p
      | Inr (ts, m') \<Rightarrow> Inr ((case ts of [] \<Rightarrow> None | t # _ \<Rightarrow> Some t, check \<and> has_waiters key m'), m'))"
  if "futex_ok m"
proof (cases "bt_get (fm_buckets m ! bucket_index key) key")
  case None
  then show ?thesis by (simp add: wake_one_inner_def wake_def has_waiters_def)
next
  case (Some q)
  have len: "bucket_index key < length (fm_buckets m)"
    using futex_ok_parts(1) [OF that] by (simp add: buckets_ok_def)
  have buckets: "fm_buckets m' = fm_buckets m" if "wake_scan key n bitset q m = Inr (ts, kept, m')" for n ts kept m'
    using wake_scan_eq [of "case_option [] (queue_of m)" key "[]" q m _ n bitset] that futex_ok_parts(2) [OF \<open>futex_ok m\<close>] Some
    by (simp add: fun_upd_idem queue_of_def fold_mark_woken_simps)
  show ?thesis
  proof (cases "wake_scan key 1 bitset q m")
    case (Inl p)
    with Some show ?thesis by (simp add: wake_one_inner_def wake_def wake_one_scan_eq Let_def)
  next
    case (Inr r)
    obtain ts kept m' where r: "r = (ts, kept, m')" by (cases r)
    with Inr buckets have "fm_buckets m' = fm_buckets m" by blast
    with Some Inr r len show ?thesis
      by (simp add: wake_one_inner_def wake_def wake_one_scan_eq has_waiters_def bt_get_remove_empty is_queued_def Let_def)
  qed
qed

lemma has_waiters_iff:
  assumes "futex_ok m"
  shows "has_waiters key m \<longleftrightarrow> queue_of m key \<noteq> []"
proof -
  have "is_queued m w" if "w \<in> set (queue_of m key)" for w
    using sem_member(2) [OF futex_ok_parts(2) [OF assms], of w "Some key"] that by (simp add: is_queued_def)
  then show ?thesis by (cases "bt_get (fm_buckets m ! bucket_index key) key")
      (auto simp: has_waiters_def queue_of_def simp flip: ex_in_conv set_empty)
qed

lemma block_current_result:
  assumes "futex_ok m" and "fm_wait m t = None"
  shows "\<exists>m'. block_current_on key bitset (Some t) m = Inr (Some (length (fm_waiters m)), m') \<and> futex_ok m' \<and>
    queue_of m' = (queue_of m)(key := queue_of m key @ [length (fm_waiters m)]) \<and>
    fm_waiters m' = fm_waiters m @ [\<lparr>fw_task = t, fw_bitset = bitset, fw_bucket = bucket_index key, fw_state = FUTEX_WAITER_QUEUED\<rparr>] \<and>
    fm_wait m' = (fm_wait m)(t \<mapsto> bucket_index key)"
proof -
  note ok = futex_ok_parts [OF assms(1)]
  let ?x = "\<lparr>fw_task = t, fw_bitset = bitset, fw_bucket = bucket_index key, fw_state = FUTEX_WAITER_QUEUED\<rparr>"
  let ?w = "length (fm_waiters m)"
  define m1 where "m1 = m\<lparr>fm_wait := (fm_wait m)(t \<mapsto> bucket_index key), fm_waiters := fm_waiters m @ [?x]\<rparr>"
  define m' where "m' = put_bucket (bucket_index key)
    (bt_insert key (queue_of m key @ [?w]) (fm_buckets m1 ! bucket_index key)) m1"
  have b: "buckets_ok (fm_buckets m1)" and q1: "queue_of m1 = queue_of m" using ok(1) by (simp_all add: m1_def)
  from put_queue_nonempty [OF b _ refl, of "queue_of m key @ [?w]" key]
  have "buckets_ok (fm_buckets m')" and q: "queue_of m' = (queue_of m)(key := queue_of m key @ [?w])"
    by (simp_all add: m'_def q1)
  moreover from sem_new [OF ok(2) assms(2) refl refl, of key bitset]
  have "futex_sem (case_option [] (queue_of m')) (fm_waiters m') (fm_wait m')"
    by (simp add: q case_option_upd) (simp add: m'_def m1_def)
  moreover have "block_current_on key bitset (Some t) m = Inr (Some ?w, m')"
    using assms(2) by (simp add: block_current_on_def begin_futex_wait_def m'_def m1_def queue_of_def Let_def)
  ultimately show ?thesis by (simp add: futex_ok_def m'_def m1_def)
qed

subsection \<open>Requeueing\<close>

lemma requeue_locks_ascending: "sorted_wrt (<) (requeue_locks source target)"
  by (auto simp: requeue_locks_def)

text \<open>A waiter is taken out of its queue to be moved.\<close>

lemma sem_lift:
  assumes sem: "futex_sem (Q(Some key := pre @ w # q, None := moved)) W T"
  shows "futex_sem (Q(Some key := pre @ q, None := moved @ [w])) W T"
proof -
  let ?Q = "Q(Some key := pre @ w # q, None := moved)"
  have w: "w \<in> set (?Q (Some key))" by simp
  have d: "distinct (pre @ w # q)" using sem_distinct [OF sem, of "Some key"] by simp
  have Q': "Q(Some key := pre @ q, None := moved @ [w]) =
      ?Q(Some key := filter (\<lambda>v. v \<noteq> w) (?Q (Some key)), None := ?Q None @ [w])"
    using filter_neq_split [OF d] by (auto simp: fun_eq_iff)
  have "(W ! w)\<lparr>fw_bucket := fw_bucket (W ! w)\<rparr> = W ! w" by simp
  moreover have "T(fw_task (W ! w) \<mapsto> fw_bucket (W ! w)) = T"
    using sem_member(3) [OF sem w] by (simp add: fun_upd_idem)
  ultimately show ?thesis
    using sem_move [OF sem w _ _ Q', of "fw_bucket (W ! w)"] by simp
qed

lemma requeue_scan_eq:
  assumes "futex_sem (Q(Some source := kept @ q, None := moved)) (fm_waiters m) (fm_wait m)"
    and "n1 = wake_limit - length tasks" and "n2 = requeue_limit - length moved"
    and "hit = take n1 q" and "go = take n2 (drop n1 q)" and "stay = drop n2 (drop n1 q)"
  shows "requeue_scan source wake_limit requeue_limit q tasks moved kept m =
      Inr (tasks @ map (task_of m) hit, moved @ go, kept @ stay, fold mark_woken hit m) \<and>
    futex_sem (Q(Some source := kept @ stay, None := moved @ go)) (fm_waiters (fold mark_woken hit m)) (fm_wait (fold mark_woken hit m))"
  using assms
proof (induction q arbitrary: tasks moved kept m n1 n2 hit go stay)
  case (Cons w q)
  have queued: "is_queued m w" using sem_member(2) [OF Cons.prems(1), of w "Some source"] by (simp add: is_queued_def)
  consider n where "n1 = Suc n" | n where "n1 = 0" "n2 = Suc n" | "n1 = 0" "n2 = 0"
    by (cases n1; cases n2) auto
  then show ?case
  proof cases
    case 1
    let ?m = "mark_woken w m"
    have twist: "Q(Some source := x, None := moved) = (Q(None := moved))(Some source := x)" for x
      by (rule fun_upd_twist) simp
    have sem: "futex_sem (Q(Some source := kept @ q, None := moved)) (fm_waiters ?m) (fm_wait ?m)"
      using Cons.prems(1) unfolding twist by (rule sem_woken)
    have lt: "length tasks < wake_limit" and n: "n = wake_limit - length (tasks @ [task_of m w])"
      using 1 Cons.prems(2) by auto
    have "wake_waiter source w m = Inr (task_of m w, ?m)"
      by (rule wake_waiter_eq [OF Cons.prems(1)]) simp
    then show ?thesis
      using Cons.IH [OF sem n Cons.prems(3) refl refl refl] 1 queued lt Cons.prems(4-6)
      by (simp add: mark_woken_other)
  next
    case 2
    have sem: "futex_sem (Q(Some source := kept @ q, None := moved @ [w])) (fm_waiters m) (fm_wait m)"
      by (rule sem_lift [OF Cons.prems(1)])
    have lt: "\<not> length tasks < wake_limit" "length moved < requeue_limit" and n: "n = requeue_limit - length (moved @ [w])"
      using 2 Cons.prems(2,3) by auto
    show ?thesis
      using Cons.IH [OF sem Cons.prems(2) n refl refl refl] 2 queued lt Cons.prems(4-6) by simp
  next
    case 3
    have sem: "futex_sem (Q(Some source := (kept @ [w]) @ q, None := moved)) (fm_waiters m) (fm_wait m)"
      using Cons.prems(1) by (simp only: append_assoc append_Cons append_Nil)
    have lt: "\<not> length tasks < wake_limit" "\<not> length moved < requeue_limit"
      using 3 Cons.prems(2,3) by auto
    show ?thesis
      using Cons.IH [OF sem Cons.prems(2,3) refl refl refl] 3 queued lt Cons.prems(4-6) by simp
  qed
qed simp

lemma requeue_one_result:
  assumes b: "buckets_ok (fm_buckets m)" and sem: "futex_sem (case_option (w # ws) (queue_of m)) (fm_waiters m) (fm_wait m)"
  shows "\<exists>m'. requeue_one target (bucket_index target) w m = Inr m' \<and> buckets_ok (fm_buckets m') \<and>
    queue_of m' = (queue_of m)(target := queue_of m target @ [w]) \<and>
    futex_sem (case_option ws (queue_of m')) (fm_waiters m') (fm_wait m') \<and> task_of m' = task_of m \<and>
    length (fm_waiters m') = length (fm_waiters m)"
proof -
  let ?i = "bucket_index target" and ?q = "queue_of m target @ [w]" and ?x = "(fm_waiters m ! w)\<lparr>fw_bucket := bucket_index target\<rparr>"
  let ?Q = "case_option (w # ws) (queue_of m)"
  have w: "w \<in> set (?Q None)" by simp
  define m1 where "m1 = put_bucket ?i (bt_insert target ?q (fm_buckets m ! ?i)) m"
  define m' where "m' = m1\<lparr>fm_waiters := (fm_waiters m)[w := ?x], fm_wait := (fm_wait m)(fw_task (fm_waiters m ! w) \<mapsto> ?i)\<rparr>"
  from put_queue_nonempty [OF b _ refl, of ?q target]
  have bo: "buckets_ok (fm_buckets m')" and q: "queue_of m' = (queue_of m)(target := ?q)"
    by (simp_all add: m'_def m1_def)
  have "distinct (w # ws)" using sem_distinct [OF sem, of None] by simp
  then have "case_option ws (queue_of m') = ?Q(None := filter (\<lambda>v. v \<noteq> w) (?Q None), Some target := ?Q (Some target) @ [w])"
    by (auto simp: fun_eq_iff q filter_neq_id split: option.split)
  from sem_move [OF sem w _ _ this, of ?i]
  have "futex_sem (case_option ws (queue_of m')) (fm_waiters m') (fm_wait m')" by (simp add: m'_def)
  moreover have lt: "w < length (fm_waiters m)" and "fm_wait m (fw_task (fm_waiters m ! w)) \<noteq> None"
    using sem_member [OF sem w] by auto
  then have "requeue_one target ?i w m = Inr m'"
    by (simp add: requeue_one_def move_futex_wait_def queue_of_def m'_def m1_def Let_def)
  ultimately show ?thesis using bo q by (auto simp: m'_def m1_def task_of_def fun_eq_iff list_update_if)
qed

lemma insert_requeued_result:
  assumes "buckets_ok (fm_buckets m)" and "futex_sem (case_option ws (queue_of m)) (fm_waiters m) (fm_wait m)"
  shows "\<exists>m'. insert_requeued target (bucket_index target) ws m = Inr m' \<and> futex_ok m' \<and>
    queue_of m' = (queue_of m)(target := queue_of m target @ ws) \<and> task_of m' = task_of m \<and>
    length (fm_waiters m') = length (fm_waiters m)"
  using assms
proof (induction ws arbitrary: m)
  case Nil
  then show ?case by (simp add: futex_ok_def)
next
  case (Cons w ws)
  from requeue_one_result [OF Cons.prems] obtain m1 where m1: "requeue_one target (bucket_index target) w m = Inr m1"
    "buckets_ok (fm_buckets m1)" "queue_of m1 = (queue_of m)(target := queue_of m target @ [w])"
    "futex_sem (case_option ws (queue_of m1)) (fm_waiters m1) (fm_wait m1)" "task_of m1 = task_of m"
    "length (fm_waiters m1) = length (fm_waiters m)" by blast
  from Cons.IH [OF m1(2,4)] obtain m' where "insert_requeued target (bucket_index target) ws m1 = Inr m'" "futex_ok m'"
    "queue_of m' = (queue_of m1)(target := queue_of m1 target @ ws)" "task_of m' = task_of m1"
    "length (fm_waiters m') = length (fm_waiters m1)" by blast
  moreover from this m1(3) have "queue_of m' = (queue_of m)(target := queue_of m target @ w # ws)" by simp
  ultimately show ?case using m1(1,5,6) by (intro exI [of _ m'] conjI) simp_all
qed

lemma requeue_result:
  assumes ok: "futex_ok m" and "q = queue_of m source" and "hit = take wake_limit q"
    and "go = take requeue_limit (drop wake_limit q)" and "Q1 = (queue_of m)(source := drop requeue_limit (drop wake_limit q))"
  shows "\<exists>m'. requeue source target wake_limit requeue_limit m = Inr ((map (task_of m) hit, length go), m') \<and> futex_ok m' \<and>
    queue_of m' = Q1(target := Q1 target @ go) \<and> task_of m' = task_of m \<and> length (fm_waiters m') = length (fm_waiters m)"
proof -
  note parts = futex_ok_parts [OF ok]
  let ?stay = "drop requeue_limit (drop wake_limit q)" and ?m = "fold mark_woken hit m" and ?i = "bucket_index source"
  have qm: "queue_of ?m = queue_of m" by (rule queue_of_buckets) (rule fold_mark_woken_simps)
  have b: "buckets_ok (fm_buckets ?m)" using parts(1) by (simp add: fold_mark_woken_simps)
  define m1 where "m1 = put_bucket ?i (remove_empty_queue source (bt_insert source ?stay (fm_buckets ?m ! ?i))) ?m"
  have upd: "(case_option [] (queue_of m))(Some source := [] @ q, None := []) = case_option [] (queue_of m)"
    using assms(2) by (auto simp: fun_eq_iff split: option.split)
  have "futex_sem ((case_option [] (queue_of m))(Some source := [] @ q, None := [])) (fm_waiters m) (fm_wait m)"
    unfolding upd by (rule parts(2))
  from requeue_scan_eq [OF this, of wake_limit wake_limit "[]" requeue_limit requeue_limit hit go ?stay] assms(3,4)
  have scan: "requeue_scan source wake_limit requeue_limit q [] [] [] m = Inr (map (task_of m) hit, go, ?stay, ?m)"
    and sem: "futex_sem ((case_option [] (queue_of m))(Some source := ?stay, None := go)) (fm_waiters ?m) (fm_wait ?m)"
    by simp_all
  have m1: "buckets_ok (fm_buckets m1)" "queue_of m1 = Q1" "task_of m1 = task_of m" "length (fm_waiters m1) = length (fm_waiters m)"
    using put_queue [OF b refl, of source ?stay] qm assms(5)
    by (simp_all add: m1_def fold_mark_woken_simps task_of_def fun_eq_iff)
       (use fold_mark_woken_simps(3) [of hit m] in \<open>simp add: task_of_def fun_eq_iff\<close>)
  have "case_option go Q1 = (case_option [] (queue_of m))(Some source := ?stay, None := go)"
    using assms(5) by (auto simp: fun_eq_iff split: option.split)
  with sem m1(2) have "futex_sem (case_option go (queue_of m1)) (fm_waiters m1) (fm_wait m1)" by (simp add: m1_def)
  from insert_requeued_result [OF m1(1) this, of target] m1 obtain m' where m': "insert_requeued target (bucket_index target) go m1 = Inr m'"
    "futex_ok m'" "queue_of m' = Q1(target := Q1 target @ go)" "task_of m' = task_of m" "length (fm_waiters m') = length (fm_waiters m)"
    by auto
  have "take_requeue_source source wake_limit requeue_limit m = Inr (map (task_of m) hit, go, m1)"
  proof (cases "bt_get (fm_buckets m ! ?i) source")
    case None
    then have "q = []" using assms(2) by (simp add: queue_of_def)
    then have "m1 = m" using None assms(3)
      by (simp add: m1_def remove_empty_queue_def put_bucket_def bt_remove_insert_fresh)
    with None \<open>q = []\<close> assms(3,4) show ?thesis by (simp add: take_requeue_source_def)
  next
    case (Some q')
    then have "q' = q" using assms(2) by (simp add: queue_of_def)
    with Some scan show ?thesis by (simp add: take_requeue_source_def m1_def fold_mark_woken_simps Let_def)
  qed
  with m' show ?thesis by (simp add: requeue_def)
qed

subsection \<open>Leaving a queue\<close>

text \<open>What cancelling one waiter leaves behind.\<close>

definition cancelled :: "nat \<Rightarrow> (fwaiter_id \<Rightarrow> bool) \<Rightarrow> fwaiter_id \<Rightarrow> futex_manager \<Rightarrow> futex_manager" where
  "cancelled i keep w m =
     (store_state w FUTEX_WAITER_CANCELLED (put_bucket i (retain_waiters keep (fm_buckets m ! i)) m))
       \<lparr>fm_wait := (fm_wait m)(fw_task (fm_waiters m ! w) := None)\<rparr>"

lemma cancelled_simps:
  "fm_waiters (cancelled i keep w m) = (fm_waiters m)[w := (fm_waiters m ! w)\<lparr>fw_state := FUTEX_WAITER_CANCELLED\<rparr>]"
  "fm_wait (cancelled i keep w m) = (fm_wait m)(fw_task (fm_waiters m ! w) := None)"
  "task_of (cancelled i keep w m) = task_of m"
  by (simp_all add: cancelled_def store_state_def task_of_def fun_eq_iff list_update_if)

lemma cancelled_ok:
  assumes ok: "futex_ok m" and w: "w \<in> set (queue_of m k)" and i: "i = bucket_index k"
    and keep: "\<And>v k'. v \<in> set (queue_of m k') \<Longrightarrow> keep v \<longleftrightarrow> v \<noteq> w"
  shows "futex_ok (cancelled i keep w m)"
    and "queue_of (cancelled i keep w m) = (queue_of m)(k := filter (\<lambda>v. v \<noteq> w) (queue_of m k))"
proof -
  note parts = futex_ok_parts [OF ok]
  let ?Q = "case_option [] (queue_of m)" and ?b = "retain_waiters keep (fm_buckets m ! i)"
  have i': "i < FUTEX_BUCKET_COUNT" by (simp add: i)
  have other: "w \<notin> set (queue_of m k')" if "k' \<noteq> k" for k'
    using sem_task_unique [OF parts(2), of w "Some k" w "Some k'"] w that by auto
  have "queue_of (put_bucket i ?b m) k' = ((queue_of m)(k := filter (\<lambda>v. v \<noteq> w) (queue_of m k))) k'" for k'
  proof (cases "k' = k")
    case True
    have "filter keep (queue_of m k) = filter (\<lambda>v. v \<noteq> w) (queue_of m k)" using keep by (auto intro: filter_cong)
    with True i put_retain(2) [OF parts(1) i' refl, of keep k] show ?thesis by simp
  next
    case False
    have "filter keep (queue_of m k') = queue_of m k'" using keep [of _ k'] other [OF False] by (auto simp: filter_id_conv)
    with False put_retain(2) [OF parts(1) i' refl, of keep k'] show ?thesis by simp
  qed
  then show q: "queue_of (cancelled i keep w m) = (queue_of m)(k := filter (\<lambda>v. v \<noteq> w) (queue_of m k))"
    by (simp add: cancelled_def store_state_def fun_eq_iff)
  have "w \<in> set (?Q (Some k))" using w by simp
  from sem_unqueue [OF parts(2) this _ refl, of FUTEX_WAITER_CANCELLED]
  show "futex_ok (cancelled i keep w m)"
    using put_retain(1) [OF parts(1) i' refl, of keep]
    by (simp add: futex_ok_def q case_option_upd cancelled_simps) (simp add: cancelled_def store_state_def)
qed

lemma queued_key:
  assumes ok: "futex_ok m" and "w < length (fm_waiters m)" and "is_queued m w"
  obtains k where "w \<in> set (queue_of m k)" and "fw_bucket (fm_waiters m ! w) = bucket_index k"
proof -
  note sem = futex_ok_parts(2) [OF ok]
  from sem_queued [OF sem, of w] assms(2,3) obtain c where c: "w \<in> set (case_option [] (queue_of m) c)"
    by (auto simp: is_queued_def)
  then obtain k where k: "c = Some k" by (cases c) auto
  from that [of k] c k sem_member(4) [OF sem c k] show thesis by simp
qed

lemma in_bucket_iff:
  assumes ok: "futex_ok m" and "i < FUTEX_BUCKET_COUNT"
  shows "(\<exists>e \<in> set (fm_buckets m ! i). w \<in> set (snd e)) \<longleftrightarrow> (\<exists>k. bucket_index k = i \<and> w \<in> set (queue_of m k))"
proof -
  have b: "bt_ok (fm_buckets m ! i)" and h: "\<And>k q. bt_get (fm_buckets m ! i) k = Some q \<Longrightarrow> bucket_index k = i"
    using futex_ok_parts(1) [OF ok] assms(2) by (auto simp: buckets_ok_def)
  show ?thesis
  proof
    assume "\<exists>e \<in> set (fm_buckets m ! i). w \<in> set (snd e)"
    then obtain k q where e: "(k, q) \<in> set (fm_buckets m ! i)" "w \<in> set q" by auto
    then have g: "bt_get (fm_buckets m ! i) k = Some q" using bt_ok_set_iff [OF b] by simp
    with h have "bucket_index k = i" by blast
    with g e(2) show "\<exists>k. bucket_index k = i \<and> w \<in> set (queue_of m k)" by (auto simp: queue_of_def)
  next
    assume "\<exists>k. bucket_index k = i \<and> w \<in> set (queue_of m k)"
    then obtain k where k: "bucket_index k = i" "w \<in> set (queue_of m k)" by blast
    then obtain q where q: "bt_get (fm_buckets m ! i) k = Some q" "w \<in> set q"
      by (cases "bt_get (fm_buckets m ! i) k") (auto simp: queue_of_def)
    then have "(k, q) \<in> set (fm_buckets m ! i)" using bt_ok_set_iff [OF b] by simp
    with q(2) show "\<exists>e \<in> set (fm_buckets m ! i). w \<in> set (snd e)" by force
  qed
qed

lemma retain_all:
  assumes ok: "futex_ok m" and "i < FUTEX_BUCKET_COUNT"
    and "\<And>k v. v \<in> set (queue_of m k) \<Longrightarrow> bucket_index k = i \<Longrightarrow> keep v"
  shows "put_bucket i (retain_waiters keep (fm_buckets m ! i)) m = m"
proof -
  let ?b = "fm_buckets m ! i"
  have b: "bt_ok ?b" and h: "\<And>k q. bt_get ?b k = Some q \<Longrightarrow> bucket_index k = i \<and> q \<noteq> []"
    using futex_ok_parts(1) [OF ok] assms(2) by (auto simp: buckets_ok_def)
  have "filter keep q = q \<and> q \<noteq> []" if "(k, q) \<in> set ?b" for k q
  proof -
    from that have g: "bt_get ?b k = Some q" using bt_ok_set_iff [OF b] by simp
    with h have "bucket_index k = i" "q \<noteq> []" by blast+
    with g assms(3) [of _ k] show ?thesis by (simp add: filter_id_conv queue_of_def)
  qed
  then have "bt_map (filter keep) ?b = ?b" and "filter (\<lambda>e. snd e \<noteq> []) ?b = ?b"
    by (auto simp: bt_map_def filter_id_conv intro!: map_idI)
  then have "retain_waiters keep ?b = ?b" by (simp add: retain_waiters_def)
  then show ?thesis by (simp add: put_bucket_def)
qed

lemma cleanup_attempt_cases:
  assumes ok: "futex_ok m" and "w < length (fm_waiters m)" and i: "i < FUTEX_BUCKET_COUNT"
  shows "cleanup_attempt w i m = Inr (None, m) \<and> (is_queued m w \<longrightarrow> fw_bucket (fm_waiters m ! w) \<noteq> i) \<or>
    is_queued m w \<and> cleanup_attempt w i m = Inr (Some StillQueued, cancelled i (\<lambda>v. v \<noteq> w) w m)"
proof (cases "is_queued m w")
  case True
  from queued_key [OF assms(1,2) True] obtain k where k: "w \<in> set (queue_of m k)" "fw_bucket (fm_waiters m ! w) = bucket_index k" .
  show ?thesis
  proof (cases "bucket_index k = i")
    case eq: True
    have "\<exists>e \<in> set (fm_buckets m ! i). w \<in> set (snd e)" using in_bucket_iff [OF ok i] k(1) eq by blast
    moreover have "fm_wait m (fw_task (fm_waiters m ! w)) = Some i"
      using sem_member(3) [OF futex_ok_parts(2) [OF ok], of w "Some k"] k eq by simp
    ultimately show ?thesis using True k(2) eq
      by (simp add: cleanup_attempt_def finish_futex_wait_def cancelled_def store_state_def Let_def)
  next
    case False
    with k(2) show ?thesis by (simp add: cleanup_attempt_def)
  qed
next
  case False
  have notin: "w \<notin> set (queue_of m k)" for k
    using sem_member(2) [OF futex_ok_parts(2) [OF ok], of w "Some k"] False by (auto simp: is_queued_def)
  then have "\<not> (\<exists>e \<in> set (fm_buckets m ! i). w \<in> set (snd e))" using in_bucket_iff [OF ok i] by blast
  moreover have "put_bucket i (retain_waiters (\<lambda>v. v \<noteq> w) (fm_buckets m ! i)) m = m"
    using notin by (intro retain_all [OF ok i]) auto
  ultimately show ?thesis using False by (simp add: cleanup_attempt_def Let_def)
qed

lemma remove_waiter_returns:
  assumes "futex_ok m" and "w < length (fm_waiters m)"
    and "\<And>f m. f \<in> set fs \<Longrightarrow> futex_ok m \<Longrightarrow> w < length (fm_waiters m) \<Longrightarrow> futex_ok (f m) \<and> w < length (fm_waiters (f m))"
  shows "\<exists>r m'. remove_waiter_for_task w (fs @ [id]) m = Inr (Some r, m') \<and> futex_ok m' \<and> \<not> is_queued m' w"
  using assms
proof (induction fs arbitrary: m)
  case Nil
  let ?i = "fw_bucket (fm_waiters m ! w)"
  show ?case
  proof (cases "is_queued m w")
    case True
    from queued_key [OF Nil(1,2) True] obtain k where k: "w \<in> set (queue_of m k)" "?i = bucket_index k" .
    then have "cleanup_attempt w ?i m = Inr (Some StillQueued, cancelled ?i (\<lambda>v. v \<noteq> w) w m)"
      using cleanup_attempt_cases [OF Nil(1,2), of ?i] True by auto
    with True cancelled_ok(1) [OF Nil(1) k(1) k(2)] Nil(2) show ?thesis
      by (simp add: is_queued_def cancelled_simps)
  next
    case False
    with Nil show ?thesis by (cases "fw_state (fm_waiters m ! w)") (auto simp: is_queued_def)
  qed
next
  case (Cons f fs)
  let ?i = "fw_bucket (fm_waiters m ! w)"
  show ?case
  proof (cases "is_queued m w")
    case True
    from queued_key [OF Cons(2,3) True] have i: "?i < FUTEX_BUCKET_COUNT" by (metis bucket_index_less)
    have fm: "futex_ok (f m)" "w < length (fm_waiters (f m))" using Cons.prems(3) [of f m] Cons.prems(1,2) by auto
    from cleanup_attempt_cases [OF fm i] consider "cleanup_attempt w ?i (f m) = Inr (None, f m)"
      | "is_queued (f m) w" "cleanup_attempt w ?i (f m) = Inr (Some StillQueued, cancelled ?i (\<lambda>v. v \<noteq> w) w (f m))" by blast
    then show ?thesis
    proof cases
      case 1
      with True Cons.IH [OF fm] Cons.prems(3) show ?thesis by (simp add: is_queued_def)
    next
      case 2
      from queued_key [OF fm 2(1)] obtain k where k: "w \<in> set (queue_of (f m) k)" "fw_bucket (fm_waiters (f m) ! w) = bucket_index k" .
      have "?i = bucket_index k" using 2(2) k(2) by (auto simp: cleanup_attempt_def split: if_split_asm)
      from cancelled_ok(1) [OF fm(1) k(1) this] 2 True fm(2) show ?thesis by (simp add: is_queued_def cancelled_simps)
    qed
  next
    case False
    with Cons.prems show ?thesis by (cases "fw_state (fm_waiters m ! w)") (auto simp: is_queued_def)
  qed
qed

lemma store_state_fold:
  "set ws = {w} \<Longrightarrow> fold (\<lambda>v. store_state v st) ws m = store_state w st m"
proof (induction ws arbitrary: m)
  case (Cons v ws)
  have idem: "store_state w st (store_state w st m) = store_state w st m"
    by (cases "w < length (fm_waiters m)") (simp_all add: store_state_def list_update_beyond)
  show ?case
  proof (cases "ws = []")
    case False
    then have "set ws = {w}" "v = w" using Cons.prems by (auto simp: subset_singleton_iff)
    with Cons.IH [of "store_state w st m"] idem show ?thesis by simp
  qed (use Cons.prems in simp)
qed simp

lemma cancel_task_eq:
  assumes ok: "futex_ok m" and t: "fm_wait m t = Some i"
  obtains w k where "w \<in> set (queue_of m k)" and "task_of m w = t" and "i = bucket_index k"
    and "finish_futex_wait t i (cancel_task_waiters t i m) = Inr (cancelled i (\<lambda>v. task_of m v \<noteq> t) w m)"
    and "\<And>v k'. v \<in> set (queue_of m k') \<Longrightarrow> task_of m v \<noteq> t \<longleftrightarrow> v \<noteq> w"
proof -
  note sem = futex_ok_parts(2) [OF ok]
  from sem_waiting [OF sem, of t] t obtain c w where c: "w \<in> set (case_option [] (queue_of m) c)" "fw_task (fm_waiters m ! w) = t"
    by auto
  then obtain k where k: "c = Some k" by (cases c) auto
  have i: "i = bucket_index k" using sem_member(3) [OF sem c(1)] sem_member(4) [OF sem c(1) k] c(2) t by simp
  have uniq: "task_of m v \<noteq> t \<longleftrightarrow> v \<noteq> w" if "v \<in> set (queue_of m k')" for v k'
  proof -
    have v: "v \<in> set (case_option [] (queue_of m) (Some k'))" using that by simp
    have "v = w" if "fw_task (fm_waiters m ! v) = t"
      using sem_task_unique [OF sem c(1) v] that c(2) by metis
    with c(2) show ?thesis unfolding task_of_def by blast
  qed
  let ?all = "concat (map snd (fm_buckets m ! i))"
  have "v \<in> set ?all \<longleftrightarrow> (\<exists>k'. bucket_index k' = i \<and> v \<in> set (queue_of m k'))" for v
    using in_bucket_iff [OF ok, of i v] i by auto
  then have "v \<in> set (filter (\<lambda>w. fw_task (fm_waiters m ! w) = t) ?all) \<longleftrightarrow> v = w" for v
    using uniq i c k by (auto simp: task_of_def)
  then have "set (filter (\<lambda>w. fw_task (fm_waiters m ! w) = t) ?all) = {w}" by blast
  from store_state_fold [OF this]
  have "finish_futex_wait t i (cancel_task_waiters t i m) = Inr (cancelled i (\<lambda>v. task_of m v \<noteq> t) w m)"
    using t c(2) unfolding cancel_task_waiters_def Let_def
    by (simp add: finish_futex_wait_def cancelled_def store_state_def task_of_def)
  with that [of w k] c k i uniq show thesis by (simp add: task_of_def)
qed

lemma remove_tasks_result:
  assumes "futex_ok m"
  shows "\<exists>m'. remove_tasks ts m = Inr m' \<and> futex_ok m' \<and> task_of m' = task_of m \<and>
    length (fm_waiters m') = length (fm_waiters m) \<and> (\<forall>t. t \<in> set ts \<longrightarrow> fm_wait m' t = None) \<and>
    (\<forall>t. t \<notin> set ts \<longrightarrow> fm_wait m' t = fm_wait m t) \<and>
    (\<forall>k. queue_of m' k = filter (\<lambda>w. task_of m w \<notin> set ts) (queue_of m k))"
  using assms
proof (induction ts arbitrary: m)
  case (Cons t ts)
  show ?case
  proof (cases "fm_wait m t")
    case None
    from Cons.IH [OF Cons.prems] obtain m' where m': "remove_tasks ts m = Inr m'" "futex_ok m'" "task_of m' = task_of m"
      "length (fm_waiters m') = length (fm_waiters m)" "\<forall>t. t \<in> set ts \<longrightarrow> fm_wait m' t = None"
      "\<forall>t. t \<notin> set ts \<longrightarrow> fm_wait m' t = fm_wait m t"
      "\<forall>k. queue_of m' k = filter (\<lambda>w. task_of m w \<notin> set ts) (queue_of m k)" by blast
    have "task_of m w \<noteq> t" if "w \<in> set (queue_of m k)" for w k
      using sem_member(3) [OF futex_ok_parts(2) [OF Cons.prems], of w "Some k"] that None by (auto simp: task_of_def)
    then have "filter (\<lambda>w. task_of m w \<notin> set (t # ts)) (queue_of m k) = filter (\<lambda>w. task_of m w \<notin> set ts) (queue_of m k)" for k
      by (auto intro: filter_cong)
    then have "\<forall>k. queue_of m' k = filter (\<lambda>w. task_of m w \<notin> set (t # ts)) (queue_of m k)" using m'(7) by simp
    moreover have "\<forall>u. u \<in> set (t # ts) \<longrightarrow> fm_wait m' u = None" using m'(5,6) None by (metis set_ConsD)
    moreover have "\<forall>u. u \<notin> set (t # ts) \<longrightarrow> fm_wait m' u = fm_wait m u" using m'(6) by simp
    moreover have "remove_tasks (t # ts) m = Inr m'" using None m'(1) by simp
    ultimately show ?thesis using m'(2-4) by (intro exI [of _ m'] conjI)
  next
    case (Some i)
    obtain w k where wk: "w \<in> set (queue_of m k)" "task_of m w = t" "i = bucket_index k"
      "finish_futex_wait t i (cancel_task_waiters t i m) = Inr (cancelled i (\<lambda>v. task_of m v \<noteq> t) w m)"
      "\<And>v k'. v \<in> set (queue_of m k') \<Longrightarrow> task_of m v \<noteq> t \<longleftrightarrow> v \<noteq> w"
      by (rule cancel_task_eq [OF Cons.prems Some]) (rule that; assumption)
    let ?m = "cancelled i (\<lambda>v. task_of m v \<noteq> t) w m"
    have ok: "futex_ok ?m" "queue_of ?m = (queue_of m)(k := filter (\<lambda>v. v \<noteq> w) (queue_of m k))"
      by (rule cancelled_ok [OF Cons.prems wk(1,3)], rule wk(5), assumption)+
    have q: "queue_of ?m k' = filter (\<lambda>v. task_of m v \<noteq> t) (queue_of m k')" for k'
    proof (cases "k' = k")
      case True
      then show ?thesis using ok(2) wk(5) [of _ k] by (auto intro: filter_cong)
    next
      case False
      have "w \<notin> set (queue_of m k')"
        using sem_task_unique [OF futex_ok_parts(2) [OF Cons.prems], of w "Some k" w "Some k'"] wk(1) False by auto
      then have "filter (\<lambda>v. task_of m v \<noteq> t) (queue_of m k') = queue_of m k'"
        using wk(5) [of _ k'] by (auto simp: filter_id_conv)
      with False ok(2) show ?thesis by simp
    qed
    have w: "fm_wait ?m = (fm_wait m)(t := None)" using wk(2) by (simp add: cancelled_simps task_of_def)
    from Cons.IH [OF ok(1)] obtain m' where m': "remove_tasks ts ?m = Inr m'" "futex_ok m'" "task_of m' = task_of m"
      "length (fm_waiters m') = length (fm_waiters m)" "\<forall>t. t \<in> set ts \<longrightarrow> fm_wait m' t = None"
      "\<forall>t. t \<notin> set ts \<longrightarrow> fm_wait m' t = fm_wait ?m t"
      "\<forall>k. queue_of m' k = filter (\<lambda>w. task_of m w \<notin> set ts) (queue_of ?m k)" by (auto simp: cancelled_simps)
    have "\<forall>k. queue_of m' k = filter (\<lambda>w. task_of m w \<notin> set (t # ts)) (queue_of m k)"
      using m'(7) by (simp add: q)
    moreover have "\<forall>u. u \<in> set (t # ts) \<longrightarrow> fm_wait m' u = None" using m'(5,6) unfolding w by (metis fun_upd_same set_ConsD)
    moreover have "\<forall>u. u \<notin> set (t # ts) \<longrightarrow> fm_wait m' u = fm_wait m u" using m'(6) unfolding w by simp
    moreover have "remove_tasks (t # ts) m = Inr m'" using Some wk(4) m'(1) by simp
    ultimately show ?thesis using m'(2-4) by (intro exI [of _ m'] conjI)
  qed
qed simp

end
