(* ===== verification/Clock.thy ===== *)
theory Clock
  imports Credentials
begin

text \<open>
  Clocks, time conversions and sleeping (\<open>syscall/time.rs\<close>, and the clock arithmetic of
  \<open>arch/riscv64/timer.rs\<close>).

  \<open>isize\<close>, \<open>i32\<close> and the fields of the user structures are \<open>int\<close>; \<open>u64\<close> and \<open>usize\<close> values are
  \<open>nat\<close> with the overflow checks of the source. The reading of the hardware counter is the argument \<open>ticks\<close>, its
  frequency \<open>freq\<close>. A user pointer is the outcome of reading through it: \<open>None\<close> for the null pointer, then the
  value or the fault.
\<close>

section \<open>Constants and structures\<close>

definition NSEC_PER_SEC :: int where "NSEC_PER_SEC = 1000000000"
definition NSEC_PER_MSEC :: nat where "NSEC_PER_MSEC = 1000000"
definition USEC_PER_SEC :: nat where "USEC_PER_SEC = 1000000"
definition TICKS_PER_SEC :: nat where "TICKS_PER_SEC = 100"
definition TIMER_ABSTIME :: u32 where "TIMER_ABSTIME = 1"
definition isize_max :: nat where "isize_max = 9223372036854775807"
definition CAP_SYS_TIME :: nat where "CAP_SYS_TIME = 25"

record timespec =
  tv_sec :: int
  tv_nsec :: int

record timeval =
  tval_sec :: int
  tval_usec :: int

datatype clock_backend = Wall | Monotonic

datatype clock_kind =
    Realtime | MonotonicClock | ProcessCpu | ThreadCpu | MonotonicRaw | RealtimeCoarse | MonotonicCoarse | Boottime

definition clock_from_raw :: "int \<Rightarrow> errno + clock_kind" where
  "clock_from_raw clock_id =
     (if clock_id = 0 then Inr Realtime
      else if clock_id = 1 then Inr MonotonicClock
      else if clock_id = 2 then Inr ProcessCpu
      else if clock_id = 3 then Inr ThreadCpu
      else if clock_id = 4 then Inr MonotonicRaw
      else if clock_id = 5 then Inr RealtimeCoarse
      else if clock_id = 6 then Inr MonotonicCoarse
      else if clock_id = 7 then Inr Boottime
      else Inl EINVAL)"

fun gettime_backend :: "clock_kind \<Rightarrow> errno + clock_backend" where
  "gettime_backend Realtime = Inr Wall"
| "gettime_backend RealtimeCoarse = Inr Wall"
| "gettime_backend MonotonicClock = Inr Monotonic"
| "gettime_backend MonotonicRaw = Inr Monotonic"
| "gettime_backend MonotonicCoarse = Inr Monotonic"
| "gettime_backend Boottime = Inr Monotonic"
| "gettime_backend ProcessCpu = Inl EINVAL"
| "gettime_backend ThreadCpu = Inl EINVAL"

fun nanosleep_backend :: "clock_kind \<Rightarrow> errno + clock_backend" where
  "nanosleep_backend Realtime = Inr Wall"
| "nanosleep_backend MonotonicClock = Inr Monotonic"
| "nanosleep_backend Boottime = Inr Monotonic"
| "nanosleep_backend ProcessCpu = Inl ENOTSUP"
| "nanosleep_backend ThreadCpu = Inl ENOTSUP"
| "nanosleep_backend MonotonicRaw = Inl ENOTSUP"
| "nanosleep_backend RealtimeCoarse = Inl ENOTSUP"
| "nanosleep_backend MonotonicCoarse = Inl ENOTSUP"

section \<open>The clock\<close>

definition u64_wrap :: "int \<Rightarrow> nat" where
  "u64_wrap z = nat (z mod 2 ^ 64)"

definition monotonic_time_sec_nsec :: "nat \<Rightarrow> nat \<Rightarrow> nat \<times> nat" where
  "monotonic_time_sec_nsec freq ticks = (ticks div freq, (ticks mod freq) * 1000000000 div freq)"

definition monotonic_time_nanos :: "nat \<Rightarrow> nat \<Rightarrow> nat" where
  "monotonic_time_nanos freq ticks =
     (case monotonic_time_sec_nsec freq ticks of (secs, nsecs) \<Rightarrow> secs * 1000000000 + nsecs)"

text \<open>\<open>offset\<close> is \<open>EPOCH_OFFSET_NS\<close>.\<close>

definition wall_time_nanos :: "nat \<Rightarrow> nat \<Rightarrow> nat \<Rightarrow> nat" where
  "wall_time_nanos freq ticks offset = u64_wrap (int (monotonic_time_nanos freq ticks) + int offset)"

definition set_wall_time_nanos :: "nat \<Rightarrow> nat \<Rightarrow> nat \<Rightarrow> nat" where
  "set_wall_time_nanos freq ticks wall_nanos = u64_wrap (int wall_nanos - int (monotonic_time_nanos freq ticks))"



definition us_to_clock_ticks :: "nat \<Rightarrow> nat" where
  "us_to_clock_ticks us = us div (USEC_PER_SEC div TICKS_PER_SEC)"

definition clock_ticks_to_isize :: "nat \<Rightarrow> int" where
  "clock_ticks_to_isize t = int (min t isize_max)"

section \<open>Conversions\<close>

definition checked_mul :: "nat \<Rightarrow> nat \<Rightarrow> nat option" where
  "checked_mul a b = (if a * b \<le> usize_max then Some (a * b) else None)"

definition validate_timespec :: "timespec \<Rightarrow> errno + timespec" where
  "validate_timespec t = (if tv_sec t < 0 \<or> \<not> (0 \<le> tv_nsec t \<and> tv_nsec t < NSEC_PER_SEC) then Inl EINVAL else Inr t)"

definition timespec_to_nanos :: "timespec \<Rightarrow> errno + nat" where
  "timespec_to_nanos t =
     (case validate_timespec t of
        Inl e \<Rightarrow> Inl e
      | Inr t' \<Rightarrow>
          (case checked_mul (nat (tv_sec t')) (nat NSEC_PER_SEC) of
             None \<Rightarrow> Inl EINVAL
           | Some sec_nanos \<Rightarrow>
               (case checked_add sec_nanos (nat (tv_nsec t')) of None \<Rightarrow> Inl EINVAL | Some n \<Rightarrow> Inr n)))"

definition checked_div_ceil_u64 :: "nat \<Rightarrow> nat \<Rightarrow> errno + nat" where
  "checked_div_ceil_u64 value divisor =
     (if divisor = 0 then Inl EINVAL
      else (case checked_add (value div divisor) (if value mod divisor = 0 then 0 else 1) of
          None \<Rightarrow> Inl EINVAL
        | Some rounded \<Rightarrow> if usize_max < rounded then Inl EINVAL else Inr rounded))"

definition nanos_to_ms_ceil :: "nat \<Rightarrow> errno + nat" where
  "nanos_to_ms_ceil nanos = checked_div_ceil_u64 nanos NSEC_PER_MSEC"

definition timespec_to_ms_ceil :: "timespec \<Rightarrow> errno + nat" where
  "timespec_to_ms_ceil t = (case timespec_to_nanos t of Inl e \<Rightarrow> Inl e | Inr n \<Rightarrow> nanos_to_ms_ceil n)"

definition us_to_ms_ceil :: "nat \<Rightarrow> errno + nat" where
  "us_to_ms_ceil us = checked_div_ceil_u64 us 1000"

definition nanos_to_us_ceil :: "nat \<Rightarrow> errno + nat" where
  "nanos_to_us_ceil nanos = checked_div_ceil_u64 nanos 1000"

definition timespec_to_us_ceil :: "timespec \<Rightarrow> errno + nat" where
  "timespec_to_us_ceil t = (case timespec_to_nanos t of Inl e \<Rightarrow> Inl e | Inr n \<Rightarrow> nanos_to_us_ceil n)"

text \<open>\<open>now_us\<close> is \<open>get_time_us()\<close>.\<close>

definition relative_timeout_deadline_ms_from_nanos :: "nat \<Rightarrow> nat \<Rightarrow> errno + nat" where
  "relative_timeout_deadline_ms_from_nanos now_us duration_nanos =
     (case nanos_to_us_ceil duration_nanos of
        Inl e \<Rightarrow> Inl e
      | Inr duration_us \<Rightarrow>
          (case checked_add now_us duration_us of
             None \<Rightarrow> Inl EINVAL
           | Some deadline_us \<Rightarrow> us_to_ms_ceil deadline_us))"

definition relative_sleep_deadline_ms :: "nat \<Rightarrow> timespec \<Rightarrow> errno + nat" where
  "relative_sleep_deadline_ms now_us t =
     (case timespec_to_nanos t of Inl e \<Rightarrow> Inl e | Inr n \<Rightarrow> relative_timeout_deadline_ms_from_nanos now_us n)"

definition relative_timeout_deadline_ms :: "nat \<Rightarrow> (errno + timespec) option \<Rightarrow> errno + nat option" where
  "relative_timeout_deadline_ms now_us timeout =
     (case timeout of
        None \<Rightarrow> Inr None
      | Some (Inl e) \<Rightarrow> Inl e
      | Some (Inr request) \<Rightarrow>
          (case timespec_to_nanos request of
             Inl e \<Rightarrow> Inl e
           | Inr n \<Rightarrow>
               (case relative_timeout_deadline_ms_from_nanos now_us n of Inl e \<Rightarrow> Inl e | Inr ms \<Rightarrow> Inr (Some ms))))"

definition timeval_to_us :: "timeval \<Rightarrow> errno + nat" where
  "timeval_to_us t =
     (if tval_sec t < 0 \<or> tval_usec t < 0 \<or> int USEC_PER_SEC \<le> tval_usec t then Inl EINVAL
      else (case checked_mul (nat (tval_sec t)) USEC_PER_SEC of
          None \<Rightarrow> Inl EINVAL
        | Some sec_us \<Rightarrow> (case checked_add sec_us (nat (tval_usec t)) of None \<Rightarrow> Inl EINVAL | Some us \<Rightarrow> Inr us)))"

definition us_to_timeval :: "nat \<Rightarrow> timeval" where
  "us_to_timeval us = \<lparr>tval_sec = int (us div USEC_PER_SEC), tval_usec = int (us mod USEC_PER_SEC)\<rparr>"

definition us_to_timespec :: "nat \<Rightarrow> timespec" where
  "us_to_timespec us =
     \<lparr>tv_sec = int (min (us div USEC_PER_SEC) isize_max), tv_nsec = int ((us mod USEC_PER_SEC) * 1000)\<rparr>"

definition timeval_to_nanos :: "timeval \<Rightarrow> errno + nat" where
  "timeval_to_nanos t =
     (case timeval_to_us t of
        Inl e \<Rightarrow> Inl e
      | Inr us \<Rightarrow> (case checked_mul us 1000 of None \<Rightarrow> Inl EINVAL | Some n \<Rightarrow> Inr n))"

definition nanos_to_timespec :: "nat \<Rightarrow> timespec" where
  "nanos_to_timespec nanos = \<lparr>tv_sec = int (nanos div 1000000000), tv_nsec = int (nanos mod 1000000000)\<rparr>"

definition wall_timeval :: "nat \<Rightarrow> timeval" where
  "wall_timeval wall_ns = \<lparr>tval_sec = int (wall_ns div 1000000000), tval_usec = int ((wall_ns mod 1000000000) div 1000)\<rparr>"

text \<open>The sum of two \<open>usize\<close> counts, never above the maximum, as a time.\<close>

definition process_cpu_timespec_from_times :: "nat \<Rightarrow> nat \<Rightarrow> timespec" where
  "process_cpu_timespec_from_times user_us system_us = us_to_timespec (saturating_add user_us system_us)"

section \<open>Sleeping\<close>

text \<open>
  What the caller sees of the clock and of its signals: before it sleeps, and after it has been woken.
\<close>

record sleep_env =
  sl_ms :: nat
  sl_signal :: bool
  sl_ms_after :: nat
  sl_signal_after :: bool
  sl_ms_report :: nat

definition sleep_until_ms :: "sleep_env \<Rightarrow> nat \<Rightarrow> errno + int" where
  "sleep_until_ms env expire_ms =
     (if expire_ms \<le> sl_ms env then Inr 0
      else if sl_signal env then Inl EINTR
      else if sl_ms_after env < expire_ms \<and> sl_signal_after env then Inl EINTR
      else Inr 0)"

definition current_clock_nanos :: "clock_backend \<Rightarrow> nat \<Rightarrow> nat \<Rightarrow> nat" where
  "current_clock_nanos backend wall monot = (case backend of Wall \<Rightarrow> wall | Monotonic \<Rightarrow> monot)"

definition sleep_until_clock :: "sleep_env \<Rightarrow> nat \<Rightarrow> nat \<Rightarrow> nat \<Rightarrow> clock_backend \<Rightarrow> timespec \<Rightarrow> errno + int" where
  "sleep_until_clock env wall monot now_us backend request =
     (case timespec_to_nanos request of
        Inl e \<Rightarrow> Inl e
      | Inr deadline_nanos \<Rightarrow>
          (let now_nanos = current_clock_nanos backend wall monot
           in if deadline_nanos \<le> now_nanos then Inr 0
              else (case relative_timeout_deadline_ms_from_nanos now_us (deadline_nanos - now_nanos) of
                  Inl e \<Rightarrow> Inl e
                | Inr expire_ms \<Rightarrow> sleep_until_ms env expire_ms)))"

definition saturating_mul :: "nat \<Rightarrow> nat \<Rightarrow> nat" where
  "saturating_mul a b = min (a * b) usize_max"

definition remaining_until_timespec :: "nat \<Rightarrow> nat \<Rightarrow> timespec" where
  "remaining_until_timespec now_ms expire_ms = nanos_to_timespec (saturating_mul (expire_ms - now_ms) NSEC_PER_MSEC)"

text \<open>
  The result of a sleep and what is written to the user's \<open>rem\<close>: \<open>rem\<close> is \<open>None\<close> for the null pointer, else
  the outcome of the write.
\<close>

definition relative_sleep ::
  "sleep_env \<Rightarrow> nat \<Rightarrow> timespec \<Rightarrow> errno option option \<Rightarrow> (errno + int) \<times> timespec option" where
  "relative_sleep env now_us request rem =
     (case timespec_to_ms_ceil request of
        Inl e \<Rightarrow> (Inl e, None)
      | Inr duration_ms \<Rightarrow>
          if duration_ms = 0 then (Inr 0, None)
          else (case relative_sleep_deadline_ms now_us request of
              Inl e \<Rightarrow> (Inl e, None)
            | Inr expire_ms \<Rightarrow>
                (case sleep_until_ms env expire_ms of
                   Inl EINTR \<Rightarrow>
                     (case rem of
                        None \<Rightarrow> (Inl EINTR, None)
                      | Some (Some e) \<Rightarrow> (Inl e, None)
                      | Some None \<Rightarrow> (Inl EINTR, Some (remaining_until_timespec (sl_ms_report env) expire_ms)))
                 | r \<Rightarrow> (r, None))))"

definition sys_nanosleep ::
  "sleep_env \<Rightarrow> nat \<Rightarrow> (errno + timespec) option \<Rightarrow> errno option option \<Rightarrow> (errno + int) \<times> timespec option" where
  "sys_nanosleep env now_us req rem =
     (case req of
        None \<Rightarrow> (Inl EFAULT, None)
      | Some (Inl e) \<Rightarrow> (Inl e, None)
      | Some (Inr request) \<Rightarrow> relative_sleep env now_us request rem)"

definition sys_clock_nanosleep ::
  "sleep_env \<Rightarrow> nat \<Rightarrow> nat \<Rightarrow> nat \<Rightarrow> int \<Rightarrow> u32 \<Rightarrow> (errno + timespec) option \<Rightarrow> errno option option
    \<Rightarrow> (errno + int) \<times> timespec option" where
  "sys_clock_nanosleep env wall monot now_us clock_id flags req rem =
     (if flags AND NOT TIMER_ABSTIME \<noteq> 0 then (Inl EINVAL, None)
      else (case clock_from_raw clock_id of
          Inl e \<Rightarrow> (Inl e, None)
        | Inr kind \<Rightarrow>
            (case nanosleep_backend kind of
               Inl e \<Rightarrow> (Inl e, None)
             | Inr backend \<Rightarrow>
                 (case req of
                    None \<Rightarrow> (Inl EFAULT, None)
                  | Some (Inl e) \<Rightarrow> (Inl e, None)
                  | Some (Inr request) \<Rightarrow>
                      if flags AND TIMER_ABSTIME \<noteq> 0
                      then (sleep_until_clock env wall monot now_us backend request, None)
                      else relative_sleep env now_us request rem))))"

section \<open>Reading and setting the clocks\<close>

definition current_can_set_time :: "credentials \<Rightarrow> bool" where
  "current_can_set_time c \<longleftrightarrow> is_root c \<and> has_effective CAP_SYS_TIME (cr_capabilities c) = Some True"

text \<open>The wall time that a call sets, if it sets one.\<close>

definition sys_clock_settime :: "credentials \<Rightarrow> int \<Rightarrow> (errno + timespec) option \<Rightarrow> (errno + int) \<times> nat option" where
  "sys_clock_settime c clock_id tp =
     (if clock_id \<noteq> 0 then (Inl EINVAL, None)
      else (case tp of
          None \<Rightarrow> (Inl EFAULT, None)
        | Some (Inl e) \<Rightarrow> (Inl e, None)
        | Some (Inr request) \<Rightarrow>
            if \<not> current_can_set_time c then (Inl EPERM, None)
            else (case timespec_to_nanos request of Inl e \<Rightarrow> (Inl e, None) | Inr n \<Rightarrow> (Inr 0, Some n))))"

definition sys_settimeofday ::
  "credentials \<Rightarrow> (errno + timeval) option \<Rightarrow> errno option option \<Rightarrow> (errno + int) \<times> nat option" where
  "sys_settimeofday c tv tz =
     (case (case tv of
              None \<Rightarrow> Inr None
            | Some (Inl e) \<Rightarrow> Inl e
            | Some (Inr t) \<Rightarrow> (case timeval_to_nanos t of Inl e \<Rightarrow> Inl e | Inr n \<Rightarrow> Inr (Some n))) of
        Inl e \<Rightarrow> (Inl e, None)
      | Inr new_wall_nanos \<Rightarrow>
          (case tz of
             Some (Some e) \<Rightarrow> (Inl e, None)
           | _ \<Rightarrow>
               if \<not> current_can_set_time c then (Inl EPERM, None)
               else (Inr 0, new_wall_nanos)))"

definition clock_getres_resolution :: "int \<Rightarrow> errno + timespec" where
  "clock_getres_resolution clock_id = (if 0 \<le> clock_id \<and> clock_id \<le> 9 then Inr (nanos_to_timespec 1) else Inl EINVAL)"

text \<open>The bit operations on a negative \<open>i32\<close> are those of \<open>int\<close>.\<close>

definition cpu_clock_target_id :: "int \<Rightarrow> errno + bool \<times> nat" where
  "cpu_clock_target_id clock_id =
     (if 0 \<le> clock_id then Inl EINVAL
      else if clock_id AND 3 \<noteq> 0 \<and> clock_id AND 3 \<noteq> 1 \<and> clock_id AND 3 \<noteq> 2 then Inl EINVAL
      else
        (let ident = NOT (drop_bit 3 clock_id)
         in if ident < 0 then Inl EINVAL else Inr (clock_id AND 4 \<noteq> 0, nat ident)))"

text \<open>
  \<open>thread_us\<close> and \<open>process_us\<close> give the CPU times of the task and of the process with an id, \<open>own\<close> those of
  the caller.
\<close>

definition dynamic_cpu_clock_timespec ::
  "(nat \<Rightarrow> nat option) \<Rightarrow> (nat \<Rightarrow> (nat \<times> nat) option) \<Rightarrow> nat \<times> nat \<Rightarrow> int \<Rightarrow> errno + timespec" where
  "dynamic_cpu_clock_timespec thread_us process_us own clock_id =
     (case cpu_clock_target_id clock_id of
        Inl e \<Rightarrow> Inl e
      | Inr (per_thread, ident) \<Rightarrow>
          if per_thread then (case thread_us ident of None \<Rightarrow> Inl EINVAL | Some us \<Rightarrow> Inr (us_to_timespec us))
          else if ident = 0 then Inr (process_cpu_timespec_from_times (fst own) (snd own))
          else (case process_us ident of
              None \<Rightarrow> Inl EINVAL
            | Some (u, sy) \<Rightarrow> Inr (process_cpu_timespec_from_times u sy)))"

definition clock_gettime_value ::
  "(nat \<Rightarrow> nat option) \<Rightarrow> (nat \<Rightarrow> (nat \<times> nat) option) \<Rightarrow> nat \<times> nat \<Rightarrow> nat \<Rightarrow> nat \<times> nat \<Rightarrow> int \<Rightarrow> errno + timespec" where
  "clock_gettime_value thread_us process_us own wall monot clock_id =
     (if clock_id < 0 then dynamic_cpu_clock_timespec thread_us process_us own clock_id
      else if clock_id = 2 \<or> clock_id = 3 then Inr (process_cpu_timespec_from_times (fst own) (snd own))
      else if clock_id = 0 \<or> clock_id = 5 then Inr (nanos_to_timespec wall)
      else if clock_id = 1 \<or> clock_id = 4 \<or> clock_id = 6 \<or> clock_id = 7
        then Inr \<lparr>tv_sec = int (fst monot), tv_nsec = int (snd monot)\<rparr>
      else Inl EINVAL)"

section \<open>adjtimex\<close>

type_synonym i32 = "32 word"

definition ADJ_OFFSET :: u32 where "ADJ_OFFSET = 0x0001"
definition ADJ_FREQUENCY :: u32 where "ADJ_FREQUENCY = 0x0002"
definition ADJ_MAXERROR :: u32 where "ADJ_MAXERROR = 0x0004"
definition ADJ_ESTERROR :: u32 where "ADJ_ESTERROR = 0x0008"
definition ADJ_STATUS :: u32 where "ADJ_STATUS = 0x0010"
definition ADJ_TIMECONST :: u32 where "ADJ_TIMECONST = 0x0020"
definition ADJ_MICRO :: u32 where "ADJ_MICRO = 0x1000"
definition ADJ_NANO :: u32 where "ADJ_NANO = 0x2000"
definition ADJ_TICK :: u32 where "ADJ_TICK = 0x4000"
definition ADJ_OFFSET_SINGLESHOT :: u32 where "ADJ_OFFSET_SINGLESHOT = 0x8001"
definition ADJ_OFFSET_SS_READ :: u32 where "ADJ_OFFSET_SS_READ = 0xa001"
definition ADJ_ALL :: u32 where
  "ADJ_ALL = ADJ_OFFSET OR ADJ_FREQUENCY OR ADJ_MAXERROR OR ADJ_ESTERROR OR ADJ_STATUS OR ADJ_TIMECONST OR ADJ_TICK"
definition ADJ_SINGLESHOT_FLAG :: u32 where "ADJ_SINGLESHOT_FLAG = ADJ_OFFSET_SINGLESHOT AND NOT ADJ_OFFSET"
definition STA_UNSYNC :: i32 where "STA_UNSYNC = 0x0040"
definition STA_NANO :: i32 where "STA_NANO = 0x2000"
definition TIMEX_SETTABLE_STATUS_BITS :: i32 where
  "TIMEX_SETTABLE_STATUS_BITS = 0x0001 OR 0x0002 OR 0x0004 OR 0x0008 OR 0x0010 OR 0x0020 OR STA_UNSYNC OR 0x0080 OR 0x4000"
definition TIMEX_SETTABLE_BIT_MODES :: u32 where "TIMEX_SETTABLE_BIT_MODES = ADJ_ALL OR ADJ_MICRO OR ADJ_NANO"

record timex_state =
  tx_offset :: int
  tx_freq :: int
  tx_maxerror :: int
  tx_esterror :: int
  tx_status :: i32
  tx_constant :: int
  tx_precision :: int
  tx_tolerance :: int
  tx_tick :: int
  tx_tai :: int

text \<open>The fields of the user's \<open>timex\<close> that a call reads.\<close>

record timex_request =
  rq_modes :: u32
  rq_offset :: int
  rq_freq :: int
  rq_maxerror :: int
  rq_esterror :: int
  rq_status :: i32
  rq_constant :: int
  rq_tick :: int

definition timex_new :: timex_state where
  "timex_new = \<lparr>tx_offset = 0, tx_freq = 0, tx_maxerror = 0, tx_esterror = 0, tx_status = 0, tx_constant = 0,
     tx_precision = 1, tx_tolerance = 0, tx_tick = int (USEC_PER_SEC div TICKS_PER_SEC), tx_tai = 37\<rparr>"

definition resolution_mode :: "timex_state \<Rightarrow> u32" where
  "resolution_mode st = (if tx_status st AND STA_NANO \<noteq> 0 then ADJ_NANO else ADJ_MICRO)"

definition time_state :: "timex_state \<Rightarrow> int" where
  "time_state st = (if tx_status st AND STA_UNSYNC \<noteq> 0 then 5 else 0)"

definition timex_modes_supported :: "u32 \<Rightarrow> bool" where
  "timex_modes_supported modes \<longleftrightarrow>
     (if modes = 0 \<or> modes = ADJ_OFFSET_SINGLESHOT \<or> modes = ADJ_OFFSET_SS_READ then True
      else if modes AND ADJ_SINGLESHOT_FLAG \<noteq> 0 then False
      else modes AND NOT TIMEX_SETTABLE_BIT_MODES = 0)"

definition timex_tick_bounds :: "int \<times> int" where
  "timex_tick_bounds = (900000 div int TICKS_PER_SEC, 1100000 div int TICKS_PER_SEC)"

definition timex_resolution_is_nanos :: "u32 \<Rightarrow> timex_state \<Rightarrow> bool" where
  "timex_resolution_is_nanos modes st \<longleftrightarrow>
     (if modes AND ADJ_NANO \<noteq> 0 then True
      else if modes AND ADJ_MICRO \<noteq> 0 then False
      else tx_status st AND STA_NANO \<noteq> 0)"

text \<open>
  \<open>update_timex_state\<close> changes the state in place, so a step that fails leaves what the steps before it did.
\<close>

definition timex_status_step :: "timex_request \<Rightarrow> timex_state \<Rightarrow> errno option \<times> timex_state" where
  "timex_status_step rq st =
     (if rq_modes rq AND ADJ_STATUS \<noteq> 0 then
        (if rq_status rq AND NOT TIMEX_SETTABLE_STATUS_BITS \<noteq> 0 then (Some EINVAL, st)
         else (None, st\<lparr>tx_status := (tx_status st AND NOT TIMEX_SETTABLE_STATUS_BITS) OR
                 (rq_status rq AND TIMEX_SETTABLE_STATUS_BITS)\<rparr>))
      else (None, st))"

definition timex_offset_step :: "timex_request \<Rightarrow> timex_state \<Rightarrow> errno option \<times> timex_state" where
  "timex_offset_step rq st =
     (if rq_modes rq AND ADJ_OFFSET \<noteq> 0 then
        (let limit = (if timex_resolution_is_nanos (rq_modes rq) st then 500000 * 1000 else 500000)
         in if rq_offset rq \<le> - limit \<or> limit \<le> rq_offset rq then (Some EINVAL, st)
            else (None, st\<lparr>tx_offset := rq_offset rq\<rparr>))
      else (None, st))"

definition timex_plain_step :: "timex_request \<Rightarrow> timex_state \<Rightarrow> timex_state" where
  "timex_plain_step rq st =
     (let m = rq_modes rq;
          s1 = (if m AND ADJ_FREQUENCY \<noteq> 0 then st\<lparr>tx_freq := max (- 32768000) (min (rq_freq rq) 32768000)\<rparr> else st);
          s2 = (if m AND ADJ_MAXERROR \<noteq> 0 then s1\<lparr>tx_maxerror := rq_maxerror rq\<rparr> else s1);
          s3 = (if m AND ADJ_ESTERROR \<noteq> 0 then s2\<lparr>tx_esterror := rq_esterror rq\<rparr> else s2)
      in if m AND ADJ_TIMECONST \<noteq> 0 then s3\<lparr>tx_constant := rq_constant rq\<rparr> else s3)"

definition timex_tick_step :: "timex_request \<Rightarrow> timex_state \<Rightarrow> errno option \<times> timex_state" where
  "timex_tick_step rq st =
     (if rq_modes rq AND ADJ_TICK \<noteq> 0 then
        (if rq_tick rq < fst timex_tick_bounds \<or> snd timex_tick_bounds < rq_tick rq then (Some EINVAL, st)
         else (None, st\<lparr>tx_tick := rq_tick rq\<rparr>))
      else (None, st))"

definition update_timex_state :: "timex_request \<Rightarrow> timex_state \<Rightarrow> errno option \<times> timex_state" where
  "update_timex_state rq st =
     (let m = rq_modes rq
      in if \<not> timex_modes_supported m then (Some EINVAL, st)
         else
           (let s1 = (if m AND ADJ_MICRO \<noteq> 0 then st\<lparr>tx_status := tx_status st AND NOT STA_NANO\<rparr> else st);
                s2 = (if m AND ADJ_NANO \<noteq> 0 then s1\<lparr>tx_status := tx_status s1 OR STA_NANO\<rparr> else s1)
            in case timex_status_step rq s2 of
                (Some e, s) \<Rightarrow> (Some e, s)
              | (None, s3) \<Rightarrow>
                  (case timex_offset_step rq s3 of
                     (Some e, s) \<Rightarrow> (Some e, s)
                   | (None, s4) \<Rightarrow>
                       (case timex_tick_step rq (timex_plain_step rq s4) of
                          (Some e, s) \<Rightarrow> (Some e, s)
                        | (None, s5) \<Rightarrow>
                            (None, if m = ADJ_OFFSET_SINGLESHOT then s5\<lparr>tx_offset := rq_offset rq\<rparr> else s5)))))"

text \<open>\<open>wr\<close> is the outcome of writing the state back; the answer is the state the call reports.\<close>

definition sys_clock_adjtime ::
  "credentials \<Rightarrow> int \<Rightarrow> (errno + timex_request) option \<Rightarrow> errno option \<Rightarrow> timex_state \<Rightarrow> (errno + int) \<times> timex_state" where
  "sys_clock_adjtime c clock_id timex wr st =
     (if clock_id \<noteq> 0 then (Inl EINVAL, st)
      else (case timex of
          None \<Rightarrow> (Inl EFAULT, st)
        | Some (Inl e) \<Rightarrow> (Inl e, st)
        | Some (Inr rq) \<Rightarrow>
            (let m = rq_modes rq; reads = (m = 0 \<or> m = ADJ_OFFSET_SS_READ)
             in if \<not> current_can_set_time c \<and> \<not> reads then (Inl EPERM, st)
                else (case (if reads then (None, st) else update_timex_state rq st) of
                    (Some e, st') \<Rightarrow> (Inl e, st')
                  | (None, st') \<Rightarrow> (case wr of Some e \<Rightarrow> (Inl e, st') | None \<Rightarrow> (Inr (time_state st'), st'))))))"

definition sys_adjtimex ::
  "credentials \<Rightarrow> (errno + timex_request) option \<Rightarrow> errno option \<Rightarrow> timex_state \<Rightarrow> (errno + int) \<times> timex_state" where
  "sys_adjtimex c timex wr st = sys_clock_adjtime c 0 timex wr st"

section \<open>Lemmas\<close>

lemma checked_mul_Some: "checked_mul a b = Some c \<longleftrightarrow> c = a * b \<and> a * b \<le> usize_max"
  by (auto simp: checked_mul_def)

lemma checked_add_Some: "checked_add a b = Some c \<longleftrightarrow> c = a + b \<and> a + b \<le> usize_max"
  by (auto simp: checked_add_def)

lemma timespec_to_nanos_Inr:
  "timespec_to_nanos t = Inr n \<longleftrightarrow>
     0 \<le> tv_sec t \<and> 0 \<le> tv_nsec t \<and> tv_nsec t < 1000000000 \<and> int n = tv_sec t * 1000000000 + tv_nsec t \<and> n \<le> usize_max"
proof (cases "0 \<le> tv_sec t \<and> 0 \<le> tv_nsec t \<and> tv_nsec t < 1000000000")
  case True
  then have v: "validate_timespec t = Inr t" by (auto simp: validate_timespec_def NSEC_PER_SEC_def)
  let ?s = "nat (tv_sec t)" and ?r = "nat (tv_nsec t)"
  have "timespec_to_nanos t = (if ?s * 1000000000 + ?r \<le> usize_max then Inr (?s * 1000000000 + ?r) else Inl EINVAL)"
    using v by (auto simp: timespec_to_nanos_def NSEC_PER_SEC_def checked_mul_def checked_add_def)
  moreover have "int n = tv_sec t * 1000000000 + tv_nsec t \<longleftrightarrow> n = ?s * 1000000000 + ?r" using True by auto
  ultimately show ?thesis using True by auto
next
  case False
  then show ?thesis by (auto simp: timespec_to_nanos_def validate_timespec_def NSEC_PER_SEC_def)
qed

lemma timespec_nanos_roundtrip: "n \<le> usize_max \<Longrightarrow> timespec_to_nanos (nanos_to_timespec n) = Inr n"
  by (simp add: timespec_to_nanos_Inr nanos_to_timespec_def zdiv_int zmod_int)





lemma clamp_range: "\<bar>max (- 32768000) (min x 32768000)\<bar> \<le> (32768000 :: int)"
  by (simp add: abs_le_iff max_def min_def)

lemma timex_plain_keeps:
  "tx_tick (timex_plain_step rq st) = tx_tick st" "tx_offset (timex_plain_step rq st) = tx_offset st"
  "\<bar>tx_freq st\<bar> \<le> 32768000 \<Longrightarrow> \<bar>tx_freq (timex_plain_step rq st)\<bar> \<le> 32768000"
  by (simp_all add: timex_plain_step_def clamp_range Let_def)

text \<open>The ranges that every state of \<open>adjtimex\<close> keeps.\<close>

definition timex_ok :: "timex_state \<Rightarrow> bool" where
  "timex_ok st \<longleftrightarrow> 9000 \<le> tx_tick st \<and> tx_tick st \<le> 11000 \<and> \<bar>tx_freq st\<bar> \<le> 32768000 \<and> \<bar>tx_offset st\<bar> < 500000000"

lemma timex_ok_steps:
  "timex_ok st \<Longrightarrow> timex_ok (snd (timex_status_step rq st))"
  "timex_ok st \<Longrightarrow> timex_ok (snd (timex_offset_step rq st))"
  "timex_ok st \<Longrightarrow> timex_ok (snd (timex_tick_step rq st))"
  "timex_ok st \<Longrightarrow> timex_ok (timex_plain_step rq st)"
  by (auto simp: timex_ok_def timex_status_step_def timex_offset_step_def timex_tick_step_def timex_tick_bounds_def
      timex_plain_keeps TICKS_PER_SEC_def Let_def split: if_split_asm)

lemma singleshot_range:
  assumes "rq_modes rq = ADJ_OFFSET_SINGLESHOT" and "timex_offset_step rq st = (None, s4)"
  shows "\<bar>rq_offset rq\<bar> < 500000000"
proof -
  have "ADJ_OFFSET_SINGLESHOT AND ADJ_OFFSET \<noteq> 0" by (simp add: ADJ_OFFSET_SINGLESHOT_def ADJ_OFFSET_def)
  with assms show ?thesis by (auto simp: timex_offset_step_def Let_def split: if_split_asm)
qed

lemma timex_ok_update: "timex_ok st \<Longrightarrow> timex_ok (snd (update_timex_state rq st))"
proof -
  assume ok: "timex_ok st"
  define s2 where "s2 = (let s1 = (if rq_modes rq AND ADJ_MICRO \<noteq> 0 then st\<lparr>tx_status := tx_status st AND NOT STA_NANO\<rparr> else st)
    in if rq_modes rq AND ADJ_NANO \<noteq> 0 then s1\<lparr>tx_status := tx_status s1 OR STA_NANO\<rparr> else s1)"
  have s2: "timex_ok s2" using ok by (auto simp: s2_def timex_ok_def Let_def)
  obtain e3 s3 where 3: "timex_status_step rq s2 = (e3, s3)" by fastforce
  obtain e4 s4 where 4: "timex_offset_step rq s3 = (e4, s4)" by fastforce
  obtain e5 s5 where 5: "timex_tick_step rq (timex_plain_step rq s4) = (e5, s5)" by fastforce
  have oks: "timex_ok s3" "timex_ok s4" "timex_ok s5"
    using timex_ok_steps [of s2 rq] timex_ok_steps [of s3 rq] timex_ok_steps [of s4 rq]
      timex_ok_steps(3) [of "timex_plain_step rq s4" rq] s2 3 4 5 by auto
  have shot: "timex_ok (s5\<lparr>tx_offset := rq_offset rq\<rparr>)" if "rq_modes rq = ADJ_OFFSET_SINGLESHOT" "e4 = None"
    using singleshot_range [OF that(1), of s3 s4] 4 that(2) oks(3) by (simp add: timex_ok_def)
  have "update_timex_state rq st = (if \<not> timex_modes_supported (rq_modes rq) then (Some EINVAL, st)
    else case e3 of Some e \<Rightarrow> (Some e, s3) | None \<Rightarrow> (case e4 of Some e \<Rightarrow> (Some e, s4) | None \<Rightarrow>
      (case e5 of Some e \<Rightarrow> (Some e, s5) | None \<Rightarrow>
        (None, if rq_modes rq = ADJ_OFFSET_SINGLESHOT then s5\<lparr>tx_offset := rq_offset rq\<rparr> else s5))))"
    unfolding update_timex_state_def Let_def s2_def [symmetric, unfolded Let_def]
    by (simp add: 3 4 5 split: option.split)
  with oks shot ok show ?thesis by (auto split: option.split)
qed

lemma root_can_set_time: "current_can_set_time credentials_root"
  by (simp add: current_can_set_time_def is_root_def credentials_root_def has_effective_def caps_root_def test_cap_def
      cap_bit_def CAP_SYS_TIME_def CAP_LAST_CAP_def all_known_bits_def)

lemmas timex_eval = update_timex_state_def timex_modes_supported_def timex_status_step_def timex_offset_step_def
  timex_plain_step_def timex_tick_step_def timex_resolution_is_nanos_def timex_tick_bounds_def timex_new_def time_state_def
  ADJ_OFFSET_def ADJ_FREQUENCY_def ADJ_MAXERROR_def ADJ_ESTERROR_def ADJ_STATUS_def ADJ_TIMECONST_def ADJ_MICRO_def
  ADJ_NANO_def ADJ_TICK_def ADJ_OFFSET_SINGLESHOT_def ADJ_OFFSET_SS_READ_def ADJ_ALL_def ADJ_SINGLESHOT_FLAG_def
  STA_UNSYNC_def STA_NANO_def TIMEX_SETTABLE_STATUS_BITS_def TIMEX_SETTABLE_BIT_MODES_def USEC_PER_SEC_def TICKS_PER_SEC_def

section \<open>Properties\<close>



text \<open>C26.
  A caller of adjtimex without the right to set the time changes nothing; whoever calls, the frequency stays within its
  clamp, the tick between 9000 and 11000 microseconds and the offset within half a second. But a call that fails is not
  without effect: one that asks for nanoseconds with an offset out of range is refused with EINVAL and leaves the clock in
  nanosecond mode.
\<close>

theorem adjtimex_guarded:
  assumes "timex_ok st" and "sys_clock_adjtime c clock_id timex wr st = (r, st')"
  shows "timex_ok st' \<and> (current_can_set_time c \<or> st' = st) \<and>
    sys_clock_adjtime credentials_root 0
      (Some (Inr \<lparr>rq_modes = ADJ_NANO OR ADJ_OFFSET, rq_offset = 500000000, rq_freq = 0, rq_maxerror = 0, rq_esterror = 0,
        rq_status = 0, rq_constant = 0, rq_tick = 0\<rparr>)) None timex_new =
    (Inl EINVAL, timex_new\<lparr>tx_status := STA_NANO\<rparr>)"
proof -
  have "timex_ok st'" using assms timex_ok_update [OF assms(1)]
    by (auto simp: sys_clock_adjtime_def Let_def split: if_split_asm option.split_asm sum.split_asm prod.split_asm)
       (metis snd_conv)+
  moreover have "st' = st" if "\<not> current_can_set_time c" using assms(2) that
    by (simp add: sys_clock_adjtime_def Let_def split: if_split_asm option.split_asm sum.split_asm)
  moreover have "sys_clock_adjtime credentials_root 0
      (Some (Inr \<lparr>rq_modes = ADJ_NANO OR ADJ_OFFSET, rq_offset = 500000000, rq_freq = 0, rq_maxerror = 0, rq_esterror = 0,
        rq_status = 0, rq_constant = 0, rq_tick = 0\<rparr>)) None timex_new =
    (Inl EINVAL, timex_new\<lparr>tx_status := STA_NANO\<rparr>)"
    by (simp add: sys_clock_adjtime_def root_can_set_time timex_eval Let_def)
  ultimately show ?thesis by blast
qed

theorem adjtimex_guarded_witness:
  "sys_clock_adjtime credentials_root 0 (Some (Inr \<lparr>rq_modes = ADJ_TICK, rq_offset = 0, rq_freq = 0, rq_maxerror = 0,
      rq_esterror = 0, rq_status = 0, rq_constant = 0, rq_tick = 11000\<rparr>)) None timex_new = (Inr 0, timex_new\<lparr>tx_tick := 11000\<rparr>) \<and>
   timex_ok (timex_new\<lparr>tx_tick := 11000\<rparr>)"
proof -
  have a: "sys_clock_adjtime credentials_root 0 (Some (Inr \<lparr>rq_modes = ADJ_TICK, rq_offset = 0, rq_freq = 0, rq_maxerror = 0,
      rq_esterror = 0, rq_status = 0, rq_constant = 0, rq_tick = 11000\<rparr>)) None timex_new = (Inr 0, timex_new\<lparr>tx_tick := 11000\<rparr>)"
    by (simp add: sys_clock_adjtime_def root_can_set_time timex_eval Let_def)
  have "timex_ok timex_new" by (simp add: timex_ok_def timex_new_def USEC_PER_SEC_def TICKS_PER_SEC_def)
  from adjtimex_guarded [OF this a] a show ?thesis by blast
qed

end
