(* ===== verification/Futex.thy ===== *)
theory Futex
  imports Futex_Queue Clock
begin

text \<open>
  The futex system calls (\<open>task/futex.rs\<close>) over the wait queues: waiting, waking and requeueing, the
  priority-inheritance locks, and the robust lists that are walked when a thread exits.

  The user memory of the process is a partial function from addresses to bytes, undefined where an access faults. A call
  that can sleep is its part before the sleep and its part after it; what the other tasks do in between is a function on
  the state. \<open>woke\<close> says for each task whether the scheduler took the wakeup. The clock, the pending signals and the
  resolution of process-shared keys (\<open>MemorySet::futex_shared_key\<close>) are arguments.
\<close>

section \<open>User memory\<close>

type_synonym umem = "usize \<Rightarrow> u8 option"

definition read_bytes :: "umem \<Rightarrow> usize \<Rightarrow> nat \<Rightarrow> u8 list option" where
  "read_bytes mem a n = those (map (\<lambda>i. mem (a + of_nat i)) [0..<n])"

fun bytes_to_nat :: "u8 list \<Rightarrow> nat" where
  "bytes_to_nat [] = 0"
| "bytes_to_nat (b # bs) = unat b + 256 * bytes_to_nat bs"

fun nat_to_bytes :: "nat \<Rightarrow> nat \<Rightarrow> u8 list" where
  "nat_to_bytes 0 x = []"
| "nat_to_bytes (Suc n) x = of_nat x # nat_to_bytes n (x div 256)"

definition write_bytes :: "umem \<Rightarrow> usize \<Rightarrow> u8 list \<Rightarrow> umem" where
  "write_bytes mem a bs = (\<lambda>x. if unat (x - a) < length bs then Some (bs ! unat (x - a)) else mem x)"

definition read_user_u32 :: "umem \<Rightarrow> usize \<Rightarrow> errno + u32" where
  "read_user_u32 mem a = (case read_bytes mem a 4 of None \<Rightarrow> Inl EFAULT | Some bs \<Rightarrow> Inr (of_nat (bytes_to_nat bs)))"

definition read_user_usize :: "umem \<Rightarrow> usize \<Rightarrow> errno + usize" where
  "read_user_usize mem a = (case read_bytes mem a 8 of None \<Rightarrow> Inl EFAULT | Some bs \<Rightarrow> Inr (of_nat (bytes_to_nat bs)))"

definition write_user_u32 :: "umem \<Rightarrow> usize \<Rightarrow> u32 \<Rightarrow> errno + umem" where
  "write_user_u32 mem a v =
     (case read_bytes mem a 4 of
        None \<Rightarrow> Inl EFAULT
      | Some _ \<Rightarrow> Inr (write_bytes mem a (nat_to_bytes 4 (unat v))))"

section \<open>Constants, keys and words\<close>

definition FUTEX_WAIT :: u32 where "FUTEX_WAIT = 0"
definition FUTEX_WAKE :: u32 where "FUTEX_WAKE = 1"
definition FUTEX_REQUEUE :: u32 where "FUTEX_REQUEUE = 3"
definition FUTEX_CMP_REQUEUE :: u32 where "FUTEX_CMP_REQUEUE = 4"
definition FUTEX_LOCK_PI :: u32 where "FUTEX_LOCK_PI = 6"
definition FUTEX_UNLOCK_PI :: u32 where "FUTEX_UNLOCK_PI = 7"
definition FUTEX_TRYLOCK_PI :: u32 where "FUTEX_TRYLOCK_PI = 8"
definition FUTEX_WAIT_BITSET :: u32 where "FUTEX_WAIT_BITSET = 9"
definition FUTEX_WAKE_BITSET :: u32 where "FUTEX_WAKE_BITSET = 10"
definition FUTEX_CMD_MASK :: u32 where "FUTEX_CMD_MASK = 0x7f"
definition FUTEX_PRIVATE_FLAG :: u32 where "FUTEX_PRIVATE_FLAG = 0x80"
definition FUTEX_CLOCK_REALTIME :: u32 where "FUTEX_CLOCK_REALTIME = 0x100"
definition FUTEX_WAITERS :: u32 where "FUTEX_WAITERS = 0x80000000"
definition FUTEX_OWNER_DIED :: u32 where "FUTEX_OWNER_DIED = 0x40000000"
definition FUTEX_TID_MASK :: u32 where "FUTEX_TID_MASK = NOT (FUTEX_WAITERS OR FUTEX_OWNER_DIED)"

definition futex_key_of :: "(usize \<Rightarrow> futex_shared_key option) \<Rightarrow> usize \<Rightarrow> usize \<Rightarrow> bool \<Rightarrow> futex_key" where
  "futex_key_of shared process_id addr priv =
     (if priv then Private process_id addr
      else (case shared addr of Some k \<Rightarrow> Shared k | None \<Rightarrow> SharedVirtual process_id addr))"

definition futex_key_for_process :: "usize \<Rightarrow> bool \<Rightarrow> usize \<Rightarrow> futex_key" where
  "futex_key_for_process addr priv process_id =
     (if priv then Private process_id addr else SharedVirtual process_id addr)"

definition validate_futex_addr :: "usize \<Rightarrow> errno option" where
  "validate_futex_addr addr = (if addr mod 4 \<noteq> 0 then Some EINVAL else None)"

definition read_futex_word :: "umem \<Rightarrow> usize \<Rightarrow> errno + u32" where
  "read_futex_word mem addr = (case validate_futex_addr addr of Some e \<Rightarrow> Inl e | None \<Rightarrow> read_user_u32 mem addr)"

definition write_futex_word :: "umem \<Rightarrow> usize \<Rightarrow> u32 \<Rightarrow> errno + umem" where
  "write_futex_word mem addr v = (case validate_futex_addr addr of Some e \<Rightarrow> Inl e | None \<Rightarrow> write_user_u32 mem addr v)"

definition linux_tid_to_futex_word :: "nat \<Rightarrow> errno + u32" where
  "linux_tid_to_futex_word tid = (if unat FUTEX_TID_MASK < tid then Inl EINVAL else Inr (of_nat tid))"

definition futex_waiters_word :: "u32 \<Rightarrow> bool \<Rightarrow> u32" where
  "futex_waiters_word owner_tid waiters = (if waiters then owner_tid OR FUTEX_WAITERS else owner_tid)"

text \<open>\<open>now_nanos\<close> reads the chosen clock; \<open>now_ms\<close> and \<open>now_us\<close> are \<open>get_time_ms()\<close> and \<open>get_time_us()\<close>.\<close>

definition futex_timeout_absolute ::
  "(clock_backend \<Rightarrow> nat) \<Rightarrow> nat \<Rightarrow> nat \<Rightarrow> (errno + timespec) option \<Rightarrow> clock_backend \<Rightarrow> errno + nat option" where
  "futex_timeout_absolute now_nanos now_ms now_us timeout backend =
     (case timeout of
        None \<Rightarrow> Inr None
      | Some (Inl e) \<Rightarrow> Inl e
      | Some (Inr request) \<Rightarrow>
          (case timespec_to_nanos request of
             Inl e \<Rightarrow> Inl e
           | Inr deadline_nanos \<Rightarrow>
               if deadline_nanos \<le> now_nanos backend then Inr (Some now_ms)
               else (case relative_timeout_deadline_ms_from_nanos now_us (deadline_nanos - now_nanos backend) of
                   Inl e \<Rightarrow> Inl e
                 | Inr ms \<Rightarrow> Inr (Some ms))))"

definition futex_timeout_expired :: "nat option \<Rightarrow> nat \<Rightarrow> bool" where
  "futex_timeout_expired timeout_ms now_ms = (case timeout_ms of None \<Rightarrow> False | Some d \<Rightarrow> d \<le> now_ms)"

definition futex_count :: "nat \<Rightarrow> errno + nat" where
  "futex_count raw = (if nat i32_max < raw then Inl EINVAL else Inr raw)"

section \<open>Waiting and waking\<close>

record futex_state =
  fx_m :: futex_manager
  fx_mem :: umem

text \<open>
  What a waiting call observes: the clock and the signals at its three looks, the outcome of blocking, what the other tasks
  do before the bucket is locked and while the caller sleeps, and what they do during the cleanup.
\<close>

record wait_env =
  we_ms :: nat
  we_signal :: bool
  we_before :: "futex_state \<Rightarrow> futex_state"
  we_ms_locked :: nat
  we_block :: "task_id option"
  we_asleep :: "futex_state \<Rightarrow> futex_state"
  we_rounds :: "(futex_manager \<Rightarrow> futex_manager) list"
  we_ms_after :: nat
  we_signal_after :: bool

text \<open>The critical section of \<open>futex_wait\<close>: the second look at the word and the enqueueing, under the bucket lock.\<close>

definition futex_wait_locked ::
  "usize \<Rightarrow> futex_key \<Rightarrow> u32 \<Rightarrow> nat option \<Rightarrow> u32 \<Rightarrow> nat \<Rightarrow> task_id option \<Rightarrow> futex_state
    \<Rightarrow> futex_panic + (errno + fwaiter_id) \<times> futex_state" where
  "futex_wait_locked addr key expected timeout_ms bitset now_ms blocked s =
     (case read_futex_word (fx_mem s) addr of
        Inl e \<Rightarrow> Inr (Inl e, s)
      | Inr word \<Rightarrow>
          if word \<noteq> expected then Inr (Inl EAGAIN, s)
          else if futex_timeout_expired timeout_ms now_ms then Inr (Inl ETIMEDOUT, s)
          else (case block_current_on key bitset blocked (fx_m s) of
              Inl p \<Rightarrow> Inl p
            | Inr (None, m) \<Rightarrow> Inr (Inl EINTR, s\<lparr>fx_m := m\<rparr>)
            | Inr (Some w, m) \<Rightarrow> Inr (Inr w, s\<lparr>fx_m := m\<rparr>)))"

text \<open>After the sleep: the cleanup, and the result it leads to. \<open>None\<close>: the cleanup goes round longer than listed.\<close>

definition wait_result :: "futex_wait_cleanup \<Rightarrow> bool \<Rightarrow> bool \<Rightarrow> errno + int" where
  "wait_result cleanup expired signal =
     (if expired then
        (if cleanup = StillQueued then Inl ETIMEDOUT
         else if signal then Inl EINTR
         else Inr 0)
      else if signal then Inl EINTR
      else if cleanup = StillQueued then Inl EINTR
      else Inr 0)"

definition futex_wait_woken ::
  "fwaiter_id \<Rightarrow> nat option \<Rightarrow> wait_env \<Rightarrow> futex_state \<Rightarrow> futex_panic + (errno + int) option \<times> futex_state" where
  "futex_wait_woken w timeout_ms env s =
     (case remove_waiter_for_task w (we_rounds env) (fx_m s) of
        Inl p \<Rightarrow> Inl p
      | Inr (None, m) \<Rightarrow> Inr (None, s\<lparr>fx_m := m\<rparr>)
      | Inr (Some cleanup, m) \<Rightarrow>
          Inr (Some (wait_result cleanup (futex_timeout_expired timeout_ms (we_ms_after env)) (we_signal_after env)),
               s\<lparr>fx_m := m\<rparr>))"

definition futex_wait ::
  "usize \<Rightarrow> futex_key \<Rightarrow> u32 \<Rightarrow> nat option \<Rightarrow> u32 \<Rightarrow> wait_env \<Rightarrow> futex_state
    \<Rightarrow> futex_panic + (errno + int) option \<times> futex_state" where
  "futex_wait addr key expected timeout_ms bitset env s =
     (case read_futex_word (fx_mem s) addr of
        Inl e \<Rightarrow> Inr (Some (Inl e), s)
      | Inr word \<Rightarrow>
          if word \<noteq> expected then Inr (Some (Inl EAGAIN), s)
          else if futex_timeout_expired timeout_ms (we_ms env) then Inr (Some (Inl ETIMEDOUT), s)
          else if we_signal env then Inr (Some (Inl EINTR), s)
          else (case futex_wait_locked addr key expected timeout_ms bitset (we_ms_locked env) (we_block env) (we_before env s) of
              Inl p \<Rightarrow> Inl p
            | Inr (Inl e, s1) \<Rightarrow> Inr (Some (Inl e), s1)
            | Inr (Inr w, s1) \<Rightarrow> futex_wait_woken w timeout_ms env (we_asleep env s1)))"

definition wake_futex_task :: "(task_id \<Rightarrow> bool) \<Rightarrow> task_id option \<Rightarrow> nat" where
  "wake_futex_task woke t = (case t of None \<Rightarrow> 0 | Some t' \<Rightarrow> if woke t' then 1 else 0)"

definition wake_futex_tasks :: "(task_id \<Rightarrow> bool) \<Rightarrow> task_id list \<Rightarrow> nat" where
  "wake_futex_tasks woke ts = length (filter woke ts)"

definition futex_wake ::
  "(task_id \<Rightarrow> bool) \<Rightarrow> futex_key \<Rightarrow> nat \<Rightarrow> u32 \<Rightarrow> futex_manager \<Rightarrow> futex_panic + nat \<times> futex_manager" where
  "futex_wake woke key limit bitset m =
     (if limit = 1 then
        (case wake_one key bitset m of Inl p \<Rightarrow> Inl p | Inr (t, m') \<Rightarrow> Inr (wake_futex_task woke t, m'))
      else (case wake key limit bitset m of Inl p \<Rightarrow> Inl p | Inr (ts, m') \<Rightarrow> Inr (wake_futex_tasks woke ts, m')))"

definition futex_wake_for_process ::
  "(task_id \<Rightarrow> bool) \<Rightarrow> usize \<Rightarrow> bool \<Rightarrow> usize \<Rightarrow> nat \<Rightarrow> u32 \<Rightarrow> futex_manager \<Rightarrow> futex_panic + nat \<times> futex_manager" where
  "futex_wake_for_process woke addr priv process_id limit bitset m =
     futex_wake woke (futex_key_for_process addr priv process_id) limit bitset m"

definition futex_requeue ::
  "(task_id \<Rightarrow> bool) \<Rightarrow> futex_key \<Rightarrow> nat \<Rightarrow> nat \<Rightarrow> usize \<Rightarrow> futex_key \<Rightarrow> bool \<Rightarrow> futex_manager
    \<Rightarrow> futex_panic + (errno + nat) \<times> futex_manager" where
  "futex_requeue woke source wake_limit requeue_limit addr2 target count_requeued m =
     (case validate_futex_addr addr2 of
        Some e \<Rightarrow> Inr (Inl e, m)
      | None \<Rightarrow>
          if source = target then Inr (Inl EINVAL, m)
          else (case requeue source target wake_limit requeue_limit m of
              Inl p \<Rightarrow> Inl p
            | Inr ((ts, moved), m') \<Rightarrow>
                (let woken = wake_futex_tasks woke ts
                 in Inr (Inr (if count_requeued then moved + woken else woken), m'))))"

section \<open>Priority-inheritance locks\<close>

definition clear_pi_waiters_bit_if_idle :: "usize \<Rightarrow> futex_key \<Rightarrow> futex_state \<Rightarrow> errno option \<times> futex_state" where
  "clear_pi_waiters_bit_if_idle addr key s =
     (if has_waiters key (fx_m s) then (None, s)
      else (case read_futex_word (fx_mem s) addr of
          Inl e \<Rightarrow> (Some e, s)
        | Inr word \<Rightarrow>
            if word AND FUTEX_WAITERS \<noteq> 0 then
              (case write_futex_word (fx_mem s) addr (word AND NOT FUTEX_WAITERS) of
                 Inl e \<Rightarrow> (Some e, s)
               | Inr mem \<Rightarrow> (None, s\<lparr>fx_mem := mem\<rparr>))
            else (None, s)))"

definition try_acquire_pi_word :: "usize \<Rightarrow> u32 \<Rightarrow> umem \<Rightarrow> (errno + bool) \<times> umem" where
  "try_acquire_pi_word addr tid mem =
     (case read_futex_word mem addr of
        Inl e \<Rightarrow> (Inl e, mem)
      | Inr word \<Rightarrow>
          (let owner_tid = word AND FUTEX_TID_MASK
           in if owner_tid = 0 then
                (if word AND FUTEX_WAITERS \<noteq> 0 then (Inl EINVAL, mem)
                 else (case write_futex_word mem addr tid of Inl e \<Rightarrow> (Inl e, mem) | Inr mem' \<Rightarrow> (Inr True, mem')))
              else if owner_tid = tid then (Inl EDEADLK, mem)
              else (Inr False, mem)))"

definition futex_try_lock_pi :: "usize \<Rightarrow> nat \<Rightarrow> umem \<Rightarrow> (errno + int) \<times> umem" where
  "futex_try_lock_pi addr linux_tid mem =
     (case linux_tid_to_futex_word linux_tid of
        Inl e \<Rightarrow> (Inl e, mem)
      | Inr tid \<Rightarrow>
          (case try_acquire_pi_word addr tid mem of
             (Inl e, mem') \<Rightarrow> (Inl e, mem')
           | (Inr True, mem') \<Rightarrow> (Inr 0, mem')
           | (Inr False, mem') \<Rightarrow> (Inl EAGAIN, mem')))"

text \<open>
  The critical section of \<open>futex_lock_pi\<close>: \<open>Inr None\<close> when the lock was free and is taken, \<open>Inr (Some w)\<close> when
  the caller is queued as waiter \<open>w\<close>.
\<close>

definition lock_pi_locked ::
  "usize \<Rightarrow> futex_key \<Rightarrow> u32 \<Rightarrow> nat option \<Rightarrow> nat \<Rightarrow> task_id option \<Rightarrow> futex_state
    \<Rightarrow> futex_panic + (errno + fwaiter_id option) \<times> futex_state" where
  "lock_pi_locked addr key tid timeout_ms now_ms blocked s =
     (case read_futex_word (fx_mem s) addr of
        Inl e \<Rightarrow> Inr (Inl e, s)
      | Inr word \<Rightarrow>
          (let owner_tid = word AND FUTEX_TID_MASK
           in if owner_tid = 0 then
                (if word AND FUTEX_WAITERS \<noteq> 0 then Inr (Inl EINVAL, s)
                 else (case write_futex_word (fx_mem s) addr tid of
                     Inl e \<Rightarrow> Inr (Inl e, s)
                   | Inr mem \<Rightarrow> Inr (Inr None, s\<lparr>fx_mem := mem\<rparr>)))
              else if owner_tid = tid then Inr (Inl EDEADLK, s)
              else if futex_timeout_expired timeout_ms now_ms then Inr (Inl ETIMEDOUT, s)
              else
                (case (if word AND FUTEX_WAITERS = 0 then write_futex_word (fx_mem s) addr (word OR FUTEX_WAITERS)
                       else Inr (fx_mem s)) of
                   Inl e \<Rightarrow> Inr (Inl e, s)
                 | Inr mem \<Rightarrow>
                     (case block_current_on key FUTEX_BITSET_MATCH_ANY blocked (fx_m s) of
                        Inl p \<Rightarrow> Inl p
                      | Inr (None, m) \<Rightarrow> Inr (Inl EINTR, s\<lparr>fx_mem := mem, fx_m := m\<rparr>)
                      | Inr (Some w, m) \<Rightarrow> Inr (Inr (Some w), s\<lparr>fx_mem := mem, fx_m := m\<rparr>)))))"

definition pi_give_up :: "usize \<Rightarrow> futex_key \<Rightarrow> errno \<Rightarrow> futex_state \<Rightarrow> (errno + int) \<times> futex_state" where
  "pi_give_up addr key e s =
     (case clear_pi_waiters_bit_if_idle addr key s of
        (Some e', s') \<Rightarrow> (Inl e', s')
      | (None, s') \<Rightarrow> (Inl e, s'))"

definition lock_pi_result ::
  "usize \<Rightarrow> futex_key \<Rightarrow> futex_wait_cleanup \<Rightarrow> bool \<Rightarrow> bool \<Rightarrow> futex_state \<Rightarrow> (errno + int) \<times> futex_state" where
  "lock_pi_result addr key cleanup expired signal s =
     (if expired then
        (if cleanup = StillQueued then pi_give_up addr key ETIMEDOUT s
         else if signal then (Inl EINTR, s)
         else (Inr 0, s))
      else if signal then pi_give_up addr key EINTR s
      else if cleanup = StillQueued then pi_give_up addr key EINTR s
      else (Inr 0, s))"

definition lock_pi_woken ::
  "usize \<Rightarrow> futex_key \<Rightarrow> fwaiter_id \<Rightarrow> nat option \<Rightarrow> wait_env \<Rightarrow> futex_state
    \<Rightarrow> futex_panic + (errno + int) option \<times> futex_state" where
  "lock_pi_woken addr key w timeout_ms env s =
     (case remove_waiter_for_task w (we_rounds env) (fx_m s) of
        Inl p \<Rightarrow> Inl p
      | Inr (None, m) \<Rightarrow> Inr (None, s\<lparr>fx_m := m\<rparr>)
      | Inr (Some cleanup, m) \<Rightarrow>
          (case lock_pi_result addr key cleanup (futex_timeout_expired timeout_ms (we_ms_after env)) (we_signal_after env)
                  (s\<lparr>fx_m := m\<rparr>) of
             (r, s') \<Rightarrow> Inr (Some r, s')))"

definition futex_lock_pi ::
  "usize \<Rightarrow> futex_key \<Rightarrow> nat \<Rightarrow> nat option \<Rightarrow> wait_env \<Rightarrow> futex_state
    \<Rightarrow> futex_panic + (errno + int) option \<times> futex_state" where
  "futex_lock_pi addr key linux_tid timeout_ms env s =
     (case linux_tid_to_futex_word linux_tid of
        Inl e \<Rightarrow> Inr (Some (Inl e), s)
      | Inr tid \<Rightarrow>
          (case read_futex_word (fx_mem s) addr of
             Inl e \<Rightarrow> Inr (Some (Inl e), s)
           | Inr _ \<Rightarrow>
               (case lock_pi_locked addr key tid timeout_ms (we_ms_locked env) (we_block env) (we_before env s) of
                  Inl p \<Rightarrow> Inl p
                | Inr (Inl e, s1) \<Rightarrow> Inr (Some (Inl e), s1)
                | Inr (Inr None, s1) \<Rightarrow> Inr (Some (Inr 0), s1)
                | Inr (Inr (Some w), s1) \<Rightarrow> lock_pi_woken addr key w timeout_ms env (we_asleep env s1))))"

text \<open>
  \<open>futex_unlock_pi\<close> in the steps that the other tasks can come between: the check of the owner, the wakeup under the
  bucket lock, and the store of the new word. \<open>tid_of\<close> gives the Linux thread id of a task.
\<close>

definition unlock_pi_check :: "usize \<Rightarrow> nat \<Rightarrow> umem \<Rightarrow> errno option" where
  "unlock_pi_check addr linux_tid mem =
     (case linux_tid_to_futex_word linux_tid of
        Inl e \<Rightarrow> Some e
      | Inr tid \<Rightarrow>
          (case read_futex_word mem addr of
             Inl e \<Rightarrow> Some e
           | Inr word \<Rightarrow> if word AND FUTEX_TID_MASK \<noteq> tid then Some EPERM else None))"

definition unlock_pi_store :: "(task_id \<Rightarrow> nat) \<Rightarrow> usize \<Rightarrow> task_id option \<times> bool \<Rightarrow> umem \<Rightarrow> (errno + int) \<times> umem" where
  "unlock_pi_store tid_of addr taken mem =
     (case taken of
        (Some t, has_more_waiters) \<Rightarrow>
          (case linux_tid_to_futex_word (tid_of t) of
             Inl e \<Rightarrow> (Inl e, mem)
           | Inr next_tid \<Rightarrow>
               (case write_futex_word mem addr (futex_waiters_word next_tid has_more_waiters) of
                  Inl e \<Rightarrow> (Inl e, mem)
                | Inr mem' \<Rightarrow> (Inr 0, mem')))
      | (None, _) \<Rightarrow> (case write_futex_word mem addr 0 of Inl e \<Rightarrow> (Inl e, mem) | Inr mem' \<Rightarrow> (Inr 0, mem')))"

definition futex_unlock_pi ::
  "(task_id \<Rightarrow> nat) \<Rightarrow> usize \<Rightarrow> futex_key \<Rightarrow> nat \<Rightarrow> (futex_state \<Rightarrow> futex_state) \<Rightarrow> (futex_state \<Rightarrow> futex_state) \<Rightarrow> futex_state
    \<Rightarrow> futex_panic + (errno + int) \<times> futex_state" where
  "futex_unlock_pi tid_of addr key linux_tid before_wake before_store s =
     (case unlock_pi_check addr linux_tid (fx_mem s) of
        Some e \<Rightarrow> Inr (Inl e, s)
      | None \<Rightarrow>
          (let s1 = before_wake s
           in case wake_one_with_remaining key (fx_m s1) of
               Inl p \<Rightarrow> Inl p
             | Inr (taken, m) \<Rightarrow>
                 (let s2 = before_store (s1\<lparr>fx_m := m\<rparr>)
                  in case unlock_pi_store tid_of addr taken (fx_mem s2) of (r, mem) \<Rightarrow> Inr (r, s2\<lparr>fx_mem := mem\<rparr>))))"

section \<open>Robust lists\<close>


text \<open>The two wakeups of one waiter, on the fallback key and on the private key.\<close>

definition wake_both_keys ::
  "(task_id \<Rightarrow> bool) \<Rightarrow> usize \<Rightarrow> usize \<Rightarrow> futex_manager \<Rightarrow> futex_panic + futex_manager" where
  "wake_both_keys woke process_id addr m =
     (case futex_wake_for_process woke addr False process_id 1 FUTEX_BITSET_MATCH_ANY m of
        Inl p \<Rightarrow> Inl p
      | Inr (_, m1) \<Rightarrow>
          (case futex_wake_for_process woke addr True process_id 1 FUTEX_BITSET_MATCH_ANY m1 of
             Inl p \<Rightarrow> Inl p
           | Inr (_, m2) \<Rightarrow> Inr m2))"








definition clear_child_tid_and_wake ::
  "(task_id \<Rightarrow> bool) \<Rightarrow> usize \<Rightarrow> usize \<Rightarrow> futex_state \<Rightarrow> futex_panic + futex_state" where
  "clear_child_tid_and_wake woke process_id addr s =
     (if addr = 0 then Inr s
      else (case write_user_u32 (fx_mem s) addr 0 of
          Inl _ \<Rightarrow> Inr s
        | Inr mem \<Rightarrow>
            (case wake_both_keys woke process_id addr (fx_m s) of
               Inl p \<Rightarrow> Inl p
             | Inr m \<Rightarrow> Inr (s\<lparr>fx_mem := mem, fx_m := m\<rparr>))))"

text \<open>The head is a field of the task; \<open>tasks\<close> are the threads of the caller's group with their Linux ids and heads.\<close>

definition sys_set_robust_list :: "usize \<Rightarrow> nat \<Rightarrow> usize \<Rightarrow> (errno + int) \<times> usize" where
  "sys_set_robust_list head len old = (if len \<noteq> 24 then (Inl EINVAL, old) else (Inr 0, head))"

definition robust_list_query_task :: "int \<Rightarrow> nat \<times> usize \<Rightarrow> (nat \<times> usize) list \<Rightarrow> errno + usize" where
  "robust_list_query_task pid current tasks =
     (if pid < 0 then Inl ESRCH
      else if pid = 0 then Inr (snd current)
      else (case find (\<lambda>t. fst t = nat pid) tasks of None \<Rightarrow> Inl ESRCH | Some t \<Rightarrow> Inr (snd t)))"

section \<open>The system call\<close>

definition validate_futex_clock_option :: "u32 \<Rightarrow> u32 \<Rightarrow> errno option" where
  "validate_futex_clock_option command futex_op =
     (if futex_op AND FUTEX_CLOCK_REALTIME = 0 then None
      else if command = FUTEX_WAIT \<or> command = FUTEX_WAIT_BITSET then None
      else Some ENOSYS)"

text \<open>What a call is given beside its registers.\<close>

record futex_call =
  fc_pid :: usize
  fc_linux_tid :: nat
  fc_shared :: "usize \<Rightarrow> futex_shared_key option"
  fc_tid_of :: "task_id \<Rightarrow> nat"
  fc_woke :: "task_id \<Rightarrow> bool"
  fc_now_nanos :: "clock_backend \<Rightarrow> nat"
  fc_ms :: nat
  fc_us :: nat
  fc_wait :: wait_env
  fc_before_wake :: "futex_state \<Rightarrow> futex_state"
  fc_before_store :: "futex_state \<Rightarrow> futex_state"
  fc_before_requeue :: "futex_state \<Rightarrow> futex_state"

definition lift_wake :: "futex_panic + nat \<times> futex_manager \<Rightarrow> futex_state \<Rightarrow> futex_panic + (errno + int) option \<times> futex_state" where
  "lift_wake r s = (case r of Inl p \<Rightarrow> Inl p | Inr (n, m) \<Rightarrow> Inr (Some (Inr (int n)), s\<lparr>fx_m := m\<rparr>))"

definition call_wake ::
  "futex_call \<Rightarrow> usize \<Rightarrow> bool \<Rightarrow> u32 \<Rightarrow> u32 \<Rightarrow> futex_state \<Rightarrow> futex_panic + (errno + int) option \<times> futex_state" where
  "call_wake c addr priv val bitset s =
     (case futex_count (unat val) of
        Inl e \<Rightarrow> Inr (Some (Inl e), s)
      | Inr limit \<Rightarrow> lift_wake (futex_wake (fc_woke c) (futex_key_of (fc_shared c) (fc_pid c) addr priv) limit bitset (fx_m s)) s)"

definition call_requeue ::
  "futex_call \<Rightarrow> usize \<Rightarrow> bool \<Rightarrow> bool \<Rightarrow> u32 \<Rightarrow> usize \<Rightarrow> usize \<Rightarrow> u32 \<Rightarrow> futex_state
    \<Rightarrow> futex_panic + (errno + int) option \<times> futex_state" where
  "call_requeue c addr priv cmp val val2 addr2 val3 s =
     (case futex_count (unat val2) of
        Inl e \<Rightarrow> Inr (Some (Inl e), s)
      | Inr requeue_limit \<Rightarrow>
          (case (if cmp then (case read_futex_word (fx_mem s) addr of
                     Inl e \<Rightarrow> Some e | Inr word \<Rightarrow> if word \<noteq> val3 then Some EAGAIN else None)
                 else None) of
             Some e \<Rightarrow> Inr (Some (Inl e), s)
           | None \<Rightarrow>
               (case futex_count (unat val) of
                  Inl e \<Rightarrow> Inr (Some (Inl e), s)
                | Inr wake_limit \<Rightarrow>
                    (let s1 = fc_before_requeue c s
                     in case futex_requeue (fc_woke c) (futex_key_of (fc_shared c) (fc_pid c) addr priv) wake_limit
                              requeue_limit addr2 (futex_key_of (fc_shared c) (fc_pid c) addr2 priv) cmp (fx_m s1) of
                         Inl p \<Rightarrow> Inl p
                       | Inr (r, m) \<Rightarrow> Inr (Some (map_sum id int r), s1\<lparr>fx_m := m\<rparr>)))))"

definition call_wait ::
  "futex_call \<Rightarrow> usize \<Rightarrow> bool \<Rightarrow> u32 \<Rightarrow> errno + nat option \<Rightarrow> u32 \<Rightarrow> futex_state
    \<Rightarrow> futex_panic + (errno + int) option \<times> futex_state" where
  "call_wait c addr priv val deadline bitset s =
     (case deadline of
        Inl e \<Rightarrow> Inr (Some (Inl e), s)
      | Inr timeout_ms \<Rightarrow>
          futex_wait addr (futex_key_of (fc_shared c) (fc_pid c) addr priv) val timeout_ms bitset (fc_wait c) s)"

text \<open>\<open>timeout\<close> is the fourth register, \<open>request\<close> the outcome of reading a time through it.\<close>

definition sys_futex ::
  "futex_call \<Rightarrow> usize \<Rightarrow> u32 \<Rightarrow> u32 \<Rightarrow> usize \<Rightarrow> (errno + timespec) option \<Rightarrow> usize \<Rightarrow> u32 \<Rightarrow> futex_state
    \<Rightarrow> futex_panic + (errno + int) option \<times> futex_state" where
  "sys_futex c addr futex_op val timeout request addr2 val3 s =
     (case validate_futex_addr addr of
        Some e \<Rightarrow> Inr (Some (Inl e), s)
      | None \<Rightarrow>
          if futex_op AND NOT (FUTEX_CMD_MASK OR FUTEX_PRIVATE_FLAG OR FUTEX_CLOCK_REALTIME) \<noteq> 0 then Inr (Some (Inl EINVAL), s)
          else
            (let command = futex_op AND FUTEX_CMD_MASK;
                 priv = (futex_op AND FUTEX_PRIVATE_FLAG \<noteq> 0);
                 backend = (if futex_op AND FUTEX_CLOCK_REALTIME \<noteq> 0 then Wall else Monotonic);
                 key = futex_key_of (fc_shared c) (fc_pid c) addr priv;
                 absolute = futex_timeout_absolute (fc_now_nanos c) (fc_ms c) (fc_us c) request
             in case validate_futex_clock_option command futex_op of
                 Some e \<Rightarrow> Inr (Some (Inl e), s)
               | None \<Rightarrow>
                   if (command = FUTEX_WAIT_BITSET \<or> command = FUTEX_WAKE_BITSET) \<and> val3 = 0 then Inr (Some (Inl EINVAL), s)
                   else if command = FUTEX_WAIT then
                     call_wait c addr priv val (relative_timeout_deadline_ms (fc_us c) request) FUTEX_BITSET_MATCH_ANY s
                   else if command = FUTEX_WAIT_BITSET then call_wait c addr priv val (absolute backend) val3 s
                   else if command = FUTEX_WAKE then call_wake c addr priv val FUTEX_BITSET_MATCH_ANY s
                   else if command = FUTEX_WAKE_BITSET then call_wake c addr priv val val3 s
                   else if command = FUTEX_LOCK_PI then
                     (case absolute Wall of
                        Inl e \<Rightarrow> Inr (Some (Inl e), s)
                      | Inr timeout_ms \<Rightarrow> futex_lock_pi addr key (fc_linux_tid c) timeout_ms (fc_wait c) s)
                   else if command = FUTEX_TRYLOCK_PI then
                     (case futex_try_lock_pi addr (fc_linux_tid c) (fx_mem s) of (r, mem) \<Rightarrow> Inr (Some r, s\<lparr>fx_mem := mem\<rparr>))
                   else if command = FUTEX_UNLOCK_PI then
                     (case futex_unlock_pi (fc_tid_of c) addr key (fc_linux_tid c) (fc_before_wake c) (fc_before_store c) s of
                        Inl p \<Rightarrow> Inl p
                      | Inr (r, s') \<Rightarrow> Inr (Some r, s'))
                   else if command = FUTEX_REQUEUE \<or> command = FUTEX_CMP_REQUEUE then
                     call_requeue c addr priv (command = FUTEX_CMP_REQUEUE) val timeout addr2 val3 s
                   else Inr (Some (Inl ENOSYS), s)))"

section \<open>Lemmas on user memory\<close>

lemma those_map_Some: "those (map (\<lambda>x. Some (f x)) xs) = Some (map f xs)"
  by (induction xs) simp_all

lemma nat_to_bytes_length [simp]: "length (nat_to_bytes n x) = n"
  by (induction n arbitrary: x) simp_all

lemma bytes_nat_roundtrip: "bytes_to_nat (nat_to_bytes n x) = x mod 256 ^ n"
proof (induction n arbitrary: x)
  case (Suc n)
  have "unat (of_nat x :: u8) = x mod 256" by (simp add: unat_of_nat)
  then show ?case using Suc by (simp add: mod_mult2_eq)
qed simp

lemma read_bytes_write_same:
  assumes "length bs < 2 ^ 64"
  shows "read_bytes (write_bytes mem a bs) a (length bs) = Some bs"
proof -
  have "map (\<lambda>i. write_bytes mem a bs (a + of_nat i)) [0..<length bs] = map (\<lambda>i. Some (bs ! i)) [0..<length bs]"
    using assms by (auto simp: write_bytes_def unat_of_nat)
  then show ?thesis unfolding read_bytes_def by (simp only: those_map_Some map_nth)
qed

definition separate :: "usize \<Rightarrow> nat \<Rightarrow> usize \<Rightarrow> nat \<Rightarrow> bool" where
  "separate b n a k \<longleftrightarrow> (\<forall>i < n. k \<le> unat (b + of_nat i - a))"


lemma read_bytes_write_other:
  "separate b n a (length bs) \<Longrightarrow> read_bytes (write_bytes mem a bs) b n = read_bytes mem b n"
proof -
  assume "separate b n a (length bs)"
  then have "map (\<lambda>i. write_bytes mem a bs (b + of_nat i)) [0..<n] = map (\<lambda>i. mem (b + of_nat i)) [0..<n]"
    by (auto simp: write_bytes_def separate_def)
  then show ?thesis by (simp only: read_bytes_def)
qed

lemma write_user_u32_Inr:
  assumes "write_user_u32 mem a v = Inr mem'"
  shows "read_user_u32 mem' a = Inr v"
    and "separate b 4 a 4 \<Longrightarrow> read_user_u32 mem' b = read_user_u32 mem b"
    and "separate b 8 a 4 \<Longrightarrow> read_user_usize mem' b = read_user_usize mem b"
proof -
  from assms have m: "mem' = write_bytes mem a (nat_to_bytes 4 (unat v))"
    by (auto simp: write_user_u32_def split: option.split_asm)
  have "unat v < 256 ^ 4" using unsigned_less [of v] by simp
  then have "of_nat (bytes_to_nat (nat_to_bytes 4 (unat v))) = v" by (simp add: bytes_nat_roundtrip)
  then show "read_user_u32 mem' a = Inr v"
    using read_bytes_write_same [of "nat_to_bytes 4 (unat v)" mem a] by (simp add: m read_user_u32_def)
  show "separate b 4 a 4 \<Longrightarrow> read_user_u32 mem' b = read_user_u32 mem b"
    and "separate b 8 a 4 \<Longrightarrow> read_user_usize mem' b = read_user_usize mem b"
    by (simp_all add: m read_user_u32_def read_user_usize_def read_bytes_write_other)
qed

lemma write_user_u32_ok: "read_user_u32 mem a = Inr w \<Longrightarrow> \<exists>mem'. write_user_u32 mem a v = Inr mem'"
  by (auto simp: read_user_u32_def write_user_u32_def split: option.split_asm)

lemma futex_word_Inr:
  "read_futex_word mem a = Inr w \<longleftrightarrow> a mod 4 = 0 \<and> read_user_u32 mem a = Inr w"
  by (simp add: read_futex_word_def validate_futex_addr_def)

lemma write_futex_word_Inr:
  "write_futex_word mem a v = Inr mem' \<longleftrightarrow> a mod 4 = 0 \<and> write_user_u32 mem a v = Inr mem'"
  by (simp add: write_futex_word_def validate_futex_addr_def)

lemma write_futex_word_ok:
  assumes "read_futex_word mem a = Inr w"
  obtains mem' where "write_futex_word mem a v = Inr mem'" "read_futex_word mem' a = Inr v"
  using assms write_user_u32_ok [of mem a w v] write_user_u32_Inr(1) [of mem a v]
  by (auto simp: futex_word_Inr write_futex_word_Inr)

section \<open>The system\<close>

text \<open>
  The manager together with, for each task, the waiter it is waiting with (\<open>sy_phase\<close>): from the moment it has been
  queued until its cleanup ends. One step is one critical section. A cleanup may run with an outdated bucket index.
\<close>

record futex_sys =
  sy_m :: futex_manager
  sy_phase :: "task_id \<Rightarrow> fwaiter_id option"

definition futex_sys_new :: futex_sys where
  "futex_sys_new = \<lparr>sy_m = futex_manager_new, sy_phase = (\<lambda>_. None)\<rparr>"

inductive futex_reach :: "futex_sys \<Rightarrow> bool" where
  fr_new: "futex_reach futex_sys_new"
| fr_block: "futex_reach s \<Longrightarrow> sy_phase s t = None \<Longrightarrow>
    block_current_on key bitset (Some t) (sy_m s) = Inr (Some w, m) \<Longrightarrow>
    futex_reach (s\<lparr>sy_m := m, sy_phase := (sy_phase s)(t \<mapsto> w)\<rparr>)"
| fr_wake: "futex_reach s \<Longrightarrow> futex_wake woke key limit bitset (sy_m s) = Inr (n, m) \<Longrightarrow> futex_reach (s\<lparr>sy_m := m\<rparr>)"
| fr_unlock: "futex_reach s \<Longrightarrow> wake_one_with_remaining key (sy_m s) = Inr (taken, m) \<Longrightarrow> futex_reach (s\<lparr>sy_m := m\<rparr>)"
| fr_requeue: "futex_reach s \<Longrightarrow> futex_requeue woke source wake_limit requeue_limit addr2 target cnt (sy_m s) = Inr (r, m) \<Longrightarrow>
    futex_reach (s\<lparr>sy_m := m\<rparr>)"
| fr_leave: "futex_reach s \<Longrightarrow> sy_phase s t = Some w \<Longrightarrow> i < FUTEX_BUCKET_COUNT \<Longrightarrow>
    cleanup_attempt w i (sy_m s) = Inr (Some r, m) \<or> \<not> is_queued (sy_m s) w \<and> m = sy_m s \<Longrightarrow>
    futex_reach (s\<lparr>sy_m := m, sy_phase := (sy_phase s)(t := None)\<rparr>)"
| fr_exit: "futex_reach s \<Longrightarrow> remove_tasks ts (sy_m s) = Inr m \<Longrightarrow>
    futex_reach (s\<lparr>sy_m := m, sy_phase := (\<lambda>t. if t \<in> set ts then None else sy_phase s t)\<rparr>)"

definition futex_sys_ok :: "futex_sys \<Rightarrow> bool" where
  "futex_sys_ok s \<longleftrightarrow> futex_ok (sy_m s) \<and>
     (\<forall>w < length (fm_waiters (sy_m s)). is_queued (sy_m s) w \<longrightarrow> sy_phase s (task_of (sy_m s) w) = Some w) \<and>
     (\<forall>t w. sy_phase s t = Some w \<longrightarrow> w < length (fm_waiters (sy_m s)) \<and> task_of (sy_m s) w = t)"

section \<open>Lemmas on the system\<close>

lemma queued_iff:
  assumes "futex_ok m" and "w < length (fm_waiters m)"
  shows "is_queued m w \<longleftrightarrow> (\<exists>k. w \<in> set (queue_of m k))"
proof
  assume "is_queued m w"
  with queued_key [OF assms] show "\<exists>k. w \<in> set (queue_of m k)" by metis
next
  assume "\<exists>k. w \<in> set (queue_of m k)"
  then obtain k where "w \<in> set (case_option [] (queue_of m) (Some k))" by auto
  from sem_member(2) [OF futex_ok_parts(2) [OF assms(1)] this] show "is_queued m w" by (simp add: is_queued_def)
qed

lemma queue_of_new: "queue_of futex_manager_new k = []"
  by (simp add: queue_of_def futex_manager_new_def)

lemma futex_ok_new: "futex_ok futex_manager_new"
proof -
  have "case_option [] (queue_of futex_manager_new) c = []" for c by (simp add: queue_of_new split: option.split)
  then show ?thesis by (simp add: futex_ok_def futex_sem_def) (simp add: buckets_ok_def futex_manager_new_def)
qed

text \<open>A step that only takes waiters out of queues or moves them keeps the system invariant.\<close>

lemma sys_ok_shrink:
  assumes s: "futex_sys_ok s" and m: "futex_ok m" "task_of m = task_of (sy_m s)" "length (fm_waiters m) = length (fm_waiters (sy_m s))"
    and q: "\<And>k w. w \<in> set (queue_of m k) \<Longrightarrow> \<exists>k'. w \<in> set (queue_of (sy_m s) k')"
  shows "futex_sys_ok (s\<lparr>sy_m := m\<rparr>)"
proof -
  have "is_queued (sy_m s) w" if "w < length (fm_waiters m)" "is_queued m w" for w
    using that q queued_iff [OF m(1), of w] queued_iff [of "sy_m s" w] s m(3) by (auto simp: futex_sys_ok_def)
  with s m show ?thesis by (auto simp: futex_sys_ok_def)
qed

lemma fold_woken_task: "fm_waiters m' = fm_waiters (fold mark_woken hit m) \<Longrightarrow> task_of m' = task_of m"
  using fold_mark_woken_simps(3) [of hit m] by (simp add: task_of_def fun_eq_iff)

lemma fold_woken_length: "fm_waiters m' = fm_waiters (fold mark_woken hit m) \<Longrightarrow> length (fm_waiters m') = length (fm_waiters m)"
  using fold_mark_woken_simps(2) [of hit m] by simp

text \<open>Waking one waiter directly and waking with limit one agree.\<close>

lemma wake_one_eq:
  assumes "futex_ok m"
  shows "wake_one key bitset m =
    (case wake key 1 bitset m of Inl p \<Rightarrow> Inl p | Inr (ts, m') \<Rightarrow> Inr (case ts of [] \<Rightarrow> None | t # _ \<Rightarrow> Some t, m'))"
  by (auto simp: wake_one_def wake_one_inner_eq [OF assms] split: sum.split)

lemma futex_wake_result:
  assumes "futex_ok m" and "hit = chosen key limit bitset m"
  shows "\<exists>m'. futex_wake woke key limit bitset m = Inr (length (filter (\<lambda>w. woke (task_of m w)) hit), m') \<and> futex_ok m' \<and>
    queue_of m' = (queue_of m)(key := filter (\<lambda>w. w \<notin> set hit) (queue_of m key)) \<and>
    fm_waiters m' = fm_waiters (fold mark_woken hit m) \<and> fm_wait m' = fm_wait (fold mark_woken hit m)"
proof -
  from wake_result [OF assms] obtain m' where m': "wake key limit bitset m = Inr (map (task_of m) hit, m')" "futex_ok m'"
    "queue_of m' = (queue_of m)(key := filter (\<lambda>w. w \<notin> set hit) (queue_of m key))"
    "fm_waiters m' = fm_waiters (fold mark_woken hit m)" "fm_wait m' = fm_wait (fold mark_woken hit m)" by blast
  have "futex_wake woke key limit bitset m = Inr (length (filter (\<lambda>w. woke (task_of m w)) hit), m')"
  proof (cases "limit = 1")
    case True
    then have "length hit \<le> 1" using assms(2) by (simp add: chosen_def)
    then have "hit = [] \<or> (\<exists>w. hit = [w])" by (cases hit) auto
    with True m'(1) show ?thesis
      by (auto simp: futex_wake_def wake_one_eq [OF assms(1)] wake_futex_task_def)
  next
    case False
    with m'(1) show ?thesis by (simp add: futex_wake_def wake_futex_tasks_def filter_map comp_def)
  qed
  with m' show ?thesis by (intro exI [of _ m'] conjI)
qed


lemma unlock_wake_result:
  assumes "futex_ok m" and "hit = chosen key 1 FUTEX_BITSET_MATCH_ANY m"
  shows "\<exists>m'. wake_one_with_remaining key m =
      Inr ((case hit of [] \<Rightarrow> None | w # _ \<Rightarrow> Some (task_of m w), queue_of m' key \<noteq> []), m') \<and> futex_ok m' \<and>
    queue_of m' = (queue_of m)(key := filter (\<lambda>w. w \<notin> set hit) (queue_of m key)) \<and>
    fm_waiters m' = fm_waiters (fold mark_woken hit m) \<and> fm_wait m' = fm_wait (fold mark_woken hit m)"
proof -
  from wake_result [OF assms] obtain m' where m': "wake key 1 FUTEX_BITSET_MATCH_ANY m = Inr (map (task_of m) hit, m')" "futex_ok m'"
    "queue_of m' = (queue_of m)(key := filter (\<lambda>w. w \<notin> set hit) (queue_of m key))"
    "fm_waiters m' = fm_waiters (fold mark_woken hit m)" "fm_wait m' = fm_wait (fold mark_woken hit m)" by blast
  have "wake_one_with_remaining key m =
      Inr ((case hit of [] \<Rightarrow> None | w # _ \<Rightarrow> Some (task_of m w), queue_of m' key \<noteq> []), m')"
    using m'(1) by (simp add: wake_one_with_remaining_def wake_one_inner_eq [OF assms(1)] has_waiters_iff [OF m'(2)]
        split: list.split)
  with m' show ?thesis by (intro exI [of _ m'] conjI)
qed

lemma requeue_call_result:
  assumes ok: "futex_ok m" and "source \<noteq> target" and "addr2 mod 4 = 0"
    and "q = queue_of m source" and "hit = take wake_limit q" and "go = take requeue_limit (drop wake_limit q)"
  shows "\<exists>m'. futex_requeue woke source wake_limit requeue_limit addr2 target cnt m =
      Inr (Inr ((if cnt then length go else 0) + length (filter (\<lambda>w. woke (task_of m w)) hit)), m') \<and> futex_ok m' \<and>
    queue_of m' = (queue_of m)(source := drop requeue_limit (drop wake_limit q), target := queue_of m target @ go) \<and>
    task_of m' = task_of m \<and> length (fm_waiters m') = length (fm_waiters m)"
proof -
  let ?Q1 = "(queue_of m)(source := drop requeue_limit (drop wake_limit q))"
  from requeue_result [OF ok assms(4,5,6) refl, of target] obtain m' where m':
    "requeue source target wake_limit requeue_limit m = Inr ((map (task_of m) hit, length go), m')" "futex_ok m'"
    "queue_of m' = ?Q1(target := ?Q1 target @ go)" "task_of m' = task_of m" "length (fm_waiters m') = length (fm_waiters m)" by blast
  have "?Q1 target = queue_of m target" using assms(2) by simp
  then have "queue_of m' = (queue_of m)(source := drop requeue_limit (drop wake_limit q), target := queue_of m target @ go)"
    using m'(3) by simp
  moreover have "futex_requeue woke source wake_limit requeue_limit addr2 target cnt m =
      Inr (Inr ((if cnt then length go else 0) + length (filter (\<lambda>w. woke (task_of m w)) hit)), m')"
    using assms(2,3) m'(1) by (simp add: futex_requeue_def validate_futex_addr_def wake_futex_tasks_def filter_map comp_def)
  ultimately show ?thesis using m'(2,4,5) by (intro exI [of _ m'] conjI)
qed

lemma sys_no_wait: "futex_sys_ok s \<Longrightarrow> sy_phase s t = None \<Longrightarrow> fm_wait (sy_m s) t = None"
proof (rule ccontr)
  assume s: "futex_sys_ok s" "sy_phase s t = None" and "fm_wait (sy_m s) t \<noteq> None"
  let ?m = "sy_m s"
  have ok: "futex_ok ?m" using s(1) by (simp add: futex_sys_ok_def)
  from sem_waiting [OF futex_ok_parts(2) [OF ok]] \<open>fm_wait ?m t \<noteq> None\<close> obtain c w where
    w: "w \<in> set (case_option [] (queue_of ?m) c)" "fw_task (fm_waiters ?m ! w) = t" by blast
  note mem = sem_member(1,2) [OF futex_ok_parts(2) [OF ok] w(1)]
  then have "sy_phase s (task_of ?m w) = Some w" using s(1) unfolding futex_sys_ok_def is_queued_def by blast
  with s(2) w(2) show False by (simp add: task_of_def)
qed

lemma cleanup_step_ok:
  assumes ok: "futex_ok m" and w: "w < length (fm_waiters m)" and i: "i < FUTEX_BUCKET_COUNT"
    and step: "cleanup_attempt w i m = Inr (Some r, m') \<or> \<not> is_queued m w \<and> m' = m"
  shows "futex_ok m'" and "task_of m' = task_of m" and "length (fm_waiters m') = length (fm_waiters m)" and "\<not> is_queued m' w"
    and "\<And>k v. v \<in> set (queue_of m' k) \<Longrightarrow> v \<in> set (queue_of m k)"
proof -
  consider "m' = m" "\<not> is_queued m w" | "is_queued m w" "m' = cancelled i (\<lambda>v. v \<noteq> w) w m" "fw_bucket (fm_waiters m ! w) = i"
    using step cleanup_attempt_cases [OF ok w i] by (auto simp: cleanup_attempt_def split: if_split_asm)
  then have "futex_ok m' \<and> task_of m' = task_of m \<and> length (fm_waiters m') = length (fm_waiters m) \<and> \<not> is_queued m' w \<and>
    (\<forall>k v. v \<in> set (queue_of m' k) \<longrightarrow> v \<in> set (queue_of m k))"
  proof cases
    case 1
    with ok show ?thesis by simp
  next
    case 2
    from queued_key [OF ok w 2(1)] obtain k where k: "w \<in> set (queue_of m k)" "fw_bucket (fm_waiters m ! w) = bucket_index k" .
    from cancelled_ok [OF ok k(1), of i "\<lambda>v. v \<noteq> w"] k 2 w show ?thesis
      by (auto simp: cancelled_simps is_queued_def split: if_split_asm)
  qed
  then show "futex_ok m'" and "task_of m' = task_of m" and "length (fm_waiters m') = length (fm_waiters m)" and "\<not> is_queued m' w"
    and "\<And>k v. v \<in> set (queue_of m' k) \<Longrightarrow> v \<in> set (queue_of m k)" by blast+
qed

lemma sys_ok_m: "futex_sys_ok s \<Longrightarrow> futex_ok (sy_m s)"
  by (simp add: futex_sys_ok_def)

lemma sys_ok_block:
  assumes s: "futex_sys_ok s" and t: "sy_phase s t = None" and b: "block_current_on key bitset (Some t) (sy_m s) = Inr (Some w, m)"
  shows "futex_sys_ok (s\<lparr>sy_m := m, sy_phase := (sy_phase s)(t \<mapsto> w)\<rparr>)"
proof -
  let ?m = "sy_m s"
  from block_current_result [OF sys_ok_m [OF s] sys_no_wait [OF s t], of key bitset] b
  have m: "w = length (fm_waiters ?m)" "futex_ok m" "fm_waiters m = fm_waiters ?m @
      [\<lparr>fw_task = t, fw_bitset = bitset, fw_bucket = bucket_index key, fw_state = FUTEX_WAITER_QUEUED\<rparr>]" by auto
  have old: "task_of m v = task_of ?m v" "is_queued m v = is_queued ?m v" if "v < w" for v
    using that m by (simp_all add: task_of_def is_queued_def nth_append)
  have new: "task_of m w = t" using m by (simp add: task_of_def)
  have len: "v < length (fm_waiters m) \<longleftrightarrow> v < w \<or> v = w" for v using m by auto
  show ?thesis
    unfolding futex_sys_ok_def
  proof (intro conjI allI impI)
    show "futex_ok (sy_m (s\<lparr>sy_m := m, sy_phase := (sy_phase s)(t \<mapsto> w)\<rparr>))" using m(2) by simp
  next
    fix v assume v: "v < length (fm_waiters (sy_m (s\<lparr>sy_m := m, sy_phase := (sy_phase s)(t \<mapsto> w)\<rparr>)))"
      "is_queued (sy_m (s\<lparr>sy_m := m, sy_phase := (sy_phase s)(t \<mapsto> w)\<rparr>)) v"
    show "sy_phase (s\<lparr>sy_m := m, sy_phase := (sy_phase s)(t \<mapsto> w)\<rparr>)
        (task_of (sy_m (s\<lparr>sy_m := m, sy_phase := (sy_phase s)(t \<mapsto> w)\<rparr>)) v) = Some v"
    proof (cases "v = w")
      case False
      with v have vw: "v < w" "is_queued ?m v" using len [of v] old(2) [of v] by simp_all
      then have p: "sy_phase s (task_of ?m v) = Some v" using s m(1) by (simp add: futex_sys_ok_def)
      then have "task_of ?m v \<noteq> t" using t by auto
      with p vw old(1) [of v] show ?thesis by simp
    qed (simp add: new)
  next
    fix u v assume "sy_phase (s\<lparr>sy_m := m, sy_phase := (sy_phase s)(t \<mapsto> w)\<rparr>) u = Some v"
    then have "u = t \<and> v = w \<or> sy_phase s u = Some v" by (auto split: if_split_asm)
    moreover have "v < w \<and> task_of ?m v = u" if "sy_phase s u = Some v" using that s m(1) by (simp add: futex_sys_ok_def)
    ultimately have "(v < w \<or> v = w) \<and> task_of m v = u" using new old(1) [of v] by auto
    then show "v < length (fm_waiters (sy_m (s\<lparr>sy_m := m, sy_phase := (sy_phase s)(t \<mapsto> w)\<rparr>)))"
      and "task_of (sy_m (s\<lparr>sy_m := m, sy_phase := (sy_phase s)(t \<mapsto> w)\<rparr>)) v = u" using len [of v] by simp_all
  qed
qed

lemma sys_ok_drop:
  assumes s: "futex_sys_ok (s\<lparr>sy_m := m\<rparr>)"
    and "\<And>w. w < length (fm_waiters m) \<Longrightarrow> is_queued m w \<Longrightarrow> ph (task_of m w) = sy_phase s (task_of m w)"
    and "\<And>t w. ph t = Some w \<Longrightarrow> sy_phase s t = Some w"
  shows "futex_sys_ok (s\<lparr>sy_m := m, sy_phase := ph\<rparr>)"
proof -
  from s have m: "futex_ok m" and q: "\<And>w. w < length (fm_waiters m) \<Longrightarrow> is_queued m w \<Longrightarrow> sy_phase s (task_of m w) = Some w"
    and p: "\<And>t w. sy_phase s t = Some w \<Longrightarrow> w < length (fm_waiters m) \<and> task_of m w = t"
    by (simp_all add: futex_sys_ok_def)
  have "ph (task_of m w) = Some w" if "w < length (fm_waiters m)" "is_queued m w" for w
    using assms(2) [OF that] q [OF that] by simp
  moreover have "w < length (fm_waiters m) \<and> task_of m w = t" if "ph t = Some w" for t w
    using p [OF assms(3) [OF that]] .
  ultimately show ?thesis using m by (simp add: futex_sys_ok_def)
qed

lemma futex_reach_ok: "futex_reach s \<Longrightarrow> futex_sys_ok s"
proof (induction rule: futex_reach.induct)
  case fr_new
  then show ?case by (simp add: futex_sys_ok_def futex_sys_new_def futex_ok_new) (simp add: futex_manager_new_def)
next
  case (fr_block s t key bitset w m)
  then show ?case by (blast intro: sys_ok_block)
next
  case (fr_wake s woke key limit bitset n m)
  from futex_wake_result [OF sys_ok_m [OF fr_wake.IH] refl, of woke key limit bitset] fr_wake.hyps(2)
  have m: "futex_ok m" "queue_of m = (queue_of (sy_m s))(key := filter (\<lambda>w. w \<notin> set (chosen key limit bitset (sy_m s))) (queue_of (sy_m s) key))"
    "fm_waiters m = fm_waiters (fold mark_woken (chosen key limit bitset (sy_m s)) (sy_m s))" by auto
  show ?case
    by (rule sys_ok_shrink [OF fr_wake.IH m(1) fold_woken_task [OF m(3)] fold_woken_length [OF m(3)]])
       (auto simp: m(2) split: if_split_asm)
next
  case (fr_unlock s key taken m)
  from unlock_wake_result [OF sys_ok_m [OF fr_unlock.IH] refl, of key] fr_unlock.hyps(2)
  have m: "futex_ok m" "queue_of m = (queue_of (sy_m s))(key := filter (\<lambda>w. w \<notin> set (chosen key 1 FUTEX_BITSET_MATCH_ANY (sy_m s))) (queue_of (sy_m s) key))"
    "fm_waiters m = fm_waiters (fold mark_woken (chosen key 1 FUTEX_BITSET_MATCH_ANY (sy_m s)) (sy_m s))" by auto
  show ?case
    by (rule sys_ok_shrink [OF fr_unlock.IH m(1) fold_woken_task [OF m(3)] fold_woken_length [OF m(3)]])
       (auto simp: m(2) split: if_split_asm)
next
  case (fr_requeue s woke source wl rl addr2 target cnt r m)
  show ?case
  proof (cases "source \<noteq> target \<and> addr2 mod 4 = 0")
    case True
    from requeue_call_result [OF sys_ok_m [OF fr_requeue.IH] _ _ refl refl refl, of source target addr2 woke wl rl cnt] True fr_requeue.hyps(2)
    have m: "futex_ok m" "queue_of m = (queue_of (sy_m s))(source := drop rl (drop wl (queue_of (sy_m s) source)),
        target := queue_of (sy_m s) target @ take rl (drop wl (queue_of (sy_m s) source)))"
      "task_of m = task_of (sy_m s)" "length (fm_waiters m) = length (fm_waiters (sy_m s))" by auto
    show ?thesis
      by (rule sys_ok_shrink [OF fr_requeue.IH m(1,3,4)])
         (auto simp: m(2) dest: in_set_dropD in_set_takeD split: if_split_asm)
  next
    case False
    with fr_requeue.hyps(2) have "m = sy_m s"
      by (cases "addr2 mod 4 = 0") (auto simp: futex_requeue_def validate_futex_addr_def)
    with fr_requeue.IH show ?thesis by simp
  qed
next
  case (fr_leave s t w i r m)
  have w: "w < length (fm_waiters (sy_m s))" "task_of (sy_m s) w = t" using fr_leave.IH fr_leave.hyps(2) by (simp_all add: futex_sys_ok_def)
  note m = cleanup_step_ok [OF sys_ok_m [OF fr_leave.IH] w(1) fr_leave.hyps(3,4)]
  have ok: "futex_sys_ok (s\<lparr>sy_m := m\<rparr>)" by (rule sys_ok_shrink [OF fr_leave.IH m(1-3)]) (blast dest: m(5))
  show ?case
  proof (rule sys_ok_drop [OF ok])
    fix v assume v: "v < length (fm_waiters m)" "is_queued m v"
    then have "sy_phase s (task_of m v) = Some v" using ok by (simp add: futex_sys_ok_def)
    then have "task_of m v \<noteq> t" using v(2) m(4) fr_leave.hyps(2) by auto
    then show "((sy_phase s)(t := None)) (task_of m v) = sy_phase s (task_of m v)" by simp
  qed (auto split: if_split_asm)
next
  case (fr_exit s ts m)
  from remove_tasks_result [OF sys_ok_m [OF fr_exit.IH], of ts] fr_exit.hyps(2)
  have m: "futex_ok m" "task_of m = task_of (sy_m s)" "length (fm_waiters m) = length (fm_waiters (sy_m s))"
    "\<And>k. queue_of m k = filter (\<lambda>w. task_of (sy_m s) w \<notin> set ts) (queue_of (sy_m s) k)" by auto
  have ok: "futex_sys_ok (s\<lparr>sy_m := m\<rparr>)" by (rule sys_ok_shrink [OF fr_exit.IH m(1-3)]) (auto simp: m(4))
  show ?case
  proof (rule sys_ok_drop [OF ok])
    fix v assume "v < length (fm_waiters m)" "is_queued m v"
    then have "task_of m v \<notin> set ts" using queued_iff [OF m(1)] m(2,4) by auto
    then show "(if task_of m v \<in> set ts then None else sy_phase s (task_of m v)) = sy_phase s (task_of m v)" by simp
  qed (auto split: if_split_asm)
qed

lemma futex_reach_m: "futex_reach s \<Longrightarrow> futex_ok (sy_m s)"
  by (rule sys_ok_m [OF futex_reach_ok])

section \<open>Lemmas on robust lists\<close>










section \<open>Properties\<close>

text \<open>A system in which tasks 1 and 2 wait on one futex, in this order.\<close>

definition futex_demo_key :: futex_key where "futex_demo_key = Private 1 4096"

lemma two_waiters:
  obtains s where "futex_reach s" and "queue_of (sy_m s) futex_demo_key = [0, 1]" and "queue_of (sy_m s) (Private 1 8192) = []"
    and "task_of (sy_m s) 0 = 1" and "task_of (sy_m s) 1 = 2" and "fw_bitset (fm_waiters (sy_m s) ! 0) = - 1"
    and "fw_bitset (fm_waiters (sy_m s) ! 1) = - 1" and "sy_phase s 1 = Some 0" and "sy_phase s 3 = None"
proof -
  have t1: "fm_wait futex_manager_new 1 = None" by (simp add: futex_manager_new_def)
  obtain m1 where m1: "block_current_on futex_demo_key (- 1) (Some 1) futex_manager_new = Inr (Some 0, m1)" "futex_ok m1"
    "queue_of m1 = (queue_of futex_manager_new)(futex_demo_key := [0])" "length (fm_waiters m1) = 1" "fm_wait m1 2 = None"
    "fm_waiters m1 ! 0 = \<lparr>fw_task = 1, fw_bitset = - 1, fw_bucket = bucket_index futex_demo_key, fw_state = FUTEX_WAITER_QUEUED\<rparr>"
    using block_current_result [OF futex_ok_new t1, of futex_demo_key "- 1"]
    by (auto simp: queue_of_new) (simp add: futex_manager_new_def)
  define s1 where "s1 = futex_sys_new\<lparr>sy_m := m1, sy_phase := (sy_phase futex_sys_new)(1 \<mapsto> 0)\<rparr>"
  have r1: "futex_reach s1" unfolding s1_def
    by (rule fr_block [OF fr_new]) (use m1(1) in \<open>simp_all add: futex_sys_new_def\<close>)
  obtain m2 where m2: "block_current_on futex_demo_key (- 1) (Some 2) m1 = Inr (Some 1, m2)"
    "queue_of m2 = (queue_of m1)(futex_demo_key := [0, 1])" "fm_waiters m2 = fm_waiters m1 @
      [\<lparr>fw_task = 2, fw_bitset = - 1, fw_bucket = bucket_index futex_demo_key, fw_state = FUTEX_WAITER_QUEUED\<rparr>]"
    using block_current_result [OF m1(2,5), of futex_demo_key "- 1"] m1(3,4) by auto
  let ?s = "s1\<lparr>sy_m := m2, sy_phase := (sy_phase s1)(2 \<mapsto> 1)\<rparr>"
  have "futex_reach ?s" by (rule fr_block [OF r1]) (use m2(1) in \<open>simp_all add: s1_def futex_sys_new_def\<close>)
  moreover have "fm_waiters m2 ! 0 = fm_waiters m1 ! 0" "fm_waiters m2 ! 1 =
      \<lparr>fw_task = 2, fw_bitset = - 1, fw_bucket = bucket_index futex_demo_key, fw_state = FUTEX_WAITER_QUEUED\<rparr>"
    using m1(4) m2(3) by (simp_all add: nth_append)
  ultimately show thesis using that [of ?s] m1(3,6) m2(2)
    by (simp add: task_of_def s1_def futex_sys_new_def queue_of_new futex_demo_key_def)
qed

text \<open>C27.
  Whatever the futex calls of all tasks do, in any order, the wait queues stay consistent and no assertion of the kernel
  fails: a task that is not waiting can always be queued, and waking, requeueing, the cleanup after a wait (even with an
  outdated bucket index) and the removal of exiting tasks always go through.
\<close>

theorem futex_never_panics:
  assumes "futex_reach s"
  shows "futex_ok (sy_m s) \<and>
    (sy_phase s t \<noteq> None \<or> (\<exists>w m. block_current_on key bitset (Some t) (sy_m s) = Inr (Some w, m))) \<and>
    (\<exists>n m. futex_wake woke key limit bitset (sy_m s) = Inr (n, m)) \<and>
    (\<exists>r m. wake_one_with_remaining key (sy_m s) = Inr (r, m)) \<and>
    (\<exists>r m. futex_requeue woke key limit requeue_limit addr2 target cnt (sy_m s) = Inr (r, m)) \<and>
    (sy_phase s t \<noteq> Some w \<or> (\<exists>r m. cleanup_attempt w (bucket_index key) (sy_m s) = Inr (r, m))) \<and>
    (\<exists>m. remove_tasks ts (sy_m s) = Inr m)"
proof -
  note sys = futex_reach_ok [OF assms] and ok = futex_reach_m [OF assms]
  have "\<exists>w m. block_current_on key bitset (Some t) (sy_m s) = Inr (Some w, m)" if "sy_phase s t = None"
    using block_current_result [OF ok sys_no_wait [OF sys that], of key bitset] by blast
  moreover have "\<exists>r m. futex_requeue woke key limit requeue_limit addr2 target cnt (sy_m s) = Inr (r, m)"
  proof (cases "key \<noteq> target \<and> addr2 mod 4 = 0")
    case True
    then show ?thesis using requeue_call_result [OF ok _ _ refl refl refl, of key target addr2 woke limit requeue_limit cnt] by metis
  next
    case False
    then show ?thesis by (cases "addr2 mod 4 = 0") (simp_all add: futex_requeue_def validate_futex_addr_def)
  qed
  moreover have "\<exists>r m. cleanup_attempt w (bucket_index key) (sy_m s) = Inr (r, m)" if "sy_phase s t = Some w"
    using cleanup_attempt_cases [OF ok, of w "bucket_index key"] sys that by (auto simp: futex_sys_ok_def)
  moreover have "\<exists>n m. futex_wake woke key limit bitset (sy_m s) = Inr (n, m)"
    using futex_wake_result [OF ok refl, of woke key limit bitset] by blast
  moreover have "\<exists>r m. wake_one_with_remaining key (sy_m s) = Inr (r, m)"
    using unlock_wake_result [OF ok refl, of key] by blast
  moreover have "\<exists>m. remove_tasks ts (sy_m s) = Inr m" using remove_tasks_result [OF ok, of ts] by blast
  ultimately show ?thesis using ok by blast
qed

theorem futex_never_panics_witness:
  "\<exists>s. futex_reach s \<and> queue_of (sy_m s) futex_demo_key = [0, 1] \<and>
     (\<exists>w m. block_current_on futex_demo_key (- 1) (Some 3) (sy_m s) = Inr (Some w, m)) \<and>
     (\<exists>r m. cleanup_attempt 0 (bucket_index futex_demo_key) (sy_m s) = Inr (r, m))"
proof -
  obtain s where s: "futex_reach s" "queue_of (sy_m s) futex_demo_key = [0, 1]" "sy_phase s 1 = Some 0" "sy_phase s 3 = None"
    by (rule two_waiters)
  from futex_never_panics [OF s(1), of 3 futex_demo_key "- 1"] futex_never_panics [OF s(1), of 1 futex_demo_key _ _ _ _ _ _ _ 0] s
  show ?thesis by auto
qed

text \<open>C29.
  A wake takes the first waiters of its key whose bitsets meet the given one, in the order in which they came and no more
  than the limit, marks exactly them as woken, and leaves the order of the others and every other queue as they were. The
  short way for a limit of one does the same as the general loop.
\<close>

theorem futex_wake_fifo:
  assumes "futex_reach s" and "hit = take limit (filter (matches (sy_m s) bitset) (queue_of (sy_m s) key))"
  shows "\<exists>m. futex_wake woke key limit bitset (sy_m s) = Inr (length (filter (\<lambda>w. woke (task_of (sy_m s) w)) hit), m) \<and>
    queue_of m = (queue_of (sy_m s))(key := filter (\<lambda>w. w \<notin> set hit) (queue_of (sy_m s) key)) \<and>
    (\<forall>w. w < length (fm_waiters (sy_m s)) \<longrightarrow> fw_state (fm_waiters m ! w) =
       (if w \<in> set hit then FUTEX_WAITER_WOKEN else fw_state (fm_waiters (sy_m s) ! w))) \<and>
    wake_one key bitset (sy_m s) = (case wake key 1 bitset (sy_m s) of
       Inl p \<Rightarrow> Inl p | Inr (ts, m') \<Rightarrow> Inr (case ts of [] \<Rightarrow> None | t # _ \<Rightarrow> Some t, m'))"
proof -
  note ok = futex_reach_m [OF assms(1)]
  have hit: "hit = chosen key limit bitset (sy_m s)" using assms(2) by (simp add: chosen_def)
  from futex_wake_result [OF ok hit, of woke] obtain m where m:
    "futex_wake woke key limit bitset (sy_m s) = Inr (length (filter (\<lambda>w. woke (task_of (sy_m s) w)) hit), m)"
    "queue_of m = (queue_of (sy_m s))(key := filter (\<lambda>w. w \<notin> set hit) (queue_of (sy_m s) key))"
    "fm_waiters m = fm_waiters (fold mark_woken hit (sy_m s))" by blast
  moreover have "\<forall>w. w < length (fm_waiters (sy_m s)) \<longrightarrow> fw_state (fm_waiters m ! w) =
       (if w \<in> set hit then FUTEX_WAITER_WOKEN else fw_state (fm_waiters (sy_m s) ! w))"
    using fold_mark_woken_state [of _ "sy_m s" hit] m(3) by simp
  ultimately show ?thesis using wake_one_eq [OF ok, of key bitset] by blast
qed

theorem futex_wake_fifo_witness:
  "\<exists>s m. futex_reach s \<and> queue_of (sy_m s) futex_demo_key = [0, 1] \<and>
     futex_wake (\<lambda>_. True) futex_demo_key 1 1 (sy_m s) = Inr (1, m) \<and> queue_of m futex_demo_key = [1]"
proof -
  obtain s where s: "futex_reach s" "queue_of (sy_m s) futex_demo_key = [0, 1]"
    "fw_bitset (fm_waiters (sy_m s) ! 0) = - 1" "fw_bitset (fm_waiters (sy_m s) ! 1) = - 1" by (rule two_waiters)
  have "[0] = take 1 (filter (matches (sy_m s) 1) (queue_of (sy_m s) futex_demo_key))" using s by (simp add: matches_def)
  from futex_wake_fifo [OF s(1) this, of "\<lambda>_. True"] s(1,2) show ?thesis by auto
qed

text \<open>C30.
  Requeueing loses no waiter and reorders none: of the queue of the first key the first ones are woken, the next ones are
  appended to the queue of the second key, the others stay, and no other queue changes. A target that is not aligned or the
  same futex is refused with EINVAL and nothing changes.
\<close>

theorem futex_requeue_conserves:
  assumes "futex_reach s" and "q = queue_of (sy_m s) source"
  shows "\<exists>r m. futex_requeue woke source wake_limit requeue_limit addr2 target cnt (sy_m s) = Inr (r, m) \<and> futex_ok m \<and>
    (if source = target \<or> addr2 mod 4 \<noteq> 0 then r = Inl EINVAL \<and> m = sy_m s
     else queue_of m = (queue_of (sy_m s))(source := drop requeue_limit (drop wake_limit q),
         target := queue_of (sy_m s) target @ take requeue_limit (drop wake_limit q)) \<and>
       r = Inr ((if cnt then length (take requeue_limit (drop wake_limit q)) else 0) +
         length (filter (\<lambda>w. woke (task_of (sy_m s) w)) (take wake_limit q))))"
proof (cases "source = target \<or> addr2 mod 4 \<noteq> 0")
  case True
  with futex_reach_m [OF assms(1)] show ?thesis
    by (cases "addr2 mod 4 = 0") (simp_all add: futex_requeue_def validate_futex_addr_def)
next
  case False
  then show ?thesis
    using requeue_call_result [OF futex_reach_m [OF assms(1)] _ _ assms(2) refl refl, of target addr2 woke wake_limit requeue_limit cnt]
    by auto
qed

theorem futex_requeue_conserves_witness:
  "\<exists>s r m. futex_reach s \<and> queue_of (sy_m s) futex_demo_key = [0, 1] \<and>
     futex_requeue (\<lambda>_. True) futex_demo_key 1 5 8192 (Private 1 8192) True (sy_m s) = Inr (r, m) \<and>
     r = Inr 2 \<and> queue_of m futex_demo_key = [] \<and> queue_of m (Private 1 8192) = [1]"
proof -
  obtain s where s: "futex_reach s" "queue_of (sy_m s) futex_demo_key = [0, 1]" "queue_of (sy_m s) (Private 1 8192) = []"
    by (rule two_waiters)
  from futex_requeue_conserves [OF s(1) refl, of "\<lambda>_. True" futex_demo_key 1 5 8192 "Private 1 8192" True] s
  show ?thesis by (auto simp: futex_demo_key_def)
qed

text \<open>C28.
  Waiting and waking cannot miss each other. Under the bucket lock a waiter either finds the word changed (EAGAIN) or its
  time over and nothing happens, or it is queued behind the others; and then any wake whose bitset meets its own and whose
  limit reaches it marks it woken, after which its wait returns 0, or EINTR when a signal is pending as well.
\<close>

theorem futex_wait_wake_pairing:
  assumes "futex_reach s" and "sy_phase s t = None" and "read_futex_word mem addr = Inr word"
    and "st = \<lparr>fx_m = sy_m s, fx_mem = mem\<rparr>"
  shows "\<exists>r s1. futex_wait_locked addr key expected timeout_ms bitset now (Some t) st = Inr (r, s1) \<and>
    (if word \<noteq> expected then r = Inl EAGAIN \<and> s1 = st
     else if futex_timeout_expired timeout_ms now then r = Inl ETIMEDOUT \<and> s1 = st
     else \<exists>w. r = Inr w \<and> queue_of (fx_m s1) key = queue_of (sy_m s) key @ [w] \<and>
       (\<forall>limit bs env. length (queue_of (sy_m s) key) < limit \<and> bitset AND bs \<noteq> 0 \<and> we_rounds env \<noteq> [] \<longrightarrow>
         (\<exists>n m. futex_wake woke key limit bs (fx_m s1) = Inr (n, m) \<and>
            futex_wait_woken w timeout_ms env (s1\<lparr>fx_m := m\<rparr>) =
              Inr (Some (if we_signal_after env then Inl EINTR else Inr 0), s1\<lparr>fx_m := m\<rparr>))))"
proof (cases "word \<noteq> expected \<or> futex_timeout_expired timeout_ms now")
  case True
  with assms(3,4) show ?thesis by (auto simp: futex_wait_locked_def)
next
  case False
  note ok = futex_reach_m [OF assms(1)] and nowait = sys_no_wait [OF futex_reach_ok [OF assms(1)] assms(2)]
  let ?w = "length (fm_waiters (sy_m s))" and ?q = "queue_of (sy_m s) key"
  obtain m1 where m1: "block_current_on key bitset (Some t) (sy_m s) = Inr (Some ?w, m1)" "futex_ok m1"
    "queue_of m1 key = ?q @ [?w]" "fw_bitset (fm_waiters m1 ! ?w) = bitset" "?w < length (fm_waiters m1)"
    using block_current_result [OF ok nowait, of key bitset] by auto
  have "\<exists>n m. futex_wake woke key limit bs m1 = Inr (n, m) \<and>
      futex_wait_woken ?w timeout_ms env (st\<lparr>fx_m := m\<rparr>) =
        Inr (Some (if we_signal_after env then Inl EINTR else Inr 0), st\<lparr>fx_m := m\<rparr>)"
    if "length ?q < limit" "bitset AND bs \<noteq> 0" "we_rounds env \<noteq> []" for limit bs env
  proof -
    have "?w \<in> set (filter (matches m1 bs) (?q @ [?w]))" using m1(4) that(2) by (simp add: matches_def)
    moreover have "length (filter (matches m1 bs) (?q @ [?w])) \<le> limit"
      using length_filter_le [of "matches m1 bs" "?q @ [?w]"] that(1) by simp
    ultimately have "?w \<in> set (chosen key limit bs m1)" by (simp add: chosen_def m1(3))
    moreover from futex_wake_result [OF m1(2) refl, of woke key limit bs] obtain n m where m:
      "futex_wake woke key limit bs m1 = Inr (n, m)" "fm_waiters m = fm_waiters (fold mark_woken (chosen key limit bs m1) m1)" by blast
    ultimately have "fw_state (fm_waiters m ! ?w) = FUTEX_WAITER_WOKEN"
      using fold_mark_woken_state [OF m1(5)] by simp
    with that(3) m(1) show ?thesis
      by (cases "we_rounds env") (auto simp: futex_wait_woken_def wait_result_def)
  qed
  moreover have "futex_wait_locked addr key expected timeout_ms bitset now (Some t) st = Inr (Inr ?w, st\<lparr>fx_m := m1\<rparr>)"
    using False assms(3,4) m1(1) by (simp add: futex_wait_locked_def)
  ultimately show ?thesis using False m1(3) by simp
qed

definition demo_env :: wait_env where
  "demo_env = \<lparr>we_ms = 0, we_signal = False, we_before = id, we_ms_locked = 5, we_block = Some 1, we_asleep = id,
     we_rounds = [id], we_ms_after = 9, we_signal_after = False\<rparr>"

lemma read_zero_word: "read_futex_word (\<lambda>_. Some 0) 4096 = Inr 0"
  by (simp add: read_futex_word_def validate_futex_addr_def read_user_u32_def read_bytes_def upt_rec)

theorem futex_wait_wake_pairing_witness:
  "\<exists>w s1 n m. futex_wait_locked 4096 futex_demo_key 0 None 1 5 (Some 1) \<lparr>fx_m = futex_manager_new, fx_mem = (\<lambda>_. Some 0)\<rparr>
       = Inr (Inr w, s1) \<and> queue_of (fx_m s1) futex_demo_key = [w] \<and>
     futex_wake (\<lambda>_. True) futex_demo_key 1 3 (fx_m s1) = Inr (n, m) \<and>
     futex_wait_woken w None demo_env (s1\<lparr>fx_m := m\<rparr>) = Inr (Some (Inr 0), s1\<lparr>fx_m := m\<rparr>)"
proof -
  have new: "sy_phase futex_sys_new 1 = None" "sy_m futex_sys_new = futex_manager_new" by (simp_all add: futex_sys_new_def)
  obtain w s1 where w: "futex_wait_locked 4096 futex_demo_key 0 None 1 5 (Some 1)
      \<lparr>fx_m = futex_manager_new, fx_mem = (\<lambda>_. Some 0)\<rparr> = Inr (Inr w, s1)" "queue_of (fx_m s1) futex_demo_key = [w]"
    and wake: "\<And>limit bs env. 0 < limit \<Longrightarrow> 1 AND bs \<noteq> 0 \<Longrightarrow> we_rounds env \<noteq> [] \<Longrightarrow>
      \<exists>n m. futex_wake (\<lambda>_. True) futex_demo_key limit bs (fx_m s1) = Inr (n, m) \<and>
        futex_wait_woken w None env (s1\<lparr>fx_m := m\<rparr>) =
          Inr (Some (if we_signal_after env then Inl EINTR else Inr 0), s1\<lparr>fx_m := m\<rparr>)"
    using futex_wait_wake_pairing [OF fr_new new(1) read_zero_word refl, of futex_demo_key 0 None 1 5 "\<lambda>_. True"]
    unfolding new(2) queue_of_new by (auto simp: futex_timeout_expired_def)
  from wake [of 1 3 demo_env] w show ?thesis by (auto simp: demo_env_def)
qed

text \<open>C31.
  The cleanup after a wait always ends. Other tasks may requeue, wake or cancel the waiter between its look at the bucket
  index and its lock of the bucket, any number of times; the first round that they leave alone returns, the queues are
  consistent, and the waiter is in none of them.
\<close>

theorem futex_cleanup_returns:
  assumes "futex_reach s" and "sy_phase s t = Some w"
    and "\<forall>f \<in> set fs. \<forall>m. futex_ok m \<and> w < length (fm_waiters m) \<longrightarrow> futex_ok (f m) \<and> w < length (fm_waiters (f m))"
  shows "\<exists>r m. remove_waiter_for_task w (fs @ [id]) (sy_m s) = Inr (Some r, m) \<and> futex_ok m \<and> \<not> is_queued m w"
proof -
  have "w < length (fm_waiters (sy_m s))" using futex_reach_ok [OF assms(1)] assms(2) by (simp add: futex_sys_ok_def)
  from remove_waiter_returns [OF futex_reach_m [OF assms(1)] this, of fs] assms(3) show ?thesis by blast
qed

definition demo_wake :: "futex_manager \<Rightarrow> futex_manager" where
  "demo_wake m = (case futex_wake (\<lambda>_. True) futex_demo_key 1 1 m of Inl _ \<Rightarrow> m | Inr (n, m') \<Rightarrow> m')"

theorem futex_cleanup_returns_witness:
  "\<exists>s r m. futex_reach s \<and> queue_of (sy_m s) futex_demo_key = [0, 1] \<and>
     remove_waiter_for_task 0 [demo_wake, id] (sy_m s) = Inr (Some r, m) \<and> \<not> is_queued m 0"
proof -
  obtain s where s: "futex_reach s" "queue_of (sy_m s) futex_demo_key = [0, 1]" "sy_phase s 1 = Some 0" by (rule two_waiters)
  have "futex_ok (demo_wake m) \<and> 0 < length (fm_waiters (demo_wake m))" if "futex_ok m" "0 < length (fm_waiters m)" for m
  proof -
    from futex_wake_result [OF that(1) refl, of "\<lambda>_. True" futex_demo_key 1 1] obtain n m' where
      "futex_wake (\<lambda>_. True) futex_demo_key 1 1 m = Inr (n, m')" "futex_ok m'"
      "fm_waiters m' = fm_waiters (fold mark_woken (chosen futex_demo_key 1 1 m) m)" by blast
    moreover from this(3) have "length (fm_waiters m') = length (fm_waiters m)" by (simp only: fold_mark_woken_simps)
    ultimately show ?thesis using that(2) unfolding demo_wake_def by simp
  qed
  then have "\<forall>f \<in> set [demo_wake]. \<forall>m. futex_ok m \<and> 0 < length (fm_waiters m) \<longrightarrow> futex_ok (f m) \<and> 0 < length (fm_waiters (f m))"
    by simp
  from futex_cleanup_returns [OF s(1,3) this] s(1,2) show ?thesis by auto
qed



lemma tid_seven: "(7 :: u32) AND FUTEX_TID_MASK = 7" "unat FUTEX_TID_MASK = 1073741823" "(7 :: u32) AND FUTEX_WAITERS = 0"
  by (simp_all add: FUTEX_TID_MASK_def FUTEX_WAITERS_def FUTEX_OWNER_DIED_def)


lemma queue_distinct: "futex_ok m \<Longrightarrow> distinct (queue_of m k)"
  using sem_distinct [of "case_option [] (queue_of m)" _ _ "Some k"] by (auto simp: futex_ok_def)

lemma unlock_pi_handoff:
  assumes "futex_ok m" and "unlock_pi_check addr tid mem = None" and "read_futex_word mem addr = Inr word"
    and "\<And>t. \<exists>u. linux_tid_to_futex_word (tid_of t) = Inr u"
    and "\<And>w. w \<in> set (queue_of m key) \<Longrightarrow> fw_bitset (fm_waiters m ! w) = FUTEX_BITSET_MATCH_ANY"
  shows "\<exists>s'. futex_unlock_pi tid_of addr key tid id id \<lparr>fx_m = m, fx_mem = mem\<rparr> = Inr (Inr 0, s') \<and>
      queue_of (fx_m s') key = tl (queue_of m key) \<and>
      read_futex_word (fx_mem s') addr = (case queue_of m key of [] \<Rightarrow> Inr 0
        | w # ws \<Rightarrow> Inr (futex_waiters_word (of_nat (tid_of (task_of m w))) (ws \<noteq> [])))"
proof -
  have "matches m FUTEX_BITSET_MATCH_ANY w" if "w \<in> set (queue_of m key)" for w
    using assms(5) [OF that] by (simp add: matches_def FUTEX_BITSET_MATCH_ANY_def)
  then have "filter (matches m FUTEX_BITSET_MATCH_ANY) (queue_of m key) = queue_of m key" by (simp add: filter_id_conv)
  then have hit: "take 1 (queue_of m key) = chosen key 1 FUTEX_BITSET_MATCH_ANY m" by (simp add: chosen_def)
  obtain m' where m': "wake_one_with_remaining key m =
      Inr ((case take 1 (queue_of m key) of [] \<Rightarrow> None | w # _ \<Rightarrow> Some (task_of m w), queue_of m' key \<noteq> []), m')"
    "queue_of m' key = filter (\<lambda>w. w \<notin> set (take 1 (queue_of m key))) (queue_of m key)"
    using unlock_wake_result [OF assms(1) hit] by auto
  note start = futex_unlock_pi_def assms(2) m'(1)
  show ?thesis
  proof (cases "queue_of m key")
    case Nil
    obtain mem' where "write_futex_word mem addr 0 = Inr mem'" "read_futex_word mem' addr = Inr 0"
      by (rule write_futex_word_ok [OF assms(3), of 0])
    with Nil m'(2) show ?thesis by (simp add: start unlock_pi_store_def)
  next
    case (Cons w ws)
    from assms(4) [of "task_of m w"] have u: "linux_tid_to_futex_word (tid_of (task_of m w)) = Inr (of_nat (tid_of (task_of m w)))"
      by (auto simp: linux_tid_to_futex_word_def split: if_splits)
    have "distinct (w # ws)" using queue_distinct [OF assms(1), of key] Cons by simp
    with Cons m'(2) have q: "queue_of m' key = ws" by (simp add: filter_neq_id)
    let ?v = "futex_waiters_word (of_nat (tid_of (task_of m w))) (ws \<noteq> [])"
    obtain mem' where "write_futex_word mem addr ?v = Inr mem'" "read_futex_word mem' addr = Inr ?v"
      by (rule write_futex_word_ok [OF assms(3), of ?v])
    with Cons q u show ?thesis by (simp add: start unlock_pi_store_def)
  qed
qed

lemma lock_pi_queues:
  assumes "futex_ok m" and "fm_wait m t = None" and "read_futex_word mem addr = Inr word"
    and "word AND FUTEX_TID_MASK \<noteq> 0" and "word AND FUTEX_TID_MASK \<noteq> u"
  shows "\<exists>w s'. lock_pi_locked addr key u None now (Some t) \<lparr>fx_m = m, fx_mem = mem\<rparr> = Inr (Inr (Some w), s') \<and>
    queue_of (fx_m s') key = queue_of m key @ [w] \<and> task_of (fx_m s') w = t \<and> (\<exists>v. read_futex_word (fx_mem s') addr = Inr v)"
proof -
  obtain mem' where mem': "write_futex_word mem addr (word OR FUTEX_WAITERS) = Inr mem'"
    "read_futex_word mem' addr = Inr (word OR FUTEX_WAITERS)" by (rule write_futex_word_ok [OF assms(3)])
  obtain m' where "block_current_on key FUTEX_BITSET_MATCH_ANY (Some t) m = Inr (Some (length (fm_waiters m)), m')"
    "queue_of m' key = queue_of m key @ [length (fm_waiters m)]" "task_of m' (length (fm_waiters m)) = t"
    using block_current_result [OF assms(1,2), of key FUTEX_BITSET_MATCH_ANY] by (auto simp: task_of_def)
  with mem' assms(3-5) show ?thesis by (simp add: lock_pi_locked_def futex_timeout_expired_def Let_def)
qed

lemma unlock_pi_race:
  assumes "futex_ok m" and "unlock_pi_check addr tid mem = None" and "read_futex_word mem addr = Inr word"
    and "queue_of m key = []" and "fm_wait m t = None" and "word AND FUTEX_TID_MASK \<noteq> 0" and "word AND FUTEX_TID_MASK \<noteq> u"
  shows "\<exists>w s'. futex_unlock_pi tid_of addr key tid id
        (\<lambda>x. case lock_pi_locked addr key u None now (Some t) x of Inl _ \<Rightarrow> x | Inr (_, x') \<Rightarrow> x')
        \<lparr>fx_m = m, fx_mem = mem\<rparr> = Inr (Inr 0, s') \<and>
      queue_of (fx_m s') key = [w] \<and> task_of (fx_m s') w = t \<and> read_futex_word (fx_mem s') addr = Inr 0"
proof -
  have hit: "[] = chosen key 1 FUTEX_BITSET_MATCH_ANY m" by (simp add: chosen_def assms(4))
  obtain m' where m': "wake_one_with_remaining key m = Inr ((None, queue_of m' key \<noteq> []), m')" "futex_ok m'"
    "queue_of m' key = []" "fm_wait m' t = None"
    using unlock_wake_result [OF assms(1) hit] assms(4,5) by auto
  obtain w s' v where w: "lock_pi_locked addr key u None now (Some t) \<lparr>fx_m = m', fx_mem = mem\<rparr> = Inr (Inr (Some w), s')"
    "queue_of (fx_m s') key = [w]" "task_of (fx_m s') w = t" "read_futex_word (fx_mem s') addr = Inr v"
    using lock_pi_queues [OF m'(2,4) assms(3,6,7), of key now] m'(3) by auto
  obtain mem' where "write_futex_word (fx_mem s') addr 0 = Inr mem'" "read_futex_word mem' addr = Inr 0"
    by (rule write_futex_word_ok [OF w(4), of 0])
  with w m'(1,3) show ?thesis by (simp add: futex_unlock_pi_def assms(2) unlock_pi_store_def)
qed

text \<open>C33.
  Releasing a priority-inheritance lock. When nothing comes between its steps, the owner's unlock returns 0 and passes the
  lock to the waiter that came first, with the waiters bit exactly when more are waiting, or frees the word when nobody
  waits. But the new word is stored after the bucket lock is gone: a task that queues itself between an unlock that found
  no waiter and its store is left asleep on a word that says free.
\<close>

theorem unlock_pi_handoff_and_race:
  assumes "futex_reach s" and "st = \<lparr>fx_m = sy_m s, fx_mem = mem\<rparr>"
    and "linux_tid_to_futex_word tid = Inr me" and "read_futex_word mem addr = Inr word" and "word AND FUTEX_TID_MASK = me"
    and "\<And>t. \<exists>u. linux_tid_to_futex_word (tid_of t) = Inr u" and "me \<noteq> 0"
    and "\<And>w. w \<in> set (queue_of (sy_m s) key) \<Longrightarrow> fw_bitset (fm_waiters (sy_m s) ! w) = FUTEX_BITSET_MATCH_ANY"
  shows "(\<exists>s'. futex_unlock_pi tid_of addr key tid id id st = Inr (Inr 0, s') \<and>
      queue_of (fx_m s') key = tl (queue_of (sy_m s) key) \<and>
      read_futex_word (fx_mem s') addr = (case queue_of (sy_m s) key of [] \<Rightarrow> Inr 0
        | w # ws \<Rightarrow> Inr (futex_waiters_word (of_nat (tid_of (task_of (sy_m s) w))) (ws \<noteq> [])))) \<and>
    (queue_of (sy_m s) key = [] \<and> sy_phase s t = None \<and> linux_tid_to_futex_word (tid_of t) = Inr u \<and> u \<noteq> me \<longrightarrow>
      (\<exists>w s'. futex_unlock_pi tid_of addr key tid id
          (\<lambda>x. case lock_pi_locked addr key u None now (Some t) x of Inl _ \<Rightarrow> x | Inr (_, x') \<Rightarrow> x') st = Inr (Inr 0, s') \<and>
        queue_of (fx_m s') key = [w] \<and> task_of (fx_m s') w = t \<and> read_futex_word (fx_mem s') addr = Inr 0))"
proof -
  note ok = futex_reach_m [OF assms(1)]
  have check: "unlock_pi_check addr tid mem = None" by (simp add: unlock_pi_check_def assms(3-5))
  have me: "word AND FUTEX_TID_MASK \<noteq> 0" using assms(5,7) by simp
  show ?thesis unfolding assms(2)
  proof (rule conjI [OF unlock_pi_handoff impI], goal_cases)
    case 6
    then have "queue_of (sy_m s) key = []" "fm_wait (sy_m s) t = None" "word AND FUTEX_TID_MASK \<noteq> u"
      using sys_no_wait [OF futex_reach_ok [OF assms(1)]] assms(5) by auto
    then show ?case by (rule unlock_pi_race [OF ok check assms(4) _ _ me])
  qed (use ok check assms(4,6,8) in auto)
qed

definition pi_mem :: umem where
  "pi_mem x = Some (if x = 4096 then 7 else 0)"

theorem unlock_pi_handoff_and_race_witness:
  "\<exists>s1 w s2. read_futex_word pi_mem 4096 = Inr 7 \<and>
     futex_unlock_pi (\<lambda>t. t mod 8 + 7) 4096 futex_demo_key 7 id id \<lparr>fx_m = futex_manager_new, fx_mem = pi_mem\<rparr> = Inr (Inr 0, s1) \<and>
     read_futex_word (fx_mem s1) 4096 = Inr 0 \<and>
     futex_unlock_pi (\<lambda>t. t mod 8 + 7) 4096 futex_demo_key 7 id
       (\<lambda>x. case lock_pi_locked 4096 futex_demo_key 8 None 5 (Some 1) x of Inl _ \<Rightarrow> x | Inr (_, x') \<Rightarrow> x')
       \<lparr>fx_m = futex_manager_new, fx_mem = pi_mem\<rparr> = Inr (Inr 0, s2) \<and>
     queue_of (fx_m s2) futex_demo_key = [w] \<and> task_of (fx_m s2) w = 1 \<and> read_futex_word (fx_mem s2) 4096 = Inr 0"
proof -
  let ?tid = "\<lambda>t. t mod 8 + 7 :: nat"
  have new: "sy_phase futex_sys_new 1 = None" "sy_m futex_sys_new = futex_manager_new" by (simp_all add: futex_sys_new_def)
  have word: "read_futex_word pi_mem 4096 = Inr 7"
    by (simp add: futex_word_Inr read_user_u32_def read_bytes_def upt_rec pi_mem_def)
  have tids: "linux_tid_to_futex_word 7 = Inr 7" "linux_tid_to_futex_word (?tid 1) = Inr 8"
    "\<And>t. \<exists>u. linux_tid_to_futex_word (?tid t) = Inr u"
    by (simp_all add: linux_tid_to_futex_word_def tid_seven)
  have none: "\<And>w. w \<in> set (queue_of (sy_m futex_sys_new) futex_demo_key) \<Longrightarrow>
      fw_bitset (fm_waiters (sy_m futex_sys_new) ! w) = FUTEX_BITSET_MATCH_ANY"
    by (simp add: new queue_of_new)
  from unlock_pi_handoff_and_race [where tid_of = ?tid and key = futex_demo_key and t = 1 and u = 8 and now = 5,
      OF fr_new refl tids(1) word tid_seven(1) tids(3) _ none] tids(2) new word
  show ?thesis by (auto simp: queue_of_new)
qed

end
