(* ===== verification/Page_Table.thy ===== *)
theory Page_Table
  imports Frame_Allocator
begin

text \<open>
  The Sv39 page tables of the RISC-V kernel (\<^verbatim>\<open>mm/page_table.rs\<close>, with the encoding of entries in
  \<^verbatim>\<open>arch/riscv64/mm.rs\<close> and the page numbers of \<^verbatim>\<open>mm/address.rs\<close>).

  A page table lives in physical pages of 512 entries; the memory of these pages is a map from page number and index to
  the 64 bits of the entry. A reference to an entry, which the source passes around as \<^verbatim>\<open>&mut PageTableEntry\<close>, is the pair
  of page number and index. The operations take \<open>frame_alloc\<close> as an argument, with its state; the interface
  \<open>frame_source\<close> says what they rely on, and the frame allocator of \<^verbatim>\<open>Frame_Allocator\<close> satisfies it. \<open>view\<close> is what a page
  table means: for each virtual page the entry a walk finds, with large leaves resolved.
\<close>

unbundle bit_operations_syntax

section \<open>Entries\<close>

definition PTE_V :: usize where "PTE_V = 1"
definition PTE_R :: usize where "PTE_R = 2"
definition PTE_W :: usize where "PTE_W = 4"
definition PTE_X :: usize where "PTE_X = 8"
definition PTE_U :: usize where "PTE_U = 16"
definition PTE_G :: usize where "PTE_G = 32"
definition PTE_A :: usize where "PTE_A = 64"
definition PTE_D :: usize where "PTE_D = 128"
definition PTE_COW :: usize where "PTE_COW = 256"

text \<open>The operations of \<^verbatim>\<open>bitflags\<close>: all nine bits are named.\<close>

definition PTE_ALL :: usize where "PTE_ALL = 511"

definition contains_flags :: "usize \<Rightarrow> usize \<Rightarrow> bool" where
  "contains_flags flags f \<longleftrightarrow> flags AND f = f"

definition intersects_flags :: "usize \<Rightarrow> usize \<Rightarrow> bool" where
  "intersects_flags flags f \<longleftrightarrow> flags AND f \<noteq> 0"

definition pte_new_bits :: "nat \<Rightarrow> usize \<Rightarrow> usize" where
  "pte_new_bits ppn flags = push_bit 10 (of_nat ppn) OR flags"

definition pte_ppn :: "usize \<Rightarrow> nat" where
  "pte_ppn bits = unat (drop_bit 10 bits AND mask 44)"

definition pte_flags :: "usize \<Rightarrow> usize" where
  "pte_flags bits = bits AND PTE_ALL"

definition pte_is_valid :: "usize \<Rightarrow> bool" where
  "pte_is_valid bits \<longleftrightarrow> contains_flags (pte_flags bits) PTE_V"

definition pte_is_leaf :: "usize \<Rightarrow> bool" where
  "pte_is_leaf bits \<longleftrightarrow> pte_is_valid bits \<and> intersects_flags (pte_flags bits) (PTE_R OR PTE_W OR PTE_X)"

definition pte_writable :: "usize \<Rightarrow> bool" where
  "pte_writable bits \<longleftrightarrow> contains_flags (pte_flags bits) PTE_W"

definition pte_cow :: "usize \<Rightarrow> bool" where
  "pte_cow bits \<longleftrightarrow> contains_flags (pte_flags bits) PTE_COW"

definition normalized_leaf_flags :: "usize \<Rightarrow> usize" where
  "normalized_leaf_flags flags =
     (if intersects_flags flags (PTE_R OR PTE_W OR PTE_X) then
        (let flags = flags OR PTE_V OR PTE_A
         in if contains_flags flags PTE_W then flags OR PTE_D else flags)
      else flags)"

section \<open>Page numbers\<close>

definition indexes :: "nat \<Rightarrow> nat list" where
  "indexes vpn = [vpn div 512 div 512 mod 512, vpn div 512 mod 512, vpn mod 512]"

definition pages_per_leaf :: "nat \<Rightarrow> nat" where
  "pages_per_leaf level = 2 ^ (9 * level)"

definition MAX_KERNEL_LEAF_LEVEL :: nat where "MAX_KERNEL_LEAF_LEVEL = 2"

text \<open>
  \<^verbatim>\<open>VirtAddr::from(vpn)\<close> shifts, \<^verbatim>\<open>usize::from(VirtAddr)\<close> extends the sign of a 39-bit address, and \<^verbatim>\<open>PhysAddr::from\<close> cuts off
  at 56 bits.
\<close>

definition virt_addr_of_vpn :: "nat \<Rightarrow> usize" where
  "virt_addr_of_vpn vpn = push_bit 12 (of_nat vpn)"

definition sign_extend_virt_addr :: "usize \<Rightarrow> usize" where
  "sign_extend_virt_addr addr = (if 2 ^ 38 \<le> addr then addr OR NOT (mask 39) else addr)"

definition canonicalize_virt_addr :: "usize \<Rightarrow> usize" where
  "canonicalize_virt_addr addr = addr AND mask 39"

definition identical_ppn :: "nat \<Rightarrow> nat" where
  "identical_ppn vpn = phys_addr_floor (canonicalize_phys_addr (unat (sign_extend_virt_addr (virt_addr_of_vpn vpn))))"

text \<open>The loop of the source goes down from \<^verbatim>\<open>MAX_KERNEL_LEAF_LEVEL\<close> to 1.\<close>

fun fit_level :: "nat \<Rightarrow> nat \<Rightarrow> nat \<Rightarrow> nat \<Rightarrow> nat" where
  "fit_level 0 vpn ppn remaining_pages = 0"
| "fit_level (Suc n) vpn ppn remaining_pages =
     (if pages_per_leaf (Suc n) \<le> remaining_pages \<and> vpn mod pages_per_leaf (Suc n) = 0 \<and> ppn mod pages_per_leaf (Suc n) = 0
      then Suc n else fit_level n vpn ppn remaining_pages)"

definition largest_fit_kernel_leaf_level :: "nat \<Rightarrow> nat \<Rightarrow> nat \<Rightarrow> nat" where
  "largest_fit_kernel_leaf_level vpn ppn remaining_pages = fit_level MAX_KERNEL_LEAF_LEVEL vpn ppn remaining_pages"

section \<open>Page tables\<close>

type_synonym pmem = "nat \<Rightarrow> nat \<Rightarrow> usize"

record page_table =
  root_ppn :: nat
  pt_asid :: nat
  pt_frames :: "nat list"
  leaves_4k :: nat
  leaves_2m :: nat
  leaves_1g :: nat
  shared_root_entries :: "usize list"

text \<open>A page table with the memory its entries are in and the state of the frame allocator.\<close>

record 's pt_world =
  pw_pt :: page_table
  pw_mem :: pmem
  pw_frames :: 's

type_synonym 's frame_alloc_fn = "'s \<Rightarrow> nat option \<times> 's"

datatype pt_panic =
    LevelOutOfRange nat
  | NoPathToUnmap nat
  | UnmapInvalid nat
  | PreflightedPathGone nat
  | PreflightedLeafOccupied nat
  | LeafCounterUnderflow
  | IdentityNotWalkable nat
  | IdentityMismatch nat
  | UnalignedLargeLeaf nat
  | InvertedRange nat nat

definition write_pte :: "nat \<times> nat \<Rightarrow> usize \<Rightarrow> pmem \<Rightarrow> pmem" where
  "write_pte loc bits mem = mem(fst loc := (mem (fst loc))(snd loc := bits))"

definition read_pte :: "pmem \<Rightarrow> nat \<times> nat \<Rightarrow> usize" where
  "read_pte mem loc = mem (fst loc) (snd loc)"

definition put_pte :: "nat \<times> nat \<Rightarrow> usize \<Rightarrow> 's pt_world \<Rightarrow> 's pt_world" where
  "put_pte loc bits w = w\<lparr>pw_mem := write_pte loc bits (pw_mem w)\<rparr>"

definition from_root_frame :: "nat \<Rightarrow> nat \<Rightarrow> page_table" where
  "from_root_frame ppn asid = \<lparr>root_ppn = ppn, pt_asid = asid, pt_frames = [ppn], leaves_4k = 0, leaves_2m = 0, leaves_1g = 0,
     shared_root_entries = replicate 8 0\<rparr>"

text \<open>\<^verbatim>\<open>frame_alloc\<close> clears the page it returns.\<close>

definition clear_page :: "nat \<Rightarrow> pmem \<Rightarrow> pmem" where
  "clear_page ppn mem = mem(ppn := (\<lambda>_. 0))"

definition pt_try_new :: "'s frame_alloc_fn \<Rightarrow> nat \<Rightarrow> pmem \<Rightarrow> 's \<Rightarrow> 's pt_world option" where
  "pt_try_new fa asid mem a =
     (case fa a of
        (None, _) \<Rightarrow> None
      | (Some ppn, a') \<Rightarrow> Some \<lparr>pw_pt = from_root_frame ppn asid, pw_mem = clear_page ppn mem, pw_frames = a'\<rparr>)"

definition root_entry_is_shared :: "page_table \<Rightarrow> nat \<Rightarrow> bool" where
  "root_entry_is_shared pt index \<longleftrightarrow> shared_root_entries pt ! (index div 64) AND push_bit (index mod 64) 1 \<noteq> 0"

definition range_intersects_shared_root :: "page_table \<Rightarrow> usize \<Rightarrow> usize \<Rightarrow> bool" where
  "range_intersects_shared_root pt start fin =
     (if fin \<le> start then False
      else
        (let start_root = indexes (unat (canonicalize_virt_addr start) div 4096) ! 0;
             end_root = indexes (unat (canonicalize_virt_addr (fin - 1)) div 4096) ! 0
         in if start_root \<le> end_root then list_ex (root_entry_is_shared pt) [start_root..<Suc end_root]
            else list_ex (root_entry_is_shared pt) ([start_root..<512] @ [0..<Suc end_root])))"

definition install_shared_root_entry :: "nat \<Rightarrow> usize \<Rightarrow> 's pt_world \<Rightarrow> bool \<times> 's pt_world" where
  "install_shared_root_entry index entry w =
     (let pt = pw_pt w
      in if 512 \<le> index \<or> \<not> pte_is_valid entry \<or> root_entry_is_shared pt index then (False, w)
         else if pw_mem w (root_ppn pt) index \<noteq> 0 then (False, w)
         else (True, (put_pte (root_ppn pt, index) entry w)
                \<lparr>pw_pt := pt\<lparr>shared_root_entries := (shared_root_entries pt)
                   [index div 64 := shared_root_entries pt ! (index div 64) OR push_bit (index mod 64) 1]\<rparr>\<rparr>))"

text \<open>
  The walks. The level of the entry that the index at the head of the list selects is the number of indexes after it.
\<close>

fun create_walk :: "'s frame_alloc_fn \<Rightarrow> nat \<Rightarrow> nat \<Rightarrow> nat list \<Rightarrow> 's pt_world \<Rightarrow> (nat \<times> nat) option \<times> 's pt_world" where
  "create_walk fa target_level ppn [] w = (None, w)"
| "create_walk fa target_level ppn (i # is) w =
     (if length is = target_level then (Some (ppn, i), w)
      else
        (let pte = pw_mem w ppn i
         in if pte_is_leaf pte then (None, w)
            else if \<not> pte_is_valid pte then
              (case fa (pw_frames w) of
                 (None, a) \<Rightarrow> (None, w\<lparr>pw_frames := a\<rparr>)
               | (Some f, a) \<Rightarrow>
                   create_walk fa target_level (pte_ppn (pte_new_bits f PTE_V)) is
                     (w\<lparr>pw_frames := a, pw_mem := write_pte (ppn, i) (pte_new_bits f PTE_V) (clear_page f (pw_mem w)),
                        pw_pt := (pw_pt w)\<lparr>pt_frames := pt_frames (pw_pt w) @ [f]\<rparr>\<rparr>))
            else create_walk fa target_level (pte_ppn pte) is w))"

definition find_pte_create_at_level ::
  "'s frame_alloc_fn \<Rightarrow> nat \<Rightarrow> nat \<Rightarrow> 's pt_world \<Rightarrow> pt_panic + (nat \<times> nat) option \<times> 's pt_world" where
  "find_pte_create_at_level fa vpn target_level w =
     (if 3 \<le> target_level then Inl (LevelOutOfRange target_level)
      else if root_entry_is_shared (pw_pt w) (indexes vpn ! 0) then Inr (None, w)
      else Inr (create_walk fa target_level (root_ppn (pw_pt w)) (indexes vpn) w))"

text \<open>At level 0 the assertion on the level holds.\<close>

definition find_pte_create :: "'s frame_alloc_fn \<Rightarrow> nat \<Rightarrow> 's pt_world \<Rightarrow> (nat \<times> nat) option \<times> 's pt_world" where
  "find_pte_create fa vpn w =
     (if root_entry_is_shared (pw_pt w) (indexes vpn ! 0) then (None, w)
      else create_walk fa 0 (root_ppn (pw_pt w)) (indexes vpn) w)"

fun leaf_walk :: "pmem \<Rightarrow> nat \<Rightarrow> nat list \<Rightarrow> ((nat \<times> nat) \<times> nat) option" where
  "leaf_walk mem ppn [] = None"
| "leaf_walk mem ppn (i # is) =
     (let pte = mem ppn i
      in if is = [] \<or> pte_is_leaf pte then Some ((ppn, i), length is)
         else if \<not> pte_is_valid pte then None
         else leaf_walk mem (pte_ppn pte) is)"

definition find_leaf :: "'s pt_world \<Rightarrow> nat \<Rightarrow> ((nat \<times> nat) \<times> nat) option" where
  "find_leaf w vpn = leaf_walk (pw_mem w) (root_ppn (pw_pt w)) (indexes vpn)"

fun mut_walk :: "pmem \<Rightarrow> nat \<Rightarrow> nat \<Rightarrow> nat list \<Rightarrow> (nat \<times> nat) option" where
  "mut_walk mem target_level ppn [] = None"
| "mut_walk mem target_level ppn (i # is) =
     (let pte = mem ppn i
      in if length is = target_level then Some (ppn, i)
         else if \<not> pte_is_valid pte \<or> pte_is_leaf pte then None
         else mut_walk mem target_level (pte_ppn pte) is)"

definition find_pte_at_level_mut :: "'s pt_world \<Rightarrow> nat \<Rightarrow> nat \<Rightarrow> pt_panic + (nat \<times> nat) option" where
  "find_pte_at_level_mut w vpn target_level =
     (if 3 \<le> target_level then Inl (LevelOutOfRange target_level)
      else if root_entry_is_shared (pw_pt w) (indexes vpn ! 0) then Inr None
      else Inr (mut_walk (pw_mem w) target_level (root_ppn (pw_pt w)) (indexes vpn)))"

definition find_pte_mut :: "'s pt_world \<Rightarrow> nat \<Rightarrow> (nat \<times> nat) option" where
  "find_pte_mut w vpn =
     (if root_entry_is_shared (pw_pt w) (indexes vpn ! 0) then None
      else mut_walk (pw_mem w) 0 (root_ppn (pw_pt w)) (indexes vpn))"

section \<open>Leaves of 4 KiB\<close>

definition try_map :: "'s frame_alloc_fn \<Rightarrow> nat \<Rightarrow> nat \<Rightarrow> usize \<Rightarrow> 's pt_world \<Rightarrow> bool \<times> 's pt_world" where
  "try_map fa vpn ppn flags w =
     (case find_pte_create fa vpn w of
        (None, w1) \<Rightarrow> (False, w1)
      | (Some loc, w1) \<Rightarrow>
          if read_pte (pw_mem w1) loc \<noteq> 0 then (False, w1)
          else (True, (put_pte loc (pte_new_bits ppn (normalized_leaf_flags flags)) w1)
                 \<lparr>pw_pt := (pw_pt w1)\<lparr>leaves_4k := leaves_4k (pw_pt w1) + 1\<rparr>\<rparr>))"

definition prepare_empty_leaf_path :: "'s frame_alloc_fn \<Rightarrow> nat \<Rightarrow> 's pt_world \<Rightarrow> bool \<times> 's pt_world" where
  "prepare_empty_leaf_path fa vpn w =
     (case find_pte_create fa vpn w of
        (None, w1) \<Rightarrow> (False, w1)
      | (Some loc, w1) \<Rightarrow> (read_pte (pw_mem w1) loc = 0, w1))"

definition unmap :: "nat \<Rightarrow> 's pt_world \<Rightarrow> pt_panic + 's pt_world" where
  "unmap vpn w =
     (case find_pte_mut w vpn of
        None \<Rightarrow> Inl (NoPathToUnmap vpn)
      | Some loc \<Rightarrow>
          (let pte = read_pte (pw_mem w) loc
           in if \<not> (pte_is_valid pte \<or> pte \<noteq> 0) then Inl (UnmapInvalid vpn) else Inr (put_pte loc 0 w)))"

definition remap_flags :: "nat \<Rightarrow> usize \<Rightarrow> 's pt_world \<Rightarrow> bool \<times> 's pt_world" where
  "remap_flags vpn flags w =
     (case find_pte_mut w vpn of
        None \<Rightarrow> (False, w)
      | Some loc \<Rightarrow>
          (let pte = read_pte (pw_mem w) loc
           in if \<not> pte_is_valid pte \<and> pte = 0 then (False, w)
              else (True, put_pte loc (pte_new_bits (pte_ppn pte) (normalized_leaf_flags flags)) w)))"

definition clear_leaf :: "nat \<Rightarrow> 's pt_world \<Rightarrow> bool \<times> 's pt_world" where
  "clear_leaf vpn w = (case find_pte_mut w vpn of None \<Rightarrow> (False, w) | Some loc \<Rightarrow> (True, put_pte loc 0 w))"

definition clear_leaf_create_path :: "'s frame_alloc_fn \<Rightarrow> nat \<Rightarrow> 's pt_world \<Rightarrow> bool \<times> 's pt_world" where
  "clear_leaf_create_path fa vpn w =
     (case find_pte_create fa vpn w of (None, w1) \<Rightarrow> (False, w1) | (Some loc, w1) \<Rightarrow> (True, put_pte loc 0 w1))"

definition mark_cow_readonly :: "nat \<Rightarrow> 's pt_world \<Rightarrow> bool \<times> 's pt_world" where
  "mark_cow_readonly vpn w =
     (case find_pte_mut w vpn of
        None \<Rightarrow> (False, w)
      | Some loc \<Rightarrow>
          (let pte = read_pte (pw_mem w) loc
           in if \<not> pte_is_valid pte \<or> pte = 0 then (False, w)
              else if pte_cow pte \<and> \<not> pte_writable pte then (True, w)
              else (True, put_pte loc (pte_new_bits (pte_ppn pte) ((pte_flags pte AND NOT PTE_W) OR PTE_COW)) w)))"

definition restore_write_clear_cow :: "nat \<Rightarrow> 's pt_world \<Rightarrow> bool \<times> 's pt_world" where
  "restore_write_clear_cow vpn w =
     (case find_pte_mut w vpn of
        None \<Rightarrow> (False, w)
      | Some loc \<Rightarrow>
          (let pte = read_pte (pw_mem w) loc
           in if \<not> pte_is_valid pte \<or> pte = 0 \<or> \<not> pte_cow pte then (False, w)
              else (True, put_pte loc (pte_new_bits (pte_ppn pte) ((pte_flags pte AND NOT PTE_COW) OR PTE_W)) w)))"

definition replace_leaf :: "nat \<Rightarrow> nat \<Rightarrow> usize \<Rightarrow> 's pt_world \<Rightarrow> bool \<times> 's pt_world" where
  "replace_leaf vpn ppn flags w =
     (case find_pte_mut w vpn of
        None \<Rightarrow> (False, w)
      | Some loc \<Rightarrow>
          (let pte = read_pte (pw_mem w) loc
           in if \<not> pte_is_valid pte \<or> pte = 0 then (False, w)
              else (True, put_pte loc (pte_new_bits ppn (normalized_leaf_flags flags)) w)))"

definition replace_leaf_or_tombstone :: "nat \<Rightarrow> nat \<Rightarrow> nat \<Rightarrow> usize \<Rightarrow> 's pt_world \<Rightarrow> bool \<times> 's pt_world" where
  "replace_leaf_or_tombstone vpn expected_ppn ppn flags w =
     (case find_pte_mut w vpn of
        None \<Rightarrow> (False, w)
      | Some loc \<Rightarrow>
          (let pte = read_pte (pw_mem w) loc
           in if pte = 0 \<or> pte_ppn pte \<noteq> expected_ppn then (False, w)
              else (True, put_pte loc (pte_new_bits ppn (normalized_leaf_flags flags)) w)))"

definition translate :: "'s pt_world \<Rightarrow> nat \<Rightarrow> pt_panic + usize option" where
  "translate w vpn =
     (case find_leaf w vpn of
        None \<Rightarrow> Inr None
      | Some (loc, level) \<Rightarrow>
          (let pte = read_pte (pw_mem w) loc
           in if level = 0 \<or> pte = 0 then Inr (Some pte)
              else
                (let base_ppn = pte_ppn pte
                 in if base_ppn mod pages_per_leaf level \<noteq> 0 then Inl (UnalignedLargeLeaf base_ppn)
                    else Inr (Some (pte_new_bits
                      (canonicalize_phys_page_num (base_ppn OR (vpn mod pages_per_leaf level))) (pte_flags pte))))))"

definition translate_va :: "'s pt_world \<Rightarrow> usize \<Rightarrow> pt_panic + nat option" where
  "translate_va w va =
     map_sum id (map_option (\<lambda>pte. canonicalize_phys_addr (pte_ppn pte * 4096 + unat (va AND mask 12))))
       (translate w (unat va div 4096))"

section \<open>Large leaves of the kernel\<close>

definition increment_leaf_count :: "nat \<Rightarrow> page_table \<Rightarrow> page_table" where
  "increment_leaf_count level pt =
     (if level = 0 then pt\<lparr>leaves_4k := leaves_4k pt + 1\<rparr>
      else if level = 1 then pt\<lparr>leaves_2m := leaves_2m pt + 1\<rparr>
      else pt\<lparr>leaves_1g := leaves_1g pt + 1\<rparr>)"

definition decrement_leaf_count :: "nat \<Rightarrow> page_table \<Rightarrow> pt_panic + page_table" where
  "decrement_leaf_count level pt =
     (if level = 0 then if leaves_4k pt = 0 then Inl LeafCounterUnderflow else Inr (pt\<lparr>leaves_4k := leaves_4k pt - 1\<rparr>)
      else if level = 1 then if leaves_2m pt = 0 then Inl LeafCounterUnderflow else Inr (pt\<lparr>leaves_2m := leaves_2m pt - 1\<rparr>)
      else if leaves_1g pt = 0 then Inl LeafCounterUnderflow else Inr (pt\<lparr>leaves_1g := leaves_1g pt - 1\<rparr>))"

text \<open>The first pass creates the tables and finds every leaf empty, the second one writes the leaves.\<close>

function preflight_identical ::
  "'s frame_alloc_fn \<Rightarrow> nat \<Rightarrow> nat \<Rightarrow> 's pt_world \<Rightarrow> pt_panic + bool \<times> 's pt_world" where
  "preflight_identical fa vpn end_vpn w =
     (if vpn < end_vpn then
        (let level = largest_fit_kernel_leaf_level vpn (identical_ppn vpn) (end_vpn - vpn)
         in case find_pte_create_at_level fa vpn level w of
              Inl p \<Rightarrow> Inl p
            | Inr (None, w1) \<Rightarrow> Inr (False, w1)
            | Inr (Some loc, w1) \<Rightarrow>
                if read_pte (pw_mem w1) loc \<noteq> 0 then Inr (False, w1)
                else preflight_identical fa (vpn + pages_per_leaf level) end_vpn w1)
      else Inr (True, w))"
  by pat_completeness auto
termination
  by (relation "measure (\<lambda>(fa, vpn, end_vpn, w). end_vpn - vpn)") (auto simp: pages_per_leaf_def intro: diff_less_mono2)

function publish_identical :: "nat \<Rightarrow> nat \<Rightarrow> usize \<Rightarrow> 's pt_world \<Rightarrow> pt_panic + 's pt_world" where
  "publish_identical vpn end_vpn flags w =
     (if vpn < end_vpn then
        (let ppn = identical_ppn vpn;
             level = largest_fit_kernel_leaf_level vpn ppn (end_vpn - vpn)
         in case find_pte_at_level_mut w vpn level of
              Inl p \<Rightarrow> Inl p
            | Inr None \<Rightarrow> Inl (PreflightedPathGone vpn)
            | Inr (Some loc) \<Rightarrow>
                if read_pte (pw_mem w) loc \<noteq> 0 then Inl (PreflightedLeafOccupied vpn)
                else publish_identical (vpn + pages_per_leaf level) end_vpn flags
                       ((put_pte loc (pte_new_bits ppn flags) w)\<lparr>pw_pt := increment_leaf_count level (pw_pt w)\<rparr>))
      else Inr w)"
  by pat_completeness auto
termination
  by (relation "measure (\<lambda>(vpn, end_vpn, flags, w). end_vpn - vpn)") (auto simp: pages_per_leaf_def intro: diff_less_mono2)

declare preflight_identical.simps [simp del] publish_identical.simps [simp del]

function verify_kernel_identical_range :: "'s pt_world \<Rightarrow> nat \<Rightarrow> nat \<Rightarrow> usize \<Rightarrow> pt_panic option" where
  "verify_kernel_identical_range w vpn end_vpn expected_flags =
     (if vpn < end_vpn then
        (let expected_ppn = identical_ppn vpn;
             expected_level = largest_fit_kernel_leaf_level vpn expected_ppn (end_vpn - vpn);
             pages = pages_per_leaf expected_level
         in case find_leaf w vpn of
              None \<Rightarrow> Some (IdentityNotWalkable vpn)
            | Some (loc, actual_level) \<Rightarrow>
                (let pte = read_pte (pw_mem w) loc
                 in if pte = 0 \<or> actual_level \<noteq> expected_level \<or> pte_flags pte \<noteq> expected_flags then Some (IdentityMismatch vpn)
                    else if map_sum id (map_option pte_ppn) (translate w vpn) \<noteq> Inr (Some expected_ppn)
                      then Some (IdentityMismatch vpn)
                    else if map_sum id (map_option pte_ppn) (translate w (vpn + pages - 1)) \<noteq> Inr (Some (expected_ppn + pages - 1))
                      then Some (IdentityMismatch (vpn + pages - 1))
                    else verify_kernel_identical_range w (vpn + pages) end_vpn expected_flags))
      else None)"
  by pat_completeness auto
termination
  by (relation "measure (\<lambda>(w, vpn, end_vpn, flags). end_vpn - vpn)") (auto simp: pages_per_leaf_def intro: diff_less_mono2)

declare verify_kernel_identical_range.simps [simp del]

definition try_map_kernel_identical_range ::
  "'s frame_alloc_fn \<Rightarrow> nat \<Rightarrow> nat \<Rightarrow> usize \<Rightarrow> 's pt_world \<Rightarrow> pt_panic + bool \<times> 's pt_world" where
  "try_map_kernel_identical_range fa start_vpn end_vpn flags w =
     (if end_vpn < start_vpn then Inl (InvertedRange start_vpn end_vpn)
      else case preflight_identical fa start_vpn end_vpn w of
        Inl p \<Rightarrow> Inl p
      | Inr (False, w1) \<Rightarrow> Inr (False, w1)
      | Inr (True, w1) \<Rightarrow>
          (let flags = normalized_leaf_flags flags
           in case publish_identical start_vpn end_vpn flags w1 of
                Inl p \<Rightarrow> Inl p
              | Inr w2 \<Rightarrow>
                  (case verify_kernel_identical_range w2 start_vpn end_vpn flags of
                     Some p \<Rightarrow> Inl p
                   | None \<Rightarrow> Inr (True, w2))))"

function unmap_identical_loop :: "nat \<Rightarrow> nat \<Rightarrow> 's pt_world \<Rightarrow> pt_panic + bool \<times> 's pt_world" where
  "unmap_identical_loop vpn end_vpn w =
     (if vpn < end_vpn then
        (case find_leaf w vpn of
           None \<Rightarrow> Inr (False, w)
         | Some (loc, level) \<Rightarrow>
             (let pages = pages_per_leaf level
              in if read_pte (pw_mem w) loc = 0 then Inr (False, w)
                 else if vpn mod pages \<noteq> 0 \<or> end_vpn - vpn < pages then Inr (False, w)
                 else (case find_pte_at_level_mut w vpn level of
                     Inl p \<Rightarrow> Inl p
                   | Inr None \<Rightarrow> Inl (PreflightedPathGone vpn)
                   | Inr (Some loc') \<Rightarrow>
                       (case decrement_leaf_count level (pw_pt w) of
                          Inl p \<Rightarrow> Inl p
                        | Inr pt \<Rightarrow> unmap_identical_loop (vpn + pages) end_vpn ((put_pte loc' 0 w)\<lparr>pw_pt := pt\<rparr>)))))
      else Inr (True, w))"
  by pat_completeness auto
termination
  by (relation "measure (\<lambda>(vpn, end_vpn, w). end_vpn - vpn)") (auto simp: pages_per_leaf_def intro: diff_less_mono2)

declare unmap_identical_loop.simps [simp del]

definition unmap_kernel_identical_range :: "nat \<Rightarrow> nat \<Rightarrow> 's pt_world \<Rightarrow> pt_panic + bool \<times> 's pt_world" where
  "unmap_kernel_identical_range start_vpn end_vpn w =
     (if end_vpn < start_vpn then Inl (InvertedRange start_vpn end_vpn) else unmap_identical_loop start_vpn end_vpn w)"

text \<open>A linear range of 4 KiB leaves: again first the paths, then the leaves.\<close>

fun preflight_linear :: "'s frame_alloc_fn \<Rightarrow> nat list \<Rightarrow> 's pt_world \<Rightarrow> bool \<times> 's pt_world" where
  "preflight_linear fa [] w = (True, w)"
| "preflight_linear fa (vpn # vpns) w =
     (case prepare_empty_leaf_path fa vpn w of
        (False, w1) \<Rightarrow> (False, w1)
      | (True, w1) \<Rightarrow> preflight_linear fa vpns w1)"

fun publish_linear :: "'s frame_alloc_fn \<Rightarrow> (nat \<times> nat) list \<Rightarrow> usize \<Rightarrow> 's pt_world \<Rightarrow> pt_panic + 's pt_world" where
  "publish_linear fa [] flags w = Inr w"
| "publish_linear fa ((vpn, ppn) # rest) flags w =
     (case try_map fa vpn ppn flags w of
        (False, _) \<Rightarrow> Inl (PreflightedLeafOccupied vpn)
      | (True, w1) \<Rightarrow> publish_linear fa rest flags w1)"

definition try_map_kernel_linear_range ::
  "'s frame_alloc_fn \<Rightarrow> nat \<Rightarrow> nat \<Rightarrow> nat \<Rightarrow> usize \<Rightarrow> 's pt_world \<Rightarrow> pt_panic + bool \<times> 's pt_world" where
  "try_map_kernel_linear_range fa start_vpn start_ppn end_vpn flags w =
     (if end_vpn < start_vpn then Inl (InvertedRange start_vpn end_vpn)
      else
        (case preflight_linear fa [start_vpn..<end_vpn] w of
           (False, w1) \<Rightarrow> Inr (False, w1)
         | (True, w1) \<Rightarrow>
             (case publish_linear fa (map (\<lambda>k. (start_vpn + k, start_ppn + k)) [0..<end_vpn - start_vpn]) flags w1 of
                Inl p \<Rightarrow> Inl p
              | Inr w2 \<Rightarrow> Inr (True, w2))))"

section \<open>What a page table means\<close>

definition pte_is_table :: "usize \<Rightarrow> bool" where
  "pte_is_table pte \<longleftrightarrow> pte_is_valid pte \<and> \<not> pte_is_leaf pte"

text \<open>The table at the end of a path of indexes.\<close>

fun node :: "pmem \<Rightarrow> nat \<Rightarrow> nat list \<Rightarrow> nat option" where
  "node mem p [] = Some p"
| "node mem p (i # is) = (if pte_is_table (mem p i) then node mem (pte_ppn (mem p i)) is else None)"

definition path_ok :: "nat list \<Rightarrow> bool" where
  "path_ok q \<longleftrightarrow> length q \<le> 2 \<and> list_all (\<lambda>i. i < 512) q"

text \<open>
  The invariant: different paths lead to different tables, all of them held pages; the frames that the page table owns are
  the tables that do not hang off a shared root entry; and large leaves are aligned.
\<close>

definition pt_ok :: "nat set \<Rightarrow> 's pt_world \<Rightarrow> bool" where
  "pt_ok held w \<longleftrightarrow>
     (let mem = pw_mem w; pt = pw_pt w; root = root_ppn pt
      in (\<forall>q q' p. path_ok q \<and> path_ok q' \<and> node mem root q = Some p \<and> node mem root q' = Some p \<longrightarrow> q = q') \<and>
         (\<forall>q p. path_ok q \<and> node mem root q = Some p \<longrightarrow> p \<in> held) \<and>
         distinct (pt_frames pt) \<and>
         set (pt_frames pt) = {p. \<exists>q. path_ok q \<and> node mem root q = Some p \<and> (q = [] \<or> \<not> root_entry_is_shared pt (hd q))} \<and>
         (\<forall>q p i. path_ok q \<and> node mem root q = Some p \<and> i < 512 \<and> pte_is_leaf (mem p i) \<longrightarrow>
            pte_ppn (mem p i) mod pages_per_leaf (2 - length q) = 0) \<and>
         length (shared_root_entries pt) = 8)"

definition vpn_ok :: "nat \<Rightarrow> bool" where
  "vpn_ok vpn \<longleftrightarrow> vpn < 512 * 512 * 512"

text \<open>The entry of a virtual page, 0 where there is none.\<close>

definition view :: "'s pt_world \<Rightarrow> nat \<Rightarrow> usize" where
  "view w vpn = (if vpn_ok vpn then case translate w vpn of Inr (Some pte) \<Rightarrow> pte | _ \<Rightarrow> 0 else 0)"

section \<open>The interface of the frame allocator\<close>

locale frame_source =
  fixes fa :: "'s frame_alloc_fn" and src_ok :: "'s \<Rightarrow> bool" and held :: "'s \<Rightarrow> nat set"
  assumes alloc_none: "src_ok a \<Longrightarrow> fa a = (None, a') \<Longrightarrow> src_ok a' \<and> held a' = held a"
    and alloc_some: "src_ok a \<Longrightarrow> fa a = (Some f, a') \<Longrightarrow> src_ok a' \<and> f \<notin> held a \<and> held a' = insert f (held a)"
    and held_small: "src_ok a \<Longrightarrow> f \<in> held a \<Longrightarrow> f < 2 ^ 44"

definition frame_alloc :: "nat option \<Rightarrow> frame_state frame_alloc_fn" where
  "frame_alloc cpu s = (case alloc_frame_ppn cpu s of Inl _ \<Rightarrow> (None, s) | Inr r \<Rightarrow> r)"

definition frames_ok :: "nat option \<Rightarrow> frame_state \<Rightarrow> bool" where
  "frames_ok cpu s \<longleftrightarrow> valid_cpu cpu \<and> frame_inv s"

interpretation frames: frame_source "frame_alloc cpu" "frames_ok cpu" held_pages for cpu
proof
  fix a a' f
  assume a: "frames_ok cpu a"
  note ok = alloc_frame_ok [of a cpu] a [unfolded frames_ok_def]
  { assume "frame_alloc cpu a = (None, a')"
    with ok show "frames_ok cpu a' \<and> held_pages a' = held_pages a"
      by (auto simp: frame_alloc_def frames_ok_def) }
  { assume "frame_alloc cpu a = (Some f, a')"
    with ok show "frames_ok cpu a' \<and> f \<notin> held_pages a \<and> held_pages a' = insert f (held_pages a)"
      by (auto simp: frame_alloc_def frames_ok_def) }
  { assume "f \<in> held_pages a"
    with a show "f < 2 ^ 44"
      by (auto simp: frames_ok_def frame_inv_def sfa_ok_def held_pages_def sfa_used_def) }
qed

section \<open>Lemmas on entries\<close>

lemmas pte_consts = PTE_V_def PTE_R_def PTE_W_def PTE_X_def PTE_U_def PTE_G_def PTE_A_def PTE_D_def PTE_COW_def PTE_ALL_def

definition flags_ok :: "usize \<Rightarrow> bool" where
  "flags_ok flags \<longleftrightarrow> flags AND PTE_ALL = flags"

lemma flags_ok_bit: "flags_ok flags \<Longrightarrow> bit flags n \<Longrightarrow> n < 9"
proof -
  assume "flags_ok flags" and "bit flags n"
  then have "bit (flags AND mask 9) n" by (simp add: flags_ok_def PTE_ALL_def mask_eq_exp_minus_1)
  then show "n < 9" by (simp add: bit_simps)
qed

lemma pte_new_flags:
  assumes "flags_ok flags"
  shows "pte_flags (pte_new_bits ppn flags) = flags"
proof -
  have "pte_new_bits ppn flags AND mask 9 = flags"
    by (rule bit_eqI) (use flags_ok_bit [OF assms] in \<open>auto simp: pte_new_bits_def bit_simps\<close>)
  then show ?thesis by (simp add: pte_flags_def PTE_ALL_def mask_eq_exp_minus_1)
qed

lemma pte_new_ppn:
  assumes "flags_ok flags" and "ppn < 2 ^ 44"
  shows "pte_ppn (pte_new_bits ppn flags) = ppn"
proof -
  have "drop_bit 10 (pte_new_bits ppn flags) AND mask 44 = (of_nat ppn :: usize)"
  proof (rule bit_eqI)
    fix n
    assume "possible_bit TYPE(64 word) n"
    then have "n < 64" by simp
    have "\<not> bit flags (n + 10)" using flags_ok_bit [OF assms(1), of "n + 10"] by auto
    moreover have "\<not> bit (of_nat ppn :: usize) n" if "44 \<le> n"
    proof -
      have "ppn < 2 ^ n" using assms(2) that power_increasing [of 44 n "2::nat"] by simp
      then have "\<not> bit ppn n" by (simp add: bit_iff_odd)
      then show ?thesis by (simp add: bit_simps)
    qed
    ultimately show "bit (drop_bit 10 (pte_new_bits ppn flags) AND mask 44) n = bit (of_nat ppn :: usize) n"
      using \<open>n < 64\<close> by (cases "n < 44") (auto simp: pte_new_bits_def bit_simps ac_simps)
  qed
  then have "pte_ppn (pte_new_bits ppn flags) = unat (of_nat ppn :: usize)" by (simp add: pte_ppn_def)
  also have "\<dots> = ppn" using assms(2) by (simp add: unat_of_nat)
  finally show ?thesis .
qed

lemma flags_ok_V [simp]: "flags_ok PTE_V"
  by (simp add: flags_ok_def pte_consts)

lemma flags_ok_or: "flags_ok f \<Longrightarrow> flags_ok g \<Longrightarrow> flags_ok (f OR g)"
  by (simp add: flags_ok_def bit.conj_disj_distrib2)

lemma flags_ok_and: "flags_ok f \<Longrightarrow> flags_ok (f AND g)"
  unfolding flags_ok_def by (metis and.assoc and.commute)

lemma flags_ok_normalized: "flags_ok flags \<Longrightarrow> flags_ok (normalized_leaf_flags flags)"
proof -
  have "flags_ok PTE_A" "flags_ok PTE_D" by (simp_all add: flags_ok_def pte_consts)
  then show "flags_ok flags \<Longrightarrow> flags_ok (normalized_leaf_flags flags)"
    by (auto simp: normalized_leaf_flags_def Let_def intro!: flags_ok_or)
qed

lemma flags_ok_pte_flags [simp]: "flags_ok (pte_flags pte)"
  by (simp add: flags_ok_def pte_flags_def and.assoc)

lemma pte_zero [simp]: "pte_flags 0 = 0" "\<not> pte_is_valid 0" "\<not> pte_is_leaf 0" "\<not> pte_is_table 0"
  by (simp_all add: pte_flags_def pte_is_valid_def pte_is_leaf_def pte_is_table_def contains_flags_def pte_consts)

lemma new_table_pte:
  "pte_is_table (pte_new_bits f PTE_V)" "f < 2 ^ 44 \<Longrightarrow> pte_ppn (pte_new_bits f PTE_V) = f"
  by (simp_all add: pte_new_ppn pte_is_table_def pte_is_leaf_def pte_is_valid_def pte_new_flags)
     (simp add: contains_flags_def intersects_flags_def pte_consts)

lemma pte_ppn_small: "pte_ppn pte < 2 ^ 44"
proof -
  have "drop_bit 10 pte AND mask 44 \<le> mask 44" by (rule word_and_le1)
  then have "unat (drop_bit 10 pte AND mask 44) \<le> unat (mask 44 :: usize)" by (simp add: word_le_nat_alt)
  then show ?thesis by (simp add: pte_ppn_def mask_eq_exp_minus_1)
qed

section \<open>Lemmas on walks\<close>

lemma table_not_leaf: "pte_is_table pte \<longleftrightarrow> pte_is_valid pte \<and> \<not> pte_is_leaf pte"
  by (simp add: pte_is_table_def)

lemma leaf_valid: "pte_is_leaf pte \<Longrightarrow> pte_is_valid pte"
  by (simp add: pte_is_leaf_def)

lemma node_append: "node mem p (q @ q') = Option.bind (node mem p q) (\<lambda>t. node mem t q')"
  by (induction q arbitrary: p) auto

lemma node_snoc: "node mem p (q @ [i]) =
    (case node mem p q of None \<Rightarrow> None | Some t \<Rightarrow> if pte_is_table (mem t i) then Some (pte_ppn (mem t i)) else None)"
  by (simp add: node_append split: option.split)

text \<open>Two memories agree on the entries that a walk along a path reads.\<close>

fun agree :: "pmem \<Rightarrow> pmem \<Rightarrow> nat \<Rightarrow> nat list \<Rightarrow> bool" where
  "agree mem mem' p [] = True"
| "agree mem mem' p (i # is) \<longleftrightarrow> mem' p i = mem p i \<and> (pte_is_table (mem p i) \<longrightarrow> agree mem mem' (pte_ppn (mem p i)) is)"

lemma agree_nodes:
  "(\<And>q i rest t. is = q @ i # rest \<Longrightarrow> node mem p q = Some t \<Longrightarrow> mem' t i = mem t i) \<Longrightarrow> agree mem mem' p is"
proof (induction "is" arbitrary: p)
  case (Cons i "is")
  have "mem' p i = mem p i" using Cons.prems [of "[]" i "is" p] by simp
  moreover have "agree mem mem' (pte_ppn (mem p i)) is" if "pte_is_table (mem p i)"
    by (rule Cons.IH) (use Cons.prems [of "i # _"] that in auto)
  ultimately show ?case by simp
qed simp

lemma agree_node: "agree mem mem' p is \<Longrightarrow> node mem' p is = node mem p is"
  by (induction "is" arbitrary: p) auto

lemma agree_leaf_walk: "agree mem mem' p is \<Longrightarrow> leaf_walk mem' p is = leaf_walk mem p is"
  by (induction "is" arbitrary: p) (auto simp: Let_def table_not_leaf)

lemma leaf_walk_Some:
  "leaf_walk mem p is = Some ((t, i), level) \<Longrightarrow>
    \<exists>q rest. is = q @ i # rest \<and> node mem p q = Some t \<and> length rest = level \<and> (rest = [] \<or> pte_is_leaf (mem t i))"
proof (induction "is" arbitrary: p)
  case (Cons j js)
  show ?case
  proof (cases "js = [] \<or> pte_is_leaf (mem p j)")
    case True
    with Cons.prems show ?thesis by (intro exI [of _ "[]"] exI [of _ js]) (auto simp: Let_def)
  next
    case False
    with Cons.prems have table: "pte_is_table (mem p j)" and "leaf_walk mem (pte_ppn (mem p j)) js = Some ((t, i), level)"
      by (auto simp: Let_def table_not_leaf split: if_splits)
    from Cons.IH [OF this(2)] obtain q rest where "js = q @ i # rest" "node mem (pte_ppn (mem p j)) q = Some t" "length rest = level"
      "rest = [] \<or> pte_is_leaf (mem t i)" by blast
    with table show ?thesis by (intro exI [of _ "j # q"] exI [of _ rest]) auto
  qed
qed simp

lemma leaf_walk_read: "agree mem mem' p is \<Longrightarrow> leaf_walk mem p is = Some (loc, level) \<Longrightarrow> read_pte mem' loc = read_pte mem loc"
  by (induction "is" arbitrary: p) (auto simp: Let_def table_not_leaf read_pte_def split: if_splits)

lemma indexes_length [simp]: "length (indexes vpn) = 3"
  by (simp add: indexes_def)

lemma indexes_split: "indexes vpn = q @ i # rest \<Longrightarrow> length q + length rest = 2"
  using arg_cong [of "indexes vpn" "q @ i # rest" length] unfolding indexes_length by simp

lemma mut_walk_indexes:
  "mut_walk mem 0 p [a, b, c] = map_option (\<lambda>t. (t, c)) (node mem p [a, b])"
  by (auto simp: Let_def table_not_leaf)

lemma find_pte_mut_node:
  "find_pte_mut w vpn =
    (if root_entry_is_shared (pw_pt w) (indexes vpn ! 0) then None
     else map_option (\<lambda>t. (t, vpn mod 512)) (node (pw_mem w) (root_ppn (pw_pt w)) (take 2 (indexes vpn))))"
  unfolding find_pte_mut_def indexes_def mut_walk_indexes by simp

lemma vpn_of_indexes: "vpn_ok vpn \<Longrightarrow> vpn = (indexes vpn ! 0 * 512 + indexes vpn ! 1) * 512 + indexes vpn ! 2"
proof -
  assume "vpn_ok vpn"
  then have "vpn div 512 div 512 < 512" by (simp add: vpn_ok_def div_mult2_eq [symmetric] less_mult_imp_div_less)
  then have "vpn div 512 div 512 mod 512 = vpn div 512 div 512" by simp
  then show ?thesis by (simp add: indexes_def)
qed

lemma indexes_inj: "vpn_ok vpn \<Longrightarrow> vpn_ok vpn' \<Longrightarrow> indexes vpn = indexes vpn' \<Longrightarrow> vpn = vpn'"
  using vpn_of_indexes [of vpn] vpn_of_indexes [of vpn'] by simp

abbreviation nd :: "'s pt_world \<Rightarrow> nat list \<Rightarrow> nat option" where
  "nd w \<equiv> node (pw_mem w) (root_ppn (pw_pt w))"

lemma pt_okD:
  assumes "pt_ok held w"
  shows "path_ok q \<Longrightarrow> path_ok q' \<Longrightarrow> nd w q = Some p \<Longrightarrow> nd w q' = Some p \<Longrightarrow> q = q'"
    and "path_ok q \<Longrightarrow> nd w q = Some p \<Longrightarrow> p \<in> held"
    and "distinct (pt_frames (pw_pt w))"
    and "set (pt_frames (pw_pt w)) = {p. \<exists>q. path_ok q \<and> nd w q = Some p \<and> (q = [] \<or> \<not> root_entry_is_shared (pw_pt w) (hd q))}"
    and "path_ok q \<Longrightarrow> nd w q = Some p \<Longrightarrow> i < 512 \<Longrightarrow> pte_is_leaf (pw_mem w p i) \<Longrightarrow>
      pte_ppn (pw_mem w p i) mod pages_per_leaf (2 - length q) = 0"
    and "length (shared_root_entries (pw_pt w)) = 8"
  using assms unfolding pt_ok_def Let_def by blast+

lemma path_ok_prefix: "list_all (\<lambda>i. i < 512) is \<Longrightarrow> length is \<le> 3 \<Longrightarrow> is = q @ i # rest \<Longrightarrow> path_ok q \<and> i < 512"
  by (auto simp: path_ok_def)

lemma indexes_small: "list_all (\<lambda>i. i < 512) (indexes vpn)"
  by (simp add: indexes_def)

lemma write_agree:
  assumes ok: "pt_ok held w" and q: "path_ok q" "nd w q = Some t"
    and "is": "list_all (\<lambda>i. i < 512) is" "length is \<le> 3" "\<And>rest. is \<noteq> q @ c # rest"
  shows "agree (pw_mem w) (write_pte (t, c) e (pw_mem w)) (root_ppn (pw_pt w)) is"
proof (rule agree_nodes)
  fix q' i rest t'
  assume split: "is = q' @ i # rest" and t': "nd w q' = Some t'"
  have q': "path_ok q'" using path_ok_prefix [OF "is"(1,2) split] by simp
  show "write_pte (t, c) e (pw_mem w) t' i = pw_mem w t' i"
  proof (cases "t' = t \<and> i = c")
    case True
    with pt_okD(1) [OF ok q' q(1) t'] q(2) have "q' = q" by simp
    with split True "is"(3) show ?thesis by blast
  qed (auto simp: write_pte_def)
qed

lemma leaf_walk_append: "node mem p q = Some t \<Longrightarrow> is \<noteq> [] \<Longrightarrow> leaf_walk mem p (q @ is) = leaf_walk mem t is"
  by (induction q arbitrary: p) (auto simp: Let_def table_not_leaf split: if_splits)

lemma translate_total:
  assumes "pt_ok held w"
  shows "\<exists>r. translate w vpn = Inr r"
proof (cases "find_leaf w vpn")
  case (Some res)
  obtain t i level where res: "res = ((t, i), level)" by (cases res) auto
  with Some have "leaf_walk (pw_mem w) (root_ppn (pw_pt w)) (indexes vpn) = Some ((t, i), level)" by (simp add: find_leaf_def)
  from leaf_walk_Some [OF this] obtain q rest where q: "indexes vpn = q @ i # rest" "nd w q = Some t" "length rest = level"
    "rest = [] \<or> pte_is_leaf (pw_mem w t i)" by blast
  have pq: "path_ok q" "i < 512" using path_ok_prefix [OF indexes_small _ q(1)] by simp_all
  have "level = 2 - length q" using indexes_split [OF q(1)] q(3) by simp
  with q(2-4) pt_okD(5) [OF assms pq(1) q(2) pq(2)] Some res show ?thesis
    by (auto simp: translate_def read_pte_def Let_def)
qed (simp add: translate_def)

lemma find_leaf_cong:
  assumes "agree (pw_mem w) (pw_mem w') (root_ppn (pw_pt w)) (indexes vpn)" and "root_ppn (pw_pt w') = root_ppn (pw_pt w)"
  shows "find_leaf w' vpn = find_leaf w vpn" and "find_leaf w vpn = Some (loc, level) \<Longrightarrow> read_pte (pw_mem w') loc = read_pte (pw_mem w) loc"
  using agree_leaf_walk [OF assms(1)] leaf_walk_read [OF assms(1)] assms(2) by (simp_all add: find_leaf_def)

lemma view_cong:
  assumes "agree (pw_mem w) (pw_mem w') (root_ppn (pw_pt w)) (indexes vpn)" and "root_ppn (pw_pt w') = root_ppn (pw_pt w)"
  shows "view w' vpn = view w vpn"
  using find_leaf_cong [OF assms] by (cases "find_leaf w vpn") (auto simp: view_def translate_def)

text \<open>Writing an entry of a table of the last level.\<close>

definition same_but_mem :: "'s pt_world \<Rightarrow> 's pt_world \<Rightarrow> bool" where
  "same_but_mem w w' \<longleftrightarrow> root_ppn (pw_pt w') = root_ppn (pw_pt w) \<and> pt_frames (pw_pt w') = pt_frames (pw_pt w) \<and>
     shared_root_entries (pw_pt w') = shared_root_entries (pw_pt w) \<and> pw_frames w' = pw_frames w"

lemma shared_cong: "shared_root_entries pt' = shared_root_entries pt \<Longrightarrow> root_entry_is_shared pt' = root_entry_is_shared pt"
  by (simp add: root_entry_is_shared_def fun_eq_iff)

lemma pt_ok_same_nodes:
  assumes ok: "pt_ok held w" and same: "same_but_mem w w'" and nodes: "\<And>q. path_ok q \<Longrightarrow> nd w' q = nd w q"
    and leaves: "\<And>q p i. path_ok q \<Longrightarrow> nd w q = Some p \<Longrightarrow> i < 512 \<Longrightarrow> pte_is_leaf (pw_mem w' p i) \<Longrightarrow>
      pte_ppn (pw_mem w' p i) mod pages_per_leaf (2 - length q) = 0"
  shows "pt_ok held w'"
proof -
  have set: "{p. \<exists>q. path_ok q \<and> nd w' q = Some p \<and> (q = [] \<or> \<not> root_entry_is_shared (pw_pt w') (hd q))} =
      {p. \<exists>q. path_ok q \<and> nd w q = Some p \<and> (q = [] \<or> \<not> root_entry_is_shared (pw_pt w) (hd q))}"
    using nodes shared_cong [of "pw_pt w'" "pw_pt w"] same by (auto simp: same_but_mem_def)
  show ?thesis unfolding pt_ok_def Let_def set
    using pt_okD [OF ok] nodes leaves same by (auto simp: same_but_mem_def)
qed

lemma put_leaf:
  assumes ok: "pt_ok held w" and t: "nd w q = Some t" and idx: "indexes vpn = q @ [c]" and vpn: "vpn_ok vpn"
    and w': "pw_mem w' = write_pte (t, c) e (pw_mem w)" "same_but_mem w w'"
  shows "pt_ok held w'" and "view w' = (view w)(vpn := e)" and "path_ok p \<Longrightarrow> nd w' p = nd w p"
proof -
  have "length q = 2" using indexes_split [OF idx] by simp
  with path_ok_prefix [OF indexes_small _ idx] have q: "path_ok q" "length q = 2" "c < 512" by simp_all
  have root: "root_ppn (pw_pt w') = root_ppn (pw_pt w)" using w'(2) by (simp add: same_but_mem_def)
  have nodes: "nd w' p = nd w p" if "path_ok p" for p
  proof -
    have "p \<noteq> q @ c # rest" for rest using that q(2) by (auto simp: path_ok_def)
    then have "agree (pw_mem w) (pw_mem w') (root_ppn (pw_pt w)) p"
      unfolding w'(1) by (intro write_agree [OF ok q(1) t]) (use that in \<open>simp_all add: path_ok_def\<close>)
    from agree_node [OF this] root show ?thesis by simp
  qed
  then show "path_ok p \<Longrightarrow> nd w' p = nd w p" by blast
  show "pt_ok held w'"
  proof (rule pt_ok_same_nodes [OF ok w'(2) nodes])
    fix p x i
    assume p: "path_ok p" "nd w p = Some x" "i < 512" "pte_is_leaf (pw_mem w' x i)"
    show "pte_ppn (pw_mem w' x i) mod pages_per_leaf (2 - length p) = 0"
    proof (cases "x = t \<and> i = c")
      case True
      with pt_okD(1) [OF ok p(1) q(1) p(2)] t have "p = q" by simp
      then show ?thesis by (simp add: pages_per_leaf_def q(2))
    next
      case False
      then have "pw_mem w' x i = pw_mem w x i" by (auto simp: w'(1) write_pte_def)
      with pt_okD(5) [OF ok p(1-3)] p(4) show ?thesis by simp
    qed
  qed
  show "view w' = (view w)(vpn := e)"
  proof
    fix v
    show "view w' v = ((view w)(vpn := e)) v"
    proof (cases "v = vpn")
      case True
      have "nd w' q = Some t" using nodes [OF q(1)] t by simp
      from leaf_walk_append [OF this, of "[c]"] have "find_leaf w' vpn = Some ((t, c), 0)"
        by (simp add: find_leaf_def idx)
      then show ?thesis using vpn True
        by (simp add: view_def translate_def read_pte_def w'(1) write_pte_def)
    next
      case False
      show ?thesis
      proof (cases "vpn_ok v")
        case True
        have "indexes v \<noteq> q @ c # rest" for rest
        proof
          assume "indexes v = q @ c # rest"
          moreover from indexes_split [OF this] have "rest = []" using q(2) by simp
          ultimately show False using indexes_inj [OF True vpn] idx False by simp
        qed
        then have "agree (pw_mem w) (pw_mem w') (root_ppn (pw_pt w)) (indexes v)"
          unfolding w'(1) by (intro write_agree [OF ok q(1) t indexes_small]) simp_all
        from view_cong [OF this root] False show ?thesis by simp
      qed (simp add: view_def False)
    qed
  qed
qed

text \<open>Hanging a new, empty table into an entry that is not valid.\<close>

definition add_table :: "nat \<Rightarrow> nat \<Rightarrow> nat \<Rightarrow> 's \<Rightarrow> 's pt_world \<Rightarrow> 's pt_world" where
  "add_table t i f a w = w\<lparr>pw_frames := a, pw_mem := write_pte (t, i) (pte_new_bits f PTE_V) (clear_page f (pw_mem w)),
     pw_pt := (pw_pt w)\<lparr>pt_frames := pt_frames (pw_pt w) @ [f]\<rparr>\<rparr>"

lemma add_table_simps:
  "root_ppn (pw_pt (add_table t i f a w)) = root_ppn (pw_pt w)"
  "shared_root_entries (pw_pt (add_table t i f a w)) = shared_root_entries (pw_pt w)"
  "pt_frames (pw_pt (add_table t i f a w)) = pt_frames (pw_pt w) @ [f]"
  "pw_frames (add_table t i f a w) = a"
  "root_entry_is_shared (pw_pt (add_table t i f a w)) = root_entry_is_shared (pw_pt w)"
  "leaves_4k (pw_pt (add_table t i f a w)) = leaves_4k (pw_pt w)"
  by (simp_all add: add_table_def root_entry_is_shared_def fun_eq_iff)

definition can_add :: "nat set \<Rightarrow> 's pt_world \<Rightarrow> nat list \<Rightarrow> nat \<Rightarrow> nat \<Rightarrow> nat \<Rightarrow> bool" where
  "can_add held w q t i f \<longleftrightarrow> pt_ok held w \<and> path_ok (q @ [i]) \<and> nd w q = Some t \<and> \<not> pte_is_valid (pw_mem w t i) \<and>
     f \<notin> held \<and> f < 2 ^ 44"

lemma can_addD:
  assumes "can_add held w q t i f"
  shows "pt_ok held w" and "path_ok (q @ [i])" "nd w q = Some t" and "\<not> pte_is_valid (pw_mem w t i)" and "f \<notin> held" "f < 2 ^ 44"
    and "path_ok q" "i < 512" "length q \<le> 1"
  using assms by (auto simp: can_add_def path_ok_def)

lemma add_table_fresh: "can_add held w q t i f \<Longrightarrow> path_ok p \<Longrightarrow> nd w p = Some x \<Longrightarrow> x \<noteq> f"
  using can_addD(1,5) pt_okD(2) by blast

lemma add_table_entry:
  assumes c: "can_add held w q t i f" and "path_ok p" and "nd w p = Some x"
  shows "pw_mem (add_table t i f a w) x j = (if x = t \<and> j = i then pte_new_bits f PTE_V else pw_mem w x j)"
  using add_table_fresh [OF assms] by (simp add: add_table_def write_pte_def clear_page_def)

lemma add_table_zero:
  assumes c: "can_add held w q t i f"
  shows "pw_mem (add_table t i f a w) f j = 0"
  using add_table_fresh [OF c can_addD(7,3) [OF c]] by (simp add: add_table_def write_pte_def clear_page_def)

lemma add_table_agree:
  assumes c: "can_add held w q t i f" and "list_all (\<lambda>i. i < 512) is" and "length is \<le> 3" and "\<And>rest. is \<noteq> q @ i # rest"
  shows "agree (pw_mem w) (pw_mem (add_table t i f a w)) (root_ppn (pw_pt w)) is"
proof (rule agree_nodes)
  fix p j rest x
  assume p: "is = p @ j # rest" and x: "nd w p = Some x"
  have pp: "path_ok p" using path_ok_prefix [OF assms(2,3) p] by simp
  have "\<not> (x = t \<and> j = i)" using pt_okD(1) [OF can_addD(1) [OF c] pp can_addD(7) [OF c] x] can_addD(3) [OF c] assms(4) p by blast
  then show "pw_mem (add_table t i f a w) x j = pw_mem w x j" unfolding add_table_entry [OF c pp x] by auto
qed

lemma add_table_self:
  assumes c: "can_add held w q t i f"
  shows "nd (add_table t i f a w) q = Some t"
proof -
  have "q \<noteq> q @ i # rest" for rest by simp
  from agree_node [OF add_table_agree [OF c _ _ this]] can_addD(3,7) [OF c] show ?thesis
    by (simp add: path_ok_def add_table_simps)
qed

lemma add_table_under:
  assumes c: "can_add held w q t i f"
  shows "nd (add_table t i f a w) (q @ i # rest) = (if rest = [] then Some f else None)"
proof -
  have "nd (add_table t i f a w) (q @ i # rest) = node (pw_mem (add_table t i f a w)) t (i # rest)"
    using add_table_self [OF c] by (simp add: node_append)
  also have "\<dots> = node (pw_mem (add_table t i f a w)) f rest"
    using add_table_entry [OF c can_addD(7,3) [OF c], of a i] new_table_pte(2) [OF can_addD(6) [OF c]] by (simp add: new_table_pte(1))
  also have "\<dots> = (if rest = [] then Some f else None)" by (cases rest) (simp_all add: add_table_zero [OF c])
  finally show ?thesis .
qed

lemma add_table_nodes:
  assumes c: "can_add held w q t i f" and "path_ok p"
  shows "nd (add_table t i f a w) p = (if p = q @ [i] then Some f else nd w p)"
proof (cases "\<exists>rest. p = q @ i # rest")
  case True
  then obtain rest where rest: "p = q @ i # rest" by blast
  have "nd w p = None" using can_addD(3,4) [OF c] rest by (simp add: node_append table_not_leaf)
  with add_table_under [OF c, of a rest] rest show ?thesis by auto
next
  case False
  then have "agree (pw_mem w) (pw_mem (add_table t i f a w)) (root_ppn (pw_pt w)) p"
    by (intro add_table_agree [OF c]) (use assms(2) in \<open>auto simp: path_ok_def\<close>)
  from agree_node [OF this] False show ?thesis by (auto simp: add_table_simps)
qed

lemma add_table_view:
  assumes c: "can_add held w q t i f"
  shows "view (add_table t i f a w) = view w"
proof
  fix v
  let ?w = "add_table t i f a w"
  show "view ?w v = view w v"
  proof (cases "\<exists>rest. indexes v = q @ i # rest")
    case True
    then obtain rest where rest: "indexes v = q @ i # rest" by blast
    have ne: "rest \<noteq> []" using indexes_split [OF rest] can_addD(9) [OF c] by auto
    have "find_leaf w v = None" unfolding find_leaf_def rest
      using can_addD(4) [OF c] ne leaf_valid by (auto simp: leaf_walk_append [OF can_addD(3) [OF c]] Let_def)
    then have "view w v = 0" by (simp add: view_def translate_def)
    moreover have "find_leaf ?w v = leaf_walk (pw_mem ?w) f rest"
      using leaf_walk_append [OF add_table_under [OF c, of a "[]", simplified], of rest] ne rest by (simp add: find_leaf_def)
    then have "view ?w v = 0" using ne
      by (cases rest) (auto simp: view_def translate_def read_pte_def add_table_zero [OF c] Let_def)
    ultimately show ?thesis by simp
  next
    case False
    then have "agree (pw_mem w) (pw_mem ?w) (root_ppn (pw_pt w)) (indexes v)"
      by (intro add_table_agree [OF c indexes_small]) simp_all
    from view_cong [OF this] show ?thesis by (simp add: add_table_simps)
  qed
qed

lemma add_table_ok:
  assumes c: "can_add held w q t i f" and "\<not> root_entry_is_shared (pw_pt w) (hd (q @ [i]))"
  shows "pt_ok (insert f held) (add_table t i f a w)"
proof -
  let ?w = "add_table t i f a w"
  note nodes = add_table_nodes [OF c] and fresh = add_table_fresh [OF c]
  note ok = can_addD(1) [OF c] and q = can_addD(2,3) [OF c] and invalid = can_addD(4) [OF c] and f = can_addD(5,6) [OF c]
  have "p = p'" if "path_ok p" "path_ok p'" "nd ?w p = Some x" "nd ?w p' = Some x" for p p' x
    using that nodes fresh pt_okD(1) [OF ok] by (auto split: if_splits)
  moreover have "x \<in> insert f held" if "path_ok p" "nd ?w p = Some x" for p x
    using that nodes pt_okD(2) [OF ok] by (auto split: if_splits)
  moreover have "set (pt_frames (pw_pt w)) \<subseteq> held" using pt_okD(2,4) [OF ok] by blast
  then have "distinct (pt_frames (pw_pt ?w))" using pt_okD(3) [OF ok] f(1) by (auto simp: add_table_simps)
  moreover have "set (pt_frames (pw_pt ?w)) = {p. \<exists>q. path_ok q \<and> nd ?w q = Some p \<and> (q = [] \<or> \<not> root_entry_is_shared (pw_pt ?w) (hd q))}"
  proof -
    have "nd w (q @ [i]) = None" using q(2) invalid by (simp add: node_append table_not_leaf)
    then have "(path_ok p \<and> nd ?w p = Some x \<and> (p = [] \<or> \<not> root_entry_is_shared (pw_pt w) (hd p))) \<longleftrightarrow>
       (p = q @ [i] \<and> x = f) \<or> (path_ok p \<and> nd w p = Some x \<and> (p = [] \<or> \<not> root_entry_is_shared (pw_pt w) (hd p)))" for p x
      using nodes [of p] q(1) assms(2) by (auto split: if_splits)
    then show ?thesis using pt_okD(4) [OF ok] by (auto simp: add_table_simps)
  qed
  moreover have "pte_ppn (pw_mem ?w x j) mod pages_per_leaf (2 - length p) = 0"
    if p: "path_ok p" "nd ?w p = Some x" "j < 512" "pte_is_leaf (pw_mem ?w x j)" for p x j
  proof (cases "p = q @ [i]")
    case True
    with p nodes [OF p(1)] have "x = f" by simp
    with p(4) add_table_zero [OF c, of a j] show ?thesis by simp
  next
    case False
    with p nodes [OF p(1)] have x: "nd w p = Some x" by simp
    with add_table_entry [OF c p(1) x, of a j] p(4) new_table_pte(1) [of f] have "pw_mem ?w x j = pw_mem w x j"
      by (auto simp: table_not_leaf split: if_splits)
    with pt_okD(5) [OF ok p(1) x p(3)] p(4) show ?thesis by simp
  qed
  moreover have "length (shared_root_entries (pw_pt ?w)) = 8" using pt_okD(6) [OF ok] by (simp add: add_table_simps)
  ultimately show ?thesis unfolding pt_ok_def Let_def by blast
qed

section \<open>Creating a path\<close>

text \<open>What a walk that creates tables does: nothing is lost, and only entries above the target change, from not valid to a table.\<close>

definition world_ok :: "('s \<Rightarrow> bool) \<Rightarrow> ('s \<Rightarrow> nat set) \<Rightarrow> 's pt_world \<Rightarrow> bool" where
  "world_ok src_ok held w \<longleftrightarrow> src_ok (pw_frames w) \<and> pt_ok (held (pw_frames w)) w"

definition grows :: "nat list \<Rightarrow> nat \<Rightarrow> 's pt_world \<Rightarrow> 's pt_world \<Rightarrow> bool" where
  "grows path level w w' \<longleftrightarrow>
     root_ppn (pw_pt w') = root_ppn (pw_pt w) \<and> shared_root_entries (pw_pt w') = shared_root_entries (pw_pt w) \<and>
     leaves_4k (pw_pt w') = leaves_4k (pw_pt w) \<and> view w' = view w \<and>
     (\<forall>q t. path_ok q \<and> nd w q = Some t \<longrightarrow> nd w' q = Some t) \<and>
     (\<forall>q t j. path_ok q \<and> nd w q = Some t \<and> pw_mem w' t j \<noteq> pw_mem w t j \<longrightarrow>
        (\<exists>rest. path = q @ j # rest \<and> level < length rest) \<and> \<not> pte_is_valid (pw_mem w t j))"

lemma grows_refl: "grows path level w w"
  by (simp add: grows_def)

lemma grows_frames: "grows path level w (w\<lparr>pw_frames := a\<rparr>)"
proof -
  have "view (w\<lparr>pw_frames := a\<rparr>) = view w" by (rule ext) (rule view_cong, auto intro: agree_nodes)
  then show ?thesis by (simp add: grows_def)
qed

lemma grows_trans:
  assumes "grows path level w w1" and "grows path level w1 w2"
  shows "grows path level w w2"
proof -
  note a = assms(1) [unfolded grows_def] and b = assms(2) [unfolded grows_def]
  have "(\<exists>rest. path = q @ j # rest \<and> level < length rest) \<and> \<not> pte_is_valid (pw_mem w t j)"
    if q: "path_ok q" "nd w q = Some t" "pw_mem w2 t j \<noteq> pw_mem w t j" for q t j
  proof (cases "pw_mem w1 t j = pw_mem w t j")
    case True
    with q a b show ?thesis by metis
  next
    case False
    with q a show ?thesis by blast
  qed
  with a b show ?thesis unfolding grows_def by (metis (no_types, lifting))
qed

lemma grows_add_table:
  assumes c: "can_add held w q t i f" and path: "path = q @ i # rest" and level: "level < length rest"
  shows "grows path level w (add_table t i f a w)"
proof -
  have nodes: "nd (add_table t i f a w) p = Some x" if "path_ok p" "nd w p = Some x" for p x
    using add_table_nodes [OF c that(1), of a] that can_addD(3,4) [OF c]
    by (auto simp: node_append table_not_leaf)
  have "(\<exists>rest. path = p @ j # rest \<and> level < length rest) \<and> \<not> pte_is_valid (pw_mem w x j)"
    if p: "path_ok p" "nd w p = Some x" "pw_mem (add_table t i f a w) x j \<noteq> pw_mem w x j" for p x j
  proof -
    from add_table_entry [OF c p(1,2), of a j] p(3) have x: "x = t" "j = i" by (auto split: if_splits)
    with pt_okD(1) [OF can_addD(1) [OF c] p(1) can_addD(7) [OF c] p(2)] can_addD(3) [OF c] have "p = q" by simp
    with x path level can_addD(4) [OF c] show ?thesis by auto
  qed
  with nodes add_table_view [OF c, of a] show ?thesis
    by (auto simp: grows_def add_table_simps)
qed

context frame_source
begin

lemma create_walk_ok:
  assumes "world_ok src_ok held w" and "nd w q = Some ppn" and "path = q @ is" and "length path = 3" and "list_all (\<lambda>i. i < 512) path"
    and "\<not> root_entry_is_shared (pw_pt w) (hd path)" and "level < length is"
    and "create_walk fa level ppn is w = (r, w')"
  shows "world_ok src_ok held w' \<and> grows path level w w' \<and>
    (\<forall>t i. r = Some (t, i) \<longrightarrow> nd w' (take (2 - level) path) = Some t \<and> i = path ! (2 - level))"
  using assms
proof (induction "is" arbitrary: q ppn w)
  case (Cons i "is")
  note prems = Cons.prems
  have len: "length q = 2 - length is" "length is \<le> 2" using prems(3,4) by auto
  have qi: "path_ok q" "i < 512" using path_ok_prefix [OF prems(5) _ prems(3)] prems(4) by simp_all
  show ?case
  proof (cases "length is = level")
    case True
    then have "take (2 - level) path = q" "path ! (2 - level) = i" using prems(3) len nth_append_length [of q i "is"] by simp_all
    with True prems(1,2,8) show ?thesis by (auto simp: grows_refl)
  next
    case not_target: False
    let ?pte = "pw_mem w ppn i"
    have lev: "level < length is" using not_target prems(7) by simp
    have path_qi: "path_ok (q @ [i])" using qi len lev by (auto simp: path_ok_def)
    consider (leaf) "pte_is_leaf ?pte" | (table) "pte_is_table ?pte" | (invalid) "\<not> pte_is_valid ?pte"
      by (auto simp: table_not_leaf)
    then show ?thesis
    proof cases
      case leaf
      with not_target prems(1,8) show ?thesis by (auto simp: grows_refl)
    next
      case table
      then have walk: "create_walk fa level (pte_ppn ?pte) is w = (r, w')" using not_target prems(8) by (auto simp: table_not_leaf)
      have nd: "nd w (q @ [i]) = Some (pte_ppn ?pte)" using prems(2) table by (simp add: node_snoc)
      show ?thesis by (rule Cons.IH [OF prems(1) nd _ prems(4-6) lev walk]) (simp add: prems(3))
    next
      case invalid
      obtain fr a where fa: "fa (pw_frames w) = (fr, a)" by fastforce
      note inv0 = prems(1) [unfolded world_ok_def]
      have noleaf: "\<not> pte_is_leaf ?pte" using invalid leaf_valid by blast
      show ?thesis
      proof (cases fr)
        case None
        from alloc_none [OF conjunct1 [OF inv0], of a] fa None have a: "src_ok a" "held a = held (pw_frames w)" by simp_all
        have "pt_ok (held a) (w\<lparr>pw_frames := a\<rparr>)" using inv0 a by (simp add: pt_ok_def)
        moreover have "r = None" "w' = w\<lparr>pw_frames := a\<rparr>" using None fa invalid noleaf not_target prems(8) by (simp_all add: Let_def)
        ultimately show ?thesis using a by (simp add: world_ok_def grows_frames)
      next
        case (Some f)
        from alloc_some [OF conjunct1 [OF inv0], of f a] fa Some
        have a: "src_ok a" "f \<notin> held (pw_frames w)" "held a = insert f (held (pw_frames w))" by simp_all
        have f: "f < 2 ^ 44" using held_small [OF a(1), of f] a(3) by simp
        have c: "can_add (held (pw_frames w)) w q ppn i f"
          using inv0 path_qi prems(2) invalid a(2) f by (simp add: can_add_def)
        let ?w = "add_table ppn i f a w"
        have walk: "create_walk fa level f is ?w = (r, w')"
          using prems(8) not_target invalid noleaf fa Some new_table_pte(2) [OF f] by (simp add: add_table_def Let_def)
        have "hd path = hd (q @ [i])" using prems(3) by (cases q) simp_all
        with add_table_ok [OF c, of a] prems(6) a have ok: "world_ok src_ok held ?w"
          by (simp add: world_ok_def add_table_simps)
        have g: "grows path level w ?w" by (rule grows_add_table [OF c prems(3) lev])
        have nd: "nd ?w (q @ [i]) = Some f" using add_table_nodes [OF c path_qi, of a] by simp
        have "\<not> root_entry_is_shared (pw_pt ?w) (hd path)" using prems(6) by (simp add: add_table_simps)
        from Cons.IH [OF ok nd _ prems(4,5) this lev walk] prems(3) grows_trans [OF g] show ?thesis by auto
      qed
    qed
  qed
qed simp

lemma create_path:
  assumes "world_ok src_ok held w" and "vpn_ok vpn" and "find_pte_create fa vpn w = (r, w')"
  shows "world_ok src_ok held w'" and "grows (indexes vpn) 0 w w'"
    and "r = Some loc \<Longrightarrow> find_pte_mut w' vpn = Some loc"
proof -
  let ?shared = "root_entry_is_shared (pw_pt w) (indexes vpn ! 0)"
  have walk: "world_ok src_ok held w' \<and> grows (indexes vpn) 0 w w' \<and>
    (\<forall>t i. r = Some (t, i) \<longrightarrow> nd w' (take 2 (indexes vpn)) = Some t \<and> i = indexes vpn ! 2)" if "\<not> ?shared"
  proof -
    have "create_walk fa 0 (root_ppn (pw_pt w)) (indexes vpn) w = (r, w')" using assms(3) that by (simp add: find_pte_create_def)
    from create_walk_ok [OF assms(1) _ _ _ indexes_small _ _ this, of "[]"] that show ?thesis by (simp add: hd_conv_nth indexes_def)
  qed
  have shared: "r = None \<and> w' = w" if ?shared using assms(3) that by (simp add: find_pte_create_def)
  show "world_ok src_ok held w'" using walk shared assms(1) by (cases ?shared) simp_all
  show g: "grows (indexes vpn) 0 w w'" using walk shared by (cases ?shared) (simp_all add: grows_refl)
  assume r: "r = Some loc"
  with shared have "\<not> ?shared" by auto
  moreover from this g have "\<not> root_entry_is_shared (pw_pt w') (indexes vpn ! 0)"
    using shared_cong [of "pw_pt w'" "pw_pt w"] by (simp add: grows_def)
  moreover have "indexes vpn ! 2 = vpn mod 512" by (simp add: indexes_def)
  ultimately show "find_pte_mut w' vpn = Some loc" using walk r by (cases loc) (simp add: find_pte_mut_node)
qed

end

section \<open>Operations on one entry\<close>

lemma slot:
  assumes "pt_ok held w" and "vpn_ok vpn" and "find_pte_mut w vpn = Some loc"
  shows "read_pte (pw_mem w) loc = view w vpn"
    and "pw_mem w' = write_pte loc e (pw_mem w) \<Longrightarrow> same_but_mem w w' \<Longrightarrow> pt_ok held w'"
    and "pw_mem w' = write_pte loc e (pw_mem w) \<Longrightarrow> same_but_mem w w' \<Longrightarrow> view w' = (view w)(vpn := e)"
    and "pw_mem w' = write_pte loc e (pw_mem w) \<Longrightarrow> same_but_mem w w' \<Longrightarrow> find_pte_mut w' v = find_pte_mut w v"
proof -
  have idx: "indexes vpn = take 2 (indexes vpn) @ [vpn mod 512]" by (simp add: indexes_def)
  obtain t where t: "nd w (take 2 (indexes vpn)) = Some t" and loc: "loc = (t, vpn mod 512)"
    using assms(3) by (auto simp: find_pte_mut_node split: if_splits)
  from leaf_walk_append [OF t, of "[vpn mod 512]"] have "find_leaf w vpn = Some ((t, vpn mod 512), 0)"
    unfolding find_leaf_def idx [symmetric] by simp
  then show "read_pte (pw_mem w) loc = view w vpn" using assms(2) by (simp add: view_def translate_def loc)
  note put = put_leaf [OF assms(1) t idx assms(2), of w' e, folded loc]
  show "pw_mem w' = write_pte loc e (pw_mem w) \<Longrightarrow> same_but_mem w w' \<Longrightarrow> pt_ok held w'" by (rule put(1))
  show "pw_mem w' = write_pte loc e (pw_mem w) \<Longrightarrow> same_but_mem w w' \<Longrightarrow> view w' = (view w)(vpn := e)" by (rule put(2))
  have p: "path_ok (take 2 (indexes v))" by (simp add: path_ok_def indexes_def)
  assume w': "pw_mem w' = write_pte loc e (pw_mem w)" "same_but_mem w w'"
  from put(3) [OF this p] w'(2) shared_cong [of "pw_pt w'" "pw_pt w"] show "find_pte_mut w' v = find_pte_mut w v"
    by (simp add: find_pte_mut_node same_but_mem_def)
qed

lemma put_pte_simps [simp]:
  "pw_mem (put_pte loc e w) = write_pte loc e (pw_mem w)" "same_but_mem w (put_pte loc e w)"
  "same_but_mem w (put_pte loc e w\<lparr>pw_pt := pw_pt w\<lparr>leaves_4k := n\<rparr>\<rparr>)"
  "pw_mem (put_pte loc e w\<lparr>pw_pt := pt\<rparr>) = write_pte loc e (pw_mem w)"
  by (simp_all add: put_pte_def same_but_mem_def)

text \<open>
  The operations as one type, what each does to the entry of its page, and when it is refused. The specification says
  nothing of tables: it is about entries alone.
\<close>

datatype pt_op =
    Map nat nat usize
  | Prepare nat
  | Unmap nat
  | Remap nat usize
  | Clear nat
  | ClearCreate nat
  | MarkCow nat
  | RestoreWrite nat
  | Replace nat nat usize
  | ReplaceTombstone nat nat nat usize

fun op_vpn :: "pt_op \<Rightarrow> nat" where
  "op_vpn (Map vpn _ _) = vpn"
| "op_vpn (Prepare vpn) = vpn"
| "op_vpn (Unmap vpn) = vpn"
| "op_vpn (Remap vpn _) = vpn"
| "op_vpn (Clear vpn) = vpn"
| "op_vpn (ClearCreate vpn) = vpn"
| "op_vpn (MarkCow vpn) = vpn"
| "op_vpn (RestoreWrite vpn) = vpn"
| "op_vpn (Replace vpn _ _) = vpn"
| "op_vpn (ReplaceTombstone vpn _ _ _) = vpn"

fun run_op :: "'s frame_alloc_fn \<Rightarrow> pt_op \<Rightarrow> 's pt_world \<Rightarrow> pt_panic + bool \<times> 's pt_world" where
  "run_op fa (Map vpn ppn flags) w = Inr (try_map fa vpn ppn flags w)"
| "run_op fa (Prepare vpn) w = Inr (prepare_empty_leaf_path fa vpn w)"
| "run_op fa (Unmap vpn) w = (case unmap vpn w of Inl p \<Rightarrow> Inl p | Inr w' \<Rightarrow> Inr (True, w'))"
| "run_op fa (Remap vpn flags) w = Inr (remap_flags vpn flags w)"
| "run_op fa (Clear vpn) w = Inr (clear_leaf vpn w)"
| "run_op fa (ClearCreate vpn) w = Inr (clear_leaf_create_path fa vpn w)"
| "run_op fa (MarkCow vpn) w = Inr (mark_cow_readonly vpn w)"
| "run_op fa (RestoreWrite vpn) w = Inr (restore_write_clear_cow vpn w)"
| "run_op fa (Replace vpn ppn flags) w = Inr (replace_leaf vpn ppn flags w)"
| "run_op fa (ReplaceTombstone vpn expected ppn flags) w = Inr (replace_leaf_or_tombstone vpn expected ppn flags w)"

text \<open>The precondition on the entry, and the new entry.\<close>

fun op_guard :: "pt_op \<Rightarrow> usize \<Rightarrow> bool" where
  "op_guard (Map _ _ _) e \<longleftrightarrow> e = 0"
| "op_guard (Prepare _) e \<longleftrightarrow> e = 0"
| "op_guard (Unmap _) e \<longleftrightarrow> e \<noteq> 0"
| "op_guard (Remap _ _) e \<longleftrightarrow> e \<noteq> 0"
| "op_guard (Clear _) e \<longleftrightarrow> True"
| "op_guard (ClearCreate _) e \<longleftrightarrow> True"
| "op_guard (MarkCow _) e \<longleftrightarrow> pte_is_valid e"
| "op_guard (RestoreWrite _) e \<longleftrightarrow> pte_is_valid e \<and> pte_cow e"
| "op_guard (Replace _ _ _) e \<longleftrightarrow> pte_is_valid e"
| "op_guard (ReplaceTombstone _ expected _ _) e \<longleftrightarrow> e \<noteq> 0 \<and> pte_ppn e = expected"

fun op_entry :: "pt_op \<Rightarrow> usize \<Rightarrow> usize" where
  "op_entry (Map _ ppn flags) e = pte_new_bits ppn (normalized_leaf_flags flags)"
| "op_entry (Prepare _) e = e"
| "op_entry (Unmap _) e = 0"
| "op_entry (Remap _ flags) e = pte_new_bits (pte_ppn e) (normalized_leaf_flags flags)"
| "op_entry (Clear _) e = 0"
| "op_entry (ClearCreate _) e = 0"
| "op_entry (MarkCow _) e =
     (if pte_cow e \<and> \<not> pte_writable e then e else pte_new_bits (pte_ppn e) ((pte_flags e AND NOT PTE_W) OR PTE_COW))"
| "op_entry (RestoreWrite _) e = pte_new_bits (pte_ppn e) ((pte_flags e AND NOT PTE_COW) OR PTE_W)"
| "op_entry (Replace _ ppn flags) e = pte_new_bits ppn (normalized_leaf_flags flags)"
| "op_entry (ReplaceTombstone _ _ ppn flags) e = pte_new_bits ppn (normalized_leaf_flags flags)"

definition has_path :: "'s pt_world \<Rightarrow> nat \<Rightarrow> bool" where
  "has_path w vpn \<longleftrightarrow> find_pte_mut w vpn \<noteq> None"

section \<open>The operations refine updates of the view\<close>

lemma create_existing: "find_pte_mut w vpn = Some loc \<Longrightarrow> find_pte_create fa vpn w = (Some loc, w)"
  by (auto simp: find_pte_mut_def find_pte_create_def indexes_def Let_def split: if_splits)

lemma valid_nonzero: "pte_is_valid e \<Longrightarrow> e \<noteq> 0"
  by auto

lemma put_refines:
  assumes "world_ok src held w" and "vpn_ok vpn" and "find_pte_mut w vpn = Some loc"
    and "pw_mem w' = write_pte loc e (pw_mem w)" and "same_but_mem w w'"
  shows "world_ok src held w' \<and> view w' = (view w)(vpn := e) \<and> has_path w' = has_path w"
proof -
  have ok: "pt_ok (held (pw_frames w)) w" "src (pw_frames w)" using assms(1) by (simp_all add: world_ok_def)
  note s = slot [OF ok(1) assms(2,3)]
  have "pw_frames w' = pw_frames w" using assms(5) by (simp add: same_but_mem_def)
  with s(2) [OF assms(4,5)] s(3) [OF assms(4,5)] s(4) [OF assms(4,5)] ok(2) show ?thesis
    by (simp add: world_ok_def has_path_def fun_eq_iff)
qed

text \<open>What a step may do: the first argument says whether it succeeded, the second what it does to the entry.\<close>

definition op_ok ::
  "('s \<Rightarrow> bool) \<Rightarrow> ('s \<Rightarrow> nat set) \<Rightarrow> nat \<Rightarrow> bool \<Rightarrow> (usize \<Rightarrow> usize) \<Rightarrow> 's pt_world \<Rightarrow> 's pt_world \<Rightarrow> bool" where
  "op_ok src held vpn b f w w' \<longleftrightarrow> world_ok src held w' \<and>
     view w' = (if b then (view w)(vpn := f (view w vpn)) else view w) \<and>
     (b \<longrightarrow> has_path w' vpn) \<and> (\<forall>u. has_path w u \<longrightarrow> has_path w' u) \<and>
     shared_root_entries (pw_pt w') = shared_root_entries (pw_pt w)"

lemma op_ok_put:
  assumes "world_ok src held w" and "vpn_ok vpn" and "find_pte_mut w vpn = Some loc"
    and "pw_mem w' = write_pte loc (f (read_pte (pw_mem w) loc)) (pw_mem w)" and "same_but_mem w w'"
  shows "op_ok src held vpn True f w w'"
proof -
  have "read_pte (pw_mem w) loc = view w vpn" using slot(1) [OF _ assms(2,3)] assms(1) by (auto simp: world_ok_def)
  with put_refines [OF assms(1-3,4,5)] assms(3,5) show ?thesis by (simp add: op_ok_def same_but_mem_def) (simp add: has_path_def)
qed

lemma op_ok_same: "world_ok src held w \<Longrightarrow> (b \<longrightarrow> has_path w vpn \<and> f (view w vpn) = view w vpn) \<Longrightarrow> op_ok src held vpn b f w w"
  by (auto simp: op_ok_def fun_upd_idem)

lemma op_ok_after:
  assumes "op_ok src held vpn b f w1 w'" and "view w1 = view w" and "\<And>u. has_path w u \<Longrightarrow> has_path w1 u"
    and "shared_root_entries (pw_pt w1) = shared_root_entries (pw_pt w)"
  shows "op_ok src held vpn b f w w'"
  using assms by (simp add: op_ok_def)

context frame_source
begin

lemma create_paths:
  assumes "world_ok src_ok held w" and "vpn_ok vpn" and "find_pte_create fa vpn w = (r, w')" and "has_path w u"
  shows "has_path w' u"
proof -
  note g = create_path(2) [OF assms(1-3), unfolded grows_def]
  have p: "path_ok (take 2 (indexes u))" by (simp add: path_ok_def indexes_def)
  from g have "root_entry_is_shared (pw_pt w') = root_entry_is_shared (pw_pt w)" by (intro shared_cong) simp
  with g p assms(4) show ?thesis unfolding has_path_def find_pte_mut_node by (auto split: if_splits)
qed

lemma run_create:
  assumes "world_ok src_ok held w" and "vpn_ok vpn"
    and "run = (case find_pte_create fa vpn w of (None, w1) \<Rightarrow> (False, w1) | (Some loc, w1) \<Rightarrow> act loc w1)"
    and act: "\<And>loc w1. world_ok src_ok held w1 \<Longrightarrow> find_pte_mut w1 vpn = Some loc \<Longrightarrow>
      fst (act loc w1) = guard (view w1 vpn) \<and> op_ok src_ok held vpn (fst (act loc w1)) f w1 (snd (act loc w1))"
  shows "op_ok src_ok held vpn (fst run) f w (snd run) \<and> (fst run \<longrightarrow> guard (view w vpn)) \<and>
    (has_path w vpn \<and> guard (view w vpn) \<longrightarrow> fst run)"
proof -
  obtain r w1 where c: "find_pte_create fa vpn w = (r, w1)" by fastforce
  note p = create_path [OF assms(1,2) c] and keeps = create_paths [OF assms(1,2) c]
  have view: "view w1 = view w" and shared: "shared_root_entries (pw_pt w1) = shared_root_entries (pw_pt w)"
    using p(2) by (simp_all add: grows_def)
  show ?thesis
  proof (cases r)
    case None
    then have "\<not> has_path w vpn" using create_existing [of w vpn _ fa] c by (auto simp: has_path_def)
    with None c assms(3) p(1) view keeps shared show ?thesis by (simp add: op_ok_def)
  next
    case (Some loc)
    with act [OF p(1) p(3) [OF Some]] assms(3) c view show ?thesis
      using op_ok_after [OF _ view keeps shared] by auto
  qed
qed

lemma run_mut:
  assumes "world_ok src_ok held w" and "vpn_ok vpn"
    and "run = (case find_pte_mut w vpn of None \<Rightarrow> (False, w) | Some loc \<Rightarrow> act loc)"
    and act: "\<And>loc. find_pte_mut w vpn = Some loc \<Longrightarrow>
      fst (act loc) = guard (view w vpn) \<and> op_ok src_ok held vpn (fst (act loc)) f w (snd (act loc))"
  shows "op_ok src_ok held vpn (fst run) f w (snd run) \<and> (fst run \<longrightarrow> guard (view w vpn)) \<and>
    (has_path w vpn \<and> guard (view w vpn) \<longrightarrow> fst run)"
  using assms by (cases "find_pte_mut w vpn") (auto simp: has_path_def op_ok_same)

lemma slot_read: "world_ok src_ok held w \<Longrightarrow> vpn_ok vpn \<Longrightarrow> find_pte_mut w vpn = Some loc \<Longrightarrow> read_pte (pw_mem w) loc = view w vpn"
  unfolding world_ok_def by (blast intro: slot(1))

lemma slot_path: "find_pte_mut w vpn = Some loc \<Longrightarrow> has_path w vpn"
  by (simp add: has_path_def)

lemma try_map_ok:
  assumes "world_ok src_ok held w" and "vpn_ok vpn" and "try_map fa vpn ppn flags w = (b, w')"
  shows "op_ok src_ok held vpn b (op_entry (Map vpn ppn flags)) w w' \<and> (b \<longrightarrow> view w vpn = 0) \<and>
    (has_path w vpn \<and> view w vpn = 0 \<longrightarrow> b)"
proof -
  let ?run = "try_map fa vpn ppn flags w"
  have "op_ok src_ok held vpn (fst ?run) (op_entry (Map vpn ppn flags)) w (snd ?run) \<and> (fst ?run \<longrightarrow> (\<lambda>e. e = 0) (view w vpn)) \<and>
      (has_path w vpn \<and> (\<lambda>e. e = 0) (view w vpn) \<longrightarrow> fst ?run)"
    by (rule run_create [OF assms(1,2) try_map_def])
       (auto simp: slot_read [OF _ assms(2)] slot_path op_ok_same Let_def valid_nonzero assms(1,2) intro: op_ok_put)
  with assms(3) show ?thesis by simp
qed

lemma prepare_ok:
  assumes "world_ok src_ok held w" and "vpn_ok vpn" and "prepare_empty_leaf_path fa vpn w = (b, w')"
  shows "op_ok src_ok held vpn b (\<lambda>e. e) w w' \<and> (b \<longrightarrow> view w vpn = 0) \<and> (has_path w vpn \<and> view w vpn = 0 \<longrightarrow> b)"
proof -
  let ?run = "prepare_empty_leaf_path fa vpn w"
  have "op_ok src_ok held vpn (fst ?run) (\<lambda>e. e) w (snd ?run) \<and> (fst ?run \<longrightarrow> (\<lambda>e. e = 0) (view w vpn)) \<and>
      (has_path w vpn \<and> (\<lambda>e. e = 0) (view w vpn) \<longrightarrow> fst ?run)"
    by (rule run_create [OF assms(1,2) prepare_empty_leaf_path_def])
       (auto simp: slot_read [OF _ assms(2)] slot_path op_ok_same Let_def valid_nonzero assms(1,2) intro: op_ok_put)
  with assms(3) show ?thesis by simp
qed

lemma clear_create_ok:
  assumes "world_ok src_ok held w" and "vpn_ok vpn" and "clear_leaf_create_path fa vpn w = (b, w')"
  shows "op_ok src_ok held vpn b (\<lambda>e. 0) w w' \<and> (has_path w vpn \<longrightarrow> b)"
proof -
  let ?run = "clear_leaf_create_path fa vpn w"
  have "op_ok src_ok held vpn (fst ?run) (\<lambda>e. 0) w (snd ?run) \<and> (fst ?run \<longrightarrow> (\<lambda>e. True) (view w vpn)) \<and>
      (has_path w vpn \<and> (\<lambda>e. True) (view w vpn) \<longrightarrow> fst ?run)"
    by (rule run_create [OF assms(1,2) clear_leaf_create_path_def])
       (auto simp: slot_read [OF _ assms(2)] slot_path op_ok_same Let_def valid_nonzero assms(1,2) intro: op_ok_put)
  with assms(3) show ?thesis by simp
qed

lemma remap_ok:
  assumes "world_ok src_ok held w" and "vpn_ok vpn" and "remap_flags vpn flags w = (b, w')"
  shows "op_ok src_ok held vpn b (op_entry (Remap vpn flags)) w w' \<and> (b \<longrightarrow> view w vpn \<noteq> 0) \<and>
    (has_path w vpn \<and> view w vpn \<noteq> 0 \<longrightarrow> b)"
proof -
  let ?run = "remap_flags vpn flags w"
  have "op_ok src_ok held vpn (fst ?run) (op_entry (Remap vpn flags)) w (snd ?run) \<and> (fst ?run \<longrightarrow> (\<lambda>e. e \<noteq> 0) (view w vpn)) \<and>
      (has_path w vpn \<and> (\<lambda>e. e \<noteq> 0) (view w vpn) \<longrightarrow> fst ?run)"
    by (rule run_mut [OF assms(1,2) remap_flags_def])
       (auto simp: slot_read [OF _ assms(2)] slot_path op_ok_same Let_def valid_nonzero assms(1,2) intro: op_ok_put)
  with assms(3) show ?thesis by simp
qed

lemma clear_ok:
  assumes "world_ok src_ok held w" and "vpn_ok vpn" and "clear_leaf vpn w = (b, w')"
  shows "op_ok src_ok held vpn b (\<lambda>e. 0) w w' \<and> (has_path w vpn \<longrightarrow> b)"
proof -
  let ?run = "clear_leaf vpn w"
  have "op_ok src_ok held vpn (fst ?run) (\<lambda>e. 0) w (snd ?run) \<and> (fst ?run \<longrightarrow> (\<lambda>e. True) (view w vpn)) \<and>
      (has_path w vpn \<and> (\<lambda>e. True) (view w vpn) \<longrightarrow> fst ?run)"
    by (rule run_mut [OF assms(1,2) clear_leaf_def])
       (auto simp: slot_read [OF _ assms(2)] slot_path op_ok_same Let_def valid_nonzero assms(1,2) intro: op_ok_put)
  with assms(3) show ?thesis by simp
qed

lemma mark_cow_ok:
  assumes "world_ok src_ok held w" and "vpn_ok vpn" and "mark_cow_readonly vpn w = (b, w')"
  shows "op_ok src_ok held vpn b (op_entry (MarkCow vpn)) w w' \<and> (b \<longrightarrow> pte_is_valid (view w vpn)) \<and>
    (has_path w vpn \<and> pte_is_valid (view w vpn) \<longrightarrow> b)"
proof -
  let ?run = "mark_cow_readonly vpn w"
  have "op_ok src_ok held vpn (fst ?run) (op_entry (MarkCow vpn)) w (snd ?run) \<and> (fst ?run \<longrightarrow> (pte_is_valid) (view w vpn)) \<and>
      (has_path w vpn \<and> (pte_is_valid) (view w vpn) \<longrightarrow> fst ?run)"
    by (rule run_mut [OF assms(1,2) mark_cow_readonly_def])
       (auto simp: slot_read [OF _ assms(2)] slot_path op_ok_same Let_def valid_nonzero assms(1,2) intro: op_ok_put)
  with assms(3) show ?thesis by simp
qed

lemma restore_write_ok:
  assumes "world_ok src_ok held w" and "vpn_ok vpn" and "restore_write_clear_cow vpn w = (b, w')"
  shows "op_ok src_ok held vpn b (op_entry (RestoreWrite vpn)) w w' \<and> (b \<longrightarrow> pte_is_valid (view w vpn) \<and> pte_cow (view w vpn)) \<and>
    (has_path w vpn \<and> pte_is_valid (view w vpn) \<and> pte_cow (view w vpn) \<longrightarrow> b)"
proof -
  let ?run = "restore_write_clear_cow vpn w"
  have "op_ok src_ok held vpn (fst ?run) (op_entry (RestoreWrite vpn)) w (snd ?run) \<and> (fst ?run \<longrightarrow> (\<lambda>e. pte_is_valid e \<and> pte_cow e) (view w vpn)) \<and>
      (has_path w vpn \<and> (\<lambda>e. pte_is_valid e \<and> pte_cow e) (view w vpn) \<longrightarrow> fst ?run)"
    by (rule run_mut [OF assms(1,2) restore_write_clear_cow_def])
       (auto simp: slot_read [OF _ assms(2)] slot_path op_ok_same Let_def valid_nonzero assms(1,2) intro: op_ok_put)
  then show ?thesis unfolding assms(3) fst_conv snd_conv .
qed

lemma replace_ok:
  assumes "world_ok src_ok held w" and "vpn_ok vpn" and "replace_leaf vpn ppn flags w = (b, w')"
  shows "op_ok src_ok held vpn b (op_entry (Replace vpn ppn flags)) w w' \<and> (b \<longrightarrow> pte_is_valid (view w vpn)) \<and>
    (has_path w vpn \<and> pte_is_valid (view w vpn) \<longrightarrow> b)"
proof -
  let ?run = "replace_leaf vpn ppn flags w"
  have "op_ok src_ok held vpn (fst ?run) (op_entry (Replace vpn ppn flags)) w (snd ?run) \<and> (fst ?run \<longrightarrow> (pte_is_valid) (view w vpn)) \<and>
      (has_path w vpn \<and> (pte_is_valid) (view w vpn) \<longrightarrow> fst ?run)"
    by (rule run_mut [OF assms(1,2) replace_leaf_def])
       (auto simp: slot_read [OF _ assms(2)] slot_path op_ok_same Let_def valid_nonzero assms(1,2) intro: op_ok_put)
  with assms(3) show ?thesis by simp
qed

lemma replace_tombstone_ok:
  assumes "world_ok src_ok held w" and "vpn_ok vpn" and "replace_leaf_or_tombstone vpn expected ppn flags w = (b, w')"
  shows "op_ok src_ok held vpn b (op_entry (ReplaceTombstone vpn expected ppn flags)) w w' \<and>
    (b \<longrightarrow> view w vpn \<noteq> 0 \<and> pte_ppn (view w vpn) = expected) \<and>
    (has_path w vpn \<and> view w vpn \<noteq> 0 \<and> pte_ppn (view w vpn) = expected \<longrightarrow> b)"
proof -
  let ?run = "replace_leaf_or_tombstone vpn expected ppn flags w"
  have "op_ok src_ok held vpn (fst ?run) (op_entry (ReplaceTombstone vpn expected ppn flags)) w (snd ?run) \<and> (fst ?run \<longrightarrow> (\<lambda>e. e \<noteq> 0 \<and> pte_ppn e = expected) (view w vpn)) \<and>
      (has_path w vpn \<and> (\<lambda>e. e \<noteq> 0 \<and> pte_ppn e = expected) (view w vpn) \<longrightarrow> fst ?run)"
    by (rule run_mut [where guard = "\<lambda>e. e \<noteq> 0 \<and> pte_ppn e = expected" and f = "op_entry (ReplaceTombstone vpn expected ppn flags)", OF assms(1,2) replace_leaf_or_tombstone_def])
       (auto simp: slot_read [OF _ assms(2)] slot_path op_ok_same Let_def valid_nonzero assms(1,2) intro: op_ok_put)
  then show ?thesis unfolding assms(3) fst_conv snd_conv .
qed

lemma unmap_ok:
  assumes "world_ok src_ok held w" and "vpn_ok vpn"
  shows "if has_path w vpn \<and> view w vpn \<noteq> 0 then \<exists>w'. unmap vpn w = Inr w' \<and> op_ok src_ok held vpn True (\<lambda>e. 0) w w'
    else \<exists>p. unmap vpn w = Inl p"
proof (cases "find_pte_mut w vpn")
  case (Some loc)
  then have "unmap vpn w = (if view w vpn = 0 then Inl (UnmapInvalid vpn) else Inr (put_pte loc 0 w))"
    using slot_read [OF assms Some] by (auto simp: unmap_def Let_def)
  with op_ok_put [OF assms Some, of "put_pte loc 0 w" "\<lambda>e. 0"] Some show ?thesis by (auto simp: has_path_def)
qed (simp add: unmap_def has_path_def)

lemma op_entry_fun:
  "op_entry (Prepare vpn) = (\<lambda>e. e)" "op_entry (Unmap vpn) = (\<lambda>e. 0)" "op_entry (Clear vpn) = (\<lambda>e. 0)"
  "op_entry (ClearCreate vpn) = (\<lambda>e. 0)"
  by (simp_all add: fun_eq_iff)

lemma run_op_refines:
  assumes "world_ok src_ok held w" and "vpn_ok (op_vpn oper)"
  shows "case run_op fa oper w of
      Inl _ \<Rightarrow> oper = Unmap (op_vpn oper) \<and> \<not> (has_path w (op_vpn oper) \<and> view w (op_vpn oper) \<noteq> 0)
    | Inr (b, w') \<Rightarrow> op_ok src_ok held (op_vpn oper) b (op_entry oper) w w' \<and>
        (b \<longrightarrow> op_guard oper (view w (op_vpn oper))) \<and>
        (has_path w (op_vpn oper) \<and> op_guard oper (view w (op_vpn oper)) \<longrightarrow> b)"
proof (cases oper)
  case (Map vpn ppn flags)
  obtain b w' where "try_map fa vpn ppn flags w = (b, w')" by fastforce
  with try_map_ok [OF assms(1) _ this] assms(2) Map show ?thesis by (simp del: op_entry.simps add: op_entry_fun)
next
  case (Prepare vpn)
  obtain b w' where "prepare_empty_leaf_path fa vpn w = (b, w')" by fastforce
  with prepare_ok [OF assms(1) _ this] assms(2) Prepare show ?thesis by (simp del: op_entry.simps add: op_entry_fun)
next
  case (Unmap vpn)
  with unmap_ok [OF assms(1), of vpn] assms(2) show ?thesis by (auto simp: op_entry_fun split: if_splits)
next
  case (Remap vpn flags)
  obtain b w' where "remap_flags vpn flags w = (b, w')" by fastforce
  with remap_ok [OF assms(1) _ this] assms(2) Remap show ?thesis by (simp del: op_entry.simps add: op_entry_fun)
next
  case (Clear vpn)
  obtain b w' where "clear_leaf vpn w = (b, w')" by fastforce
  with clear_ok [OF assms(1) _ this] assms(2) Clear show ?thesis by (simp del: op_entry.simps add: op_entry_fun)
next
  case (ClearCreate vpn)
  obtain b w' where "clear_leaf_create_path fa vpn w = (b, w')" by fastforce
  with clear_create_ok [OF assms(1) _ this] assms(2) ClearCreate show ?thesis by (simp del: op_entry.simps add: op_entry_fun)
next
  case (MarkCow vpn)
  obtain b w' where "mark_cow_readonly vpn w = (b, w')" by fastforce
  with mark_cow_ok [OF assms(1) _ this] assms(2) MarkCow show ?thesis by (simp del: op_entry.simps add: op_entry_fun)
next
  case (RestoreWrite vpn)
  obtain b w' where r: "restore_write_clear_cow vpn w = (b, w')" by fastforce
  show ?thesis using restore_write_ok [OF assms(1) _ r] assms(2)
    unfolding RestoreWrite run_op.simps op_vpn.simps op_guard.simps r sum.case prod.case by blast
next
  case (Replace vpn ppn flags)
  obtain b w' where "replace_leaf vpn ppn flags w = (b, w')" by fastforce
  with replace_ok [OF assms(1) _ this] assms(2) Replace show ?thesis by (simp del: op_entry.simps add: op_entry_fun)
next
  case (ReplaceTombstone vpn expected ppn flags)
  obtain b w' where r: "replace_leaf_or_tombstone vpn expected ppn flags w = (b, w')" by fastforce
  show ?thesis using replace_tombstone_ok [OF assms(1) _ r] assms(2)
    unfolding ReplaceTombstone run_op.simps op_vpn.simps op_guard.simps r sum.case prod.case by blast
qed

end

section \<open>Reachable page tables\<close>

context frame_source
begin

lemma try_map_leaves:
  assumes "world_ok src_ok held w" and "vpn_ok vpn" and "try_map fa vpn ppn flags w = (True, w')"
  shows "leaves_4k (pw_pt w') = leaves_4k (pw_pt w) + 1"
proof -
  obtain r w1 where c: "find_pte_create fa vpn w = (r, w1)" by fastforce
  with create_path(2) [OF assms(1,2) c] assms(3) show ?thesis
    by (auto simp: try_map_def grows_def split: option.splits if_splits)
qed

end

lemma unmap_pt: "unmap vpn w = Inr w' \<Longrightarrow> pw_pt w' = pw_pt w"
  by (auto simp: unmap_def put_pte_def Let_def split: option.splits if_splits)

lemma normalized_valid:
  assumes "flags_ok flags" and "intersects_flags flags (PTE_R OR PTE_W OR PTE_X)"
  shows "pte_is_valid (pte_new_bits ppn (normalized_leaf_flags flags))"
proof -
  have "bit (normalized_leaf_flags flags) 0" using assms(2)
    by (auto simp: normalized_leaf_flags_def Let_def pte_consts bit_simps)
  then have "normalized_leaf_flags flags AND 1 = 1" by (simp add: and_one_eq odd_iff_mod_2_eq_one bit_0)
  with pte_new_flags [OF flags_ok_normalized [OF assms(1)]] show ?thesis
    by (simp add: pte_is_valid_def contains_flags_def PTE_V_def)
qed

lemma page_offset: "unat (va AND mask 12 :: usize) = unat va mod 4096"
proof -
  have "va AND mask 12 = take_bit 12 va" by (simp only: take_bit_eq_mask)
  then show ?thesis by (simp only: unsigned_take_bit_eq) (simp add: take_bit_eq_mod)
qed

lemma view_translate: "pt_ok held w \<Longrightarrow> view w vpn \<noteq> 0 \<Longrightarrow> translate w vpn = Inr (Some (view w vpn))"
  using translate_total [of held w vpn] by (auto simp: view_def split: if_splits option.splits)

lemma new_table_ok:
  assumes "src a'" and "ppn \<in> held a'"
  shows "world_ok src held \<lparr>pw_pt = from_root_frame ppn asid, pw_mem = clear_page ppn mem, pw_frames = a'\<rparr> \<and>
    view \<lparr>pw_pt = from_root_frame ppn asid, pw_mem = clear_page ppn mem, pw_frames = a'\<rparr> = (\<lambda>_. 0)"
proof -
  let ?w = "\<lparr>pw_pt = from_root_frame ppn asid, pw_mem = clear_page ppn mem, pw_frames = a'\<rparr>"
  have zero: "clear_page ppn mem ppn i = 0" for i by (simp add: clear_page_def)
  have node: "nd ?w q = (if q = [] then Some ppn else None)" for q
    by (cases q) (simp_all add: from_root_frame_def zero)
  have "pt_ok (held a') ?w" unfolding pt_ok_def Let_def node
    using assms by (auto simp: zero from_root_frame_def path_ok_def split: if_splits)
  moreover have "find_leaf ?w v = None" for v by (simp add: find_leaf_def indexes_def from_root_frame_def zero Let_def)
  then have "view ?w = (\<lambda>_. 0)" by (simp add: view_def translate_def fun_eq_iff)
  ultimately show ?thesis using assms by (simp add: world_ok_def)
qed

inductive pt_reachable :: "nat option \<Rightarrow> frame_state pt_world \<Rightarrow> bool" for cpu where
  fresh: "frames_ok cpu a \<Longrightarrow> pt_try_new (frame_alloc cpu) asid mem a = Some w \<Longrightarrow> pt_reachable cpu w"
| step: "pt_reachable cpu w \<Longrightarrow> vpn_ok (op_vpn oper) \<Longrightarrow> run_op (frame_alloc cpu) oper w = Inr (b, w') \<Longrightarrow> pt_reachable cpu w'"

abbreviation frames_world_ok :: "nat option \<Rightarrow> frame_state pt_world \<Rightarrow> bool" where
  "frames_world_ok cpu \<equiv> world_ok (frames_ok cpu) held_pages"

lemma pt_reachable_ok: "pt_reachable cpu w \<Longrightarrow> frames_world_ok cpu w"
proof (induction rule: pt_reachable.induct)
  case (fresh a asid mem w)
  then obtain ppn a' where fa: "frame_alloc cpu a = (Some ppn, a')"
    and w: "w = \<lparr>pw_pt = from_root_frame ppn asid, pw_mem = clear_page ppn mem, pw_frames = a'\<rparr>"
    by (auto simp: pt_try_new_def split: prod.splits option.splits)
  from frames.alloc_some [OF fresh(1) fa] new_table_ok [of "frames_ok cpu" a' ppn held_pages asid mem] w show ?case by simp
next
  case (step w oper b w')
  with frames.run_op_refines [of cpu w oper] show ?case by (simp add: op_ok_def)
qed

section \<open>Properties\<close>

text \<open>A page table on the machine with four free pages, and the page 5 of it mapped to frame 9.\<close>

definition demo_frames :: "nat \<Rightarrow> frame_state" where
  "demo_frames n = demo_boot\<lparr>frame_alloc_st := (frame_alloc_st demo_boot)\<lparr>sfa_current := n + 1\<rparr>,
     frame_refs := (frame_refs demo_boot)\<lparr>frc_counts := replicate n 1 @ replicate (4 - n) 0\<rparr>\<rparr>"

lemma demo_frames_alloc: "n < 4 \<Longrightarrow> frame_alloc None (demo_frames n) = (Some (n + 1), demo_frames (n + 1))"
proof -
  assume n: "n < 4"
  have c: "canonicalize_phys_page_num (n + 1) = n + 1"
  proof -
    have "take_bit 44 (n + 1) = n + 1" using n by (simp add: take_bit_nat_eq_self)
    then show ?thesis unfolding canonicalize_phys_page_num_def mask_eq_exp_minus_1 [symmetric] by (simp only: take_bit_eq_mask)
  qed
  have upd: "(replicate n 1 @ replicate (4 - n) 0)[n := 1 :: nat] = replicate (n + 1) 1 @ replicate (4 - (n + 1)) 0"
    and at: "(replicate n 1 @ replicate (4 - n) 0) ! n = (0 :: nat)"
    using n by (auto simp: less_Suc_eq numeral_eq_Suc)
  from n c upd at show ?thesis
    by (simp add: frame_alloc_def alloc_frame_ppn_def demo_frames_def demo_boot_eq sfa_alloc_def claim_page_def
        frc_claim_free_def frc_slot_def vec_pop_def)
qed

lemma demo_frames_0: "demo_frames 0 = demo_boot"
  by (simp add: demo_frames_def demo_boot_eq numeral_eq_Suc)

definition demo_pt :: "frame_state pt_world" where
  "demo_pt = \<lparr>pw_pt = from_root_frame 1 7, pw_mem = clear_page 1 (\<lambda>_ _. 0), pw_frames = demo_frames 1\<rparr>"

lemma demo_pt_reachable: "pt_reachable None demo_pt"
proof -
  have ok: "frames_ok None (demo_frames 0)"
    using frame_reachable_inv [OF demo_reachable(1)] by (simp add: frames_ok_def valid_cpu_def demo_frames_0)
  have "pt_try_new (frame_alloc None) 7 (\<lambda>_ _. 0) (demo_frames 0) = Some demo_pt"
    using demo_frames_alloc [of 0] by (simp add: pt_try_new_def demo_pt_def)
  from pt_reachable.fresh [OF ok this] show ?thesis .
qed

lemma demo_pt_maps: "\<exists>w. try_map (frame_alloc None) 5 9 6 demo_pt = (True, w)"
proof -
  have "pte_ppn (pte_new_bits 2 PTE_V) = 2" "pte_ppn (pte_new_bits 3 PTE_V) = 3" by (simp_all add: new_table_pte(2))
  moreover have "frame_alloc None (demo_frames 1) = (Some 2, demo_frames 2)" "frame_alloc None (demo_frames 2) = (Some 3, demo_frames 3)"
    using demo_frames_alloc [of 1] demo_frames_alloc [of 2] by (simp_all add: numeral_eq_Suc)
  moreover have "\<not> root_entry_is_shared (from_root_frame 1 7) 0" by (simp add: root_entry_is_shared_def from_root_frame_def)
  ultimately show ?thesis
    by (simp add: try_map_def find_pte_create_def demo_pt_def indexes_def from_root_frame_def clear_page_def write_pte_def
        read_pte_def Let_def)
qed

text \<open>C34.
  A page table in tables of three levels is a map from virtual pages to entries. Each operation either does not succeed and
  changes no entry, even when it had to create tables or ran out of frames on the way, or changes exactly the entry of its
  page as specified; it succeeds whenever the tables exist and its condition on the entry holds. Only unmapping can panic,
  on a page without an entry.
\<close>

theorem page_table_refines_map:
  assumes "pt_reachable cpu w" and "vpn_ok (op_vpn oper)" and "v = op_vpn oper"
  shows "case run_op (frame_alloc cpu) oper w of
      Inl _ \<Rightarrow> oper = Unmap v \<and> \<not> (has_path w v \<and> view w v \<noteq> 0)
    | Inr (b, w') \<Rightarrow> pt_reachable cpu w' \<and>
        view w' = (if b then (view w)(v := op_entry oper (view w v)) else view w) \<and>
        (b \<longrightarrow> op_guard oper (view w v) \<and> has_path w' v) \<and> (has_path w v \<and> op_guard oper (view w v) \<longrightarrow> b)"
proof (cases "run_op (frame_alloc cpu) oper w")
  case (Inr r)
  obtain b w' where r: "r = (b, w')" by fastforce
  with Inr have run: "run_op (frame_alloc cpu) oper w = Inr (b, w')" by simp
  from frames.run_op_refines [OF pt_reachable_ok [OF assms(1)] assms(2)] show ?thesis
    unfolding run sum.case prod.case op_ok_def assms(3) using pt_reachable.step [OF assms(1,2) run] by blast
qed (use frames.run_op_refines [OF pt_reachable_ok [OF assms(1)] assms(2)] assms(3) in simp)

theorem page_table_refines_map_witness:
  "\<exists>w'. pt_reachable None demo_pt \<and> run_op (frame_alloc None) (Map 5 9 6) demo_pt = Inr (True, w') \<and>
     view w' = (view demo_pt)(5 := pte_new_bits 9 (normalized_leaf_flags 6)) \<and> has_path w' 5"
proof -
  obtain w' where w': "try_map (frame_alloc None) 5 9 6 demo_pt = (True, w')" using demo_pt_maps by blast
  with page_table_refines_map [OF demo_pt_reachable, of "Map 5 9 6" 5] demo_pt_reachable show ?thesis
    by (auto simp: vpn_ok_def)
qed

text \<open>C35.
  Mapping and translating are inverse: after a page is mapped, a translation of an address in it gives the frame and the
  address within, with the flags that were asked for made valid; unmapping then restores the map. The counter of leaves is
  not restored: it counts the mappings that were ever made.
\<close>

theorem map_translate_unmap:
  assumes "pt_reachable cpu w" and "unat va < 512 * 512 * 512 * 4096" and "vpn = unat va div 4096"
    and "ppn < 2 ^ 44" and "flags_ok flags" and "intersects_flags flags (PTE_R OR PTE_W OR PTE_X)"
    and "try_map (frame_alloc cpu) vpn ppn flags w = (True, w')"
  shows "translate_va w' va = Inr (Some (ppn * 4096 + unat va mod 4096)) \<and>
    pte_flags (view w' vpn) = normalized_leaf_flags flags \<and>
    (\<exists>w''. unmap vpn w' = Inr w'' \<and> view w'' = view w \<and> leaves_4k (pw_pt w'') = leaves_4k (pw_pt w) + 1)"
proof -
  note ok = pt_reachable_ok [OF assms(1)]
  have vpn: "vpn_ok vpn" using assms(2,3) by (simp add: vpn_ok_def less_mult_imp_div_less)
  let ?e = "pte_new_bits ppn (normalized_leaf_flags flags)"
  have m: "frames_world_ok cpu w'" "view w' = (view w)(vpn := ?e)" "has_path w' vpn" "view w vpn = 0"
    using frames.try_map_ok [OF ok vpn assms(7)] by (simp_all add: op_ok_def)
  have e: "?e \<noteq> 0" using normalized_valid [OF assms(5,6), of ppn] by auto
  have "translate w' vpn = Inr (Some ?e)" using view_translate [of _ w' vpn] m e by (auto simp: world_ok_def)
  moreover have "pte_ppn ?e = ppn" by (rule pte_new_ppn [OF flags_ok_normalized [OF assms(5)] assms(4)])
  moreover have "canonicalize_phys_addr (ppn * 4096 + unat va mod 4096) = ppn * 4096 + unat va mod 4096"
  proof -
    have "ppn * 4096 + unat va mod 4096 < 2 ^ 44 * 4096" using assms(4) mod_less_divisor [of 4096 "unat va"] by simp
    then have "take_bit 56 (ppn * 4096 + unat va mod 4096) = ppn * 4096 + unat va mod 4096" by (simp add: take_bit_nat_eq_self)
    then show ?thesis unfolding canonicalize_phys_addr_def mask_eq_exp_minus_1 [symmetric] by (simp only: take_bit_eq_mask)
  qed
  ultimately have "translate_va w' va = Inr (Some (ppn * 4096 + unat va mod 4096))"
    by (simp add: translate_va_def assms(3) page_offset)
  moreover obtain w'' where w'': "unmap vpn w' = Inr w''" "op_ok (frames_ok cpu) held_pages vpn True (\<lambda>e. 0) w' w''"
    using frames.unmap_ok [OF m(1) vpn] m(2,3) e by auto
  have "view w'' = view w" using w''(2) m(2,4) by (auto simp: op_ok_def)
  moreover have "pte_flags (view w' vpn) = normalized_leaf_flags flags"
    using m(2) pte_new_flags [OF flags_ok_normalized [OF assms(5)]] by simp
  ultimately show ?thesis using w''(1) unmap_pt [OF w''(1)] frames.try_map_leaves [OF ok vpn assms(7)] by auto
qed

theorem map_translate_unmap_witness:
  "\<exists>w' w''. pt_reachable None demo_pt \<and> try_map (frame_alloc None) 5 9 6 demo_pt = (True, w') \<and>
     translate_va w' 20500 = Inr (Some 36884) \<and> unmap 5 w' = Inr w'' \<and> view w'' = view demo_pt \<and>
     leaves_4k (pw_pt w'') = 1"
proof -
  obtain w' where w': "try_map (frame_alloc None) 5 9 6 demo_pt = (True, w')" using demo_pt_maps by blast
  have "flags_ok 6" "intersects_flags 6 (PTE_R OR PTE_W OR PTE_X)"
    by (simp_all add: flags_ok_def intersects_flags_def pte_consts)
  from map_translate_unmap [OF demo_pt_reachable, of 20500 5 9 6 w', OF _ _ _ this w'] demo_pt_reachable w'
  show ?thesis by (auto simp: demo_pt_def from_root_frame_def)
qed

end
