(* ===== verification/Vm_Area.thy ===== *)
theory Vm_Area
  imports Page_Table
begin

text \<open>
  The areas of an address space (\<^verbatim>\<open>mm/area.rs\<close>): a range of virtual pages with a permission, the frames it owns, and for
  mappings of files and shared memory segments the data that says where a page comes from. Splitting an area, taking its
  pages out of the page table, and changing its permission.

  A frame tracker is the number of its frame. Dropping it, giving back a reference to a page of the page cache, and attaching
  and detaching a shared memory segment are events, collected in the order in which the code causes them. The contents of a
  frame are a function from frames to bytes. The kernel is built in the release profile, in which the addition of two
  \<^verbatim>\<open>usize\<close> wraps around.
\<close>

unbundle bit_operations_syntax

section \<open>Areas\<close>

definition PERM_R :: usize where "PERM_R = 2"
definition PERM_W :: usize where "PERM_W = 4"
definition PERM_X :: usize where "PERM_X = 8"
definition PERM_U :: usize where "PERM_U = 16"

text \<open>\<^verbatim>\<open>PTEFlags::from_bits_truncate\<close> of the bits of a permission.\<close>

definition perm_flags :: "usize \<Rightarrow> usize" where
  "perm_flags perm = perm AND PTE_ALL"

definition wrapping_add :: "nat \<Rightarrow> nat \<Rightarrow> nat" where
  "wrapping_add a b = (a + b) mod 2 ^ 64"

datatype map_type = Identical | Framed

record page_cache_key =
  key_id :: "nat \<times> nat"
  key_generation :: nat
  key_page_index :: nat

record exec_segment_info =
  es_page_offset :: nat
  es_file_offset :: nat
  es_file_size :: nat
  es_mem_size :: nat

record mmap_info =
  mi_shared :: bool
  mi_writable :: bool
  mi_grow_down :: bool
  mi_reported_perm :: usize
  mi_len :: nat
  mi_file_offset :: nat
  mi_file_size :: nat
  mi_backing_file :: "file_id option"
  mi_page_cache_id :: "(nat \<times> nat) option"
  mi_page_cache_pages :: "(nat, page_cache_key) btree"
  mi_exec_segment :: "exec_segment_info option"

record shm_area_info =
  si_shmid :: nat
  si_len :: nat
  si_offset :: nat
  si_pages :: "(nat, nat) btree"

record map_area =
  ma_start :: nat
  ma_end :: nat
  data_frames :: "(nat, nat) btree"
  ma_type :: map_type
  map_perm :: usize
  ma_mmap :: "mmap_info option"
  ma_shm :: "shm_area_info option"

record retired_user_pages =
  rt_frames :: "nat list"
  rt_page_cache_refs :: "page_cache_key list"
  rt_shm_attachments :: "nat list"
  rt_pte_cleared :: bool

text \<open>
  What the code does outside the address space: a range of pages is invalidated in the translation buffers of all CPUs, a frame
  tracker is dropped, and so on.
\<close>

datatype vm_event =
    TlbRange nat nat
  | TlbFresh nat nat
  | TlbAll
  | SyncInstructions
  | FreeFrame nat
  | CacheDecRef page_cache_key
  | ShmDetach nat
  | ShmRetain nat
  | FileDecShared file_id

datatype vm_panic =
    PtPanic pt_panic
  | BadRange nat nat
  | EmptyInvalidation nat nat
  | LeafChanged nat
  | AreaOwned nat
  | NotResident nat
  | AreaIndex nat
  | LostFrame nat

definition retired_new :: retired_user_pages where
  "retired_new = \<lparr>rt_frames = [], rt_page_cache_refs = [], rt_shm_attachments = [], rt_pte_cleared = False\<rparr>"

definition retired_release :: "retired_user_pages \<Rightarrow> vm_event list" where
  "retired_release rt = map FreeFrame (rt_frames rt) @ map CacheDecRef (rt_page_cache_refs rt) @
     map ShmDetach (rt_shm_attachments rt)"

definition shm_area_info_new :: "nat \<Rightarrow> nat \<Rightarrow> shm_area_info" where
  "shm_area_info_new shmid len = \<lparr>si_shmid = shmid, si_len = len, si_offset = 0, si_pages = []\<rparr>"

text \<open>The two halves of a split, left half first.\<close>

definition shm_split_off :: "shm_area_info \<Rightarrow> nat \<Rightarrow> nat \<Rightarrow> shm_area_info \<times> shm_area_info" where
  "shm_split_off i off at =
     (case bt_split_off at (si_pages i) of (l, r) \<Rightarrow>
       (i\<lparr>si_pages := l, si_len := min (si_len i) off\<rparr>,
        \<lparr>si_shmid = si_shmid i, si_len = si_len i - off, si_offset = wrapping_add (si_offset i) off, si_pages = r\<rparr>))"

definition exec_split_off :: "exec_segment_info \<Rightarrow> nat \<Rightarrow> exec_segment_info \<times> exec_segment_info" where
  "exec_split_off i off =
     (let consumed_mem = min (off - es_page_offset i) (es_mem_size i);
          consumed_file = min (off - es_page_offset i) (es_file_size i)
      in (i\<lparr>es_mem_size := consumed_mem, es_file_size := consumed_file\<rparr>,
          \<lparr>es_page_offset = es_page_offset i - off, es_file_offset = saturating_add (es_file_offset i) consumed_file,
           es_file_size = es_file_size i - consumed_file, es_mem_size = es_mem_size i - consumed_mem\<rparr>))"

definition mmap_split_off :: "mmap_info \<Rightarrow> nat \<Rightarrow> nat \<Rightarrow> mmap_info \<times> mmap_info" where
  "mmap_split_off i off at =
     (case bt_split_off at (mi_page_cache_pages i) of (l, r) \<Rightarrow>
       (i\<lparr>mi_page_cache_pages := l, mi_len := min (mi_len i) off,
          mi_exec_segment := map_option (\<lambda>x. fst (exec_split_off x off)) (mi_exec_segment i)\<rparr>,
        i\<lparr>mi_page_cache_pages := r, mi_len := mi_len i - off, mi_file_offset := wrapping_add (mi_file_offset i) off,
          mi_exec_segment := map_option (\<lambda>x. snd (exec_split_off x off)) (mi_exec_segment i)\<rparr>))"

text \<open>\<^verbatim>\<open>VPNRange::new\<close> panics on a range that ends before it starts.\<close>

definition va_floor :: "nat \<Rightarrow> nat" where
  "va_floor addr = unat (canonicalize_virt_addr (of_nat addr)) div 4096"

definition va_ceil :: "nat \<Rightarrow> nat" where
  "va_ceil addr =
     (let va = unat (canonicalize_virt_addr (of_nat addr)) in if va = 0 then 0 else (va - 1 + 4096) div 4096)"

definition area_new :: "nat \<Rightarrow> nat \<Rightarrow> map_type \<Rightarrow> usize \<Rightarrow> vm_panic + map_area" where
  "area_new start_va end_va mt perm =
     (if va_ceil end_va < va_floor start_va then Inl (BadRange (va_floor start_va) (va_ceil end_va))
      else Inr \<lparr>ma_start = va_floor start_va, ma_end = va_ceil end_va, data_frames = [], ma_type = mt, map_perm = perm,
        ma_mmap = None, ma_shm = None\<rparr>)"

definition is_mmap :: "map_area \<Rightarrow> bool" where
  "is_mmap a \<longleftrightarrow> ma_mmap a \<noteq> None"

definition is_shm :: "map_area \<Rightarrow> bool" where
  "is_shm a \<longleftrightarrow> ma_shm a \<noteq> None"

definition is_executable :: "map_area \<Rightarrow> bool" where
  "is_executable a \<longleftrightarrow> contains_flags (map_perm a) PERM_X"

definition from_another :: "map_area \<Rightarrow> map_area" where
  "from_another a = \<lparr>ma_start = ma_start a, ma_end = ma_end a, data_frames = [], ma_type = ma_type a, map_perm = map_perm a,
     ma_mmap = map_option (\<lambda>i. i\<lparr>mi_page_cache_pages := []\<rparr>) (ma_mmap a),
     ma_shm = map_option (\<lambda>i. i\<lparr>si_pages := []\<rparr>) (ma_shm a)\<rparr>"

definition area_split_off :: "map_area \<Rightarrow> nat \<Rightarrow> (map_area \<times> map_area \<times> vm_event list) option" where
  "area_split_off a at =
     (if at \<le> ma_start a \<or> ma_end a \<le> at then None
      else
        (let off = (at - ma_start a) * 4096;
             mm = map_option (\<lambda>i. mmap_split_off i off at) (ma_mmap a);
             sh = map_option (\<lambda>i. shm_split_off i off at) (ma_shm a);
             fr = bt_split_off at (data_frames a)
         in Some (a\<lparr>ma_end := at, data_frames := fst fr, ma_mmap := map_option fst mm, ma_shm := map_option fst sh\<rparr>,
                  a\<lparr>ma_start := at, data_frames := snd fr, ma_mmap := map_option snd mm, ma_shm := map_option snd sh\<rparr>,
                  case ma_shm a of None \<Rightarrow> [] | Some i \<Rightarrow> [ShmRetain (si_shmid i)])))"

section \<open>The state that areas work on\<close>

text \<open>The page table with its memory and the frame allocator, the contents of the frames, and the events so far.\<close>

record 's vm =
  vw_pt :: "'s pt_world"
  vw_bytes :: "nat \<Rightarrow> nat \<Rightarrow> u8"
  vw_log :: "vm_event list"

definition log_events :: "vm_event list \<Rightarrow> 's vm \<Rightarrow> 's vm" where
  "log_events es v = v\<lparr>vw_log := vw_log v @ es\<rparr>"

definition alloc_uninit :: "'s frame_alloc_fn \<Rightarrow> 's vm \<Rightarrow> nat option \<times> 's vm" where
  "alloc_uninit fa v =
     (case fa (pw_frames (vw_pt v)) of (r, a) \<Rightarrow> (r, v\<lparr>vw_pt := (vw_pt v)\<lparr>pw_frames := a\<rparr>\<rparr>))"

definition alloc_zeroed :: "'s frame_alloc_fn \<Rightarrow> 's vm \<Rightarrow> nat option \<times> 's vm" where
  "alloc_zeroed fa v =
     (case alloc_uninit fa v of
        (None, v1) \<Rightarrow> (None, v1)
      | (Some f, v1) \<Rightarrow> (Some f, v1\<lparr>vw_bytes := (vw_bytes v1)(f := (\<lambda>_. 0))\<rparr>))"

definition copy_page :: "nat \<Rightarrow> nat \<Rightarrow> 's vm \<Rightarrow> 's vm" where
  "copy_page dst src v = v\<lparr>vw_bytes := (vw_bytes v)(dst := vw_bytes v src)\<rparr>"

text \<open>The bits of the entry that \<^verbatim>\<open>translate\<close> finds, 0 where it finds none.\<close>

definition translate_bits :: "'s vm \<Rightarrow> nat \<Rightarrow> vm_panic + usize" where
  "translate_bits v vpn =
     map_err PtPanic (map_sum id (\<lambda>r. case r of None \<Rightarrow> 0 | Some e \<Rightarrow> e) (translate (vw_pt v) vpn))"

definition on_pt :: "('s pt_world \<Rightarrow> bool \<times> 's pt_world) \<Rightarrow> 's vm \<Rightarrow> bool \<times> 's vm" where
  "on_pt f v = (case f (vw_pt v) of (b, w) \<Rightarrow> (b, v\<lparr>vw_pt := w\<rparr>))"

section \<open>Taking pages out of the page table\<close>

definition clear_resident_pte :: "nat \<Rightarrow> 's vm \<times> retired_user_pages \<Rightarrow> vm_panic + 's vm \<times> retired_user_pages" where
  "clear_resident_pte vpn s =
     (case s of (v, rt) \<Rightarrow>
        and_then (translate_bits v vpn) (\<lambda>bits.
          if bits \<noteq> 0
          then and_then (map_err PtPanic (unmap vpn (vw_pt v))) (\<lambda>w.
                 Inr (v\<lparr>vw_pt := w\<rparr>, rt\<lparr>rt_pte_cleared := True\<rparr>))
          else Inr (v, rt)))"

fun retire_frames :: "(nat \<times> nat) list \<Rightarrow> 's vm \<times> retired_user_pages \<Rightarrow> vm_panic + 's vm \<times> retired_user_pages" where
  "retire_frames [] s = Inr s"
| "retire_frames ((vpn, frame) # fs) s =
     and_then (clear_resident_pte vpn s) (\<lambda>(v, rt). retire_frames fs (v, rt\<lparr>rt_frames := rt_frames rt @ [frame]\<rparr>))"

fun retire_cache :: "(nat \<times> page_cache_key) list \<Rightarrow> 's vm \<times> retired_user_pages \<Rightarrow> vm_panic + 's vm \<times> retired_user_pages" where
  "retire_cache [] s = Inr s"
| "retire_cache ((vpn, key) # ks) s =
     and_then (clear_resident_pte vpn s)
       (\<lambda>(v, rt). retire_cache ks (v, rt\<lparr>rt_page_cache_refs := rt_page_cache_refs rt @ [key]\<rparr>))"

fun clear_ptes :: "nat list \<Rightarrow> 's vm \<times> retired_user_pages \<Rightarrow> vm_panic + 's vm \<times> retired_user_pages" where
  "clear_ptes [] s = Inr s"
| "clear_ptes (vpn # vpns) s = and_then (clear_resident_pte vpn s) (clear_ptes vpns)"

definition retire_shm :: "shm_area_info option \<Rightarrow> 's vm \<times> retired_user_pages \<Rightarrow> vm_panic + 's vm \<times> retired_user_pages" where
  "retire_shm i s =
     (case i of
        None \<Rightarrow> Inr s
      | Some info \<Rightarrow>
          and_then (clear_ptes (map fst (si_pages info)) s)
            (\<lambda>(v, rt). Inr (v, rt\<lparr>rt_shm_attachments := rt_shm_attachments rt @ [si_shmid info]\<rparr>)))"

definition cache_pages :: "map_area \<Rightarrow> (nat, page_cache_key) btree" where
  "cache_pages a = (case ma_mmap a of None \<Rightarrow> [] | Some i \<Rightarrow> mi_page_cache_pages i)"

definition set_cache_pages :: "(nat, page_cache_key) btree \<Rightarrow> map_area \<Rightarrow> map_area" where
  "set_cache_pages m a = a\<lparr>ma_mmap := map_option (\<lambda>i. i\<lparr>mi_page_cache_pages := m\<rparr>) (ma_mmap a)\<rparr>"

definition unmap_resident_deferred ::
  "map_area \<Rightarrow> 's vm \<times> retired_user_pages \<Rightarrow> vm_panic + map_area \<times> 's vm \<times> retired_user_pages" where
  "unmap_resident_deferred a s =
     and_then (retire_frames (data_frames a) s) (\<lambda>s1.
     and_then (retire_cache (cache_pages a) s1) (\<lambda>s2.
     and_then (retire_shm (ma_shm a) s2) (\<lambda>s3.
     and_then
       (if ma_type a = Identical
        then and_then (map_err PtPanic (unmap_kernel_identical_range (ma_start a) (ma_end a) (vw_pt (fst s3)))) (\<lambda>(b, w).
               Inr ((fst s3)\<lparr>vw_pt := w\<rparr>, if b then (snd s3)\<lparr>rt_pte_cleared := True\<rparr> else snd s3))
        else Inr s3) (\<lambda>s4.
     Inr (set_cache_pages [] (a\<lparr>data_frames := [], ma_shm := None\<rparr>), s4)))))"

definition discard_mmap_resident_range ::
  "nat \<Rightarrow> nat \<Rightarrow> map_area \<Rightarrow> 's vm \<times> retired_user_pages \<Rightarrow> vm_panic + map_area \<times> 's vm \<times> retired_user_pages" where
  "discard_mmap_resident_range start fin a s =
     and_then (retire_frames (bt_range start fin (data_frames a)) s) (\<lambda>s1.
     (let a1 = a\<lparr>data_frames := filter (\<lambda>e. \<not> (start \<le> fst e \<and> fst e < fin)) (data_frames a)\<rparr>
      in case ma_mmap a of
           None \<Rightarrow> Inr (a1, s1)
         | Some i \<Rightarrow>
             and_then (retire_cache (bt_range start fin (mi_page_cache_pages i)) s1) (\<lambda>s2.
             Inr (set_cache_pages (filter (\<lambda>e. \<not> (start \<le> fst e \<and> fst e < fin)) (mi_page_cache_pages i)) a1, s2))))"

section \<open>Changing the permission\<close>

definition remap_flags_preserving_cow :: "'s vm \<Rightarrow> nat \<Rightarrow> usize \<Rightarrow> vm_panic + usize" where
  "remap_flags_preserving_cow v vpn flags =
     and_then (translate_bits v vpn) (\<lambda>bits.
       Inr (if pte_cow bits then (flags AND NOT PTE_W) OR PTE_COW else flags))"

definition remap_resident_frame ::
  "'s frame_alloc_fn \<Rightarrow> nat \<Rightarrow> nat \<Rightarrow> usize \<Rightarrow> bool \<Rightarrow> 's vm \<Rightarrow> vm_panic + bool \<times> 's vm" where
  "remap_resident_frame fa vpn ppn want has_leaf_permission v =
     and_then (remap_flags_preserving_cow v vpn want) (\<lambda>flags.
       if \<not> has_leaf_permission
       then Inr (if contains_flags flags PTE_COW then on_pt (remap_flags vpn flags) v else on_pt (clear_leaf vpn) v)
       else
         and_then (map_err PtPanic (translate (vw_pt v) vpn)) (\<lambda>r.
           Inr (if r = Some 0 then on_pt (try_map fa vpn ppn flags) v else on_pt (remap_flags vpn flags) v)))"

fun remap_frames :: "'s frame_alloc_fn \<Rightarrow> usize \<Rightarrow> bool \<Rightarrow> (nat \<times> nat) list \<Rightarrow> 's vm \<times> bool \<Rightarrow> vm_panic + bool \<times> 's vm \<times> bool" where
  "remap_frames fa flags has_leaf [] s = Inr (True, s)"
| "remap_frames fa flags has_leaf ((vpn, ppn) # fs) s =
     and_then (remap_resident_frame fa vpn ppn flags has_leaf (fst s)) (\<lambda>(b, v).
       if b then remap_frames fa flags has_leaf fs (v, True) else Inr (False, v, snd s))"

fun remap_pages :: "usize \<Rightarrow> nat list \<Rightarrow> 's vm \<times> bool \<Rightarrow> bool \<times> 's vm \<times> bool" where
  "remap_pages flags [] s = (True, s)"
| "remap_pages flags (vpn # vpns) s =
     (case on_pt (remap_flags vpn flags) (fst s) of
        (True, v) \<Rightarrow> remap_pages flags vpns (v, True)
      | (False, v) \<Rightarrow> (False, v, snd s))"

text \<open>
  The private copies of pages of the page cache: first every frame is allocated and filled, then the entries are replaced. The
  frames that were prepared are dropped when the code returns early.
\<close>

fun prepare_copies ::
  "'s frame_alloc_fn \<Rightarrow> map_area \<Rightarrow> (nat \<times> page_cache_key) list \<Rightarrow> (nat \<times> page_cache_key \<times> nat \<times> nat) list \<Rightarrow> 's vm \<Rightarrow>
   vm_panic + (nat \<times> page_cache_key \<times> nat \<times> nat) list option \<times> 's vm" where
  "prepare_copies fa a [] ready v = Inr (Some ready, v)"
| "prepare_copies fa a ((vpn, key) # ks) ready v =
     (if bt_get (data_frames a) vpn \<noteq> None then prepare_copies fa a ks ready v
      else
        and_then (translate_bits v vpn) (\<lambda>bits.
          if bits = 0 then Inr (None, log_events (map (\<lambda>(_, _, _, f). FreeFrame f) ready) v)
          else
            (case alloc_uninit fa v of
               (None, v1) \<Rightarrow> Inr (None, log_events (map (\<lambda>(_, _, _, f). FreeFrame f) ready) v1)
             | (Some frame, v1) \<Rightarrow>
                 prepare_copies fa a ks (ready @ [(vpn, key, pte_ppn bits, frame)]) (copy_page frame (pte_ppn bits) v1))))"

fun install_copies ::
  "usize \<Rightarrow> (nat \<times> page_cache_key \<times> nat \<times> nat) list \<Rightarrow> map_area \<Rightarrow> 's vm \<times> page_cache_key list \<times> bool \<Rightarrow>
   bool \<times> map_area \<times> 's vm \<times> page_cache_key list \<times> bool" where
  "install_copies flags [] a s = (True, a, s)"
| "install_copies flags ((vpn, key, expected, frame) # ps) a s =
     (case s of (v, keys, mutated) \<Rightarrow>
        case on_pt (replace_leaf_or_tombstone vpn expected frame flags) v of
          (False, v1) \<Rightarrow> (False, a, log_events (FreeFrame frame # map (\<lambda>(_, _, _, f). FreeFrame f) ps) v1, keys, mutated)
        | (True, v1) \<Rightarrow>
            (let removed = bt_get (cache_pages a) vpn;
                 a1 = set_cache_pages (bt_remove vpn (cache_pages a)) (a\<lparr>data_frames := bt_insert vpn frame (data_frames a)\<rparr>)
             in if removed \<noteq> Some key
                then (False, a1, log_events (map (\<lambda>(_, _, _, f). FreeFrame f) ps) v1, keys, True)
                else install_copies flags ps a1 (v1, keys @ [key], True)))"

definition materialize_page_cache_pages ::
  "'s frame_alloc_fn \<Rightarrow> usize \<Rightarrow> map_area \<Rightarrow> 's vm \<times> page_cache_key list \<times> bool \<Rightarrow>
   vm_panic + bool \<times> map_area \<times> 's vm \<times> page_cache_key list \<times> bool" where
  "materialize_page_cache_pages fa flags a s =
     (case s of (v, keys, mutated) \<Rightarrow>
        and_then (prepare_copies fa a (cache_pages a) [] v) (\<lambda>(r, v1).
          case r of
            None \<Rightarrow> Inr (False, a, v1, keys, mutated)
          | Some prepared \<Rightarrow> Inr (install_copies flags prepared a (v1, keys, mutated))))"

definition remap_permission ::
  "'s frame_alloc_fn \<Rightarrow> usize \<Rightarrow> usize \<Rightarrow> map_area \<Rightarrow> 's vm \<times> page_cache_key list \<times> bool \<Rightarrow>
   vm_panic + bool \<times> map_area \<times> 's vm \<times> page_cache_key list \<times> bool" where
  "remap_permission fa perm reported a s =
     (let flags = perm_flags perm;
          has_leaf = intersects_flags perm (PERM_R OR PERM_W OR PERM_X)
      in case ma_mmap a of
           Some info \<Rightarrow>
             and_then
               (if \<not> mi_shared info \<and> contains_flags perm PERM_W \<and> mi_page_cache_pages info \<noteq> []
                then materialize_page_cache_pages fa flags a s else Inr (True, a, s)) (\<lambda>(ok, a1, v1, keys, mutated).
             if \<not> ok then Inr (False, a1, v1, keys, mutated)
             else
               and_then (remap_frames fa flags has_leaf (data_frames a1) (v1, mutated)) (\<lambda>(ok, v2, mutated2).
               if \<not> ok then Inr (False, a1, v2, keys, mutated2)
               else
                 (let writable = contains_flags perm PERM_W;
                      a2 = a1\<lparr>ma_mmap := map_option (\<lambda>i. i\<lparr>mi_writable := writable, mi_reported_perm := reported\<rparr>) (ma_mmap a1)\<rparr>;
                      cache_flags = (if writable then flags AND NOT PTE_W else flags)
                  in case remap_pages cache_flags (map fst (cache_pages a2)) (v2, mutated2) of
                       (False, v3, mutated3) \<Rightarrow> Inr (False, a2, v3, keys, mutated3)
                     | (True, v3, mutated3) \<Rightarrow> Inr (True, a2\<lparr>map_perm := perm\<rparr>, v3, keys, mutated3))))
         | None \<Rightarrow>
             (case s of (v, keys, mutated) \<Rightarrow>
                and_then (remap_frames fa flags has_leaf (data_frames a) (v, mutated)) (\<lambda>(ok, v2, mutated2).
                  if \<not> ok then Inr (False, a, v2, keys, mutated2)
                  else Inr (True, a\<lparr>map_perm := perm\<rparr>, v2, keys, mutated2))))"

definition write_protect_shared_mmap_pages :: "map_area \<Rightarrow> 's vm \<Rightarrow> bool \<times> 's vm" where
  "write_protect_shared_mmap_pages a v =
     (case ma_mmap a of
        None \<Rightarrow> (False, v)
      | Some info \<Rightarrow>
          if \<not> mi_shared info \<or> \<not> mi_writable info \<or> mi_backing_file info = None then (False, v)
          else
            fold (\<lambda>vpn (changed, v). case on_pt (remap_flags vpn (perm_flags (map_perm a) AND NOT PTE_W)) v of (b, v1) \<Rightarrow> (changed \<or> b, v1))
              (map fst (mi_page_cache_pages info)) (False, v))"

section \<open>Putting pages into the page table\<close>

text \<open>The frame is dropped by every return that does not put it into the area.\<close>

definition map_existing_frame_with_flags ::
  "'s frame_alloc_fn \<Rightarrow> nat \<Rightarrow> nat \<Rightarrow> usize \<Rightarrow> map_area \<Rightarrow> 's vm \<Rightarrow> vm_panic + bool \<times> map_area \<times> 's vm" where
  "map_existing_frame_with_flags fa vpn frame flags a v =
     (let leaf = intersects_flags flags (PTE_R OR PTE_W OR PTE_X);
          dropped = log_events [FreeFrame frame]
      in if bt_get (data_frames a) vpn \<noteq> None
         then
           (if \<not> leaf
            then (case on_pt (clear_leaf_create_path fa vpn) v of (b, v1) \<Rightarrow> Inr (b, a, dropped v1))
            else Inr (True, a, dropped v))
         else
           and_then (translate_bits v vpn) (\<lambda>bits.
             if bits \<noteq> 0
             then
               (if \<not> leaf
                then (case on_pt (clear_leaf_create_path fa vpn) v of (b, v1) \<Rightarrow> Inr (b, a, dropped v1))
                else Inr (True, a, dropped v))
             else
               (case on_pt (if leaf then try_map fa vpn frame flags else clear_leaf_create_path fa vpn) v of
                  (False, v1) \<Rightarrow> Inr (False, a, dropped v1)
                | (True, v1) \<Rightarrow> Inr (True, a\<lparr>data_frames := bt_insert vpn frame (data_frames a)\<rparr>, v1))))"

definition map_existing_frame ::
  "'s frame_alloc_fn \<Rightarrow> nat \<Rightarrow> nat \<Rightarrow> map_area \<Rightarrow> 's vm \<Rightarrow> vm_panic + bool \<times> map_area \<times> 's vm" where
  "map_existing_frame fa vpn frame a v = map_existing_frame_with_flags fa vpn frame (perm_flags (map_perm a)) a v"

definition map_page_cache_frame ::
  "'s frame_alloc_fn \<Rightarrow> nat \<Rightarrow> nat \<Rightarrow> page_cache_key \<Rightarrow> map_area \<Rightarrow> 's vm \<Rightarrow> vm_panic + bool \<times> map_area \<times> 's vm" where
  "map_page_cache_frame fa vpn ppn key a v =
     (case ma_mmap a of
        None \<Rightarrow> Inr (False, a, v)
      | Some info \<Rightarrow>
          if mi_page_cache_id info \<noteq> Some (key_id key) then Inr (False, a, v)
          else if bt_get (mi_page_cache_pages info) vpn \<noteq> None then Inr (True, a, v)
          else if bt_get (data_frames a) vpn \<noteq> None then Inr (True, a, v)
          else
            and_then (translate_bits v vpn) (\<lambda>bits.
              if bits \<noteq> 0 then Inr (True, a, v)
              else
                (let flags = perm_flags (map_perm a);
                     flags1 = (if mi_writable info then flags AND NOT PTE_W else flags)
                 in case on_pt (try_map fa vpn ppn flags1) v of
                      (False, v1) \<Rightarrow> Inr (False, a, v1)
                    | (True, v1) \<Rightarrow> Inr (True, set_cache_pages (bt_insert vpn key (mi_page_cache_pages info)) a, v1))))"

definition map_shm_frame ::
  "'s frame_alloc_fn \<Rightarrow> nat \<Rightarrow> nat \<Rightarrow> nat \<Rightarrow> map_area \<Rightarrow> 's vm \<Rightarrow> vm_panic + bool \<times> map_area \<times> 's vm" where
  "map_shm_frame fa vpn ppn page_index a v =
     (case ma_shm a of
        None \<Rightarrow> Inr (False, a, v)
      | Some info \<Rightarrow>
          if bt_get (si_pages info) vpn \<noteq> None then Inr (True, a, v)
          else if bt_get (data_frames a) vpn \<noteq> None then Inr (True, a, v)
          else
            and_then (translate_bits v vpn) (\<lambda>bits.
              if bits \<noteq> 0 then Inr (True, a, v)
              else
                (case on_pt (try_map fa vpn ppn (perm_flags (map_perm a))) v of
                   (False, v1) \<Rightarrow> Inr (False, a, v1)
                 | (True, v1) \<Rightarrow> Inr (True, a\<lparr>ma_shm := Some (info\<lparr>si_pages := bt_insert vpn page_index (si_pages info)\<rparr>)\<rparr>, v1))))"

text \<open>
  Mapping a whole area: the tables first, then the frames, then the entries, so that a failure leaves no entry behind. The
  frames that were allocated are dropped when one cannot be had.
\<close>

fun prepare_paths :: "'s frame_alloc_fn \<Rightarrow> nat list \<Rightarrow> 's vm \<Rightarrow> bool \<times> 's vm" where
  "prepare_paths fa [] v = (True, v)"
| "prepare_paths fa (vpn # vpns) v =
     (case on_pt (prepare_empty_leaf_path fa vpn) v of
        (False, v1) \<Rightarrow> (False, v1)
      | (True, v1) \<Rightarrow> prepare_paths fa vpns v1)"

fun alloc_frames :: "('s vm \<Rightarrow> nat option \<times> 's vm) \<Rightarrow> nat list \<Rightarrow> (nat \<times> nat) list \<Rightarrow> 's vm \<Rightarrow> (nat \<times> nat) list option \<times> 's vm" where
  "alloc_frames al [] frames v = (Some frames, v)"
| "alloc_frames al (vpn # vpns) frames v =
     (case al v of
        (None, v1) \<Rightarrow> (None, log_events (map (\<lambda>(_, f). FreeFrame f) frames) v1)
      | (Some f, v1) \<Rightarrow> alloc_frames al vpns (frames @ [(vpn, f)]) v1)"

fun publish_frames :: "'s frame_alloc_fn \<Rightarrow> usize \<Rightarrow> (nat \<times> nat) list \<Rightarrow> map_area \<Rightarrow> 's vm \<Rightarrow> vm_panic + map_area \<times> 's vm" where
  "publish_frames fa flags [] a v = Inr (a, v)"
| "publish_frames fa flags ((vpn, frame) # fs) a v =
     (case on_pt (try_map fa vpn frame flags) v of
        (False, _) \<Rightarrow> Inl (LeafChanged vpn)
      | (True, v1) \<Rightarrow>
          if bt_get (data_frames a) vpn \<noteq> None then Inl (AreaOwned vpn)
          else publish_frames fa flags fs (a\<lparr>data_frames := bt_insert vpn frame (data_frames a)\<rparr>) v1)"

definition map_framed_preflight ::
  "'s frame_alloc_fn \<Rightarrow> bool \<Rightarrow> map_area \<Rightarrow> 's vm \<Rightarrow> vm_panic + bool \<times> map_area \<times> 's vm" where
  "map_framed_preflight fa zeroed a v =
     (case prepare_paths fa [ma_start a..<ma_end a] v of
        (False, v1) \<Rightarrow> Inr (False, a, v1)
      | (True, v1) \<Rightarrow>
          (case alloc_frames (if zeroed then alloc_zeroed fa else alloc_uninit fa) [ma_start a..<ma_end a] [] v1 of
             (None, v2) \<Rightarrow> Inr (False, a, v2)
           | (Some frames, v2) \<Rightarrow>
               and_then (publish_frames fa (perm_flags (map_perm a)) frames a v2) (\<lambda>(a', v3). Inr (True, a', v3))))"

definition map_area_pages :: "'s frame_alloc_fn \<Rightarrow> map_area \<Rightarrow> 's vm \<Rightarrow> vm_panic + bool \<times> map_area \<times> 's vm" where
  "map_area_pages fa a v =
     (if ma_type a = Framed then map_framed_preflight fa True a v
      else
        and_then (map_err PtPanic (try_map_kernel_identical_range fa (ma_start a) (ma_end a) (perm_flags (map_perm a)) (vw_pt v)))
          (\<lambda>(b, w). Inr (b, a, v\<lparr>vw_pt := w\<rparr>)))"

section \<open>The part of a segment that a page holds\<close>

record exec_segment_fault_info =
  ef_file_offset :: nat
  ef_dst_offset :: nat
  ef_read_len :: nat
  ef_zero_fill_len :: nat

definition exec_segment_fault :: "exec_segment_info \<Rightarrow> nat \<Rightarrow> exec_segment_fault_info option" where
  "exec_segment_fault info area_offset =
     (case (checked_add area_offset 4096, checked_add (es_page_offset info) (es_mem_size info),
            checked_add (es_page_offset info) (es_file_size info)) of
        (Some page_end, Some segment_mem_end, Some segment_file_end) \<Rightarrow>
          (let segment_start = es_page_offset info;
               mem_start = max area_offset segment_start;
               mem_end = min page_end segment_mem_end;
               mem_len = mem_end - mem_start;
               file_start = min mem_start segment_file_end;
               file_end = min mem_end segment_file_end;
               read_len = file_end - file_start
           in map_option (\<lambda>file_offset. \<lparr>ef_file_offset = file_offset, ef_dst_offset = file_start - area_offset,
                ef_read_len = read_len, ef_zero_fill_len = mem_len - read_len\<rparr>)
                (checked_add (es_file_offset info) (file_start - segment_start)))
      | _ \<Rightarrow> None)"

section \<open>Write back\<close>

definition mmap_writeback_len :: "mmap_info \<Rightarrow> nat \<Rightarrow> nat option" where
  "mmap_writeback_len info area_offset =
     (if mi_len info \<le> area_offset then None
      else
        (case checked_add (mi_file_offset info) area_offset of
           None \<Rightarrow> None
         | Some file_offset \<Rightarrow>
             (let len = min (min (mi_len info - area_offset) 4096) (min (mi_file_size info - file_offset) 4096)
              in if len > 0 then Some len else None)))"

record mmap_flush =
  fl_file :: file_id
  fl_offset :: nat
  fl_data :: "u8 list"

text \<open>
  The dirty pages of a shared mapping. What the page cache answers to \<^verbatim>\<open>take_dirty_page_data\<close> is an argument. A resident
  frame without an entry is a panic.
\<close>

fun flush_frames :: "mmap_info \<Rightarrow> file_id \<Rightarrow> nat \<Rightarrow> 's vm \<Rightarrow> nat list \<Rightarrow> vm_panic + mmap_flush list" where
  "flush_frames info file start v [] = Inr []"
| "flush_frames info file start v (vpn # vpns) =
     (let area_offset = (vpn - start) * 4096
      in case mmap_writeback_len info area_offset of
           None \<Rightarrow> flush_frames info file start v vpns
         | Some len \<Rightarrow>
             and_then (map_err PtPanic (translate (vw_pt v) vpn)) (\<lambda>r.
               case r of
                 None \<Rightarrow> Inl (NotResident vpn)
               | Some e \<Rightarrow>
                   and_then (flush_frames info file start v vpns) (\<lambda>fs.
                     Inr (\<lparr>fl_file = file, fl_offset = wrapping_add (mi_file_offset info) area_offset,
                            fl_data = map (vw_bytes v (pte_ppn e)) [0..<len]\<rparr> # fs))))"

fun flush_cached :: "(page_cache_key \<Rightarrow> nat \<Rightarrow> u8 list option) \<Rightarrow> mmap_info \<Rightarrow> file_id \<Rightarrow> nat \<Rightarrow> (nat \<times> page_cache_key) list \<Rightarrow> mmap_flush list" where
  "flush_cached dirty info file start [] = []"
| "flush_cached dirty info file start ((vpn, key) # ks) =
     (let area_offset = (vpn - start) * 4096;
          rest = flush_cached dirty info file start ks
      in case mmap_writeback_len info area_offset of
           None \<Rightarrow> rest
         | Some len \<Rightarrow>
             (case dirty key len of
                None \<Rightarrow> rest
              | Some data \<Rightarrow>
                  \<lparr>fl_file = file, fl_offset = wrapping_add (mi_file_offset info) area_offset, fl_data = data\<rparr> # rest))"

definition collect_mmap_flushes ::
  "(page_cache_key \<Rightarrow> nat \<Rightarrow> u8 list option) \<Rightarrow> map_area \<Rightarrow> 's vm \<Rightarrow> vm_panic + mmap_flush list" where
  "collect_mmap_flushes dirty a v =
     (case ma_mmap a of
        None \<Rightarrow> Inr []
      | Some info \<Rightarrow>
          if \<not> mi_shared info \<or> \<not> mi_writable info then Inr []
          else
            (case mi_backing_file info of
               None \<Rightarrow> Inr []
             | Some file \<Rightarrow>
                 and_then (flush_frames info file (ma_start a) v (map fst (data_frames a))) (\<lambda>fs.
                   Inr (fs @ flush_cached dirty info file (ma_start a) (mi_page_cache_pages info)))))"

definition take_mmap_flushes ::
  "(page_cache_key \<Rightarrow> nat \<Rightarrow> u8 list option) \<Rightarrow> map_area \<Rightarrow> 's vm \<times> retired_user_pages \<Rightarrow>
   vm_panic + mmap_flush list \<times> map_area \<times> 's vm \<times> retired_user_pages" where
  "take_mmap_flushes dirty a s =
     and_then (collect_mmap_flushes dirty a (fst s)) (\<lambda>fs.
     and_then (unmap_resident_deferred a s) (\<lambda>(a', s'). Inr (fs, a', s')))"

definition release_mmap_refs :: "map_area \<Rightarrow> vm_event list" where
  "release_mmap_refs a =
     (case ma_mmap a of
        None \<Rightarrow> []
      | Some info \<Rightarrow>
          (case mi_backing_file info of
             Some file \<Rightarrow> if mi_shared info \<and> mi_writable info then [FileDecShared file] else []
           | None \<Rightarrow> []))"

section \<open>Lemmas on the operations\<close>

text \<open>
  A step of the page table as the areas see it: what happens to the entries, with the tables still there, and the contents and
  the events as they were.
\<close>

definition vm_ok :: "('s \<Rightarrow> bool) \<Rightarrow> ('s \<Rightarrow> nat set) \<Rightarrow> 's vm \<Rightarrow> bool" where
  "vm_ok src held v \<longleftrightarrow> world_ok src held (vw_pt v)"

abbreviation vview :: "'s vm \<Rightarrow> nat \<Rightarrow> usize" where
  "vview v \<equiv> view (vw_pt v)"

abbreviation vpath :: "'s vm \<Rightarrow> nat \<Rightarrow> bool" where
  "vpath v \<equiv> has_path (vw_pt v)"

abbreviation vshared :: "'s vm \<Rightarrow> usize list" where
  "vshared v \<equiv> shared_root_entries (pw_pt (vw_pt v))"

definition vm_step :: "('s \<Rightarrow> bool) \<Rightarrow> ('s \<Rightarrow> nat set) \<Rightarrow> (nat \<Rightarrow> usize) \<Rightarrow> 's vm \<Rightarrow> 's vm \<Rightarrow> bool" where
  "vm_step src held g v v' \<longleftrightarrow> vm_ok src held v' \<and> vview v' = g \<and> (\<forall>u. vpath v u \<longrightarrow> vpath v' u) \<and> vshared v' = vshared v \<and>
     vw_bytes v' = vw_bytes v \<and> vw_log v' = vw_log v"

definition clear_view :: "nat set \<Rightarrow> (nat \<Rightarrow> usize) \<Rightarrow> nat \<Rightarrow> usize" where
  "clear_view S g = (\<lambda>u. if u \<in> S then 0 else g u)"

lemma clear_view_simps [simp]:
  "clear_view {} g = g" "clear_view S (clear_view T g) = clear_view (S \<union> T) g" "clear_view S (g(u := 0)) = clear_view (insert u S) g"
  by (auto simp: clear_view_def fun_eq_iff)

lemma vm_step_refl: "vm_ok src held v \<Longrightarrow> vm_step src held (vview v) v v"
  by (simp add: vm_step_def)

lemma vm_step_trans: "vm_step src held g v v1 \<Longrightarrow> vm_step src held h v1 v2 \<Longrightarrow> vm_step src held h v v2"
  by (simp add: vm_step_def)

lemma translate_bits_ok: "vm_ok src held v \<Longrightarrow> vpn_ok vpn \<Longrightarrow> translate_bits v vpn = Inr (vview v vpn)"
proof -
  assume v: "vm_ok src held v" "vpn_ok vpn"
  then obtain r where "translate (vw_pt v) vpn = Inr r" unfolding vm_ok_def world_ok_def by (blast dest: translate_total)
  with v(2) show ?thesis by (auto simp: translate_bits_def view_def map_err_def split: option.splits)
qed

lemma op_ok_step: "op_ok src held vpn b f (vw_pt v) w \<Longrightarrow> vm_step src held (if b then (vview v)(vpn := f (vview v vpn)) else vview v) v (v\<lparr>vw_pt := w\<rparr>)"
  by (simp add: op_ok_def vm_step_def vm_ok_def)

context frame_source
begin

lemma clear_resident_pte_ok:
  assumes "vm_ok src_ok held v" and "vpn_ok vpn" and "vview v vpn \<noteq> 0 \<longrightarrow> vpath v vpn"
  shows "\<exists>v'. clear_resident_pte vpn (v, rt) = Inr (v', rt\<lparr>rt_pte_cleared := rt_pte_cleared rt \<or> vview v vpn \<noteq> 0\<rparr>) \<and>
    vm_step src_ok held ((vview v)(vpn := 0)) v v'"
proof (cases "vview v vpn = 0")
  case True
  with assms translate_bits_ok [OF assms(1,2)] show ?thesis
    by (auto simp: clear_resident_pte_def fun_upd_idem intro: vm_step_refl)
next
  case False
  with unmap_ok [of "vw_pt v" vpn] assms obtain w where w: "unmap vpn (vw_pt v) = Inr w" "op_ok src_ok held vpn True (\<lambda>e. 0) (vw_pt v) w"
    by (auto simp: vm_ok_def)
  with False translate_bits_ok [OF assms(1,2)] op_ok_step [OF w(2)] show ?thesis
    by (auto simp: clear_resident_pte_def map_err_def)
qed

lemma clear_ptes_ok:
  assumes "vm_ok src_ok held v" and "\<And>u. u \<in> set us \<Longrightarrow> vpn_ok u \<and> (vview v u \<noteq> 0 \<longrightarrow> vpath v u)"
  shows "\<exists>v'. clear_ptes us (v, rt) = Inr (v', rt\<lparr>rt_pte_cleared := rt_pte_cleared rt \<or> (\<exists>u \<in> set us. vview v u \<noteq> 0)\<rparr>) \<and>
    vm_step src_ok held (clear_view (set us) (vview v)) v v'"
  using assms
proof (induction us arbitrary: v rt)
  case (Cons vpn us)
  obtain v1 where v1: "clear_resident_pte vpn (v, rt) = Inr (v1, rt\<lparr>rt_pte_cleared := rt_pte_cleared rt \<or> vview v vpn \<noteq> 0\<rparr>)"
      "vm_step src_ok held ((vview v)(vpn := 0)) v v1"
    using clear_resident_pte_ok [OF Cons.prems(1), of vpn rt] Cons.prems(2) by auto
  have "vm_ok src_ok held v1" "\<And>u. u \<in> set us \<Longrightarrow> vpn_ok u \<and> (vview v1 u \<noteq> 0 \<longrightarrow> vpath v1 u)"
    using v1(2) Cons.prems(2) by (auto simp: vm_step_def split: if_splits)
  from Cons.IH [OF this, where rt = "rt\<lparr>rt_pte_cleared := rt_pte_cleared rt \<or> vview v vpn \<noteq> 0\<rparr>"] obtain v2 where
    v2: "clear_ptes us (v1, rt\<lparr>rt_pte_cleared := rt_pte_cleared rt \<or> vview v vpn \<noteq> 0\<rparr>) =
      Inr (v2, rt\<lparr>rt_pte_cleared := (rt_pte_cleared rt \<or> vview v vpn \<noteq> 0) \<or> (\<exists>u \<in> set us. vview v1 u \<noteq> 0)\<rparr>)"
    "vm_step src_ok held (clear_view (set us) (vview v1)) v1 v2" by auto
  have view1: "vview v1 = (vview v)(vpn := 0)" using v1(2) by (simp add: vm_step_def)
  have flag: "(rt_pte_cleared rt \<or> vview v vpn \<noteq> 0) \<or> (\<exists>u \<in> set us. vview v1 u \<noteq> 0) \<longleftrightarrow>
      rt_pte_cleared rt \<or> (\<exists>u \<in> set (vpn # us). vview v u \<noteq> 0)" by (auto simp: view1)
  have "clear_ptes (vpn # us) (v, rt) = Inr (v2, rt\<lparr>rt_pte_cleared := rt_pte_cleared rt \<or> (\<exists>u \<in> set (vpn # us). vview v u \<noteq> 0)\<rparr>)"
    unfolding clear_ptes.simps v1(1) and_then_simps v2(1) flag ..
  with vm_step_trans [OF v1(2)] v2(2) view1 show ?case by auto
qed (auto intro: vm_step_refl)

end

text \<open>The loops that retire frames and pages of the page cache are the loop that clears entries.\<close>

lemma clear_resident_frame_list:
  "clear_resident_pte u (v, rt\<lparr>rt_frames := x\<rparr>) =
     and_then (clear_resident_pte u (v, rt)) (\<lambda>(v', rt'). Inr (v', rt'\<lparr>rt_frames := x\<rparr>))"
  "clear_resident_pte u (v, rt\<lparr>rt_page_cache_refs := y\<rparr>) =
     and_then (clear_resident_pte u (v, rt)) (\<lambda>(v', rt'). Inr (v', rt'\<lparr>rt_page_cache_refs := y\<rparr>))"
  by (auto simp: clear_resident_pte_def and_then_def split: sum.splits)

lemma clear_ptes_frame_list:
  "clear_ptes us (v, rt\<lparr>rt_frames := x\<rparr>) = and_then (clear_ptes us (v, rt)) (\<lambda>(v', rt'). Inr (v', rt'\<lparr>rt_frames := x\<rparr>))"
  "clear_ptes us (v, rt\<lparr>rt_page_cache_refs := y\<rparr>) =
     and_then (clear_ptes us (v, rt)) (\<lambda>(v', rt'). Inr (v', rt'\<lparr>rt_page_cache_refs := y\<rparr>))"
  by (induction us arbitrary: v rt)
     (auto simp: clear_resident_frame_list and_then_def split: sum.splits prod.splits)

lemma clear_resident_keeps:
  "clear_resident_pte u (v, rt) = Inr (v', rt') \<Longrightarrow> rt_frames rt' = rt_frames rt \<and> rt_page_cache_refs rt' = rt_page_cache_refs rt"
  by (auto simp: clear_resident_pte_def and_then_def split: sum.splits if_splits)

lemma retire_frames_clear:
  "retire_frames fs (v, rt) =
     and_then (clear_ptes (map fst fs) (v, rt)) (\<lambda>(v', rt'). Inr (v', rt'\<lparr>rt_frames := rt_frames rt @ map snd fs\<rparr>))"
proof (induction fs arbitrary: v rt)
  case (Cons e fs)
  then show ?case
    by (cases e) (auto simp: clear_ptes_frame_list and_then_def dest: clear_resident_keeps split: sum.splits prod.splits)
qed (simp add: and_then_def)

lemma retire_cache_clear:
  "retire_cache ks (v, rt) =
     and_then (clear_ptes (map fst ks) (v, rt)) (\<lambda>(v', rt'). Inr (v', rt'\<lparr>rt_page_cache_refs := rt_page_cache_refs rt @ map snd ks\<rparr>))"
proof (induction ks arbitrary: v rt)
  case (Cons e ks)
  then show ?case
    by (cases e) (auto simp: clear_ptes_frame_list and_then_def dest: clear_resident_keeps split: sum.splits prod.splits)
qed (simp add: and_then_def)

definition contains_vpn :: "map_area \<Rightarrow> nat \<Rightarrow> bool" where
  "contains_vpn a vpn \<longleftrightarrow> ma_start a \<le> vpn \<and> vpn < ma_end a"

text \<open>The last page of the address space is the trampoline, which belongs to no area.\<close>

definition TOP_VPN :: nat where "TOP_VPN = 2 ^ 27 - 1"

definition area_range_ok :: "map_area \<Rightarrow> bool" where
  "area_range_ok a \<longleftrightarrow> ma_start a < ma_end a \<and> ma_end a \<le> TOP_VPN"

text \<open>The pages that an area has put into the page table.\<close>

definition shm_pages :: "map_area \<Rightarrow> (nat, nat) btree" where
  "shm_pages a = (case ma_shm a of None \<Rightarrow> [] | Some i \<Rightarrow> si_pages i)"

definition resident :: "map_area \<Rightarrow> nat set" where
  "resident a = fst ` set (data_frames a) \<union> fst ` set (cache_pages a) \<union> fst ` set (shm_pages a)"

definition emptied :: "map_area \<Rightarrow> map_area" where
  "emptied a = set_cache_pages [] (a\<lparr>data_frames := [], ma_shm := None\<rparr>)"

definition shm_ids :: "map_area \<Rightarrow> nat list" where
  "shm_ids a = (case ma_shm a of None \<Rightarrow> [] | Some i \<Rightarrow> [si_shmid i])"

definition retire_area :: "map_area \<Rightarrow> bool \<Rightarrow> retired_user_pages \<Rightarrow> retired_user_pages" where
  "retire_area a cleared rt = \<lparr>rt_frames = rt_frames rt @ map snd (data_frames a),
     rt_page_cache_refs = rt_page_cache_refs rt @ map snd (cache_pages a),
     rt_shm_attachments = rt_shm_attachments rt @ shm_ids a, rt_pte_cleared = rt_pte_cleared rt \<or> cleared\<rparr>"

lemma some_nonzero:
  "(\<exists>u \<in> A. g u \<noteq> 0) \<or> (\<exists>u \<in> B. clear_view A g u \<noteq> 0) \<or> (\<exists>u \<in> C. clear_view (B \<union> A) g u \<noteq> 0) \<longleftrightarrow>
    (\<exists>u \<in> A \<union> B \<union> C. g u \<noteq> 0)"
  by (auto simp: clear_view_def)

context frame_source
begin

lemma unmap_resident_ok:
  assumes "vm_ok src_ok held v" and "ma_type a = Framed"
    and res: "\<And>u. u \<in> resident a \<Longrightarrow> vpn_ok u \<and> (vview v u \<noteq> 0 \<longrightarrow> vpath v u)"
  shows "\<exists>v'. unmap_resident_deferred a (v, rt) = Inr (emptied a, v', retire_area a (\<exists>u \<in> resident a. vview v u \<noteq> 0) rt) \<and>
    vm_step src_ok held (clear_view (resident a) (vview v)) v v'"
proof -
  let ?A = "map fst (data_frames a)" and ?B = "map fst (cache_pages a)" and ?C = "map fst (shm_pages a)"
  let ?some = "\<lambda>us g. \<exists>u \<in> set us. g u \<noteq> (0 :: usize)"
  obtain v1 where v1: "clear_ptes ?A (v, rt) = Inr (v1, rt\<lparr>rt_pte_cleared := rt_pte_cleared rt \<or> ?some ?A (vview v)\<rparr>)"
      "vm_step src_ok held (clear_view (set ?A) (vview v)) v v1"
    using clear_ptes_ok [OF assms(1), of ?A rt] res by (auto simp: resident_def)
  define rt1 where "rt1 = rt\<lparr>rt_pte_cleared := rt_pte_cleared rt \<or> ?some ?A (vview v), rt_frames := rt_frames rt @ map snd (data_frames a)\<rparr>"
  have ok1: "vm_ok src_ok held v1" "\<And>u. u \<in> resident a \<Longrightarrow> vpn_ok u \<and> (vview v1 u \<noteq> 0 \<longrightarrow> vpath v1 u)"
    using v1(2) res by (auto simp: vm_step_def clear_view_def split: if_splits)
  obtain v2 where v2: "clear_ptes ?B (v1, rt1) = Inr (v2, rt1\<lparr>rt_pte_cleared := rt_pte_cleared rt1 \<or> ?some ?B (vview v1)\<rparr>)"
      "vm_step src_ok held (clear_view (set ?B) (vview v1)) v1 v2"
    using clear_ptes_ok [OF ok1(1), of ?B rt1] ok1(2) by (auto simp: resident_def)
  define rt2 where "rt2 = rt1\<lparr>rt_pte_cleared := rt_pte_cleared rt1 \<or> ?some ?B (vview v1),
    rt_page_cache_refs := rt_page_cache_refs rt1 @ map snd (cache_pages a)\<rparr>"
  have ok2: "vm_ok src_ok held v2" "\<And>u. u \<in> resident a \<Longrightarrow> vpn_ok u \<and> (vview v2 u \<noteq> 0 \<longrightarrow> vpath v2 u)"
    using v2(2) ok1(2) by (auto simp: vm_step_def clear_view_def split: if_splits)
  obtain v3 where v3: "clear_ptes ?C (v2, rt2) = Inr (v3, rt2\<lparr>rt_pte_cleared := rt_pte_cleared rt2 \<or> ?some ?C (vview v2)\<rparr>)"
      "vm_step src_ok held (clear_view (set ?C) (vview v2)) v2 v3"
    using clear_ptes_ok [OF ok2(1), of ?C rt2] ok2(2) by (auto simp: resident_def)
  have views: "vview v1 = clear_view (set ?A) (vview v)" "vview v2 = clear_view (set ?B) (vview v1)"
    using v1(2) v2(2) by (simp_all add: vm_step_def)
  have flag: "((rt_pte_cleared rt \<or> ?some ?A (vview v)) \<or> ?some ?B (vview v1)) \<or> ?some ?C (vview v2) \<longleftrightarrow>
      rt_pte_cleared rt \<or> (\<exists>u \<in> resident a. vview v u \<noteq> 0)"
    using some_nonzero [of "set ?A" "vview v" "set ?B" "set ?C"] unfolding views resident_def by simp
  have "retire_shm (ma_shm a) (v2, rt2) = Inr (v3, retire_area a (\<exists>u \<in> resident a. vview v u \<noteq> 0) rt)"
  proof -
    have "rt2\<lparr>rt_pte_cleared := rt_pte_cleared rt2 \<or> ?some ?C (vview v2), rt_shm_attachments := rt_shm_attachments rt2 @ shm_ids a\<rparr> =
        retire_area a (\<exists>u \<in> resident a. vview v u \<noteq> 0) rt"
      using flag by (simp add: rt1_def rt2_def retire_area_def)
    with v3(1) show ?thesis
      by (cases "ma_shm a") (simp_all add: retire_shm_def shm_pages_def shm_ids_def)
  qed
  moreover have "retire_frames (data_frames a) (v, rt) = Inr (v1, rt1)" "retire_cache (cache_pages a) (v1, rt1) = Inr (v2, rt2)"
    using v1(1) v2(1) by (simp_all add: retire_frames_clear retire_cache_clear rt1_def rt2_def)
  ultimately have "unmap_resident_deferred a (v, rt) = Inr (emptied a, v3, retire_area a (\<exists>u \<in> resident a. vview v u \<noteq> 0) rt)"
    using assms(2) by (simp add: unmap_resident_deferred_def emptied_def)
  moreover have "vm_step src_ok held (clear_view (resident a) (vview v)) v v3"
    using vm_step_trans [OF vm_step_trans [OF v1(2) v2(2)] v3(2)] views by (simp add: resident_def Un_commute Un_left_commute)
  ultimately show ?thesis by blast
qed

end

section \<open>What an area says about a page\<close>

record page_mmap =
  pm_shared :: bool
  pm_writable :: bool
  pm_grow_down :: bool
  pm_reported :: usize
  pm_position :: nat
  pm_len :: nat
  pm_file_size :: nat
  pm_file :: "file_id option"
  pm_cache_id :: "(nat \<times> nat) option"
  pm_segment :: "exec_segment_fault_info option option"

record page_info =
  pi_perm :: usize
  pi_mmap :: "page_mmap option"
  pi_shm :: "(nat \<times> nat \<times> nat) option"
  pi_frame :: "nat option"
  pi_cache :: "page_cache_key option"
  pi_shm_page :: "nat option"

definition page_mmap_of :: "mmap_info \<Rightarrow> nat \<Rightarrow> page_mmap" where
  "page_mmap_of i off = \<lparr>pm_shared = mi_shared i, pm_writable = mi_writable i, pm_grow_down = mi_grow_down i,
     pm_reported = mi_reported_perm i, pm_position = wrapping_add (mi_file_offset i) off, pm_len = min (mi_len i - off) 4096,
     pm_file_size = mi_file_size i, pm_file = mi_backing_file i, pm_cache_id = mi_page_cache_id i,
     pm_segment = map_option (\<lambda>s. exec_segment_fault s off) (mi_exec_segment i)\<rparr>"

definition page_info_of :: "map_area \<Rightarrow> nat \<Rightarrow> page_info" where
  "page_info_of a vpn = (let off = (vpn - ma_start a) * 4096 in
     \<lparr>pi_perm = map_perm a, pi_mmap = map_option (\<lambda>i. page_mmap_of i off) (ma_mmap a),
      pi_shm = map_option (\<lambda>i. (si_shmid i, wrapping_add (si_offset i) off, min (si_len i - off) 4096)) (ma_shm a),
      pi_frame = bt_get (data_frames a) vpn, pi_cache = bt_get (cache_pages a) vpn, pi_shm_page = bt_get (shm_pages a) vpn\<rparr>)"

definition exec_ok :: "exec_segment_info \<Rightarrow> bool" where
  "exec_ok i \<longleftrightarrow> es_page_offset i + es_mem_size i \<le> usize_max \<and> es_page_offset i + es_file_size i \<le> usize_max \<and>
     es_file_offset i + es_file_size i \<le> usize_max"

text \<open>Under these bounds nothing overflows, and the fault is plain arithmetic.\<close>

definition fault_of :: "nat \<Rightarrow> nat \<Rightarrow> nat \<Rightarrow> nat \<Rightarrow> nat \<Rightarrow> exec_segment_fault_info" where
  "fault_of fo po k ms_end fs_end =
     (let ms = max k po; me = min (k + 4096) ms_end; fs = min ms fs_end; fe = min me fs_end
      in \<lparr>ef_file_offset = fo + (fs - po), ef_dst_offset = fs - k, ef_read_len = fe - fs, ef_zero_fill_len = (me - ms) - (fe - fs)\<rparr>)"

lemma exec_fault_eq:
  "exec_ok i \<Longrightarrow> k + 4096 \<le> usize_max \<Longrightarrow> exec_segment_fault i k =
    Some (fault_of (es_file_offset i) (es_page_offset i) k (es_page_offset i + es_mem_size i) (es_page_offset i + es_file_size i))"
  by (auto simp: exec_segment_fault_def checked_add_def exec_ok_def fault_of_def Let_def)

lemma exec_split_ok: "exec_ok i \<Longrightarrow> exec_ok (fst (exec_split_off i off)) \<and> exec_ok (snd (exec_split_off i off))"
  by (auto simp: exec_ok_def exec_split_off_def Let_def saturating_add_def)

lemma fault_left:
  assumes "k + 4096 \<le> (off :: nat)"
  shows "fault_of fo po k (po + min (off - po) mem) (po + min (off - po) file) = fault_of fo po k (po + mem) (po + file)"
proof -
  have a: "min (max k po) (po + min (off - po) file) = min (max k po) (po + file)" using assms by linarith
  have b: "min (k + 4096) (po + min (off - po) mem) = min (k + 4096) (po + mem)" using assms by linarith
  have c: "min (min (k + 4096) (po + mem)) (po + min (off - po) file) = min (min (k + 4096) (po + mem)) (po + file)"
    using assms by linarith
  show ?thesis unfolding fault_of_def Let_def a b c ..
qed

lemma fault_right:
  assumes "off \<le> (k :: nat)"
  shows "fault_of (fo + min (off - po) file) (po - off) (k - off) (po - off + (mem - min (off - po) mem)) (po - off + (file - min (off - po) file)) =
    fault_of fo po k (po + mem) (po + file)"
proof -
  define ms me fs fe where d: "ms = max k po" "me = min (k + 4096) (po + mem)" "fs = min ms (po + file)" "fe = min me (po + file)"
  have e: "po - off + (mem - min (off - po) mem) = po + mem - off" "po - off + (file - min (off - po) file) = po + file - off" by linarith+
  have m: "max (k - off) (po - off) = ms - off" "min (k - off + 4096) (po + mem - off) = me - off"
    "min (ms - off) (po + file - off) = fs - off" "min (me - off) (po + file - off) = fe - off"
    unfolding d using assms by linarith+
  have "off \<le> ms" using assms d(1) by simp
  then have r: "fs - off - (k - off) = fs - k" "(fe - off) - (fs - off) = fe - fs" "(me - off) - (ms - off) = me - ms"
    using assms unfolding d(3,4) by linarith+
  have "po \<le> fs" using d(1,3) by simp
  then have f: "fo + min (off - po) file + (fs - off - (po - off)) = fo + (fs - po)"
    using \<open>off \<le> ms\<close> unfolding d(3) by linarith
  show ?thesis unfolding fault_of_def Let_def e m r f d [symmetric] ..
qed

lemma exec_split_sel:
  "es_page_offset (fst (exec_split_off i off)) = es_page_offset i" "es_file_offset (fst (exec_split_off i off)) = es_file_offset i"
  "es_mem_size (fst (exec_split_off i off)) = min (off - es_page_offset i) (es_mem_size i)"
  "es_file_size (fst (exec_split_off i off)) = min (off - es_page_offset i) (es_file_size i)"
  "es_page_offset (snd (exec_split_off i off)) = es_page_offset i - off"
  "es_file_offset (snd (exec_split_off i off)) = saturating_add (es_file_offset i) (min (off - es_page_offset i) (es_file_size i))"
  "es_mem_size (snd (exec_split_off i off)) = es_mem_size i - min (off - es_page_offset i) (es_mem_size i)"
  "es_file_size (snd (exec_split_off i off)) = es_file_size i - min (off - es_page_offset i) (es_file_size i)"
  by (simp_all add: exec_split_off_def Let_def)

lemma exec_split_fault:
  assumes "exec_ok i" and "off mod 4096 = 0" and "k mod 4096 = 0" and "k + 4096 \<le> usize_max"
  shows "k < off \<Longrightarrow> exec_segment_fault (fst (exec_split_off i off)) k = exec_segment_fault i k"
    and "off \<le> k \<Longrightarrow> exec_segment_fault (snd (exec_split_off i off)) (k - off) = exec_segment_fault i k"
proof -
  note ok = exec_split_ok [OF assms(1), of off]
  show "exec_segment_fault (fst (exec_split_off i off)) k = exec_segment_fault i k" if "k < off"
  proof -
    from assms(2,3) obtain q r where "off = 4096 * q" "k = 4096 * r" unfolding mod_eq_0_iff_dvd by (auto elim!: dvdE)
    with that have "k + 4096 \<le> off" by simp
    from fault_left [OF this] show ?thesis
      unfolding exec_fault_eq [OF conjunct1 [OF ok] assms(4)] exec_fault_eq [OF assms(1,4)] exec_split_sel by (simp only:)
  qed
  show "exec_segment_fault (snd (exec_split_off i off)) (k - off) = exec_segment_fault i k" if "off \<le> k"
  proof -
    have le: "k - off + 4096 \<le> usize_max" using assms(4) by linarith
    have sat: "saturating_add (es_file_offset i) (min (off - es_page_offset i) (es_file_size i)) =
        es_file_offset i + min (off - es_page_offset i) (es_file_size i)"
      using assms(1) unfolding saturating_add_def exec_ok_def by linarith
    show ?thesis
      unfolding exec_fault_eq [OF conjunct2 [OF ok] le] exec_fault_eq [OF assms(1,4)] exec_split_sel sat fault_right [OF that] ..
  qed
qed

section \<open>Splitting an area\<close>

definition area_ok :: "map_area \<Rightarrow> bool" where
  "area_ok a \<longleftrightarrow> area_range_ok a \<and> ma_type a = Framed \<and> bt_ok (data_frames a) \<and> bt_ok (cache_pages a) \<and> bt_ok (shm_pages a) \<and>
     resident a \<subseteq> {ma_start a..<ma_end a} \<and> fst ` set (data_frames a) \<inter> fst ` set (cache_pages a) = {} \<and>
     fst ` set (data_frames a) \<inter> fst ` set (shm_pages a) = {} \<and> (is_mmap a \<longrightarrow> \<not> is_shm a) \<and>
     (\<forall>i s. ma_mmap a = Some i \<and> mi_exec_segment i = Some s \<longrightarrow> exec_ok s)"

lemma bt_get_filter_key: "bt_get (filter (\<lambda>e. P (fst e)) m) k = (if P k then bt_get m k else None)"
  by (induction m) auto

lemma wrapping_add_shift: "off \<le> k \<Longrightarrow> wrapping_add (wrapping_add fo off) (k - off) = wrapping_add fo k"
proof -
  assume "off \<le> k"
  moreover have "wrapping_add (wrapping_add fo off) (k - off) = (fo + off + (k - off)) mod 2 ^ 64"
    unfolding wrapping_add_def by (rule mod_add_left_eq)
  ultimately show ?thesis by (simp add: wrapping_add_def)
qed

lemma split_len:
  fixes len off k :: nat
  assumes "off mod 4096 = 0" and "k mod 4096 = 0"
  shows "k < off \<Longrightarrow> min (min len off - k) 4096 = min (len - k) 4096" and "off \<le> k \<Longrightarrow> len - off - (k - off) = len - k"
proof -
  assume "k < off"
  moreover from assms obtain q r where "off = 4096 * q" "k = 4096 * r" unfolding mod_eq_0_iff_dvd by (auto elim!: dvdE)
  ultimately have "k + 4096 \<le> off" by simp
  then show "min (min len off - k) 4096 = min (len - k) 4096" by linarith
qed simp

lemma mmap_split_page:
  assumes "\<And>s. mi_exec_segment i = Some s \<Longrightarrow> exec_ok s" and "off mod 4096 = 0" and "k mod 4096 = 0" and "k + 4096 \<le> usize_max"
  shows "k < off \<Longrightarrow> page_mmap_of (fst (mmap_split_off i off at)) k = page_mmap_of i k"
    and "off \<le> k \<Longrightarrow> page_mmap_of (snd (mmap_split_off i off at)) (k - off) = page_mmap_of i k"
proof -
  show "page_mmap_of (fst (mmap_split_off i off at)) k = page_mmap_of i k" if "k < off"
    using that exec_split_fault(1) [OF assms] split_len(1) [OF assms(2,3)]
    by (cases "mi_exec_segment i") (simp_all add: page_mmap_of_def mmap_split_off_def bt_split_off_def)
  show "page_mmap_of (snd (mmap_split_off i off at)) (k - off) = page_mmap_of i k" if "off \<le> k"
    using that exec_split_fault(2) [OF assms] split_len(2) [OF assms(2,3)] wrapping_add_shift
    by (cases "mi_exec_segment i") (simp_all add: page_mmap_of_def mmap_split_off_def bt_split_off_def)
qed

lemma split_range:
  assumes "area_split_off a at = Some (l, r, es)"
  shows "ma_start a < at" "at < ma_end a" "ma_start l = ma_start a" "ma_end l = at" "ma_start r = at" "ma_end r = ma_end a"
    "ma_type l = ma_type a" "ma_type r = ma_type a" "map_perm l = map_perm a" "map_perm r = map_perm a"
    "is_mmap l = is_mmap a" "is_mmap r = is_mmap a" "is_shm l = is_shm a" "is_shm r = is_shm a"
  using assms by (auto simp: area_split_off_def Let_def is_mmap_def is_shm_def split: if_splits)

lemma split_mmap:
  assumes "area_split_off a at = Some (l, r, es)"
  shows "ma_mmap l = map_option (\<lambda>i. fst (mmap_split_off i ((at - ma_start a) * 4096) at)) (ma_mmap a)"
    and "ma_mmap r = map_option (\<lambda>i. snd (mmap_split_off i ((at - ma_start a) * 4096) at)) (ma_mmap a)"
    and "ma_shm l = map_option (\<lambda>i. fst (shm_split_off i ((at - ma_start a) * 4096) at)) (ma_shm a)"
    and "ma_shm r = map_option (\<lambda>i. snd (shm_split_off i ((at - ma_start a) * 4096) at)) (ma_shm a)"
  using assms by (auto simp: area_split_off_def Let_def option.map_comp o_def split: if_splits)

lemma split_pages:
  assumes "area_split_off a at = Some (l, r, es)"
  shows "data_frames l = filter (\<lambda>e. fst e < at) (data_frames a)" "data_frames r = filter (\<lambda>e. at \<le> fst e) (data_frames a)"
    "cache_pages l = filter (\<lambda>e. fst e < at) (cache_pages a)" "cache_pages r = filter (\<lambda>e. at \<le> fst e) (cache_pages a)"
    "shm_pages l = filter (\<lambda>e. fst e < at) (shm_pages a)" "shm_pages r = filter (\<lambda>e. at \<le> fst e) (shm_pages a)"
proof -
  show "data_frames l = filter (\<lambda>e. fst e < at) (data_frames a)" "data_frames r = filter (\<lambda>e. at \<le> fst e) (data_frames a)"
    using assms by (auto simp: area_split_off_def Let_def bt_split_off_def split: if_splits)
  show "cache_pages l = filter (\<lambda>e. fst e < at) (cache_pages a)" "cache_pages r = filter (\<lambda>e. at \<le> fst e) (cache_pages a)"
    unfolding cache_pages_def split_mmap [OF assms] by (cases "ma_mmap a"; simp add: mmap_split_off_def bt_split_off_def)+
  show "shm_pages l = filter (\<lambda>e. fst e < at) (shm_pages a)" "shm_pages r = filter (\<lambda>e. at \<le> fst e) (shm_pages a)"
    unfolding shm_pages_def split_mmap [OF assms] by (cases "ma_shm a"; simp add: shm_split_off_def bt_split_off_def)+
qed

lemma split_resident:
  assumes "area_split_off a at = Some (l, r, es)"
  shows "resident l = resident a \<inter> {..<at}" and "resident r = resident a \<inter> {at..}"
  unfolding resident_def split_pages [OF assms] by auto

lemma filter_keys_disjoint:
  assumes "fst ` set m \<inter> fst ` set n = {}"
  shows "fst ` set (filter P m) \<inter> fst ` set (filter Q n) = {}"
proof -
  have "fst ` set (filter P m) \<inter> fst ` set (filter Q n) \<subseteq> fst ` set m \<inter> fst ` set n" by (intro Int_mono image_mono filter_is_subset)
  with assms show ?thesis by simp
qed

lemma split_area_ok:
  assumes "area_split_off a at = Some (l, r, es)" and "area_ok a"
  shows "area_ok l \<and> area_ok r"
proof -
  note range = split_range [OF assms(1)] and pages = split_pages [OF assms(1)] and res = split_resident [OF assms(1)]
    and mm = split_mmap [OF assms(1)] and ok = assms(2) [unfolded area_ok_def]
  have exec: "exec_ok s" if "ma_mmap l = Some i \<or> ma_mmap r = Some i" "mi_exec_segment i = Some s" for i s
    using that assms(2) exec_split_ok unfolding mm by (auto simp: area_ok_def mmap_split_off_def bt_split_off_def)
  have "resident l \<subseteq> {ma_start l..<ma_end l}" "resident r \<subseteq> {ma_start r..<ma_end r}" unfolding res range using ok by auto
  moreover have "area_range_ok l" "area_range_ok r" using ok range by (simp_all add: area_range_ok_def)
  ultimately show ?thesis unfolding area_ok_def pages range(7-)
    using ok by (intro conjI allI impI) (simp_all add: bt_ok_filter filter_keys_disjoint del: set_filter, auto intro: exec)
qed

lemma split_info:
  assumes "area_split_off a at = Some (l, r, es)" and "area_ok a" and "contains_vpn a v"
  shows "page_info_of (if v < at then l else r) v = page_info_of a v"
proof -
  note range = split_range [OF assms(1)] and pages = split_pages [OF assms(1)] and mm = split_mmap [OF assms(1)]
  let ?off = "(at - ma_start a) * 4096" and ?k = "(v - ma_start a) * 4096"
  have k: "?k + 4096 \<le> usize_max"
    using assms(2,3) by (auto simp: area_ok_def area_range_ok_def TOP_VPN_def contains_vpn_def usize_max_def)
  have ex: "\<And>i s. ma_mmap a = Some i \<Longrightarrow> mi_exec_segment i = Some s \<Longrightarrow> exec_ok s" using assms(2) by (simp add: area_ok_def)
  have al: "?off mod 4096 = 0" "?k mod 4096 = 0" by simp_all
  show ?thesis
  proof (cases "v < at")
    case True
    with range(1) assms(3) have lt: "?k < ?off" by (auto simp: contains_vpn_def)
    have "map_option (\<lambda>i. page_mmap_of i ?k) (ma_mmap l) = map_option (\<lambda>i. page_mmap_of i ?k) (ma_mmap a)"
      using mmap_split_page(1) [OF ex al k lt] unfolding mm by (cases "ma_mmap a") simp_all
    moreover have "map_option (\<lambda>i. (si_shmid i, wrapping_add (si_offset i) ?k, min (si_len i - ?k) 4096)) (ma_shm l) =
        map_option (\<lambda>i. (si_shmid i, wrapping_add (si_offset i) ?k, min (si_len i - ?k) 4096)) (ma_shm a)"
      using split_len(1) [OF al lt] unfolding mm by (cases "ma_shm a") (simp_all add: shm_split_off_def bt_split_off_def)
    ultimately show ?thesis using True by (simp add: page_info_of_def Let_def range pages bt_get_filter_key [where P = "\<lambda>k. k < at"])
  next
    case False
    with range(1) have le: "?off \<le> ?k" by simp
    have kr: "(v - at) * 4096 = ?k - ?off" using False range(1) by (simp add: diff_mult_distrib [symmetric])
    have "map_option (\<lambda>i. page_mmap_of i (?k - ?off)) (ma_mmap r) = map_option (\<lambda>i. page_mmap_of i ?k) (ma_mmap a)"
      using mmap_split_page(2) [OF ex al k le] unfolding mm by (cases "ma_mmap a") simp_all
    moreover have "map_option (\<lambda>i. (si_shmid i, wrapping_add (si_offset i) (?k - ?off), min (si_len i - (?k - ?off)) 4096)) (ma_shm r) =
        map_option (\<lambda>i. (si_shmid i, wrapping_add (si_offset i) ?k, min (si_len i - ?k) 4096)) (ma_shm a)"
      using split_len(2) [OF al le] wrapping_add_shift [OF le] unfolding mm
      by (cases "ma_shm a") (simp_all add: shm_split_off_def bt_split_off_def)
    ultimately show ?thesis using False by (simp add: page_info_of_def Let_def range pages bt_get_filter_key [where P = "\<lambda>k. at \<le> k"] kr)
  qed
qed

end
