(* ===== verification/Memory_Set.thy ===== *)
theory Memory_Set
  imports Vm_Area
begin

text \<open>
  The list of areas of an address space (\<^verbatim>\<open>mm/memory_set.rs\<close>) and the arithmetic of ranges
  (\<^verbatim>\<open>mm/user_space/layout.rs\<close>, \<^verbatim>\<open>mm/address.rs\<close>). The areas are kept sorted by their start and are found by binary search,
  with the index of the last hit as a cache; the search for a free range walks over the gaps between them.

  An address is a natural number below two to the power of 64, a virtual page a natural number.
\<close>

unbundle bit_operations_syntax

section \<open>Address arithmetic\<close>

definition USER_MMAP_BASE :: nat where "USER_MMAP_BASE = 0x800000000"
definition USER_MMAP_LIMIT :: nat where "USER_MMAP_LIMIT = 0x2000000000"

definition page_align_up :: "nat \<Rightarrow> nat" where
  "page_align_up addr = ((addr + 4095) mod 2 ^ 64) div 4096 * 4096"

definition checked_page_align_up :: "nat \<Rightarrow> nat option" where
  "checked_page_align_up addr = map_option (\<lambda>a. a div 4096 * 4096) (checked_add addr 4095)"

text \<open>\<^verbatim>\<open>usize::from(VirtAddr::from(vpn))\<close>.\<close>

definition va_of_vpn :: "nat \<Rightarrow> nat" where
  "va_of_vpn vpn = unat (sign_extend_virt_addr (virt_addr_of_vpn vpn))"

definition checked_page_range :: "nat \<Rightarrow> nat \<Rightarrow> (nat \<times> nat) option" where
  "checked_page_range start len =
     (if len = 0 then Some (va_floor start, va_floor start)
      else map_option (\<lambda>e. (va_floor start, va_ceil e)) (checked_add start len))"

definition normalized_mmap_hint :: "nat \<Rightarrow> nat" where
  "normalized_mmap_hint hint =
     (if \<not> (USER_MMAP_BASE \<le> hint \<and> hint < USER_MMAP_LIMIT) then USER_MMAP_BASE else page_align_up hint)"

definition next_mmap_hint :: "nat \<Rightarrow> nat" where
  "next_mmap_hint e = (if USER_MMAP_LIMIT \<le> e then USER_MMAP_BASE else e)"

section \<open>The list of areas\<close>

record 's memory_set =
  ms_vm :: "'s vm"
  ms_areas :: "map_area list"
  last_area_idx_containing :: "nat option"
  brk_base :: nat
  brk :: nat
  brk_limit :: nat
  brk_mapped_end :: nat
  mmap_next :: nat

text \<open>The binary search: the first index at which the predicate fails.\<close>

function lower_bound :: "(nat \<Rightarrow> bool) \<Rightarrow> nat \<Rightarrow> nat \<Rightarrow> nat" where
  "lower_bound p low high =
     (if low < high
      then (let mid = (low + high) div 2 in if p mid then lower_bound p (mid + 1) high else lower_bound p low mid)
      else low)"
  by auto
termination by (relation "measure (\<lambda>(p, low, high). high - low)") auto

declare lower_bound.simps [simp del]

definition area_insert_index :: "map_area list \<Rightarrow> nat \<Rightarrow> nat" where
  "area_insert_index areas start_vpn = lower_bound (\<lambda>mid. ma_start (areas ! mid) < start_vpn) 0 (length areas)"

definition find_area_idx_by_start :: "map_area list \<Rightarrow> nat \<Rightarrow> nat option" where
  "find_area_idx_by_start areas start_vpn =
     (let idx = area_insert_index areas start_vpn
      in if idx < length areas \<and> ma_start (areas ! idx) = start_vpn then Some idx else None)"

text \<open>\<^verbatim>\<open>Vec::insert\<close>.\<close>

definition vec_insert :: "nat \<Rightarrow> 'a \<Rightarrow> 'a list \<Rightarrow> 'a list" where
  "vec_insert i x xs = take i xs @ x # drop i xs"

definition vec_delete :: "nat \<Rightarrow> 'a list \<Rightarrow> 'a list" where
  "vec_delete i xs = take i xs @ drop (Suc i) xs"

definition insert_area_sorted :: "map_area \<Rightarrow> 's memory_set \<Rightarrow> nat \<times> 's memory_set" where
  "insert_area_sorted a m =
     (let idx = area_insert_index (ms_areas m) (ma_start a)
      in (idx, m\<lparr>ms_areas := vec_insert idx a (ms_areas m), last_area_idx_containing := None\<rparr>))"

definition find_area_idx_containing :: "nat \<Rightarrow> 's memory_set \<Rightarrow> nat option \<times> 's memory_set" where
  "find_area_idx_containing vpn m =
     (case last_area_idx_containing m of
        Some idx \<Rightarrow>
          if idx < length (ms_areas m) \<and> contains_vpn (ms_areas m ! idx) vpn then (Some idx, m)
          else
            (let low = lower_bound (\<lambda>mid. ma_start (ms_areas m ! mid) \<le> vpn) 0 (length (ms_areas m));
                 r = (if low = 0 then None else if vpn < ma_end (ms_areas m ! (low - 1)) then Some (low - 1) else None)
             in (r, m\<lparr>last_area_idx_containing := r\<rparr>))
      | None \<Rightarrow>
          (let low = lower_bound (\<lambda>mid. ma_start (ms_areas m ! mid) \<le> vpn) 0 (length (ms_areas m));
               r = (if low = 0 then None else if vpn < ma_end (ms_areas m ! (low - 1)) then Some (low - 1) else None)
           in (r, m\<lparr>last_area_idx_containing := r\<rparr>)))"

definition first_area_idx_ending_after :: "map_area list \<Rightarrow> nat \<Rightarrow> nat" where
  "first_area_idx_ending_after areas start =
     (let idx = area_insert_index areas start
      in if idx > 0 \<and> ma_end (areas ! (idx - 1)) > start then idx - 1 else idx)"

definition overlap_area_idx_bounds :: "map_area list \<Rightarrow> nat \<Rightarrow> nat \<Rightarrow> nat \<times> nat" where
  "overlap_area_idx_bounds areas start fin =
     (if start \<ge> fin then (0, 0)
      else (let start_idx = first_area_idx_ending_after areas start; end_idx = area_insert_index areas fin
            in (min start_idx end_idx, end_idx)))"

text \<open>The walk of \<^verbatim>\<open>range_is_mapped_vpn\<close> over the areas from an index on.\<close>

fun covers_walk :: "map_area list \<Rightarrow> nat \<Rightarrow> nat \<Rightarrow> bool" where
  "covers_walk [] cursor fin \<longleftrightarrow> \<not> cursor < fin"
| "covers_walk (a # as) cursor fin \<longleftrightarrow>
     (if cursor < fin
      then (if ma_start a > cursor \<or> ma_end a \<le> cursor then False else covers_walk as (min (ma_end a) fin) fin)
      else True)"

definition range_is_mapped_vpn :: "map_area list \<Rightarrow> nat \<Rightarrow> nat \<Rightarrow> bool" where
  "range_is_mapped_vpn areas start fin \<longleftrightarrow> covers_walk (drop (first_area_idx_ending_after areas start) areas) start fin"

definition range_overlaps :: "'s memory_set \<Rightarrow> nat \<Rightarrow> nat \<Rightarrow> bool" where
  "range_overlaps m start fin \<longleftrightarrow>
     (if start \<ge> fin then False
      else if range_intersects_shared_root (pw_pt (vw_pt (ms_vm m))) (of_nat start) (of_nat fin) then True
      else
        (let areas = ms_areas m; start_vpn = va_floor start; end_vpn = va_floor fin; idx = area_insert_index areas start_vpn
         in (idx > 0 \<and> ma_end (areas ! (idx - 1)) > start_vpn) \<or>
            (idx < length areas \<and> ma_start (areas ! idx) < end_vpn \<and> ma_end (areas ! idx) > start_vpn)))"

section \<open>The search for a hole\<close>

fun skip_ended :: "map_area list \<Rightarrow> nat \<Rightarrow> map_area list" where
  "skip_ended [] cursor = []"
| "skip_ended (a # as) cursor = (if va_of_vpn (ma_end a) > cursor then a # as else skip_ended as cursor)"

lemma va_of_vpn_lt: "va_of_vpn v < 2 ^ 64"
  unfolding va_of_vpn_def by (rule order_less_le_trans [OF unsigned_less]) simp

lemma skip_ended_gt: "skip_ended as cursor = a # rest \<Longrightarrow> va_of_vpn (ma_end a) > cursor"
  by (induction as) (auto split: if_splits)

lemma page_align_up_ge: "x \<le> 2 ^ 64 - 4096 \<Longrightarrow> x \<le> page_align_up x"
  by (simp add: page_align_up_def)

lemma va_of_vpn_aligned: "va_of_vpn v mod 4096 = 0"
proof -
  have "take_bit 12 (sign_extend_virt_addr (virt_addr_of_vpn v)) = 0"
    by (rule bit_eqI) (auto simp: sign_extend_virt_addr_def virt_addr_of_vpn_def bit_simps)
  then have "take_bit 12 (va_of_vpn v) = 0"
    by (simp add: va_of_vpn_def unsigned_take_bit_eq [symmetric])
  then show ?thesis by (simp add: take_bit_eq_mod)
qed

lemma page_align_up_aligned: "x mod 4096 = 0 \<Longrightarrow> x < 2 ^ 64 \<Longrightarrow> page_align_up x = x"
proof -
  assume x: "x mod 4096 = 0" "x < 2 ^ 64"
  then obtain k where k: "x = 4096 * k" by (auto simp: mod_eq_0_iff_dvd)
  with x(2) have "x + 4095 < 2 ^ 64" by simp
  with k show ?thesis by (simp add: page_align_up_def)
qed

lemma page_align_up_va [simp]: "page_align_up (va_of_vpn v) = va_of_vpn v"
  by (rule page_align_up_aligned [OF va_of_vpn_aligned va_of_vpn_lt])

function hole_loop :: "map_area list \<Rightarrow> nat \<Rightarrow> nat \<Rightarrow> nat \<Rightarrow> nat option" where
  "hole_loop areas limit len cursor =
     (case checked_add cursor len of
        None \<Rightarrow> None
      | Some fin \<Rightarrow>
          if fin > limit then None
          else
            (let idx = area_insert_index areas (va_floor cursor);
                 prev_end = va_of_vpn (ma_end (areas ! (idx - 1)))
             in if idx > 0 \<and> prev_end > cursor then hole_loop areas limit len (page_align_up prev_end)
                else
                  (case skip_ended (drop idx areas) cursor of
                     [] \<Rightarrow> Some cursor
                   | a # _ \<Rightarrow>
                       if va_of_vpn (ma_start a) \<ge> limit then Some cursor
                       else if fin \<le> va_of_vpn (ma_start a) then Some cursor
                       else hole_loop areas limit len (page_align_up (va_of_vpn (ma_end a))))))"
  by pat_completeness auto
termination
proof (relation "measure (\<lambda>(areas, limit, len, cursor). limit + 1 - cursor)", goal_cases)
  case (2 areas limit len cursor fin idx prev_end)
  then show ?case by (auto simp: checked_add_def split: if_splits)
next
  case (3 areas limit len cursor fin idx prev_end a rest)
  then have "cursor < va_of_vpn (ma_end a)" using skip_ended_gt [of "drop idx areas" cursor a rest] by simp
  with 3 show ?case by (auto simp: checked_add_def split: if_splits)
qed simp

declare hole_loop.simps [simp del]

definition find_mmap_hole :: "map_area list \<Rightarrow> nat \<Rightarrow> nat \<Rightarrow> nat \<Rightarrow> nat option" where
  "find_mmap_hole areas start limit len =
     (if start \<ge> limit \<or> len = 0 then None else hole_loop areas limit len (page_align_up start))"

definition alloc_mmap_range :: "map_area list \<Rightarrow> nat \<Rightarrow> nat \<Rightarrow> nat option" where
  "alloc_mmap_range areas nxt len =
     (if len = 0 \<or> len > USER_MMAP_LIMIT - USER_MMAP_BASE then None
      else
        (let hint = normalized_mmap_hint nxt
         in case find_mmap_hole areas hint USER_MMAP_LIMIT len of
              Some start \<Rightarrow> Some start
            | None \<Rightarrow> find_mmap_hole areas USER_MMAP_BASE hint len))"

section \<open>Sorted areas\<close>

text \<open>The areas are not empty, do not overlap and are sorted.\<close>

definition areas_ok :: "map_area list \<Rightarrow> bool" where
  "areas_ok as \<longleftrightarrow> sorted_wrt (\<lambda>a b. ma_end a \<le> ma_start b) as \<and> list_all area_range_ok as"

definition area_at :: "map_area list \<Rightarrow> nat \<Rightarrow> map_area option" where
  "area_at as vpn = List.find (\<lambda>a. contains_vpn a vpn) as"

lemma areas_ok_Nil [simp]: "areas_ok []"
  by (simp add: areas_ok_def)

lemma areas_ok_Cons: "areas_ok (a # as) \<longleftrightarrow> area_range_ok a \<and> (\<forall>b \<in> set as. ma_end a \<le> ma_start b) \<and> areas_ok as"
  by (auto simp: areas_ok_def)

lemma areas_ok_append:
  "areas_ok (as @ bs) \<longleftrightarrow> areas_ok as \<and> areas_ok bs \<and> (\<forall>a \<in> set as. \<forall>b \<in> set bs. ma_end a \<le> ma_start b)"
  by (auto simp: areas_ok_def sorted_wrt_append)

lemma areas_range: "areas_ok as \<Longrightarrow> a \<in> set as \<Longrightarrow> area_range_ok a"
  by (auto simp: areas_ok_def list_all_iff)

lemma areas_nonempty: "areas_ok as \<Longrightarrow> a \<in> set as \<Longrightarrow> ma_start a < ma_end a"
  by (auto dest: areas_range simp: area_range_ok_def)

lemma lower_bound_spec:
  assumes mono: "\<And>i j. i \<le> j \<Longrightarrow> j < n \<Longrightarrow> p j \<Longrightarrow> p i" and "high \<le> n" and "low \<le> high"
  shows "low \<le> lower_bound p low high \<and> lower_bound p low high \<le> high \<and>
    (\<forall>i. low \<le> i \<and> i < lower_bound p low high \<longrightarrow> p i) \<and> (\<forall>i. lower_bound p low high \<le> i \<and> i < high \<longrightarrow> \<not> p i)"
  using assms(2,3)
proof (induction "high - low" arbitrary: low high rule: less_induct)
  case less
  show ?case
  proof (cases "low < high")
    case True
    define mid where "mid = (low + high) div 2"
    have mid: "low \<le> mid" "mid < high" using True by (auto simp: mid_def)
    have step: "lower_bound p low high = (if p mid then lower_bound p (mid + 1) high else lower_bound p low mid)"
      using True by (subst lower_bound.simps) (simp add: Let_def mid_def)
    show ?thesis
    proof (cases "p mid")
      case p: True
      have below: "p i" if "i < mid + 1" for i using mono [of i mid] that p mid less.prems by simp
      define r where "r = lower_bound p (mid + 1) high"
      have "mid + 1 \<le> r \<and> r \<le> high \<and> (\<forall>i. mid + 1 \<le> i \<and> i < r \<longrightarrow> p i) \<and> (\<forall>i. r \<le> i \<and> i < high \<longrightarrow> \<not> p i)"
        unfolding r_def by (rule less.hyps) (use mid less.prems in auto)
      moreover have "lower_bound p low high = r" by (simp add: step p r_def)
      moreover have "p i" if "i < r" for i using below [of i] calculation(1) that by (cases "i < mid + 1") auto
      ultimately show ?thesis using mid by auto
    next
      case p: False
      have above: "\<not> p i" if "mid \<le> i" "i < high" for i using mono [of mid i] that p less.prems by auto
      define r where "r = lower_bound p low mid"
      have "low \<le> r \<and> r \<le> mid \<and> (\<forall>i. low \<le> i \<and> i < r \<longrightarrow> p i) \<and> (\<forall>i. r \<le> i \<and> i < mid \<longrightarrow> \<not> p i)"
        unfolding r_def by (rule less.hyps) (use mid less.prems in auto)
      moreover have "lower_bound p low high = r" by (simp add: step p r_def)
      moreover have "\<not> p i" if "r \<le> i" "i < high" for i using above [of i] calculation(1) that by (cases "i < mid") auto
      ultimately show ?thesis using mid by auto
    qed
  qed (use less.prems in \<open>auto simp: lower_bound.simps\<close>)
qed

lemma lower_bound_append:
  assumes "\<forall>a \<in> set L. P a" and "\<forall>a \<in> set R. \<not> P a"
  shows "lower_bound (\<lambda>i. P ((L @ R) ! i)) 0 (length (L @ R)) = length L"
proof -
  let ?p = "\<lambda>i. P ((L @ R) ! i)"
  have p: "?p i \<longleftrightarrow> i < length L" if "i < length (L @ R)" for i using that assms by (auto simp: nth_append)
  define r where "r = lower_bound ?p 0 (length (L @ R))"
  have "?p i" if "i \<le> j" "j < length (L @ R)" "?p j" for i j using p [of i] p [of j] that by simp
  from lower_bound_spec [where n = "length (L @ R)" and p = ?p and low = 0, OF this order_refl]
  have spec: "r \<le> length (L @ R)" "\<forall>i < r. ?p i" "\<forall>i. r \<le> i \<and> i < length (L @ R) \<longrightarrow> \<not> ?p i"
    unfolding r_def [symmetric] by simp_all
  have "\<not> r < length L" using spec(3) p [of r] by auto
  moreover have "\<not> length L < r"
  proof
    assume r: "length L < r"
    with spec(1) have "length L < length (L @ R)" by linarith
    from p [OF this] spec(2) r show False by blast
  qed
  ultimately show ?thesis by (simp add: r_def)
qed

lemma areas_cut:
  assumes "areas_ok as"
  obtains L R where "as = L @ R" "\<forall>a \<in> set L. ma_start a < v" "\<forall>a \<in> set R. v \<le> ma_start a"
proof
  show "as = takeWhile (\<lambda>a. ma_start a < v) as @ dropWhile (\<lambda>a. ma_start a < v) as" by simp
  show "\<forall>a \<in> set (takeWhile (\<lambda>a. ma_start a < v) as). ma_start a < v" by (auto dest: set_takeWhileD)
  show "\<forall>a \<in> set (dropWhile (\<lambda>a. ma_start a < v) as). v \<le> ma_start a"
    using assms
  proof (induction as)
    case (Cons a as)
    then have "ma_start a \<le> ma_start b" if "b \<in> set as" for b using that by (fastforce simp: areas_ok_Cons area_range_ok_def)
    with Cons show ?case by (auto simp: areas_ok_Cons not_less intro: order_trans)
  qed simp
qed

lemma area_insert_index_append:
  "\<forall>a \<in> set L. ma_start a < v \<Longrightarrow> \<forall>a \<in> set R. v \<le> ma_start a \<Longrightarrow> area_insert_index (L @ R) v = length L"
  unfolding area_insert_index_def by (rule lower_bound_append) (auto simp: not_less)

lemma area_at_Cons [simp]: "area_at (a # as) v = (if contains_vpn a v then Some a else area_at as v)"
  by (simp add: area_at_def)

lemma area_at_Nil [simp]: "area_at [] v = None"
  by (simp add: area_at_def)

lemma area_at_append: "area_at (as @ bs) v = (case area_at as v of None \<Rightarrow> area_at bs v | Some a \<Rightarrow> Some a)"
  by (induction as) auto

lemma area_at_None: "area_at as v = None \<longleftrightarrow> (\<forall>a \<in> set as. \<not> contains_vpn a v)"
  by (induction as) auto

lemma area_at_SomeD: "area_at as v = Some a \<Longrightarrow> a \<in> set as \<and> contains_vpn a v"
  by (induction as) (auto split: if_splits)

lemma areas_unique:
  "areas_ok as \<Longrightarrow> a \<in> set as \<Longrightarrow> b \<in> set as \<Longrightarrow> contains_vpn a v \<Longrightarrow> contains_vpn b v \<Longrightarrow> a = b"
  by (induction as) (auto simp: areas_ok_Cons contains_vpn_def)

lemma area_at_iff: "areas_ok as \<Longrightarrow> area_at as v = Some a \<longleftrightarrow> a \<in> set as \<and> contains_vpn a v"
  using areas_unique area_at_SomeD area_at_None by (metis not_None_eq)

lemma areas_unique_idx:
  assumes "areas_ok as" and "i < length as" and "j < length as" and "contains_vpn (as ! i) v" and "contains_vpn (as ! j) v"
  shows "i = j"
proof -
  have less: False if "i < j" "j < length as" "contains_vpn (as ! i) v" "contains_vpn (as ! j) v" for i j
  proof -
    from assms(1) that(1,2) have "ma_end (as ! i) \<le> ma_start (as ! j)"
      by (auto simp: areas_ok_def sorted_wrt_iff_nth_less)
    with that(3,4) show False by (simp add: contains_vpn_def)
  qed
  show ?thesis using less [of i j] less [of j i] assms by (metis linorder_neqE_nat)
qed

text \<open>The lookup finds the area of a page whatever the cached index is.\<close>

lemma lookup_cut:
  assumes "as = L @ R" and "areas_ok as" and "\<forall>a \<in> set L. ma_start a \<le> v" and "\<forall>a \<in> set R. v < ma_start a"
  shows "i < length as \<and> contains_vpn (as ! i) v \<longleftrightarrow> L \<noteq> [] \<and> i = length L - 1 \<and> v < ma_end (last L)"
proof -
  have "\<not> contains_vpn a v" if "a \<in> set R" for a using assms(4) that by (auto simp: contains_vpn_def)
  moreover have "\<not> contains_vpn (as ! i) v" if "i < length L - 1"
  proof -
    from assms(2) that assms(1) have "ma_end (as ! i) \<le> ma_start (as ! (length L - 1))"
      by (auto simp: areas_ok_def sorted_wrt_iff_nth_less)
    also have "\<dots> \<le> v" using assms(1,3) that by (simp add: nth_append)
    finally show ?thesis by (simp add: contains_vpn_def)
  qed
  ultimately have no: "\<not> contains_vpn (as ! i) v" if "i < length as" "L = [] \<or> i \<noteq> length L - 1"
    using assms(1) that by (cases "i < length L - 1"; cases "i < length L") (auto simp: nth_append)
  show ?thesis
  proof (cases "L = [] \<or> i \<noteq> length L - 1")
    case False
    then have "i < length L" by (cases L) auto
    with assms(1) have "i < length as" by simp
    moreover from False have "as ! i = last L" "last L \<in> set L" using assms(1) by (auto simp: nth_append last_conv_nth)
    ultimately show ?thesis using False assms(3) by (simp add: contains_vpn_def)
  qed (use no in blast)
qed

lemma find_area_correct:
  assumes "areas_ok (ms_areas m)" and "find_area_idx_containing vpn m = (r, m')"
  shows "(r = Some i \<longleftrightarrow> i < length (ms_areas m) \<and> contains_vpn (ms_areas m ! i) vpn) \<and>
    (r = None \<longleftrightarrow> area_at (ms_areas m) vpn = None) \<and> m' = m\<lparr>last_area_idx_containing := r\<rparr>"
proof -
  obtain L R where cut: "ms_areas m = L @ R" "\<forall>a \<in> set L. ma_start a < vpn + 1" "\<forall>a \<in> set R. vpn + 1 \<le> ma_start a"
    by (rule areas_cut [OF assms(1), of "vpn + 1"])
  have lb: "lower_bound (\<lambda>mid. ma_start (ms_areas m ! mid) \<le> vpn) 0 (length (ms_areas m)) = length L"
    unfolding cut(1) using lower_bound_append [of L "\<lambda>a. ma_start a \<le> vpn" R] cut(2,3) by fastforce
  note lc = lookup_cut [OF cut(1) assms(1), of vpn]
  have iff: "i < length (ms_areas m) \<and> contains_vpn (ms_areas m ! i) vpn \<longleftrightarrow>
      L \<noteq> [] \<and> i = length L - 1 \<and> vpn < ma_end (last L)" for i
    using lc [of i] cut(2,3) by fastforce
  have at: "ms_areas m ! (length L - 1) = last L" if "L \<noteq> []" using that by (simp add: cut(1) nth_append last_conv_nth)
  let ?search = "if length L = 0 then None else if vpn < ma_end (ms_areas m ! (length L - 1)) then Some (length L - 1) else None"
  have search: "?search = Some i \<longleftrightarrow> i < length (ms_areas m) \<and> contains_vpn (ms_areas m ! i) vpn" for i
    using iff [of i] at by auto
  have r: "r = ?search \<and> m' = m\<lparr>last_area_idx_containing := r\<rparr>"
  proof (cases "\<exists>idx. last_area_idx_containing m = Some idx \<and> idx < length (ms_areas m) \<and> contains_vpn (ms_areas m ! idx) vpn")
    case True
    then obtain idx where idx: "last_area_idx_containing m = Some idx" "idx < length (ms_areas m)" "contains_vpn (ms_areas m ! idx) vpn"
      by blast
    with search [of idx] assms(2) show ?thesis by (simp add: find_area_idx_containing_def)
  next
    case False
    with assms(2) lb show ?thesis by (auto simp: find_area_idx_containing_def Let_def split: option.splits if_splits)
  qed
  have "r = None \<longleftrightarrow> area_at (ms_areas m) vpn = None"
  proof -
    have "r = None \<longleftrightarrow> (\<forall>i < length (ms_areas m). \<not> contains_vpn (ms_areas m ! i) vpn)"
      using r search by (metis not_None_eq)
    then show ?thesis by (auto simp: area_at_None all_set_conv_all_nth)
  qed
  moreover have "r = Some i \<longleftrightarrow> i < length (ms_areas m) \<and> contains_vpn (ms_areas m ! i) vpn"
    using search [of i] unfolding conjunct1 [OF r, symmetric] .
  ultimately show ?thesis using conjunct2 [OF r] by (intro conjI)
qed

section \<open>Ranges\<close>

lemma first_idx_cut:
  assumes "areas_ok as"
  obtains A B where "as = A @ B" "first_area_idx_ending_after as s = length A"
    "\<forall>a \<in> set A. ma_end a \<le> s" "\<forall>b \<in> set B. s < ma_end b"
proof -
  obtain L R where cut: "as = L @ R" "\<forall>a \<in> set L. ma_start a < s" "\<forall>a \<in> set R. s \<le> ma_start a"
    by (rule areas_cut [OF assms])
  have idx: "area_insert_index as s = length L" using area_insert_index_append cut by blast
  have R: "\<forall>b \<in> set R. s < ma_end b" using cut areas_nonempty [OF assms] by (auto intro: order_le_less_trans)
  show thesis
  proof (cases "L \<noteq> [] \<and> s < ma_end (last L)")
    case True
    then obtain L' a where L: "L = L' @ [a]" by (cases L rule: rev_cases) auto
    have "first_area_idx_ending_after as s = length L'"
      using True idx by (simp add: first_area_idx_ending_after_def cut(1) L nth_append)
    moreover have "\<forall>b \<in> set L'. ma_end b \<le> s" using assms cut(1,2) L by (fastforce simp: areas_ok_append)
    ultimately show thesis using that [of L' "a # R"] cut(1) L R True by simp
  next
    case False
    have "first_area_idx_ending_after as s = length L"
      using False idx by (cases L rule: rev_cases) (simp_all add: first_area_idx_ending_after_def cut(1) nth_append)
    moreover have "\<forall>b \<in> set L. ma_end b \<le> s"
    proof (cases L rule: rev_cases)
      case (snoc L' a)
      with assms cut False show ?thesis by (fastforce simp: areas_ok_append)
    qed simp
    ultimately show thesis using that [of L R] cut(1) R by simp
  qed
qed

lemma covers_walk_iff:
  "areas_ok B \<Longrightarrow> \<forall>b \<in> set B. cursor < ma_end b \<Longrightarrow>
    covers_walk B cursor fin \<longleftrightarrow> (\<forall>v. cursor \<le> v \<and> v < fin \<longrightarrow> (\<exists>b \<in> set B. contains_vpn b v))"
proof (induction B arbitrary: cursor)
  case (Cons a B)
  show ?case
  proof (cases "cursor < fin \<and> ma_start a \<le> cursor")
    case True
    have "\<forall>b \<in> set B. min (ma_end a) fin < ma_end b"
      using Cons.prems(1) areas_range by (fastforce simp: areas_ok_Cons area_range_ok_def)
    note ih = Cons.IH [OF _ this]
    have "covers_walk (a # B) cursor fin = covers_walk B (min (ma_end a) fin) fin" using True Cons.prems(2) by auto
    also have "\<dots> \<longleftrightarrow> (\<forall>v. ma_end a \<le> v \<and> v < fin \<longrightarrow> (\<exists>b \<in> set B. contains_vpn b v))"
      using ih Cons.prems(1) by (auto simp: areas_ok_Cons min_def)
    also have "\<dots> \<longleftrightarrow> (\<forall>v. cursor \<le> v \<and> v < fin \<longrightarrow> (\<exists>b \<in> set (a # B). contains_vpn b v))"
      using True Cons.prems by (auto simp: areas_ok_Cons contains_vpn_def) (meson le_trans less_imp_le not_less)+
    finally show ?thesis .
  next
    case False
    show ?thesis
    proof (cases "cursor < fin")
      case True
      with False have "\<not> contains_vpn b cursor" if "b \<in> set (a # B)" for b
        using that Cons.prems areas_range by (fastforce simp: areas_ok_Cons contains_vpn_def area_range_ok_def)
      with True False show ?thesis by auto
    qed auto
  qed
qed (auto simp: not_less intro: order_trans)

lemma range_is_mapped_iff:
  assumes "areas_ok as"
  shows "range_is_mapped_vpn as s e \<longleftrightarrow> (\<forall>v. s \<le> v \<and> v < e \<longrightarrow> area_at as v \<noteq> None)"
proof -
  obtain A B where cut: "as = A @ B" "first_area_idx_ending_after as s = length A" "\<forall>a \<in> set A. ma_end a \<le> s" "\<forall>b \<in> set B. s < ma_end b"
    by (rule first_idx_cut [OF assms])
  have "range_is_mapped_vpn as s e \<longleftrightarrow> (\<forall>v. s \<le> v \<and> v < e \<longrightarrow> (\<exists>b \<in> set B. contains_vpn b v))"
    using covers_walk_iff [of B s e] cut assms by (simp add: range_is_mapped_vpn_def areas_ok_append)
  also have "\<dots> \<longleftrightarrow> (\<forall>v. s \<le> v \<and> v < e \<longrightarrow> area_at as v \<noteq> None)"
  proof -
    have "\<not> contains_vpn a v" if "s \<le> v" "a \<in> set A" for a v using cut(3) that by (force simp: contains_vpn_def)
    then have "(\<exists>b \<in> set B. contains_vpn b v) \<longleftrightarrow> area_at as v \<noteq> None" if "s \<le> v" for v
      using cut(1) that by (auto simp: area_at_None)
    then show ?thesis by blast
  qed
  finally show ?thesis .
qed

definition overlaps :: "map_area list \<Rightarrow> nat \<Rightarrow> nat \<Rightarrow> bool" where
  "overlaps as s e \<longleftrightarrow> (\<exists>v. s \<le> v \<and> v < e \<and> area_at as v \<noteq> None)"

lemma overlaps_iff: "areas_ok as \<Longrightarrow> s < e \<Longrightarrow> overlaps as s e \<longleftrightarrow> (\<exists>a \<in> set as. ma_start a < e \<and> s < ma_end a)"
proof (intro iffI)
  assume "areas_ok as" and "s < e" and "\<exists>a \<in> set as. ma_start a < e \<and> s < ma_end a"
  then obtain a where a: "a \<in> set as" "ma_start a < e" "s < ma_end a" "ma_start a < ma_end a"
    using areas_range by (fastforce simp: area_range_ok_def)
  with \<open>s < e\<close> have "s \<le> max s (ma_start a) \<and> max s (ma_start a) < e \<and> contains_vpn a (max s (ma_start a))"
    by (simp add: contains_vpn_def)
  with a(1) show "overlaps as s e" unfolding overlaps_def by (metis area_at_None)
qed (auto simp: overlaps_def area_at_None contains_vpn_def intro!: bexI intro: le_less_trans)

lemma insert_index_overlaps:
  assumes "areas_ok as" and "s < e" and "idx = area_insert_index as s"
  shows "(idx > 0 \<and> ma_end (as ! (idx - 1)) > s) \<or> (idx < length as \<and> ma_start (as ! idx) < e \<and> ma_end (as ! idx) > s) \<longleftrightarrow>
    overlaps as s e"
proof -
  obtain L R where cut: "as = L @ R" "\<forall>a \<in> set L. ma_start a < s" "\<forall>a \<in> set R. s \<le> ma_start a"
    by (rule areas_cut [OF assms(1)])
  have idx: "idx = length L" using area_insert_index_append cut assms(3) by blast
  have L: "(idx > 0 \<and> ma_end (as ! (idx - 1)) > s) \<longleftrightarrow> (\<exists>a \<in> set L. s < ma_end a)"
  proof (cases L rule: rev_cases)
    case (snoc L' a)
    with cut assms(1) show ?thesis by (fastforce simp: idx areas_ok_append nth_append)
  qed (simp add: idx)
  have R: "(idx < length as \<and> ma_start (as ! idx) < e \<and> ma_end (as ! idx) > s) \<longleftrightarrow> (\<exists>a \<in> set R. ma_start a < e \<and> s < ma_end a)"
  proof (cases R)
    case (Cons a R')
    with cut assms(1) have "area_range_ok a" "\<forall>b \<in> set R'. ma_start a \<le> ma_start b" "s \<le> ma_start a"
      by (auto simp: areas_ok_append areas_ok_Cons area_range_ok_def)
    with Cons show ?thesis by (fastforce simp: idx cut(1) nth_append area_range_ok_def)
  qed (simp add: idx cut(1))
  have "ma_start a < e" if "a \<in> set L" for a using cut(2) assms(2) that by (auto intro: less_trans)
  then show ?thesis unfolding L R overlaps_iff [OF assms(1,2)] using cut(1) by auto
qed

section \<open>The hole that the search finds\<close>

lemma va_floor_eq: "va_floor x = (x mod 2 ^ 39) div 4096"
proof -
  have "canonicalize_virt_addr (of_nat x) = take_bit 39 (of_nat x)" by (simp add: canonicalize_virt_addr_def take_bit_eq_mask)
  then have "unat (canonicalize_virt_addr (of_nat x)) = take_bit 39 (unat (of_nat x :: usize))" by (simp only: unsigned_take_bit_eq)
  also have "\<dots> = x mod 2 ^ 39" by (simp add: take_bit_eq_mod unat_of_nat mod_mod_cancel)
  finally show ?thesis by (simp add: va_floor_def)
qed

lemma va_ceil_eq: "va_ceil x = (x mod 2 ^ 39 + 4095) div 4096"
proof -
  have "canonicalize_virt_addr (of_nat x) = take_bit 39 (of_nat x)" by (simp add: canonicalize_virt_addr_def take_bit_eq_mask)
  then have "unat (canonicalize_virt_addr (of_nat x)) = take_bit 39 (unat (of_nat x :: usize))" by (simp only: unsigned_take_bit_eq)
  also have "\<dots> = x mod 2 ^ 39" by (simp add: take_bit_eq_mod unat_of_nat mod_mod_cancel)
  finally have "unat (canonicalize_virt_addr (of_nat x)) = x mod 2 ^ 39" .
  then show ?thesis by (cases "x mod 2 ^ 39 = 0") (simp_all add: va_ceil_def Let_def del: of_nat_eq_0_iff)
qed

lemma unat_virt_addr_of_vpn: "v < 2 ^ 52 \<Longrightarrow> unat (virt_addr_of_vpn v) = v * 4096"
  by (simp add: virt_addr_of_vpn_def push_bit_eq_mult unat_of_nat unat_mult_lem [THEN iffD1] unat_word_ariths)

lemma va_of_vpn_low: "v < 2 ^ 26 \<Longrightarrow> va_of_vpn v = v * 4096"
  using unat_virt_addr_of_vpn [of v] by (simp add: va_of_vpn_def sign_extend_virt_addr_def word_le_nat_alt)

lemma va_of_vpn_high: "2 ^ 26 \<le> v \<Longrightarrow> v < 2 ^ 27 \<Longrightarrow> 2 ^ 38 \<le> va_of_vpn v"
proof -
  assume v: "2 ^ 26 \<le> v" "v < 2 ^ 27"
  then have "2 ^ 38 \<le> virt_addr_of_vpn v" using unat_virt_addr_of_vpn [of v] by (simp add: word_le_nat_alt)
  then have "2 ^ 38 \<le> sign_extend_virt_addr (virt_addr_of_vpn v)"
    by (auto simp: sign_extend_virt_addr_def intro: order_trans [OF _ le_word_or2])
  then show ?thesis by (simp add: va_of_vpn_def word_le_nat_alt)
qed

lemma va_less_iff: "v \<le> TOP_VPN \<Longrightarrow> c < 2 ^ 38 \<Longrightarrow> c < va_of_vpn v \<longleftrightarrow> c < v * 4096"
  using va_of_vpn_low [of v] va_of_vpn_high [of v] by (cases "v < 2 ^ 26") (auto simp: TOP_VPN_def)

lemma va_le_iff: "v \<le> TOP_VPN \<Longrightarrow> c \<le> 2 ^ 38 \<Longrightarrow> c \<le> va_of_vpn v \<longleftrightarrow> c \<le> v * 4096"
  using va_of_vpn_low [of v] va_of_vpn_high [of v] by (cases "v < 2 ^ 26") (auto simp: TOP_VPN_def)

text \<open>A hole is an aligned address with room for the length before the limit and no area in the way.\<close>

definition hole :: "map_area list \<Rightarrow> nat \<Rightarrow> nat \<Rightarrow> nat \<Rightarrow> bool" where
  "hole as limit len c \<longleftrightarrow> c mod 4096 = 0 \<and> c + len \<le> limit \<and> \<not> overlaps as (c div 4096) ((c + len + 4095) div 4096)"

definition first_hole :: "map_area list \<Rightarrow> nat \<Rightarrow> nat \<Rightarrow> nat \<Rightarrow> nat option \<Rightarrow> bool" where
  "first_hole as limit len cursor r \<longleftrightarrow>
     (case r of
        None \<Rightarrow> \<forall>c \<ge> cursor. \<not> hole as limit len c
      | Some h \<Rightarrow> hole as limit len h \<and> cursor \<le> h \<and> (\<forall>c. cursor \<le> c \<and> c < h \<longrightarrow> \<not> hole as limit len c))"

lemma first_hole_skip:
  "first_hole as limit len n r \<Longrightarrow> cursor \<le> n \<Longrightarrow> (\<And>c. cursor \<le> c \<Longrightarrow> c < n \<Longrightarrow> \<not> hole as limit len c) \<Longrightarrow>
    first_hole as limit len cursor r"
  unfolding first_hole_def by (auto split: option.splits) (metis not_le)+

lemma first_hole_here: "hole as limit len c \<Longrightarrow> first_hole as limit len c (Some c)"
  by (auto simp: first_hole_def)

lemma hole_blocked:
  assumes "areas_ok as" and "a \<in> set as" and "len > 0" and "ma_start a * 4096 < c + len" and "c < ma_end a * 4096"
  shows "\<not> hole as limit len c"
proof -
  have "c div 4096 < (c + len + 4095) div 4096" using assms(3) by simp
  moreover have "ma_start a < (c + len + 4095) div 4096" "c div 4096 < ma_end a" using assms(4,5) by auto
  ultimately show ?thesis using assms(1,2) by (auto simp: hole_def overlaps_iff)
qed

lemma hole_free:
  assumes "areas_ok as" and "c mod 4096 = 0" and "c + len \<le> limit" and "len > 0"
    and "\<And>a. a \<in> set as \<Longrightarrow> c + len \<le> ma_start a * 4096 \<or> ma_end a * 4096 \<le> c"
  shows "hole as limit len c"
proof -
  have lt: "c div 4096 < (c + len + 4095) div 4096" using assms(4) by simp
  have "\<not> (ma_start a < (c + len + 4095) div 4096 \<and> c div 4096 < ma_end a)" if "a \<in> set as" for a
    using assms(5) [OF that] assms(2) by (auto simp: less_eq_div_iff_mult_less_eq not_less)
  then show ?thesis using assms(1-3) lt by (auto simp: hole_def overlaps_iff)
qed

lemma skip_ended_all: "\<forall>a \<in> set R. c < va_of_vpn (ma_end a) \<Longrightarrow> skip_ended R c = R"
  by (cases R) auto

lemma hole_loop_first:
  assumes "areas_ok as" and "limit \<le> 2 ^ 38" and "len > 0" and "cursor mod 4096 = 0"
  shows "first_hole as limit len cursor (hole_loop as limit len cursor)"
  using assms
proof (induction as limit len cursor rule: hole_loop.induct)
  case (1 as limit len cursor)
  note ok = "1.prems"(1) and lim = "1.prems"(2) and len = "1.prems"(3) and al = "1.prems"(4)
  show ?case
  proof (cases "cursor + len \<le> limit")
    case False
    then have "hole_loop as limit len cursor = None"
      by (subst hole_loop.simps) (auto simp: checked_add_def)
    with False show ?thesis by (auto simp: first_hole_def hole_def)
  next
    case fits: True
    then have chk: "checked_add cursor len = Some (cursor + len)" using lim by (simp add: checked_add_def usize_max_def)
    have small: "cursor < 2 ^ 38" using fits lim len by simp
    define cv where "cv = cursor div 4096"
    have cur: "cursor = cv * 4096" and fl: "va_floor cursor = cv"
      using al small by (auto simp: cv_def va_floor_eq)
    obtain L R where cut: "as = L @ R" "\<forall>a \<in> set L. ma_start a < cv" "\<forall>a \<in> set R. cv \<le> ma_start a"
      by (rule areas_cut [OF ok])
    have idx: "area_insert_index as (va_floor cursor) = length L" unfolding fl using area_insert_index_append cut by blast
    have top: "ma_end a \<le> TOP_VPN" "ma_start a \<le> TOP_VPN" "ma_start a < ma_end a" if "a \<in> set as" for a
      using areas_range [OF ok that] by (auto simp: area_range_ok_def)
    have R: "skip_ended R cursor = R"
    proof (rule skip_ended_all, rule ballI)
      fix a assume a: "a \<in> set R"
      then have "cv < ma_end a" using cut top [of a] by fastforce
      with a show "cursor < va_of_vpn (ma_end a)" using va_less_iff [of "ma_end a" cursor] top [of a] small cut(1) by (simp add: cur)
    qed
    let ?prev = "va_of_vpn (ma_end (as ! (length L - 1)))"
    show ?thesis
    proof (cases "length L > 0 \<and> cursor < ?prev")
      case True
      have step: "hole_loop as limit len cursor = hole_loop as limit len ?prev"
        using True fits chk idx by (subst hole_loop.simps) (simp add: Let_def)
      have "first_hole as limit len ?prev (hole_loop as limit len ?prev)"
        using "1.IH"(1) [OF chk _ refl refl] fits True idx ok lim len va_of_vpn_aligned by simp
      moreover have "\<not> hole as limit len c" if "cursor \<le> c" "c < ?prev" for c
      proof (cases "c < 2 ^ 38")
        case c: True
        let ?p = "as ! (length L - 1)"
        have p: "?p \<in> set L" "?p \<in> set as" using True cut(1) by (simp_all add: nth_append)
        from cut(2) p(1) that(1) have "ma_start ?p * 4096 < c + len" by (auto simp: cur)
        moreover from that(2) c have "c < ma_end ?p * 4096" using va_less_iff top [OF p(2)] by blast
        ultimately show ?thesis by (rule hole_blocked [OF ok p(2) len])
      qed (use lim len in \<open>auto simp: hole_def\<close>)
      moreover have "cursor \<le> ?prev" using True by simp
      ultimately show ?thesis unfolding step by (blast intro: first_hole_skip)
    next
      case False
      have Lend: "ma_end a * 4096 \<le> cursor" if "a \<in> set L" for a
      proof -
        from that False have "?prev \<le> cursor" by (cases L) auto
        moreover have p: "as ! (length L - 1) = last L" "last L \<in> set as"
          using that cut(1) by (cases L rule: rev_cases; auto simp: nth_append)+
        ultimately have "ma_end (last L) * 4096 \<le> cursor" using va_less_iff [OF top(1) [OF p(2)] small] by (simp add: not_less)
        moreover have "ma_end a \<le> ma_end (last L)"
          using that ok cut(1) top [OF p(2)] by (cases L rule: rev_cases) (auto simp: areas_ok_append intro: order_trans less_imp_le)
        ultimately show ?thesis by simp
      qed
      have step: "hole_loop as limit len cursor = (case R of [] \<Rightarrow> Some cursor | a # _ \<Rightarrow>
          if va_of_vpn (ma_start a) \<ge> limit then Some cursor else if cursor + len \<le> va_of_vpn (ma_start a) then Some cursor
          else hole_loop as limit len (va_of_vpn (ma_end a)))"
        using False fits chk idx R cut(1) by (subst hole_loop.simps, cases R) (auto simp: Let_def)
      show ?thesis
      proof (cases R)
        case Nil
        with step Lend cut(1) ok al fits len show ?thesis by (auto intro!: first_hole_here hole_free)
      next
        case (Cons a R')
        have a: "a \<in> set as" using Cons cut(1) by simp
        have later: "ma_start a \<le> ma_start b" if "b \<in> set R" for b
          using that ok cut(1) Cons top(3) [OF a] by (auto simp: areas_ok_append areas_ok_Cons intro: order_trans less_imp_le)
        show ?thesis
        proof (cases "cursor + len \<le> va_of_vpn (ma_start a)")
          case True
          with step Cons have "hole_loop as limit len cursor = Some cursor" by simp
          moreover have "cursor + len \<le> ma_start a * 4096" using True va_le_iff [OF top(2) [OF a]] fits lim by (meson order_trans)
          with later have "cursor + len \<le> ma_start b * 4096" if "b \<in> set R" for b using that by (meson mult_le_mono1 order_trans)
          ultimately show ?thesis using Lend cut(1) ok al fits len by (auto intro!: first_hole_here hole_free)
        next
          case blocked: False
          with fits have nl: "\<not> limit \<le> va_of_vpn (ma_start a)" by simp
          with step Cons blocked have rec: "hole_loop as limit len cursor = hole_loop as limit len (va_of_vpn (ma_end a))" by simp
          have sk: "skip_ended (drop (length L) as) cursor = a # R'" using R Cons cut(1) by simp
          have "first_hole as limit len (va_of_vpn (ma_end a)) (hole_loop as limit len (va_of_vpn (ma_end a)))"
            using "1.IH"(2) [OF chk _ refl refl _ _ nl] False fits idx sk blocked ok lim len va_of_vpn_aligned by simp
          moreover have "\<not> hole as limit len c" if "cursor \<le> c" "c < va_of_vpn (ma_end a)" for c
          proof (cases "c < 2 ^ 38")
            case c: True
            have "ma_start a * 4096 < c + len" using blocked that(1) va_le_iff [OF top(2) [OF a]] fits lim by (meson not_le order_trans add_le_mono1)
            moreover from that(2) c have "c < ma_end a * 4096" using va_less_iff top [OF a] by blast
            ultimately show ?thesis by (rule hole_blocked [OF ok a len])
          qed (use lim len in \<open>auto simp: hole_def\<close>)
          moreover have "cursor \<le> va_of_vpn (ma_end a)" using skip_ended_gt [OF sk] by simp
          ultimately show ?thesis unfolding rec by (blast intro: first_hole_skip)
        qed
      qed
    qed
  qed
qed

lemma find_mmap_hole_first:
  assumes "areas_ok as" and "limit \<le> 2 ^ 38" and "start < limit" and "len > 0"
  shows "first_hole as limit len (page_align_up start) (find_mmap_hole as start limit len)"
  using assms by (auto simp: find_mmap_hole_def page_align_up_def intro!: hole_loop_first)

end
