(* ===== verification/User_Space.thy ===== *)
theory User_Space
  imports Memory_Set
begin

text \<open>
  The operations on the address space of a process (\<^verbatim>\<open>mm/user_space.rs\<close>): the program break, mmap, munmap, mprotect, mremap,
  madvise, mincore, the attachment of shared memory segments, and the faults on pages that are not there yet or are shared with
  another process. Each takes the address space and returns the new one; a failed assertion is an \<^verbatim>\<open>Inl\<close>.

  What the page cache answers and which files can be written are arguments. The reference of a shared mapping to its file and the
  pages of the page cache are given back as events.
\<close>

unbundle bit_operations_syntax

section \<open>Cutting the list of areas\<close>

definition split_area_at :: "nat \<Rightarrow> 's memory_set \<Rightarrow> 's memory_set" where
  "split_area_at at m =
     (case find_area_idx_containing at m of
        (None, m1) \<Rightarrow> m1
      | (Some idx, m1) \<Rightarrow>
          (let a = ms_areas m1 ! idx
           in if \<not> (ma_start a < at \<and> at < ma_end a) then m1
              else
                (case area_split_off a at of
                   None \<Rightarrow> m1
                 | Some (l, r, es) \<Rightarrow>
                     m1\<lparr>ms_areas := vec_insert (idx + 1) r ((ms_areas m1)[idx := l]), ms_vm := log_events es (ms_vm m1)\<rparr>)))"

definition invalidate_range :: "nat \<Rightarrow> nat \<Rightarrow> 's vm \<Rightarrow> vm_panic + 's vm" where
  "invalidate_range s e v = (if s < e then Inr (log_events [TlbRange s e] v) else Inl (EmptyInvalidation s e))"

text \<open>The pages that were taken out are released after the translation buffers have been invalidated.\<close>

definition finish_retired :: "nat \<Rightarrow> nat \<Rightarrow> 's vm \<times> retired_user_pages \<Rightarrow> vm_panic + 's vm" where
  "finish_retired s e r =
     and_then (if rt_pte_cleared (snd r) then invalidate_range s e (fst r) else Inr (fst r))
       (\<lambda>v. Inr (log_events (retired_release (snd r)) v))"

type_synonym dirty_fn = "page_cache_key \<Rightarrow> nat \<Rightarrow> u8 list option"

text \<open>
  The loop that removes areas. The first two arguments are the condition to go on and the condition to remove; an area of a mapping
  gives back its file, and its dirty pages are collected.
\<close>

fun remove_areas ::
  "dirty_fn \<Rightarrow> (map_area \<Rightarrow> bool) \<Rightarrow> (map_area \<Rightarrow> bool) \<Rightarrow> map_area list \<Rightarrow> 's vm \<times> retired_user_pages \<Rightarrow>
   vm_panic + map_area list \<times> mmap_flush list \<times> file_id list \<times> 's vm \<times> retired_user_pages" where
  "remove_areas dirty go rm [] s = Inr ([], [], [], s)"
| "remove_areas dirty go rm (a # as) s =
     (if \<not> go a then Inr (a # as, [], [], s)
      else if rm a
      then
        (if is_mmap a
         then
           and_then (take_mmap_flushes dirty a s) (\<lambda>(fs, a', v, rt).
           and_then (remove_areas dirty go rm as (log_events (release_mmap_refs a') v, rt)) (\<lambda>(as', fs', files, s').
             Inr (as', fs @ fs', (case ma_mmap a' of Some i \<Rightarrow> (case mi_backing_file i of Some f \<Rightarrow> [f] | None \<Rightarrow> []) | None \<Rightarrow> []) @ files, s')))
         else
           and_then (unmap_resident_deferred a s) (\<lambda>(a', s'). remove_areas dirty go rm as s'))
      else
        and_then (remove_areas dirty go rm as s) (\<lambda>(as', r). Inr (a # as', r)))"

definition remove_range ::
  "dirty_fn \<Rightarrow> (map_area \<Rightarrow> bool) \<Rightarrow> nat \<Rightarrow> nat \<Rightarrow> 's memory_set \<Rightarrow>
   vm_panic + mmap_flush list \<times> file_id list \<times> 's memory_set" where
  "remove_range dirty rm start_vpn end_vpn m =
     (let idx = first_area_idx_ending_after (ms_areas m) start_vpn
      in and_then (remove_areas dirty (\<lambda>a. ma_start a < end_vpn) rm (drop idx (ms_areas m)) (ms_vm m, retired_new)) (\<lambda>(as, fs, files, s).
         and_then (finish_retired start_vpn end_vpn s) (\<lambda>v.
           Inr (fs, files, m\<lparr>ms_areas := take idx (ms_areas m) @ as, ms_vm := v\<rparr>))))"

definition munmap_area ::
  "dirty_fn \<Rightarrow> nat \<Rightarrow> nat \<Rightarrow> 's memory_set \<Rightarrow> vm_panic + (mmap_flush list \<times> file_id list) option \<times> 's memory_set" where
  "munmap_area dirty start len m =
     (if len = 0 \<or> start mod 4096 \<noteq> 0 then Inr (None, m)
      else
        (case checked_page_align_up len of
           None \<Rightarrow> Inr (None, m)
         | Some map_len \<Rightarrow>
             (case checked_add start map_len of
                None \<Rightarrow> Inr (None, m)
              | Some fin \<Rightarrow>
                  (let start_vpn = va_floor start; end_vpn = va_floor fin;
                       m1 = split_area_at end_vpn (split_area_at start_vpn m)
                   in and_then (remove_range dirty (\<lambda>a. is_mmap a \<and> ma_start a \<ge> start_vpn \<and> ma_end a \<le> end_vpn) start_vpn end_vpn m1)
                        (\<lambda>(fs, files, m2). Inr (Some (fs, files), m2))))))"

section \<open>Mapping\<close>

text \<open>What mmap is asked for.\<close>

record mmap_request =
  rq_perm :: usize
  rq_reported :: usize
  rq_file :: "file_id option"
  rq_file_size :: nat
  rq_file_offset :: nat
  rq_shared :: bool
  rq_writable :: bool
  rq_grow_down :: bool
  rq_cache_id :: "(nat \<times> nat) option"

definition request_info :: "mmap_request \<Rightarrow> nat \<Rightarrow> mmap_info" where
  "request_info rq len = \<lparr>mi_shared = rq_shared rq, mi_writable = rq_writable rq, mi_grow_down = rq_grow_down rq,
     mi_reported_perm = rq_reported rq, mi_len = len, mi_file_offset = rq_file_offset rq, mi_file_size = rq_file_size rq,
     mi_backing_file = rq_file rq, mi_page_cache_id = rq_cache_id rq, mi_page_cache_pages = [], mi_exec_segment = None\<rparr>"

definition mmap_area :: "nat \<Rightarrow> mmap_request \<Rightarrow> 's memory_set \<Rightarrow> vm_panic + nat option \<times> 's memory_set" where
  "mmap_area len rq m =
     (case checked_page_align_up len of
        None \<Rightarrow> Inr (None, m)
      | Some map_len \<Rightarrow>
          (case alloc_mmap_range (ms_areas m) (mmap_next m) map_len of
             None \<Rightarrow> Inr (None, m)
           | Some start \<Rightarrow>
               (case checked_add start map_len of
                  None \<Rightarrow> Inr (None, m)
                | Some fin \<Rightarrow>
                    and_then (area_new start fin Framed (rq_perm rq)) (\<lambda>a.
                      Inr (Some start, (snd (insert_area_sorted (a\<lparr>ma_mmap := Some (request_info rq len)\<rparr>) m))\<lparr>mmap_next := next_mmap_hint fin\<rparr>)))))"

definition mmap_fixed_area ::
  "dirty_fn \<Rightarrow> nat \<Rightarrow> nat \<Rightarrow> mmap_request \<Rightarrow> 's memory_set \<Rightarrow>
   vm_panic + (nat \<times> mmap_flush list \<times> file_id list) option \<times> 's memory_set" where
  "mmap_fixed_area dirty start len rq m =
     (if start mod 4096 \<noteq> 0 then Inr (None, m)
      else
        (case checked_page_align_up len of
           None \<Rightarrow> Inr (None, m)
         | Some map_len \<Rightarrow>
             (case checked_add start map_len of
                None \<Rightarrow> Inr (None, m)
              | Some fin \<Rightarrow>
                  (let start_vpn = va_floor start; end_vpn = va_floor fin;
                       m1 = split_area_at end_vpn (split_area_at start_vpn m)
                   in and_then (remove_range dirty (\<lambda>a. ma_start a < end_vpn \<and> ma_end a > start_vpn) start_vpn end_vpn m1) (\<lambda>(fs, files, m2).
                      and_then (area_new start fin Framed (rq_perm rq)) (\<lambda>a.
                        Inr (Some (start, fs, files), snd (insert_area_sorted (a\<lparr>ma_mmap := Some (request_info rq len)\<rparr>) m2))))))))"

definition map_exec_segment_area ::
  "nat \<Rightarrow> nat \<Rightarrow> usize \<Rightarrow> file_id \<Rightarrow> nat \<Rightarrow> nat \<Rightarrow> (nat \<times> nat) option \<Rightarrow> exec_segment_info \<Rightarrow> 's memory_set \<Rightarrow>
   vm_panic + nat option \<times> 's memory_set" where
  "map_exec_segment_area start len perm file file_size file_offset cache_id seg m =
     (if start mod 4096 \<noteq> 0 \<or> len = 0 then Inr (None, m)
      else
        (case checked_page_align_up len of
           None \<Rightarrow> Inr (None, m)
         | Some map_len \<Rightarrow>
             (case checked_add start map_len of
                None \<Rightarrow> Inr (None, m)
              | Some fin \<Rightarrow>
                  if range_overlaps m start fin then Inr (None, m)
                  else
                    and_then (area_new start fin Framed perm) (\<lambda>a.
                      Inr (Some start, snd (insert_area_sorted (a\<lparr>ma_mmap := Some \<lparr>mi_shared = False,
                        mi_writable = contains_flags perm PERM_W, mi_grow_down = False, mi_reported_perm = perm, mi_len = len,
                        mi_file_offset = file_offset, mi_file_size = file_size, mi_backing_file = Some file,
                        mi_page_cache_id = cache_id, mi_page_cache_pages = [], mi_exec_segment = Some seg\<rparr>\<rparr>) m))))))"

section \<open>The program break\<close>

definition find_brk_extension_area :: "map_area list \<Rightarrow> nat \<Rightarrow> nat \<Rightarrow> nat option" where
  "find_brk_extension_area areas heap_start old_end =
     (case List.extract (\<lambda>a. ma_start a \<ge> heap_start \<and> ma_end a = old_end) areas of
        None \<Rightarrow> None
      | Some (before, _, _) \<Rightarrow> Some (length before))"

fun shrink_loop ::
  "(map_area \<Rightarrow> bool) \<Rightarrow> map_area list \<Rightarrow> 's vm \<times> retired_user_pages \<Rightarrow> vm_panic + map_area list \<times> 's vm \<times> retired_user_pages" where
  "shrink_loop rm [] s = Inr ([], s)"
| "shrink_loop rm (a # as) s =
     (if rm a then and_then (unmap_resident_deferred a s) (\<lambda>(a', s'). shrink_loop rm as s')
      else and_then (shrink_loop rm as s) (\<lambda>(as', s'). Inr (a # as', s')))"

definition shrink_brk_areas :: "nat \<Rightarrow> nat \<Rightarrow> nat \<Rightarrow> 's memory_set \<Rightarrow> vm_panic + 's memory_set" where
  "shrink_brk_areas heap_start new_end old_end m =
     (let m1 = split_area_at old_end (split_area_at new_end m)
      in and_then (shrink_loop (\<lambda>a. \<not> is_mmap a \<and> \<not> is_shm a \<and> ma_start a \<ge> heap_start \<and> ma_start a \<ge> new_end \<and> ma_end a \<le> old_end)
           (ms_areas m1) (ms_vm m1, retired_new)) (\<lambda>(as, s).
         and_then (finish_retired new_end old_end s) (\<lambda>v. Inr (m1\<lparr>ms_areas := as, ms_vm := v\<rparr>))))"

definition set_program_break :: "nat \<Rightarrow> 's memory_set \<Rightarrow> vm_panic + nat \<times> 's memory_set" where
  "set_program_break addr m =
     (if addr = 0 then Inr (brk m, m)
      else if addr < brk_base m \<or> addr > brk_limit m then Inr (brk m, m)
      else
        (let old_mapped_end = brk_mapped_end m; new_mapped_end = page_align_up addr;
             heap_start_vpn = va_floor (brk_base m); old_end_vpn = va_floor old_mapped_end; new_end_vpn = va_floor new_mapped_end
         in and_then
              (if new_mapped_end > old_mapped_end
               then
                 (case find_brk_extension_area (ms_areas m) heap_start_vpn old_end_vpn of
                    None \<Rightarrow>
                      and_then (area_new old_mapped_end new_mapped_end Framed (PERM_R OR PERM_W OR PERM_U)) (\<lambda>a.
                        Inr (snd (insert_area_sorted a m)))
                  | Some idx \<Rightarrow>
                      (let a = ms_areas m ! idx
                       in if new_end_vpn < ma_start a then Inl (BadRange (ma_start a) new_end_vpn)
                          else Inr (m\<lparr>ms_areas := (ms_areas m)[idx := a\<lparr>ma_end := new_end_vpn\<rparr>]\<rparr>)))
               else if new_mapped_end < old_mapped_end then shrink_brk_areas heap_start_vpn new_end_vpn old_end_vpn m
               else Inr m)
              (\<lambda>m1. Inr (addr, m1\<lparr>brk := addr, brk_mapped_end := new_mapped_end\<rparr>))))"

section \<open>Shared memory segments\<close>

fun map_shm_frames :: "'s frame_alloc_fn \<Rightarrow> (nat \<times> nat \<times> nat) list \<Rightarrow> map_area \<Rightarrow> 's vm \<Rightarrow> vm_panic + map_area \<times> 's vm" where
  "map_shm_frames fa [] a v = Inr (a, v)"
| "map_shm_frames fa ((vpn, ppn, idx) # ps) a v =
     and_then (map_shm_frame fa vpn ppn idx a v) (\<lambda>(ok, a', v').
       if \<not> ok then Inl (LeafChanged vpn) else map_shm_frames fa ps a' v')"

text \<open>The pages of the segment are given as pairs of the index in the segment and the frame.\<close>

definition attach_shm_area ::
  "'s frame_alloc_fn \<Rightarrow> nat \<Rightarrow> nat \<Rightarrow> usize \<Rightarrow> nat \<Rightarrow> (nat \<times> nat) list \<Rightarrow> 's memory_set \<Rightarrow> vm_panic + nat option \<times> 's memory_set" where
  "attach_shm_area fa requested len perm shmid pages m =
     (case checked_page_align_up len of
        None \<Rightarrow> Inr (None, m)
      | Some map_len \<Rightarrow>
          (case (if requested = 0 then alloc_mmap_range (ms_areas m) (mmap_next m) map_len
                 else if requested mod 4096 \<noteq> 0 then None
                 else
                   (case checked_add requested map_len of
                      None \<Rightarrow> None
                    | Some fin \<Rightarrow> if fin > USER_MMAP_LIMIT \<or> range_overlaps m requested fin then None else Some requested)) of
             None \<Rightarrow> Inr (None, m)
           | Some start \<Rightarrow>
               (case checked_add start map_len of
                  None \<Rightarrow> Inr (None, m)
                | Some fin \<Rightarrow>
                    and_then (area_new start fin Framed perm) (\<lambda>a.
                    (let start_vpn = va_floor start;
                         candidates = map (\<lambda>(i, ppn). (start_vpn + i, ppn, i)) (filter (\<lambda>(i, _). i < map_len div 4096) pages)
                     in case prepare_paths fa (map fst candidates) (ms_vm m) of
                          (False, v1) \<Rightarrow> Inr (None, m\<lparr>ms_vm := v1\<rparr>)
                        | (True, v1) \<Rightarrow>
                            and_then (map_shm_frames fa candidates (a\<lparr>ma_shm := Some (shm_area_info_new shmid len)\<rparr>) v1) (\<lambda>(a', v2).
                            and_then (if candidates \<noteq> [] then invalidate_range start_vpn (va_floor fin) v2 else Inr v2) (\<lambda>v3.
                              Inr (Some start, (snd (insert_area_sorted a' m))\<lparr>mmap_next := next_mmap_hint fin, ms_vm := v3\<rparr>))))))))"

definition detach_shm_area :: "nat \<Rightarrow> 's memory_set \<Rightarrow> vm_panic + unit option \<times> 's memory_set" where
  "detach_shm_area start m =
     (if start mod 4096 \<noteq> 0 then Inr (None, m)
      else
        (case List.extract (\<lambda>a. is_shm a \<and> ma_start a = va_floor start) (ms_areas m) of
           None \<Rightarrow> Inr (None, m)
         | Some (before, a, after) \<Rightarrow>
             and_then (unmap_resident_deferred a (ms_vm m, retired_new)) (\<lambda>(a', s).
             and_then (finish_retired (va_floor start) (ma_end a) s) (\<lambda>v.
               Inr (Some (), m\<lparr>ms_areas := before @ after, ms_vm := v\<rparr>)))))"

section \<open>Protection, advice, residency\<close>

datatype memory_protect_error = Unmapped | AccessDenied

text \<open>The two answers of a file: whether it is open for writing, and whether it refuses shared writable mappings.\<close>

record file_answers =
  fa_writable :: "file_id \<Rightarrow> bool"
  fa_blocks_shared :: "file_id \<Rightarrow> bool"

definition can_mprotect_write :: "file_answers \<Rightarrow> map_area list \<Rightarrow> nat \<Rightarrow> nat \<Rightarrow> bool" where
  "can_mprotect_write files areas start fin \<longleftrightarrow>
     (case overlap_area_idx_bounds areas start fin of (start_idx, end_idx) \<Rightarrow>
        list_all (\<lambda>a.
          if \<not> (ma_start a < fin \<and> ma_end a > start) then True
          else
            (case ma_mmap a of
               None \<Rightarrow> True
             | Some i \<Rightarrow>
                 if \<not> mi_shared i then True
                 else
                   (case mi_backing_file i of
                      None \<Rightarrow> True
                    | Some f \<Rightarrow> \<not> (\<not> fa_writable files f \<or> fa_blocks_shared files f))))
          (take (end_idx - start_idx) (drop start_idx areas)))"

text \<open>The loop of mprotect: whether an area was changed, whether one failed, and the pages of the page cache to give back.\<close>

fun protect_areas ::
  "'s frame_alloc_fn \<Rightarrow> (map_area \<Rightarrow> bool) \<Rightarrow> usize \<Rightarrow> usize \<Rightarrow> map_area list \<Rightarrow> bool \<Rightarrow> 's vm \<times> page_cache_key list \<times> bool \<Rightarrow>
   vm_panic + bool \<times> bool \<times> map_area list \<times> 's vm \<times> page_cache_key list \<times> bool" where
  "protect_areas fa sel perm rep [] touched s = Inr (touched, False, [], s)"
| "protect_areas fa sel perm rep (a # as) touched s =
     (if sel a
      then
        and_then (remap_permission fa perm rep a s) (\<lambda>(ok, a', s').
          if \<not> ok then Inr (touched, True, a' # as, s')
          else
            and_then (protect_areas fa sel perm rep as True s') (\<lambda>(t, f, as', s''). Inr (t, f, a' # as', s'')))
      else and_then (protect_areas fa sel perm rep as touched s) (\<lambda>(t, f, as', s''). Inr (t, f, a # as', s'')))"

definition mprotect_area ::
  "'s frame_alloc_fn \<Rightarrow> file_answers \<Rightarrow> nat \<Rightarrow> nat \<Rightarrow> usize \<Rightarrow> usize \<Rightarrow> 's memory_set \<Rightarrow>
   vm_panic + memory_protect_error option \<times> 's memory_set" where
  "mprotect_area fa files start len perm rep m =
     (if len = 0 then Inr (None, m)
      else if start mod 4096 \<noteq> 0 then Inr (Some Unmapped, m)
      else
        (case checked_add start len of
           None \<Rightarrow> Inr (Some Unmapped, m)
         | Some fin \<Rightarrow>
             (let start_vpn = va_floor start; end_vpn = va_floor fin
              in if \<not> range_is_mapped_vpn (ms_areas m) start_vpn end_vpn then Inr (Some Unmapped, m)
                 else if contains_flags perm PERM_W \<and> \<not> can_mprotect_write files (ms_areas m) start_vpn end_vpn then Inr (Some AccessDenied, m)
                 else
                   (let m1 = split_area_at end_vpn (split_area_at start_vpn m);
                        bounds = overlap_area_idx_bounds (ms_areas m1) start_vpn end_vpn; areas = ms_areas m1
                    in and_then (protect_areas fa (\<lambda>a. ma_start a \<ge> start_vpn \<and> ma_end a \<le> end_vpn) perm rep
                           (take (snd bounds - fst bounds) (drop (fst bounds) areas)) False (ms_vm m1, [], False)) (\<lambda>(touched, failed, as, v, keys, mutated).
                       and_then (if mutated then invalidate_range start_vpn end_vpn v else Inr v) (\<lambda>v1.
                         (let v2 = (if mutated \<and> contains_flags perm PERM_X then log_events [SyncInstructions] v1 else v1);
                              m2 = m1\<lparr>ms_areas := take (fst bounds) areas @ as @ drop (snd bounds) areas, ms_vm := log_events (map CacheDecRef keys) v2\<rparr>
                          in Inr (if failed \<or> \<not> touched then Some Unmapped else None, m2))))))))"

fun residency :: "nat list \<Rightarrow> 's vm \<Rightarrow> vm_panic + nat list" where
  "residency [] v = Inr []"
| "residency (vpn # vpns) v =
     and_then (translate_bits v vpn) (\<lambda>bits.
     and_then (residency vpns v) (\<lambda>rs. Inr ((if bits \<noteq> 0 \<and> pte_ppn bits \<noteq> 0 then 1 else 0) # rs)))"

definition mincore_vec :: "nat \<Rightarrow> nat \<Rightarrow> 's memory_set \<Rightarrow> vm_panic + nat list option" where
  "mincore_vec start len m =
     (case checked_page_align_up len of
        None \<Rightarrow> Inr None
      | Some map_len \<Rightarrow>
          (case checked_add start map_len of
             None \<Rightarrow> Inr None
           | Some fin \<Rightarrow>
               (let start_vpn = va_floor start; end_vpn = va_floor fin
                in if \<not> range_is_mapped_vpn (ms_areas m) start_vpn end_vpn then Inr None
                   else if end_vpn < start_vpn then Inl (BadRange start_vpn end_vpn)
                   else and_then (residency [start_vpn..<end_vpn] (ms_vm m)) (\<lambda>rs. Inr (Some rs)))))"

fun discard_areas ::
  "nat \<Rightarrow> nat \<Rightarrow> map_area list \<Rightarrow> 's vm \<times> retired_user_pages \<Rightarrow> vm_panic + map_area list \<times> 's vm \<times> retired_user_pages" where
  "discard_areas s e [] r = Inr ([], r)"
| "discard_areas s e (a # as) r =
     and_then
       (if ma_start a < e \<and> ma_end a > s \<and> is_mmap a
        then discard_mmap_resident_range (max s (ma_start a)) (min e (ma_end a)) a r else Inr (a, r)) (\<lambda>(a', r').
     and_then (discard_areas s e as r') (\<lambda>(as', r''). Inr (a' # as', r'')))"

definition madvise_dontneed_range :: "nat \<Rightarrow> nat \<Rightarrow> 's memory_set \<Rightarrow> vm_panic + bool \<times> 's memory_set" where
  "madvise_dontneed_range start len m =
     (case checked_page_range start len of
        None \<Rightarrow> Inr (False, m)
      | Some (s, e) \<Rightarrow>
          if \<not> range_is_mapped_vpn (ms_areas m) s e then Inr (False, m)
          else
            and_then (discard_areas s e (ms_areas m) (ms_vm m, retired_new)) (\<lambda>(as, r).
            and_then (finish_retired s e r) (\<lambda>v. Inr (True, m\<lparr>ms_areas := as, ms_vm := v\<rparr>))))"

definition mremap_area ::
  "dirty_fn \<Rightarrow> nat \<Rightarrow> nat \<Rightarrow> nat \<Rightarrow> bool \<Rightarrow> 's memory_set \<Rightarrow>
   vm_panic + (nat \<times> mmap_flush list \<times> file_id list) option \<times> 's memory_set" where
  "mremap_area dirty old_addr old_len new_len may_move m =
     (if old_addr mod 4096 \<noteq> 0 \<or> old_len = 0 \<or> new_len = 0 then Inr (None, m)
      else
        (case (checked_page_align_up old_len, checked_page_align_up new_len) of
           (Some old_map_len, Some new_map_len) \<Rightarrow>
             (case (checked_add old_addr old_map_len, checked_add old_addr new_map_len) of
                (Some old_end, Some new_end) \<Rightarrow>
                  (let old_start_vpn = va_floor old_addr; old_end_vpn = va_floor old_end
                   in if \<not> range_is_mapped_vpn (ms_areas m) old_start_vpn old_end_vpn then Inr (None, m)
                      else if new_map_len = old_map_len then Inr (Some (old_addr, [], []), m)
                      else if new_map_len < old_map_len
                      then
                        and_then (munmap_area dirty new_end (old_map_len - new_map_len) m) (\<lambda>(r, m1).
                          Inr (map_option (\<lambda>(fs, files). (old_addr, fs, files)) r, m1))
                      else if range_overlaps m old_end new_end then Inr (None, m)
                      else
                        (let m1 = split_area_at old_end_vpn (split_area_at old_start_vpn m)
                         in case find_area_idx_by_start (ms_areas m1) old_start_vpn of
                              None \<Rightarrow> Inr (None, m1)
                            | Some idx \<Rightarrow>
                                (let a = ms_areas m1 ! idx; new_end_vpn = va_floor new_end
                                 in if ma_end a \<noteq> old_end_vpn then Inr (None, m1)
                                    else if new_end_vpn < old_start_vpn then Inl (BadRange old_start_vpn new_end_vpn)
                                    else
                                      (let a1 = a\<lparr>ma_end := new_end_vpn, ma_mmap := map_option (\<lambda>i. i\<lparr>mi_len := new_len\<rparr>) (ma_mmap a)\<rparr>
                                       in case write_protect_shared_mmap_pages a1 (ms_vm m1) of (changed, v1) \<Rightarrow>
                                          and_then (if changed then invalidate_range old_start_vpn old_end_vpn v1 else Inr v1) (\<lambda>v2.
                                            Inr (Some (old_addr, [], []),
                                              m1\<lparr>ms_areas := (ms_areas m1)[idx := a1], last_area_idx_containing := None, ms_vm := v2\<rparr>))))))
              | _ \<Rightarrow> Inr (None, m))
         | _ \<Rightarrow> Inr (None, m)))"

section \<open>Faults\<close>

datatype mmap_fault_access = Read | Write | Execute

fun is_allowed_by :: "mmap_fault_access \<Rightarrow> usize \<Rightarrow> bool" where
  "is_allowed_by Read perm = contains_flags perm PERM_R"
| "is_allowed_by Write perm = contains_flags perm PERM_W"
| "is_allowed_by Execute perm = contains_flags perm PERM_X"

definition STACK_GUARD_GAP_PAGES :: nat where "STACK_GUARD_GAP_PAGES = 256"

definition grow_down_guard_gap_is_clear :: "map_area list \<Rightarrow> nat \<Rightarrow> nat \<Rightarrow> bool" where
  "grow_down_guard_gap_is_clear areas new_start grow_idx \<longleftrightarrow>
     (let guard_start = new_start - STACK_GUARD_GAP_PAGES
      in list_all (\<lambda>(idx, a). idx = grow_idx \<or> ma_start a \<ge> new_start \<or> ma_end a \<le> guard_start) (enumerate 0 areas))"

datatype grow_down_mmap_fault = Grown nat | GuardBlocked

definition grow_down_mmap_area_for_fault ::
  "nat \<Rightarrow> mmap_fault_access \<Rightarrow> 's memory_set \<Rightarrow> vm_panic + grow_down_mmap_fault option \<times> 's memory_set" where
  "grow_down_mmap_area_for_fault vpn access m =
     (case checked_add vpn 1 of
        None \<Rightarrow> Inr (None, m)
      | Some next_vpn \<Rightarrow>
          (case find_area_idx_by_start (ms_areas m) next_vpn of
             None \<Rightarrow> Inr (None, m)
           | Some idx \<Rightarrow>
               (let a = ms_areas m ! idx
                in case ma_mmap a of
                     None \<Rightarrow> Inr (None, m)
                   | Some i \<Rightarrow>
                       if \<not> mi_grow_down i \<or> mi_backing_file i \<noteq> None \<or> \<not> is_allowed_by access (map_perm a) then Inr (None, m)
                       else if \<not> grow_down_guard_gap_is_clear (ms_areas m) vpn idx then Inr (Some GuardBlocked, m)
                       else if ma_end a < vpn then Inl (BadRange vpn (ma_end a))
                       else Inr (Some (Grown idx), m\<lparr>ms_areas := (ms_areas m)[idx := a\<lparr>ma_start := vpn\<rparr>]\<rparr>))))"

definition resolve_lazy_framed_page_fault ::
  "'s frame_alloc_fn \<Rightarrow> nat \<Rightarrow> mmap_fault_access \<Rightarrow> 's memory_set \<Rightarrow> vm_panic + bool \<times> 's memory_set" where
  "resolve_lazy_framed_page_fault fa addr access m =
     (let vpn = va_floor addr
      in case find_area_idx_containing vpn m of
           (None, m1) \<Rightarrow> Inr (False, m1)
         | (Some idx, m1) \<Rightarrow>
             (let a = ms_areas m1 ! idx
              in if is_mmap a \<or> is_shm a \<or> ma_type a \<noteq> Framed \<or> \<not> contains_flags (map_perm a) PERM_U \<or>
                    \<not> is_allowed_by access (map_perm a)
                 then Inr (False, m1)
                 else
                   and_then (translate_bits (ms_vm m1) vpn) (\<lambda>bits.
                     if bits \<noteq> 0 then Inr (True, m1)
                     else if bt_get (data_frames a) vpn \<noteq> None then Inr (False, m1)
                     else
                       (case alloc_zeroed fa (ms_vm m1) of
                          (None, v1) \<Rightarrow> Inr (False, m1\<lparr>ms_vm := v1\<rparr>)
                        | (Some frame, v1) \<Rightarrow>
                            and_then (map_existing_frame fa vpn frame a v1) (\<lambda>(ok, a', v2).
                              if \<not> ok then Inr (False, m1\<lparr>ms_areas := (ms_areas m1)[idx := a'], ms_vm := v2\<rparr>)
                              else Inr (True, m1\<lparr>ms_areas := (ms_areas m1)[idx := a'], ms_vm := log_events [TlbRange vpn (vpn + 1)] v2\<rparr>))))))"

text \<open>The number of owners of a frame, as the frame allocator counts them, is an argument.\<close>

definition resolve_cow_page_fault ::
  "'s frame_alloc_fn \<Rightarrow> ('s \<Rightarrow> nat \<Rightarrow> nat option) \<Rightarrow> nat \<Rightarrow> 's memory_set \<Rightarrow> vm_panic + bool \<times> 's memory_set" where
  "resolve_cow_page_fault fa ref_count addr m =
     (let vpn = va_floor addr
      in and_then (translate_bits (ms_vm m) vpn) (\<lambda>pte.
           if \<not> pte_is_valid pte \<or> pte_writable pte \<or> \<not> pte_cow pte then Inr (False, m)
           else
             (case find_area_idx_containing vpn m of
                (None, m1) \<Rightarrow> Inr (False, m1)
              | (Some idx, m1) \<Rightarrow>
                  (let a = ms_areas m1 ! idx
                   in if \<not> contains_flags (map_perm a) PERM_W \<or> bt_get (data_frames a) vpn = None then Inr (False, m1)
                      else
                        (case ref_count (pw_frames (vw_pt (ms_vm m1))) (pte_ppn pte) of
                           None \<Rightarrow> Inr (False, m1)
                         | Some n \<Rightarrow>
                             if n = 1
                             then
                               (case on_pt (restore_write_clear_cow vpn) (ms_vm m1) of
                                  (False, v1) \<Rightarrow> Inr (False, m1\<lparr>ms_vm := v1\<rparr>)
                                | (True, v1) \<Rightarrow> Inr (True, m1\<lparr>ms_vm := log_events [TlbRange vpn (vpn + 1)] v1\<rparr>))
                             else
                               (case alloc_uninit fa (ms_vm m1) of
                                  (None, v1) \<Rightarrow> Inr (False, m1\<lparr>ms_vm := v1\<rparr>)
                                | (Some frame, v1) \<Rightarrow>
                                    (let v2 = copy_page frame (pte_ppn pte) v1
                                     in case on_pt (replace_leaf vpn frame ((pte_flags pte AND NOT PTE_COW) OR PTE_W)) v2 of
                                          (False, v3) \<Rightarrow> Inr (False, m1\<lparr>ms_vm := log_events [FreeFrame frame] v3\<rparr>)
                                        | (True, v3) \<Rightarrow>
                                            (case bt_get (data_frames a) vpn of
                                               None \<Rightarrow> Inl (LostFrame vpn)
                                             | Some old \<Rightarrow>
                                                 Inr (True, m1\<lparr>ms_areas := (ms_areas m1)[idx := a\<lparr>data_frames := bt_insert vpn frame (data_frames a)\<rparr>],
                                                   ms_vm := log_events [TlbRange vpn (vpn + 1), FreeFrame old] v3\<rparr>))))))))) "

section \<open>The invariant\<close>

text \<open>
  The areas are sorted, disjoint and well formed; the page table is; every page that an area has made resident has its tables; every
  entry below the trampoline that is not shared with the kernel belongs to a resident page; and the entry of an owned frame names it.
\<close>

definition owned :: "map_area list \<Rightarrow> nat set" where
  "owned as = (\<Union>a \<in> set as. resident a)"

abbreviation kernel_page :: "'s vm \<Rightarrow> nat \<Rightarrow> bool" where
  "kernel_page v u \<equiv> root_entry_is_shared (pw_pt (vw_pt v)) (indexes u ! 0)"

definition ms_ok :: "('s \<Rightarrow> bool) \<Rightarrow> ('s \<Rightarrow> nat set) \<Rightarrow> 's memory_set \<Rightarrow> bool" where
  "ms_ok src held m \<longleftrightarrow> areas_ok (ms_areas m) \<and> list_all area_ok (ms_areas m) \<and> vm_ok src held (ms_vm m) \<and>
     (\<forall>u \<in> owned (ms_areas m). vpath (ms_vm m) u) \<and>
     (\<forall>u < TOP_VPN. \<not> kernel_page (ms_vm m) u \<and> vview (ms_vm m) u \<noteq> 0 \<longrightarrow> u \<in> owned (ms_areas m)) \<and>
     (\<forall>a \<in> set (ms_areas m). \<forall>(u, f) \<in> set (data_frames a). vview (ms_vm m) u \<noteq> 0 \<longrightarrow> pte_ppn (vview (ms_vm m) u) = f)"

text \<open>What the address space says about a page.\<close>

definition page_map :: "map_area list \<Rightarrow> nat \<Rightarrow> page_info option" where
  "page_map as v = map_option (\<lambda>a. page_info_of a v) (area_at as v)"

definition straddled :: "map_area list \<Rightarrow> nat \<Rightarrow> bool" where
  "straddled as at \<longleftrightarrow> (\<exists>a \<in> set as. ma_start a < at \<and> at < ma_end a)"

lemma owned_simps [simp]: "owned [] = {}" "owned (a # as) = resident a \<union> owned as" "owned (as @ bs) = owned as \<union> owned bs"
  by (auto simp: owned_def)

lemma log_events_simps [simp]:
  "vw_pt (log_events es v) = vw_pt v" "vw_bytes (log_events es v) = vw_bytes v" "vw_log (log_events es v) = vw_log v @ es"
  by (simp_all add: log_events_def)

lemma vm_ok_log [simp]: "vm_ok src held (log_events es v) = vm_ok src held v"
  by (simp add: vm_ok_def)

lemma split_list_ok:
  assumes "areas_ok (A @ a # B)" and "list_all area_ok (A @ a # B)" and "area_split_off a at = Some (l, r, es)"
  shows "areas_ok (A @ l # r # B) \<and> list_all area_ok (A @ l # r # B) \<and> owned (A @ l # r # B) = owned (A @ a # B) \<and>
    page_map (A @ l # r # B) = page_map (A @ a # B)"
proof -
  note range = split_range [OF assms(3)] and res = split_resident [OF assms(3)]
  have a: "area_ok a" using assms(2) by simp
  have lr: "area_ok l" "area_ok r" using split_area_ok [OF assms(3) a] by simp_all
  have "areas_ok (A @ l # r # B)"
    using assms(1) lr range by (auto simp: areas_ok_append areas_ok_Cons area_ok_def)
  moreover have "resident l \<union> resident r = resident a" unfolding res by auto
  moreover have "page_map (A @ l # r # B) v = page_map (A @ a # B) v" for v
  proof (cases "contains_vpn a v")
    case True
    with split_info [OF assms(3) a True] range show ?thesis
      by (auto simp: page_map_def area_at_append contains_vpn_def split: option.splits)
  next
    case False
    then have "\<not> contains_vpn l v" "\<not> contains_vpn r v" using range by (auto simp: contains_vpn_def)
    with False show ?thesis by (auto simp: page_map_def area_at_append split: option.splits)
  qed
  ultimately show ?thesis using assms(2) lr by auto
qed

lemma split_area_at_cases:
  assumes "areas_ok (ms_areas m)"
  obtains (none) "\<not> straddled (ms_areas m) at" "ms_areas (split_area_at at m) = ms_areas m" "ms_vm (split_area_at at m) = ms_vm m"
  | (split) A a B l r es where "ms_areas m = A @ a # B" "area_split_off a at = Some (l, r, es)"
      "ms_areas (split_area_at at m) = A @ l # r # B" "ms_vm (split_area_at at m) = log_events es (ms_vm m)"
proof -
  obtain r m1 where f: "find_area_idx_containing at m = (r, m1)" by fastforce
  note fc = find_area_correct [OF assms f]
  have m1: "ms_areas m1 = ms_areas m" "ms_vm m1 = ms_vm m" using fc by auto
  show thesis
  proof (cases r)
    case None
    with fc have "\<not> straddled (ms_areas m) at" by (auto simp: straddled_def area_at_None contains_vpn_def)
    with None f m1 show thesis by (intro none) (simp_all add: split_area_at_def)
  next
    case (Some idx)
    with fc have idx: "idx < length (ms_areas m)" "contains_vpn (ms_areas m ! idx) at" by auto
    define a where "a = ms_areas m ! idx"
    show thesis
    proof (cases "ma_start a < at \<and> at < ma_end a")
      case True
      then obtain l r es where sp: "area_split_off a at = Some (l, r, es)" by (auto simp: area_split_off_def Let_def)
      have "ms_areas m = take idx (ms_areas m) @ a # drop (Suc idx) (ms_areas m)" using idx(1) by (simp add: a_def id_take_nth_drop)
      moreover have "vec_insert (idx + 1) r ((ms_areas m)[idx := l]) = take idx (ms_areas m) @ l # r # drop (Suc idx) (ms_areas m)"
        using idx(1) by (simp add: vec_insert_def upd_conv_take_nth_drop take_Cons' drop_Cons' min_def)
      ultimately show thesis using True sp f Some m1
        by (intro split [of "take idx (ms_areas m)" a "drop (Suc idx) (ms_areas m)" l r es]) (simp_all add: split_area_at_def a_def Let_def)
    next
      case False
      have "\<not> straddled (ms_areas m) at"
      proof
        assume "straddled (ms_areas m) at"
        then obtain b where b: "b \<in> set (ms_areas m)" "ma_start b < at" "at < ma_end b" by (auto simp: straddled_def)
        then have "contains_vpn b at" by (simp add: contains_vpn_def)
        with areas_unique [OF assms, of a b at] idx b(1) have "a = b" by (simp add: a_def)
        with b False show False by simp
      qed
      with False f Some m1 show thesis by (intro none) (simp_all add: split_area_at_def a_def Let_def)
    qed
  qed
qed

definition quiet :: "vm_event list \<Rightarrow> bool" where
  "quiet es \<longleftrightarrow> (\<forall>e \<in> set es. \<exists>i. e = ShmRetain i)"

lemma quiet_simps [simp]: "quiet []" "quiet (es @ es') \<longleftrightarrow> quiet es \<and> quiet es'"
  by (auto simp: quiet_def)

lemma split_quiet: "area_split_off a at = Some (l, r, es) \<Longrightarrow> quiet es"
  by (auto simp: area_split_off_def Let_def quiet_def split: if_splits option.splits)

lemma split_straddled:
  assumes "areas_ok (A @ a # B)" and "area_split_off a at = Some (l, r, es)"
  shows "\<not> straddled (A @ l # r # B) at" and "\<not> straddled (A @ a # B) x \<Longrightarrow> \<not> straddled (A @ l # r # B) x"
proof -
  note range = split_range [OF assms(2)]
  have "\<not> (ma_start b < at \<and> at < ma_end b)" if "b \<in> set A \<union> set B" for b
    using assms(1) range(1,2) that by (auto simp: areas_ok_append areas_ok_Cons)
  with range show "\<not> straddled (A @ l # r # B) at" by (auto simp: straddled_def)
  show "\<not> straddled (A @ l # r # B) x" if "\<not> straddled (A @ a # B) x"
    using that range by (auto simp: straddled_def)
qed

lemma split_area_at_ok:
  assumes "ms_ok src held m"
  shows "ms_ok src held (split_area_at at m) \<and> page_map (ms_areas (split_area_at at m)) = page_map (ms_areas m) \<and>
    owned (ms_areas (split_area_at at m)) = owned (ms_areas m) \<and> \<not> straddled (ms_areas (split_area_at at m)) at \<and>
    (\<forall>x. \<not> straddled (ms_areas m) x \<longrightarrow> \<not> straddled (ms_areas (split_area_at at m)) x) \<and>
    (\<exists>es. quiet es \<and> ms_vm (split_area_at at m) = log_events es (ms_vm m))"
proof -
  have ok: "areas_ok (ms_areas m)" "list_all area_ok (ms_areas m)" using assms by (simp_all add: ms_ok_def)
  show ?thesis
  proof (rule split_area_at_cases [OF ok(1), of at], goal_cases)
    case 1
    have "ms_ok src held (split_area_at at m)" using assms by (simp add: ms_ok_def 1)
    moreover have "ms_vm m = log_events [] (ms_vm m)" by (simp add: log_events_def)
    then have "\<exists>es. quiet es \<and> ms_vm (split_area_at at m) = log_events es (ms_vm m)" using 1(3) quiet_simps(1) by metis
    ultimately show ?thesis using 1 by simp
  next
    case split: (2 A a B l r es)
    have ok': "areas_ok (A @ a # B)" "list_all area_ok (A @ a # B)" using ok split(1) by simp_all
    note sl = split_list_ok [OF ok' split(2)] and st = split_straddled [OF ok'(1) split(2)]
    have frames: "set (data_frames l) \<subseteq> set (data_frames a)" "set (data_frames r) \<subseteq> set (data_frames a)"
      unfolding split_pages [OF split(2)] by auto
    have "ms_ok src held (split_area_at at m)"
      using assms sl frames unfolding ms_ok_def split(3,4) unfolding split(1) by (auto simp del: owned_simps)
    with sl st split_quiet [OF split(2)] split(1,3,4) show ?thesis by auto
  qed
qed

section \<open>Removing areas\<close>

lemma path_leaf: "find_pte_mut w vpn = Some loc \<Longrightarrow> find_leaf w vpn = Some (loc, 0)"
  by (auto simp: find_pte_mut_def find_leaf_def indexes_def Let_def split: if_splits)

lemma path_translate: "has_path w vpn \<Longrightarrow> vpn_ok vpn \<Longrightarrow> translate w vpn = Inr (Some (view w vpn))"
  by (auto simp: has_path_def translate_def view_def path_leaf Let_def)

lemma flush_frames_total:
  assumes "\<And>u. u \<in> set us \<Longrightarrow> vpath v u \<and> vpn_ok u"
  shows "\<exists>fs. flush_frames info file start v us = Inr fs"
  using assms
proof (induction us)
  case (Cons u us)
  then obtain fs where "flush_frames info file start v us = Inr fs" by auto
  with path_translate [of "vw_pt v" u] Cons.prems [of u] show ?case by (auto simp: Let_def map_err_def split: option.splits)
qed simp

lemma flush_frames_cong:
  assumes "\<And>u. u \<in> set us \<Longrightarrow> vpath v u \<and> vpath v' u \<and> vpn_ok u \<and> vview v' u = vview v u" and "vw_bytes v' = vw_bytes v"
  shows "flush_frames info file start v' us = flush_frames info file start v us"
  using assms(1)
proof (induction us)
  case (Cons u us)
  have "translate (vw_pt v') u = translate (vw_pt v) u"
    using Cons.prems [of u] path_translate [of "vw_pt v" u] path_translate [of "vw_pt v'" u] by simp
  moreover have "flush_frames info file start v' us = flush_frames info file start v us" using Cons by simp
  ultimately show ?case unfolding flush_frames.simps assms(2) by (simp only:)
qed simp

lemma collect_total:
  assumes "\<And>u. u \<in> resident a \<Longrightarrow> vpath v u \<and> vpn_ok u"
  shows "\<exists>fs. collect_mmap_flushes dirty a v = Inr fs"
proof (cases "ma_mmap a")
  case (Some i)
  have "\<And>u. u \<in> set (map fst (data_frames a)) \<Longrightarrow> vpath v u \<and> vpn_ok u" using assms by (auto simp: resident_def)
  note total = flush_frames_total [OF this]
  show ?thesis
  proof (cases "mi_backing_file i")
    case f: (Some f)
    obtain fs where "flush_frames i f (ma_start a) v (map fst (data_frames a)) = Inr fs" using total by blast
    with Some f show ?thesis by (simp add: collect_mmap_flushes_def)
  qed (use Some in \<open>simp add: collect_mmap_flushes_def\<close>)
qed (simp add: collect_mmap_flushes_def)

lemma collect_cong:
  assumes "\<And>u. u \<in> resident a \<Longrightarrow> vpath v u \<and> vpath v' u \<and> vpn_ok u \<and> vview v' u = vview v u" and "vw_bytes v' = vw_bytes v"
  shows "collect_mmap_flushes dirty a v' = collect_mmap_flushes dirty a v"
proof -
  have cong: "flush_frames i f b v' (map fst (data_frames a)) = flush_frames i f b v (map fst (data_frames a))" for i f b
    by (rule flush_frames_cong) (use assms in \<open>auto simp: resident_def\<close>)
  show ?thesis unfolding collect_mmap_flushes_def cong ..
qed

definition flushes_of :: "dirty_fn \<Rightarrow> 's vm \<Rightarrow> map_area \<Rightarrow> mmap_flush list" where
  "flushes_of dirty v a = (case collect_mmap_flushes dirty a v of Inr fs \<Rightarrow> fs | Inl _ \<Rightarrow> [])"

definition retire_list :: "map_area list \<Rightarrow> bool \<Rightarrow> retired_user_pages \<Rightarrow> retired_user_pages" where
  "retire_list as cleared rt = \<lparr>rt_frames = rt_frames rt @ concat (map (\<lambda>a. map snd (data_frames a)) as),
     rt_page_cache_refs = rt_page_cache_refs rt @ concat (map (\<lambda>a. map snd (cache_pages a)) as),
     rt_shm_attachments = rt_shm_attachments rt @ concat (map shm_ids as), rt_pte_cleared = rt_pte_cleared rt \<or> cleared\<rparr>"

lemma retire_list_simps:
  "retire_list [] False rt = rt" "retire_list as c (retire_area a c' rt) = retire_list (a # as) (c' \<or> c) rt"
  by (simp_all add: retire_list_def retire_area_def)

text \<open>A step that only gives references of files back besides changing entries.\<close>

definition vm_step_files :: "('s \<Rightarrow> bool) \<Rightarrow> ('s \<Rightarrow> nat set) \<Rightarrow> (nat \<Rightarrow> usize) \<Rightarrow> 's vm \<Rightarrow> 's vm \<Rightarrow> bool" where
  "vm_step_files src held g v v' \<longleftrightarrow> vm_ok src held v' \<and> vview v' = g \<and> (\<forall>u. vpath v u \<longrightarrow> vpath v' u) \<and> vshared v' = vshared v \<and>
     vw_bytes v' = vw_bytes v \<and> (\<exists>es. vw_log v' = vw_log v @ es \<and> (\<forall>e \<in> set es. \<exists>f. e = FileDecShared f))"

lemma vm_step_files_refl: "vm_ok src held v \<Longrightarrow> vm_step_files src held (vview v) v v"
  by (simp add: vm_step_files_def)

lemma vm_step_files_trans: "vm_step_files src held g v v1 \<Longrightarrow> vm_step_files src held h v1 v2 \<Longrightarrow> vm_step_files src held h v v2"
  unfolding vm_step_files_def by auto

lemma release_refs_files: "e \<in> set (release_mmap_refs a) \<Longrightarrow> \<exists>f. e = FileDecShared f"
  by (auto simp: release_mmap_refs_def split: option.splits if_splits)

lemma vm_step_release: "vm_step src held g v v' \<Longrightarrow> vm_step_files src held g v (log_events (release_mmap_refs a) v')"
  using release_refs_files by (fastforce simp: vm_step_def vm_step_files_def)

lemma vm_step_plain: "vm_step src held g v v' \<Longrightarrow> vm_step_files src held g v v'"
  by (simp add: vm_step_def vm_step_files_def)

lemma area_vpn_ok: "area_ok a \<Longrightarrow> u \<in> resident a \<Longrightarrow> vpn_ok u"
  by (auto simp: area_ok_def area_range_ok_def TOP_VPN_def vpn_ok_def)

context frame_source
begin

lemma take_flushes_ok:
  assumes "vm_ok src_ok held v" and "area_ok a" and "\<And>u. u \<in> resident a \<Longrightarrow> vpath v u"
  shows "\<exists>v'. take_mmap_flushes dirty a (v, rt) =
      Inr (flushes_of dirty v a, emptied a, v', retire_area a (\<exists>u \<in> resident a. vview v u \<noteq> 0) rt) \<and>
    vm_step src_ok held (clear_view (resident a) (vview v)) v v'"
proof -
  obtain fs where fs: "collect_mmap_flushes dirty a v = Inr fs" using collect_total [of a v dirty] assms(3) area_vpn_ok [OF assms(2)] by blast
  obtain v' where "unmap_resident_deferred a (v, rt) = Inr (emptied a, v', retire_area a (\<exists>u \<in> resident a. vview v u \<noteq> 0) rt)"
      "vm_step src_ok held (clear_view (resident a) (vview v)) v v'"
    using unmap_resident_ok [OF assms(1), of a rt] assms(2,3) area_vpn_ok [OF assms(2)] by (auto simp: area_ok_def)
  with fs show ?thesis by (auto simp: take_mmap_flushes_def flushes_of_def)
qed

end

section \<open>Removing a range\<close>

lemma owned_disjoint:
  assumes "areas_ok (a # as)" and "list_all area_ok (a # as)" and "b \<in> set as"
  shows "resident a \<inter> resident b = {}"
proof -
  have "resident a \<subseteq> {ma_start a..<ma_end a}" "resident b \<subseteq> {ma_start b..<ma_end b}"
    using assms(2,3) by (simp_all add: area_ok_def list_all_iff)
  moreover have "ma_end a \<le> ma_start b" using assms(1,3) by (simp add: areas_ok_Cons)
  ultimately show ?thesis by fastforce
qed

context frame_source
begin

text \<open>The areas after the first one, when the pages of the first one have been taken out.\<close>

lemma remove_areas_tail:
  assumes "areas_ok (a # B)" and "list_all area_ok (a # B)" and paths: "\<And>u. u \<in> owned (a # B) \<Longrightarrow> vpath v u"
    and v1: "vm_step_files src_ok held (clear_view (resident a) (vview v)) v v1"
    and rest: "remove_areas dirty go rm B (v1, retire_area a c rt) =
        Inr (as, concat (map (flushes_of dirty v1) (filter P B)), files, v2,
          retire_list (filter rm B) (\<exists>u \<in> owned (filter rm B). vview v1 u \<noteq> 0) (retire_area a c rt))"
    and v2: "vm_step_files src_ok held (clear_view (owned (filter rm B)) (vview v1)) v1 v2"
    and c: "c \<longleftrightarrow> (\<exists>u \<in> resident a. vview v u \<noteq> 0)"
  shows "remove_areas dirty go rm B (v1, retire_area a c rt) =
        Inr (as, concat (map (flushes_of dirty v) (filter P B)), files, v2,
          retire_list (a # filter rm B) (\<exists>u \<in> owned (a # filter rm B). vview v u \<noteq> 0) rt) \<and>
    vm_step_files src_ok held (clear_view (owned (a # filter rm B)) (vview v)) v v2"
proof -
  have view1: "vview v1 = clear_view (resident a) (vview v)" using v1 by (simp add: vm_step_files_def)
  have same: "flushes_of dirty v1 b = flushes_of dirty v b" if b: "b \<in> set B" for b
  proof -
    have "collect_mmap_flushes dirty b v1 = collect_mmap_flushes dirty b v"
    proof (rule collect_cong)
      fix u assume u: "u \<in> resident b"
      then have "u \<notin> resident a" using owned_disjoint [OF assms(1,2) b] by blast
      moreover have "vpath v u" using paths u b by (auto simp: owned_def)
      moreover have "vpn_ok u" using area_vpn_ok u b assms(2) by (auto simp: list_all_iff)
      ultimately show "vpath v u \<and> vpath v1 u \<and> vpn_ok u \<and> vview v1 u = vview v u"
        using v1 by (simp add: vm_step_files_def clear_view_def)
    qed (use v1 in \<open>simp add: vm_step_files_def\<close>)
    then show ?thesis by (simp add: flushes_of_def)
  qed
  have fl: "map (flushes_of dirty v1) (filter P B) = map (flushes_of dirty v) (filter P B)" using same by simp
  have flag: "c \<or> (\<exists>u \<in> owned (filter rm B). vview v1 u \<noteq> 0) \<longleftrightarrow> (\<exists>u \<in> owned (a # filter rm B). vview v u \<noteq> 0)"
    unfolding c view1 by (auto simp: clear_view_def)
  show ?thesis unfolding rest fl retire_list_simps(2) flag
    using vm_step_files_trans [OF v1 v2] by (simp add: view1 Un_commute)
qed

lemma remove_areas_ok:
  assumes "areas_ok B" and "list_all area_ok B" and "vm_ok src_ok held v" and "\<And>u. u \<in> owned B \<Longrightarrow> vpath v u"
    and "\<And>a. a \<in> set B \<Longrightarrow> rm a \<Longrightarrow> ma_start a < e"
  shows "\<exists>files v'. remove_areas dirty (\<lambda>a. ma_start a < e) rm B (v, rt) =
      Inr (filter (\<lambda>a. \<not> rm a) B, concat (map (flushes_of dirty v) (filter (\<lambda>a. rm a \<and> is_mmap a) B)), files, v',
        retire_list (filter rm B) (\<exists>u \<in> owned (filter rm B). vview v u \<noteq> 0) rt) \<and>
    vm_step_files src_ok held (clear_view (owned (filter rm B)) (vview v)) v v'"
  using assms
proof (induction B arbitrary: v rt)
  case Nil
  then show ?case by (auto simp: retire_list_simps intro: vm_step_files_refl)
next
  case (Cons a B)
  have B: "areas_ok B" "list_all area_ok B" and a: "area_ok a" using Cons.prems(1,2) by (simp_all add: areas_ok_Cons)
  consider "\<not> ma_start a < e" | "ma_start a < e" "\<not> rm a" | "ma_start a < e" "rm a" by blast
  then show ?case
  proof cases
    case 1
    have "\<not> rm b" if b: "b \<in> set (a # B)" for b
    proof -
      have "ma_start a \<le> ma_start b" using b Cons.prems(1) areas_nonempty [OF Cons.prems(1), of a] by (auto simp: areas_ok_Cons)
      with 1 b Cons.prems(5) [of b] show ?thesis by auto
    qed
    then have none: "filter rm (a # B) = []" "filter (\<lambda>a. rm a \<and> is_mmap a) (a # B) = []" "filter (\<lambda>a. \<not> rm a) (a # B) = a # B"
      by (auto simp: filter_empty_conv intro: filter_True)
    show ?thesis unfolding none using 1 Cons.prems(3) by (auto simp: retire_list_simps intro: vm_step_files_refl)
  next
    case 2
    from Cons.IH [OF B Cons.prems(3), of rt] Cons.prems(4,5) obtain files v' where
      "remove_areas dirty (\<lambda>a. ma_start a < e) rm B (v, rt) =
        Inr (filter (\<lambda>a. \<not> rm a) B, concat (map (flushes_of dirty v) (filter (\<lambda>a. rm a \<and> is_mmap a) B)), files, v',
          retire_list (filter rm B) (\<exists>u \<in> owned (filter rm B). vview v u \<noteq> 0) rt)"
      "vm_step_files src_ok held (clear_view (owned (filter rm B)) (vview v)) v v'" by auto
    with 2 show ?thesis by auto
  next
    case 3
    let ?c = "\<exists>u \<in> resident a. vview v u \<noteq> 0"
    have res: "\<And>u. u \<in> resident a \<Longrightarrow> vpath v u" using Cons.prems(4) by simp
    have tail: "\<exists>files v2. remove_areas dirty (\<lambda>a. ma_start a < e) rm B (v1, retire_area a ?c rt) =
          Inr (filter (\<lambda>a. \<not> rm a) B, concat (map (flushes_of dirty v) (filter (\<lambda>a. rm a \<and> is_mmap a) B)), files, v2,
            retire_list (a # filter rm B) (\<exists>u \<in> owned (a # filter rm B). vview v u \<noteq> 0) rt) \<and>
        vm_step_files src_ok held (clear_view (owned (a # filter rm B)) (vview v)) v v2"
      if v1: "vm_step_files src_ok held (clear_view (resident a) (vview v)) v v1" for v1
    proof -
      have "vm_ok src_ok held v1" "\<And>u. u \<in> owned B \<Longrightarrow> vpath v1 u" using v1 Cons.prems(4) by (auto simp: vm_step_files_def)
      from Cons.IH [OF B this, of "retire_area a ?c rt"] Cons.prems(5) obtain files v2 where
        "remove_areas dirty (\<lambda>a. ma_start a < e) rm B (v1, retire_area a ?c rt) =
          Inr (filter (\<lambda>a. \<not> rm a) B, concat (map (flushes_of dirty v1) (filter (\<lambda>a. rm a \<and> is_mmap a) B)), files, v2,
            retire_list (filter rm B) (\<exists>u \<in> owned (filter rm B). vview v1 u \<noteq> 0) (retire_area a ?c rt))"
        "vm_step_files src_ok held (clear_view (owned (filter rm B)) (vview v1)) v1 v2" by auto
      from remove_areas_tail [OF Cons.prems(1,2,4) v1 this refl] show ?thesis by blast
    qed
    show ?thesis
    proof (cases "is_mmap a")
      case True
      obtain v1 where v1: "take_mmap_flushes dirty a (v, rt) = Inr (flushes_of dirty v a, emptied a, v1, retire_area a ?c rt)"
          "vm_step src_ok held (clear_view (resident a) (vview v)) v v1"
        using take_flushes_ok [OF Cons.prems(3) a res, where dirty = dirty and rt = rt] by blast
      from tail [OF vm_step_release [OF v1(2), of "emptied a"]] True 3 v1(1) show ?thesis by fastforce
    next
      case False
      obtain v1 where v1: "unmap_resident_deferred a (v, rt) = Inr (emptied a, v1, retire_area a ?c rt)"
          "vm_step src_ok held (clear_view (resident a) (vview v)) v v1"
        using unmap_resident_ok [OF Cons.prems(3), of a rt] a res area_vpn_ok [OF a] by (auto simp: area_ok_def)
      from tail [OF vm_step_plain [OF v1(2)]] False 3 v1(1) show ?thesis by fastforce
    qed
  qed
qed

lemma remove_range_space:
  assumes ok: "ms_ok src_ok held m" and inside: "\<And>a. a \<in> set (ms_areas m) \<Longrightarrow> rm a \<Longrightarrow> s \<le> ma_start a \<and> ma_end a \<le> e"
  defines "R \<equiv> filter rm (ms_areas m)"
  defines "hit \<equiv> \<exists>u \<in> owned R. vview (ms_vm m) u \<noteq> 0"
  shows "\<exists>files v. remove_range dirty rm s e m =
      Inr (concat (map (flushes_of dirty (ms_vm m)) (filter is_mmap R)), files,
        m\<lparr>ms_areas := filter (\<lambda>a. \<not> rm a) (ms_areas m),
          ms_vm := log_events ((if hit then [TlbRange s e] else []) @ retired_release (retire_list R hit retired_new)) v\<rparr>) \<and>
    vm_step_files src_ok held (clear_view (owned R) (vview (ms_vm m))) (ms_vm m) v"
proof -
  have areas: "areas_ok (ms_areas m)" "list_all area_ok (ms_areas m)" "vm_ok src_ok held (ms_vm m)"
      "\<And>u. u \<in> owned (ms_areas m) \<Longrightarrow> vpath (ms_vm m) u"
    using ok by (simp_all add: ms_ok_def)
  obtain A B where cut: "ms_areas m = A @ B" "first_area_idx_ending_after (ms_areas m) s = length A" "\<forall>a \<in> set A. ma_end a \<le> s"
    by (rule first_idx_cut [OF areas(1), of s])
  have inner: "s < e \<and> ma_start a < e" if "a \<in> set (ms_areas m)" "rm a" for a
    using inside [OF that] areas_nonempty [OF areas(1) that(1)] by simp
  have A: "\<not> rm a" if "a \<in> set A" for a
    using that inside [of a] areas_nonempty [OF areas(1), of a] cut(1,3) by fastforce
  then have fA: "filter rm A = []" "filter (\<lambda>a. \<not> rm a) A = A" "filter (\<lambda>a. rm a \<and> is_mmap a) A = []" by (auto simp: filter_empty_conv)
  have R: "R = filter rm B" "filter is_mmap R = filter (\<lambda>a. rm a \<and> is_mmap a) B" unfolding R_def cut(1) using fA by (simp_all add: conj_commute)
  have B: "areas_ok B" "list_all area_ok B" "\<And>u. u \<in> owned B \<Longrightarrow> vpath (ms_vm m) u" "\<And>a. a \<in> set B \<Longrightarrow> rm a \<Longrightarrow> ma_start a < e"
    using areas inner unfolding cut(1) by (auto simp: areas_ok_append)
  obtain files v where v: "remove_areas dirty (\<lambda>a. ma_start a < e) rm B (ms_vm m, retired_new) =
      Inr (filter (\<lambda>a. \<not> rm a) B, concat (map (flushes_of dirty (ms_vm m)) (filter is_mmap R)), files, v, retire_list R hit retired_new)"
      "vm_step_files src_ok held (clear_view (owned R) (vview (ms_vm m))) (ms_vm m) v"
    using remove_areas_ok [OF B(1,2) areas(3), of rm e dirty retired_new] B(3,4) unfolding R(2) unfolding R(1) hit_def by blast
  have "s < e" if hit using that inner by (auto simp: hit_def R_def owned_def)
  then have "finish_retired s e (v, retire_list R hit retired_new) =
      Inr (log_events ((if hit then [TlbRange s e] else []) @ retired_release (retire_list R hit retired_new)) v)"
    by (auto simp: finish_retired_def invalidate_range_def retire_list_def retired_new_def log_events_def)
  with v fA(2) show ?thesis unfolding remove_range_def Let_def cut(2) by (auto simp: cut(1))
qed

end

section \<open>What is left after a removal\<close>

definition info_resident :: "page_info \<Rightarrow> bool" where
  "info_resident i \<longleftrightarrow> pi_frame i \<noteq> None \<or> pi_cache i \<noteq> None \<or> pi_shm_page i \<noteq> None"

definition dropped :: "(page_info \<Rightarrow> bool) \<Rightarrow> nat \<Rightarrow> nat \<Rightarrow> (nat \<Rightarrow> page_info option) \<Rightarrow> nat set" where
  "dropped P s e pm = {u. s \<le> u \<and> u < e \<and> (\<exists>i. pm u = Some i \<and> P i)}"

definition drop_pages :: "nat set \<Rightarrow> (nat \<Rightarrow> page_info option) \<Rightarrow> nat \<Rightarrow> page_info option" where
  "drop_pages D pm = (\<lambda>u. if u \<in> D then None else pm u)"

lemma bt_get_dom: "bt_get m k \<noteq> None \<longleftrightarrow> k \<in> fst ` set m"
  by (induction m) auto

lemma bt_get_set: "bt_ok m \<Longrightarrow> bt_get m k = Some v \<longleftrightarrow> (k, v) \<in> set m"
  by (induction m) (auto simp: bt_ok_Cons split: if_splits)

lemma resident_info: "u \<in> resident a \<longleftrightarrow> info_resident (page_info_of a u)"
  unfolding resident_def info_resident_def page_info_of_def Let_def page_info.simps bt_get_dom by simp

lemma resident_contains: "area_ok a \<Longrightarrow> u \<in> resident a \<Longrightarrow> contains_vpn a u"
  by (auto simp: area_ok_def contains_vpn_def)

lemma is_mmap_info: "is_mmap a \<longleftrightarrow> pi_mmap (page_info_of a u) \<noteq> None"
  by (simp add: is_mmap_def page_info_of_def Let_def)

lemma page_map_Some: "areas_ok as \<Longrightarrow> page_map as u = Some i \<longleftrightarrow> (\<exists>a \<in> set as. contains_vpn a u \<and> i = page_info_of a u)"
  by (auto simp: page_map_def area_at_iff)

lemma areas_ok_filter: "areas_ok as \<Longrightarrow> areas_ok (filter P as)"
  by (auto simp: areas_ok_def sorted_wrt_filter list_all_iff)

text \<open>The areas that are removed are exactly those of the dropped pages.\<close>

lemma filter_dropped:
  assumes ok: "areas_ok as" "list_all area_ok as"
    and rm: "\<And>a u. a \<in> set as \<Longrightarrow> contains_vpn a u \<Longrightarrow> rm a \<longleftrightarrow> s \<le> u \<and> u < e \<and> P (page_info_of a u)"
  defines "D \<equiv> dropped P s e (page_map as)"
  shows "page_map (filter (\<lambda>a. \<not> rm a) as) = drop_pages D (page_map as)"
    and "owned (filter rm as) = D \<inter> owned as"
    and "f \<in> (\<Union>a \<in> set (filter rm as). snd ` set (data_frames a)) \<longleftrightarrow> (\<exists>u \<in> D. \<exists>i. page_map as u = Some i \<and> pi_frame i = Some f)"
proof -
  have in_D: "u \<in> D \<longleftrightarrow> rm a" if "a \<in> set as" "contains_vpn a u" for a u
    using rm [OF that] that ok(1) page_map_Some [OF ok(1), of u] areas_unique [OF ok(1)] by (auto simp: D_def dropped_def)
  have res: "contains_vpn a u" if "a \<in> set as" "u \<in> resident a" for a u
    using that ok(2) resident_contains by (simp add: list_all_iff)
  show "page_map (filter (\<lambda>a. \<not> rm a) as) = drop_pages D (page_map as)"
  proof
    fix u
    show "page_map (filter (\<lambda>a. \<not> rm a) as) u = drop_pages D (page_map as) u"
    proof (cases "area_at as u")
      case None
      then have "area_at (filter (\<lambda>a. \<not> rm a) as) u = None" by (simp add: area_at_None)
      with None show ?thesis by (simp add: page_map_def drop_pages_def)
    next
      case (Some a)
      then have a: "a \<in> set as" "contains_vpn a u" by (auto dest: area_at_SomeD)
      have "area_at (filter (\<lambda>a. \<not> rm a) as) u = (if rm a then None else Some a)"
        using a areas_unique [OF ok(1)] area_at_iff [OF areas_ok_filter [OF ok(1)]] by (auto simp: area_at_None)
      with in_D [OF a] Some show ?thesis by (simp add: page_map_def drop_pages_def)
    qed
  qed
  show "owned (filter rm as) = D \<inter> owned as" using in_D res by (auto simp: owned_def)
  have fr: "(u, f) \<in> set (data_frames a) \<longleftrightarrow> pi_frame (page_info_of a u) = Some f" if "a \<in> set as" for a u
    using that ok(2) bt_get_set [of "data_frames a" u f] by (auto simp: list_all_iff area_ok_def page_info_of_def Let_def)
  have "contains_vpn a u" if "a \<in> set as" "(u, f) \<in> set (data_frames a)" for a u
    using res [OF that(1), of u] that(2) by (force simp: resident_def)
  with fr in_D page_map_Some [OF ok(1)]
  show "f \<in> (\<Union>a \<in> set (filter rm as). snd ` set (data_frames a)) \<longleftrightarrow> (\<exists>u \<in> D. \<exists>i. page_map as u = Some i \<and> pi_frame i = Some f)"
    by (auto simp: image_iff D_def dropped_def) (metis snd_conv)+
qed

lemma kernel_page_cong: "vshared v' = vshared v \<Longrightarrow> kernel_page v' u = kernel_page v u"
  by (simp add: root_entry_is_shared_def)

lemma ms_ok_removed:
  assumes ok: "ms_ok src held m" and step: "vm_step_files src held (clear_view (owned (filter rm (ms_areas m))) (vview (ms_vm m))) (ms_vm m) v"
  shows "ms_ok src held (m\<lparr>ms_areas := filter (\<lambda>a. \<not> rm a) (ms_areas m), ms_vm := log_events es v\<rparr>)"
proof -
  have v: "vm_ok src held v" "vview v = clear_view (owned (filter rm (ms_areas m))) (vview (ms_vm m))"
      "\<And>u. vpath (ms_vm m) u \<Longrightarrow> vpath v u" "\<And>u. kernel_page v u = kernel_page (ms_vm m) u"
    using step kernel_page_cong by (auto simp: vm_step_files_def)
  have "owned (filter (\<lambda>a. \<not> rm a) (ms_areas m)) \<union> owned (filter rm (ms_areas m)) = owned (ms_areas m)" by (auto simp: owned_def)
  with ok v(1,3) show ?thesis unfolding ms_ok_def
    by (auto simp: v(2,4) clear_view_def areas_ok_filter list_all_iff) fast
qed

text \<open>
  The specification of a removal: the pages of the set have left the address space and the page table, everything else is as it was,
  and the frames that were freed are exactly those of the removed pages. They are freed after the translation buffers have been
  invalidated, when one of the pages was mapped.
\<close>

definition lets_go :: "vm_event \<Rightarrow> bool" where
  "lets_go e \<longleftrightarrow> (\<exists>f. e = FreeFrame f) \<or> (\<exists>k. e = CacheDecRef k) \<or> (\<exists>i. e = ShmDetach i)"

definition range_dropped ::
  "('s \<Rightarrow> bool) \<Rightarrow> ('s \<Rightarrow> nat set) \<Rightarrow> nat set \<Rightarrow> nat \<Rightarrow> nat \<Rightarrow> 's memory_set \<Rightarrow> 's memory_set \<Rightarrow> bool" where
  "range_dropped src held D s e m m' \<longleftrightarrow> ms_ok src held m' \<and>
     page_map (ms_areas m') = drop_pages D (page_map (ms_areas m)) \<and>
     vview (ms_vm m') = clear_view (D \<inter> owned (ms_areas m)) (vview (ms_vm m)) \<and>
     vshared (ms_vm m') = vshared (ms_vm m) \<and> vw_bytes (ms_vm m') = vw_bytes (ms_vm m) \<and>
     brk_base m' = brk_base m \<and> brk m' = brk m \<and> brk_limit m' = brk_limit m \<and> brk_mapped_end m' = brk_mapped_end m \<and>
     mmap_next m' = mmap_next m \<and>
     (\<exists>before after. vw_log (ms_vm m') = vw_log (ms_vm m) @ before @
          (if \<exists>u \<in> D \<inter> owned (ms_areas m). vview (ms_vm m) u \<noteq> 0 then [TlbRange s e] else []) @ after \<and>
        (\<forall>e \<in> set before. \<not> lets_go e) \<and> (\<forall>e \<in> set after. lets_go e) \<and>
        (\<forall>f. FreeFrame f \<in> set after \<longleftrightarrow> (\<exists>u \<in> D. \<exists>i. page_map (ms_areas m) u = Some i \<and> pi_frame i = Some f)))"

lemma split_area_at_fields:
  "brk_base (split_area_at at m) = brk_base m" "brk (split_area_at at m) = brk m" "brk_limit (split_area_at at m) = brk_limit m"
  "brk_mapped_end (split_area_at at m) = brk_mapped_end m" "mmap_next (split_area_at at m) = mmap_next m"
  by (simp_all add: split_area_at_def find_area_idx_containing_def Let_def split: option.splits prod.splits)

lemma release_frames:
  "FreeFrame f \<in> set (retired_release (retire_list R c retired_new)) \<longleftrightarrow> f \<in> (\<Union>a \<in> set R. snd ` set (data_frames a))"
proof -
  have "FreeFrame f \<in> FreeFrame ` F \<longleftrightarrow> f \<in> F" for F by blast
  then show ?thesis by (auto simp: retired_release_def retire_list_def retired_new_def)
qed

lemma quiet_keeps: "quiet es \<Longrightarrow> e \<in> set es \<Longrightarrow> \<not> lets_go e"
  by (auto simp: quiet_def lets_go_def)

text \<open>The address space after the two cuts at the ends of the range: nothing has changed but where areas begin and end.\<close>

lemma cut_range_ok:
  assumes "ms_ok src held m" and m1: "m1 = split_area_at e (split_area_at s m)"
  obtains es where "ms_ok src held m1" "page_map (ms_areas m1) = page_map (ms_areas m)" "owned (ms_areas m1) = owned (ms_areas m)"
    "\<not> straddled (ms_areas m1) s" "\<not> straddled (ms_areas m1) e" "ms_vm m1 = log_events es (ms_vm m)" "\<forall>e \<in> set es. \<not> lets_go e"
proof -
  note a = split_area_at_ok [OF assms(1), of s]
  obtain es where es: "quiet es" "ms_vm (split_area_at s m) = log_events es (ms_vm m)" using a by blast
  have ok: "ms_ok src held (split_area_at s m)" using a by blast
  note b = split_area_at_ok [OF ok, of e]
  obtain es' where es': "quiet es'" "ms_vm m1 = log_events es' (ms_vm (split_area_at s m))" using b unfolding m1 by blast
  have "ms_vm m1 = log_events (es @ es') (ms_vm m)" using es(2) es'(2) by (simp add: log_events_def)
  with a b es(1) es'(1) quiet_keeps [of "es @ es'"] show thesis by (intro that [of "es @ es'"]) (auto simp: m1)
qed

context frame_source
begin

lemma cut_remove_ok:
  assumes ok: "ms_ok src_ok held m"
    and rm: "\<And>a u. area_range_ok a \<Longrightarrow> \<not> (ma_start a < s \<and> s < ma_end a) \<Longrightarrow> \<not> (ma_start a < e \<and> e < ma_end a) \<Longrightarrow>
      contains_vpn a u \<Longrightarrow> rm a \<longleftrightarrow> s \<le> u \<and> u < e \<and> P (page_info_of a u)"
  shows "\<exists>fs files m'. remove_range dirty rm s e (split_area_at e (split_area_at s m)) = Inr (fs, files, m') \<and>
    range_dropped src_ok held (dropped P s e (page_map (ms_areas m))) s e m m'"
proof -
  let ?m1 = "split_area_at e (split_area_at s m)"
  obtain es where m1: "ms_ok src_ok held ?m1" "page_map (ms_areas ?m1) = page_map (ms_areas m)" "owned (ms_areas ?m1) = owned (ms_areas m)"
      "\<not> straddled (ms_areas ?m1) s" "\<not> straddled (ms_areas ?m1) e" "ms_vm ?m1 = log_events es (ms_vm m)" "\<forall>e \<in> set es. \<not> lets_go e"
    by (rule cut_range_ok [OF ok refl, of e s])
  have areas: "areas_ok (ms_areas ?m1)" "list_all area_ok (ms_areas ?m1)" using m1(1) by (simp_all add: ms_ok_def)
  have rm1: "rm a \<longleftrightarrow> s \<le> u \<and> u < e \<and> P (page_info_of a u)" if "a \<in> set (ms_areas ?m1)" "contains_vpn a u" for a u
    using rm [OF areas_range [OF areas(1) that(1)] _ _ that(2)] m1(4,5) that(1) by (auto simp: straddled_def)
  have inside: "s \<le> ma_start a \<and> ma_end a \<le> e" if "a \<in> set (ms_areas ?m1)" "rm a" for a
  proof -
    have "ma_start a < ma_end a" using areas_nonempty [OF areas(1) that(1)] .
    then have "contains_vpn a (ma_start a)" "contains_vpn a (ma_end a - 1)" by (auto simp: contains_vpn_def)
    from this [THEN rm1 [OF that(1)]] that(2) show ?thesis by auto
  qed
  define R where "R = filter rm (ms_areas ?m1)"
  define hit where "hit = (\<exists>u \<in> owned R. vview (ms_vm ?m1) u \<noteq> 0)"
  let ?after = "retired_release (retire_list R hit retired_new)"
  let ?m2 = "\<lambda>v. ?m1\<lparr>ms_areas := filter (\<lambda>a. \<not> rm a) (ms_areas ?m1), ms_vm := log_events ((if hit then [TlbRange s e] else []) @ ?after) v\<rparr>"
  obtain fs files v where v: "remove_range dirty rm s e ?m1 = Inr (fs, files, ?m2 v)"
      "vm_step_files src_ok held (clear_view (owned R) (vview (ms_vm ?m1))) (ms_vm ?m1) v"
    using remove_range_space [OF m1(1) inside, where rm = rm and dirty = dirty] unfolding R_def hit_def by blast
  let ?D = "dropped P s e (page_map (ms_areas m))"
  note fd = filter_dropped [where as = "ms_areas ?m1" and rm = rm and s = s and e = e and P = P, OF areas rm1, unfolded m1(2,3), folded R_def]
  have hit: "hit \<longleftrightarrow> (\<exists>u \<in> ?D \<inter> owned (ms_areas m). vview (ms_vm m) u \<noteq> 0)" unfolding hit_def m1(6) using fd(2) by simp
  obtain pre where pre: "vw_log v = vw_log (ms_vm ?m1) @ pre" "\<forall>e \<in> set pre. \<exists>f. e = FileDecShared f" using v(2) by (auto simp: vm_step_files_def)
  have "\<forall>e \<in> set (es @ pre). \<not> lets_go e" using m1(7) pre(2) by (auto simp: lets_go_def)
  moreover have "FreeFrame f \<in> set ?after \<longleftrightarrow> (\<exists>u \<in> ?D. \<exists>i. page_map (ms_areas m) u = Some i \<and> pi_frame i = Some f)" for f
    unfolding release_frames by (rule fd(3))
  moreover have "\<forall>e \<in> set ?after. lets_go e" by (auto simp: retired_release_def lets_go_def)
  moreover have "vw_log v = vw_log (ms_vm m) @ es @ pre" using pre(1) m1(6) by simp
  ultimately have log: "\<exists>before after. vw_log (ms_vm (?m2 v)) = vw_log (ms_vm m) @ before @
        (if \<exists>u \<in> ?D \<inter> owned (ms_areas m). vview (ms_vm m) u \<noteq> 0 then [TlbRange s e] else []) @ after \<and>
      (\<forall>e \<in> set before. \<not> lets_go e) \<and> (\<forall>e \<in> set after. lets_go e) \<and>
      (\<forall>f. FreeFrame f \<in> set after \<longleftrightarrow> (\<exists>u \<in> ?D. \<exists>i. page_map (ms_areas m) u = Some i \<and> pi_frame i = Some f))"
    unfolding hit [symmetric] by - (rule exI [of _ "es @ pre"], rule exI [of _ ?after], simp)
  have "ms_ok src_ok held (?m2 v)" using ms_ok_removed [OF m1(1) v(2) [unfolded R_def]] .
  moreover have "vview v = clear_view (?D \<inter> owned (ms_areas m)) (vview (ms_vm m))" "vshared v = vshared (ms_vm m)" "vw_bytes v = vw_bytes (ms_vm m)"
    using v(2) m1(6) fd(2) by (simp_all add: vm_step_files_def)
  ultimately have "range_dropped src_ok held ?D s e m (?m2 v)"
    unfolding range_dropped_def using log fd(1) by (simp add: split_area_at_fields)
  with v(1) show ?thesis by blast
qed

end

section \<open>Mapping a range\<close>

text \<open>A new area with no page in it goes into a gap.\<close>

lemma insert_area_ok:
  assumes ok: "ms_ok src held m" and a: "area_ok a" "resident a = {}"
    and gap: "\<And>b. b \<in> set (ms_areas m) \<Longrightarrow> ma_end b \<le> ma_start a \<or> ma_end a \<le> ma_start b"
  defines "m' \<equiv> snd (insert_area_sorted a m)"
  shows "ms_ok src held m' \<and> ms_vm m' = ms_vm m \<and> owned (ms_areas m') = owned (ms_areas m) \<and>
    page_map (ms_areas m') = (\<lambda>u. if contains_vpn a u then Some (page_info_of a u) else page_map (ms_areas m) u)"
proof -
  have areas: "areas_ok (ms_areas m)" using ok by (simp add: ms_ok_def)
  have ra: "area_range_ok a" using a(1) by (simp add: area_ok_def)
  obtain L R where cut: "ms_areas m = L @ R" "\<forall>b \<in> set L. ma_start b < ma_start a" "\<forall>b \<in> set R. ma_start a \<le> ma_start b"
    by (rule areas_cut [OF areas])
  have "area_insert_index (ms_areas m) (ma_start a) = length L" unfolding cut(1) by (rule area_insert_index_append [OF cut(2,3)])
  then have m': "ms_areas m' = L @ a # R" "ms_vm m' = ms_vm m"
    by (simp_all add: m'_def insert_area_sorted_def Let_def vec_insert_def cut(1))
  have L: "ma_end b \<le> ma_start a" if "b \<in> set L" for b
    using gap [of b] that cut(1,2) ra by (fastforce simp: area_range_ok_def)
  have R: "ma_end a \<le> ma_start b" if "b \<in> set R" for b
    using gap [of b] that cut(1,3) areas_nonempty [OF areas, of b] by fastforce
  have areas': "areas_ok (L @ a # R)" using areas ra L R unfolding cut(1) areas_ok_append areas_ok_Cons by fastforce
  have own: "owned (L @ a # R) = owned (ms_areas m)" using a(2) by (simp add: cut(1))
  have "data_frames a = []" using a(2) by (auto simp: resident_def)
  with ok areas' a(1) own have "ms_ok src held m'" unfolding ms_ok_def m' own by (auto simp: cut(1))
  moreover have "page_map (L @ a # R) u = (if contains_vpn a u then Some (page_info_of a u) else page_map (L @ R) u)" for u
  proof (cases "contains_vpn a u")
    case True
    with areas_unique [OF areas', of _ a u] have "area_at (L @ a # R) u = Some a" using area_at_iff [OF areas', of u a] by simp
    with True show ?thesis by (simp add: page_map_def)
  next
    case False
    then have "area_at (L @ a # R) u = area_at (L @ R) u" by (simp add: area_at_append split: option.split)
    with False show ?thesis by (simp add: page_map_def)
  qed
  ultimately show ?thesis using own by (simp add: m' cut(1) fun_eq_iff)
qed

lemma insert_area_empty: "(\<And>u. \<not> contains_vpn a u) \<Longrightarrow> page_map (ms_areas (snd (insert_area_sorted a m))) = page_map (ms_areas m)"
proof -
  assume a: "\<And>u. \<not> contains_vpn a u"
  have "area_at (take i as @ a # drop i as) u = area_at as u" for i as u
    using area_at_append [of "take i as" "drop i as" u] a by (simp add: area_at_append split: option.splits)
  then show ?thesis by (simp add: page_map_def insert_area_sorted_def vec_insert_def Let_def fun_eq_iff)
qed

text \<open>What a page of a new mapping says.\<close>

definition fresh_info :: "mmap_request \<Rightarrow> nat \<Rightarrow> nat \<Rightarrow> page_info" where
  "fresh_info rq len k = \<lparr>pi_perm = rq_perm rq, pi_mmap = Some (page_mmap_of (request_info rq len) (k * 4096)), pi_shm = None,
     pi_frame = None, pi_cache = None, pi_shm_page = None\<rparr>"

definition fresh_area :: "nat \<Rightarrow> nat \<Rightarrow> mmap_request \<Rightarrow> nat \<Rightarrow> map_area" where
  "fresh_area s e rq len = \<lparr>ma_start = s, ma_end = e, data_frames = [], ma_type = Framed, map_perm = rq_perm rq,
     ma_mmap = Some (request_info rq len), ma_shm = None\<rparr>"

lemma fresh_area_ok: "s < e \<Longrightarrow> e \<le> TOP_VPN \<Longrightarrow> area_ok (fresh_area s e rq len)" "resident (fresh_area s e rq len) = {}"
  "ma_start (fresh_area s e rq len) = s" "ma_end (fresh_area s e rq len) = e"
  by (simp_all add: fresh_area_def area_ok_def area_range_ok_def resident_def cache_pages_def shm_pages_def request_info_def is_shm_def)

lemma fresh_area_info: "page_info_of (fresh_area s e rq len) u = fresh_info rq len (u - s)"
  by (simp add: page_info_of_def fresh_area_def fresh_info_def Let_def cache_pages_def shm_pages_def request_info_def)

lemma va_ceil_aligned: "x mod 4096 = 0 \<Longrightarrow> va_ceil x = va_floor x"
proof -
  assume "x mod 4096 = 0"
  then have "x mod 2 ^ 39 mod 4096 = 0" by (simp add: mod_mod_cancel)
  then obtain q where "x mod 2 ^ 39 = 4096 * q" unfolding mod_eq_0_iff_dvd by (auto elim!: dvdE)
  then show ?thesis unfolding va_ceil_eq va_floor_eq by simp
qed

lemma va_floor_top: "va_floor x \<le> TOP_VPN"
  unfolding va_floor_eq TOP_VPN_def by (simp add: less_mult_imp_div_less)

lemma area_new_fresh:
  assumes "start mod 4096 = 0" and "fin mod 4096 = 0"
  shows "and_then (area_new start fin Framed (rq_perm rq)) (\<lambda>a. k (a\<lparr>ma_mmap := Some (request_info rq len)\<rparr>)) =
    (if va_floor fin < va_floor start then Inl (BadRange (va_floor start) (va_floor fin)) else k (fresh_area (va_floor start) (va_floor fin) rq len))"
  using va_ceil_aligned [OF assms(2)] by (simp add: area_new_def fresh_area_def)

lemma align_up_aligned: "checked_page_align_up len = Some n \<Longrightarrow> n mod 4096 = 0"
  by (auto simp: checked_page_align_up_def)

lemma munmap_condition:
  "\<not> (ma_start a < s \<and> s < ma_end a) \<Longrightarrow> \<not> (ma_start a < e \<and> e < ma_end a) \<Longrightarrow> contains_vpn a u \<Longrightarrow>
    is_mmap a \<and> s \<le> ma_start a \<and> ma_end a \<le> e \<longleftrightarrow> s \<le> u \<and> u < e \<and> pi_mmap (page_info_of a u) \<noteq> None"
  unfolding is_mmap_info [of a u] by (auto simp: contains_vpn_def)

lemma mmap_fixed_condition:
  "\<not> (ma_start a < s \<and> s < ma_end a) \<Longrightarrow> \<not> (ma_start a < e \<and> e < ma_end a) \<Longrightarrow> contains_vpn a u \<Longrightarrow>
    ma_start a < e \<and> s < ma_end a \<longleftrightarrow> s \<le> u \<and> u < e \<and> True"
  by (auto simp: contains_vpn_def)

text \<open>The pages of a request: the start is aligned, the length is rounded up, and the end is an address.\<close>

definition page_range :: "nat \<Rightarrow> nat \<Rightarrow> (nat \<times> nat) option" where
  "page_range start len =
     (let n = (len + 4095) div 4096 * 4096
      in if start mod 4096 = 0 \<and> len + 4095 \<le> usize_max \<and> start + n \<le> usize_max then Some (va_floor start, va_floor (start + n)) else None)"

lemma page_range_cases:
  obtains (none) "page_range start len = None" "start mod 4096 \<noteq> 0 \<or> checked_page_align_up len = None \<or>
      (\<exists>n. checked_page_align_up len = Some n \<and> checked_add start n = None)"
  | (some) n where "page_range start len = Some (va_floor start, va_floor (start + n))" "start mod 4096 = 0"
      "checked_page_align_up len = Some n" "checked_add start n = Some (start + n)" "n mod 4096 = 0" "(start + n) mod 4096 = 0"
proof (cases "page_range start len")
  case None
  then show thesis
    by (intro none) (auto simp: page_range_def checked_page_align_up_def checked_add_def Let_def split: if_splits)
next
  case (Some r)
  let ?n = "(len + 4095) div 4096 * 4096"
  have st: "start mod 4096 = 0" using Some by (simp add: page_range_def Let_def split: if_splits)
  have "(start + ?n) mod 4096 = 0" using st by (metis mod_add_left_eq mod_mult_self2_is_0 add_0)
  with Some st show thesis
    by (intro some [of ?n]) (auto simp: page_range_def checked_page_align_up_def checked_add_def Let_def split: if_splits)
qed

context frame_source
begin

lemma munmap_ok:
  assumes "ms_ok src_ok held m"
  shows "case (if len = 0 then None else page_range start len) of
      None \<Rightarrow> munmap_area dirty start len m = Inr (None, m)
    | Some (s, e) \<Rightarrow> \<exists>fs files m'. munmap_area dirty start len m = Inr (Some (fs, files), m') \<and>
        range_dropped src_ok held (dropped (\<lambda>i. pi_mmap i \<noteq> None) s e (page_map (ms_areas m))) s e m m'"
proof (cases rule: page_range_cases [of start len])
  case none
  then show ?thesis by (auto simp: munmap_area_def)
next
  case (some n)
  let ?s = "va_floor start" and ?e = "va_floor (start + n)"
  have "\<exists>fs files m'. remove_range dirty (\<lambda>a. is_mmap a \<and> ?s \<le> ma_start a \<and> ma_end a \<le> ?e) ?s ?e (split_area_at ?e (split_area_at ?s m)) =
      Inr (fs, files, m') \<and> range_dropped src_ok held (dropped (\<lambda>i. pi_mmap i \<noteq> None) ?s ?e (page_map (ms_areas m))) ?s ?e m m'"
    by (rule cut_remove_ok [OF assms munmap_condition])
  then show ?thesis by (auto simp: munmap_area_def some Let_def)
qed

end

text \<open>The specification of a mapping: every page of the range says what was asked for and none is in the page table.\<close>

definition range_mapped ::
  "('s \<Rightarrow> bool) \<Rightarrow> ('s \<Rightarrow> nat set) \<Rightarrow> (nat \<Rightarrow> page_info) \<Rightarrow> nat \<Rightarrow> nat \<Rightarrow> 's memory_set \<Rightarrow> 's memory_set \<Rightarrow> bool" where
  "range_mapped src held info s e m m' \<longleftrightarrow> ms_ok src held m' \<and> ms_vm m' = ms_vm m \<and>
     (\<forall>u. page_map (ms_areas m') u = (if s \<le> u \<and> u < e then Some (info (u - s)) else page_map (ms_areas m) u)) \<and>
     (\<forall>u. s \<le> u \<and> u < e \<and> \<not> kernel_page (ms_vm m') u \<longrightarrow> vview (ms_vm m') u = 0)"

lemma range_mapped_next: "range_mapped src held info s e m (m'\<lparr>mmap_next := n\<rparr>) = range_mapped src held info s e m m'"
  by (simp add: range_mapped_def ms_ok_def)

lemma owned_page: "areas_ok as \<Longrightarrow> list_all area_ok as \<Longrightarrow> u \<in> owned as \<Longrightarrow> page_map as u \<noteq> None"
  by (auto simp: owned_def page_map_def area_at_None list_all_iff dest: resident_contains)

lemma gap_pages: "areas_ok as \<Longrightarrow> s < e \<Longrightarrow> (\<And>u. s \<le> u \<Longrightarrow> u < e \<Longrightarrow> page_map as u = None) \<Longrightarrow> b \<in> set as \<Longrightarrow> ma_end b \<le> s \<or> e \<le> ma_start b"
proof (rule ccontr)
  assume as: "areas_ok as" "s < e" "\<And>u. s \<le> u \<Longrightarrow> u < e \<Longrightarrow> page_map as u = None" "b \<in> set as" "\<not> (ma_end b \<le> s \<or> e \<le> ma_start b)"
  let ?u = "max s (ma_start b)"
  have "contains_vpn b ?u" "?u < e" "s \<le> ?u" using as(2,5) areas_nonempty [OF as(1,4)] by (auto simp: contains_vpn_def)
  with as(3) [of ?u] as(4) show False by (auto simp: page_map_def area_at_None)
qed

lemma insert_fresh_ok:
  assumes ok: "ms_ok src held m" and range: "s < e" "e \<le> TOP_VPN" and free: "\<And>u. s \<le> u \<Longrightarrow> u < e \<Longrightarrow> page_map (ms_areas m) u = None"
  shows "range_mapped src held (fresh_info rq len) s e m (snd (insert_area_sorted (fresh_area s e rq len) m))"
proof -
  have areas: "areas_ok (ms_areas m)" "list_all area_ok (ms_areas m)" using ok by (simp_all add: ms_ok_def)
  note ins = insert_area_ok [OF ok fresh_area_ok(1) [OF range] fresh_area_ok(2), unfolded fresh_area_ok(3,4), OF gap_pages [OF areas(1) range(1) free]]
  have "vview (ms_vm m) u = 0" if "s \<le> u" "u < e" "\<not> kernel_page (ms_vm m) u" for u
    using ok free [OF that(1,2)] owned_page [OF areas, of u] that range(2) unfolding ms_ok_def by (metis order_less_le_trans)
  with ins show ?thesis unfolding range_mapped_def by (auto simp: fresh_area_info contains_vpn_def fresh_area_ok(3,4))
qed

context frame_source
begin

lemma mmap_fixed_ok:
  assumes ok: "ms_ok src_ok held m"
  shows "case page_range start len of
      None \<Rightarrow> mmap_fixed_area dirty start len rq m = Inr (None, m)
    | Some (s, e) \<Rightarrow>
        (e < s \<longrightarrow> mmap_fixed_area dirty start len rq m = Inl (BadRange s e)) \<and>
        (s < e \<longrightarrow> (\<exists>fs files m1 m'. mmap_fixed_area dirty start len rq m = Inr (Some (start, fs, files), m') \<and>
          range_dropped src_ok held (dropped (\<lambda>i. True) s e (page_map (ms_areas m))) s e m m1 \<and>
          range_mapped src_ok held (fresh_info rq len) s e m1 m')) \<and>
        (s = e \<longrightarrow> (\<exists>fs files m'. mmap_fixed_area dirty start len rq m = Inr (Some (start, fs, files), m') \<and>
          page_map (ms_areas m') = page_map (ms_areas m)))"
proof (cases rule: page_range_cases [of start len])
  case none
  then show ?thesis by (auto simp: mmap_fixed_area_def)
next
  case (some n)
  let ?s = "va_floor start" and ?e = "va_floor (start + n)" and ?D = "\<lambda>s e. dropped (\<lambda>i. True) s e (page_map (ms_areas m))"
  have "\<exists>fs files m1. remove_range dirty (\<lambda>a. ma_start a < ?e \<and> ?s < ma_end a) ?s ?e (split_area_at ?e (split_area_at ?s m)) =
      Inr (fs, files, m1) \<and> range_dropped src_ok held (?D ?s ?e) ?s ?e m m1"
    by (rule cut_remove_ok [OF ok mmap_fixed_condition])
  then obtain fs files m1 where rem: "remove_range dirty (\<lambda>a. ma_start a < ?e \<and> ?s < ma_end a) ?s ?e (split_area_at ?e (split_area_at ?s m)) =
      Inr (fs, files, m1)" and dr: "range_dropped src_ok held (?D ?s ?e) ?s ?e m m1" by blast
  have step: "mmap_fixed_area dirty start len rq m = (if ?e < ?s then Inl (BadRange ?s ?e)
      else Inr (Some (start, fs, files), snd (insert_area_sorted (fresh_area ?s ?e rq len) m1)))"
    using rem some area_new_fresh [OF some(2,6), of rq "\<lambda>a. Inr (Some (start, fs, files), snd (insert_area_sorted a m1))" len]
    by (simp add: mmap_fixed_area_def Let_def)
  have "range_mapped src_ok held (fresh_info rq len) ?s ?e m1 (snd (insert_area_sorted (fresh_area ?s ?e rq len) m1))" if "?s < ?e"
  proof (rule insert_fresh_ok [OF _ that va_floor_top])
    show "page_map (ms_areas m1) u = None" if "?s \<le> u" "u < ?e" for u
      using dr that by (auto simp: range_dropped_def drop_pages_def dropped_def)
  qed (use dr in \<open>simp add: range_dropped_def\<close>)
  moreover have "page_map (ms_areas (snd (insert_area_sorted (fresh_area ?s ?e rq len) m1))) = page_map (ms_areas m)" if "?s = ?e"
  proof -
    have "page_map (ms_areas m1) = drop_pages (?D ?s ?e) (page_map (ms_areas m))" using dr by (simp add: range_dropped_def)
    moreover have "?D ?s ?e = {}" using that by (auto simp: dropped_def)
    ultimately show ?thesis using that by (simp add: insert_area_empty contains_vpn_def fresh_area_ok(3,4) drop_pages_def)
  qed
  ultimately show ?thesis using dr step some(1) by auto
qed

end

text \<open>
  The free range that is chosen: the first one after the hint, or else the first one before it. Nothing is found only when every free
  range that is long enough lies across the hint.
\<close>

lemma normalized_hint_range: "USER_MMAP_BASE \<le> normalized_mmap_hint n \<and> normalized_mmap_hint n \<le> USER_MMAP_LIMIT \<and> normalized_mmap_hint n mod 4096 = 0"
proof -
  have "(x + 4095) div 4096 * 4096 \<le> USER_MMAP_LIMIT" if "x < USER_MMAP_LIMIT" for x
    using that div_le_mono [of "x + 4095" "USER_MMAP_LIMIT + 4095" 4096] by (simp add: USER_MMAP_LIMIT_def)
  then show ?thesis using page_align_up_ge [of n]
    by (auto simp: normalized_mmap_hint_def page_align_up_def USER_MMAP_BASE_def USER_MMAP_LIMIT_def)
qed

lemma alloc_range_cases:
  assumes ok: "areas_ok as" and len: "0 < len" "len \<le> USER_MMAP_LIMIT - USER_MMAP_BASE" and h_def: "h = normalized_mmap_hint nxt"
  shows "case alloc_mmap_range as nxt len of
      None \<Rightarrow> \<forall>c \<ge> USER_MMAP_BASE. hole as USER_MMAP_LIMIT len c \<longrightarrow> c < h \<and> h < c + len
    | Some c \<Rightarrow> hole as USER_MMAP_LIMIT len c \<and> USER_MMAP_BASE \<le> c \<and>
        (\<forall>d < c. hole as USER_MMAP_LIMIT len d \<and> USER_MMAP_BASE \<le> d \<longrightarrow> d < h \<and> h \<le> c)"
proof -
  note hint = normalized_hint_range [of nxt, folded h_def]
  have up: "page_align_up h = h" "page_align_up USER_MMAP_BASE = USER_MMAP_BASE"
    using hint by (auto intro!: page_align_up_aligned simp: USER_MMAP_BASE_def USER_MMAP_LIMIT_def)
  have alloc: "alloc_mmap_range as nxt len = (case find_mmap_hole as h USER_MMAP_LIMIT len of
      Some c \<Rightarrow> Some c | None \<Rightarrow> find_mmap_hole as USER_MMAP_BASE h len)"
    unfolding h_def using len by (simp add: alloc_mmap_range_def Let_def)
  have first: "first_hole as USER_MMAP_LIMIT len h (find_mmap_hole as h USER_MMAP_LIMIT len)"
  proof (cases "h < USER_MMAP_LIMIT")
    case True
    then show ?thesis using find_mmap_hole_first [OF ok _ True len(1)] up(1) by (simp add: USER_MMAP_LIMIT_def)
  qed (use hint len in \<open>auto simp: find_mmap_hole_def first_hole_def hole_def\<close>)
  have second: "first_hole as h len USER_MMAP_BASE (find_mmap_hole as USER_MMAP_BASE h len)"
  proof (cases "USER_MMAP_BASE < h")
    case True
    have "h \<le> 2 ^ 38" using hint by (simp add: USER_MMAP_LIMIT_def)
    from find_mmap_hole_first [OF ok this True len(1)] up(2) show ?thesis by simp
  qed (use hint len in \<open>auto simp: find_mmap_hole_def first_hole_def hole_def\<close>)
  show ?thesis
  proof (cases "find_mmap_hole as h USER_MMAP_LIMIT len")
    case (Some c)
    then have c: "hole as USER_MMAP_LIMIT len c" "h \<le> c" "\<And>d. h \<le> d \<Longrightarrow> d < c \<Longrightarrow> \<not> hole as USER_MMAP_LIMIT len d"
      using first by (auto simp: first_hole_def)
    then have "d < h" if "d < c" "hole as USER_MMAP_LIMIT len d" for d using that c(3) [of d] by (meson not_le)
    with c hint Some show ?thesis by (simp add: alloc)
  next
    case None
    have sub: "hole as h len c \<longleftrightarrow> hole as USER_MMAP_LIMIT len c \<and> c + len \<le> h" for c
      unfolding hole_def using hint by linarith
    have late: "\<forall>c \<ge> h. \<not> hole as USER_MMAP_LIMIT len c" using first None by (simp add: first_hole_def)
    show ?thesis
    proof (cases "find_mmap_hole as USER_MMAP_BASE h len")
      case n: None
      then have "\<forall>c \<ge> USER_MMAP_BASE. \<not> hole as h len c" using second by (simp add: first_hole_def)
      with late have "\<forall>c \<ge> USER_MMAP_BASE. hole as USER_MMAP_LIMIT len c \<longrightarrow> c < h \<and> h < c + len" unfolding sub by (meson not_le)
      with n None show ?thesis by (simp add: alloc)
    next
      case (Some c)
      then have c: "hole as h len c" "USER_MMAP_BASE \<le> c" "\<And>d. USER_MMAP_BASE \<le> d \<Longrightarrow> d < c \<Longrightarrow> \<not> hole as h len d"
        using second by (auto simp: first_hole_def)
      then have "\<not> hole as USER_MMAP_LIMIT len d" if "d < c" "USER_MMAP_BASE \<le> d" for d
        using that c(3) [of d] unfolding sub by auto
      with c Some None show ?thesis by (auto simp: alloc sub)
    qed
  qed
qed

lemma mmap_ok:
  assumes ok: "ms_ok src held m"
  shows "\<exists>r m'. mmap_area len rq m = Inr (r, m') \<and>
    r = Option.bind (checked_page_align_up len) (alloc_mmap_range (ms_areas m) (mmap_next m)) \<and> (case r of
      None \<Rightarrow> m' = m
    | Some start \<Rightarrow> hole (ms_areas m) USER_MMAP_LIMIT ((len + 4095) div 4096 * 4096) start \<and> USER_MMAP_BASE \<le> start \<and>
        range_mapped src held (fresh_info rq len) (start div 4096) ((start + len + 4095) div 4096) m m')"
proof -
  have areas: "areas_ok (ms_areas m)" using ok by (simp add: ms_ok_def)
  let ?n = "(len + 4095) div 4096 * 4096"
  show ?thesis
  proof (cases "checked_page_align_up len = None \<or> alloc_mmap_range (ms_areas m) (mmap_next m) ?n = None")
    case True
    then show ?thesis by (auto simp: mmap_area_def checked_page_align_up_def checked_add_def split: option.splits if_splits)
  next
    case False
    then obtain start where al: "checked_page_align_up len = Some ?n" "alloc_mmap_range (ms_areas m) (mmap_next m) ?n = Some start"
      by (auto simp: checked_page_align_up_def checked_add_def split: if_splits)
    from al(2) have "0 < ?n" "?n \<le> USER_MMAP_LIMIT - USER_MMAP_BASE" by (auto simp: alloc_mmap_range_def split: if_splits)
    from alloc_range_cases [OF areas this refl, of "mmap_next m"] al(2)
    have h: "hole (ms_areas m) USER_MMAP_LIMIT ?n start" "USER_MMAP_BASE \<le> start" by simp_all
    let ?s = "start div 4096" and ?e = "(start + len + 4095) div 4096"
    obtain q where q: "start = 4096 * q" using h(1) unfolding hole_def mod_eq_0_iff_dvd by (auto elim!: dvdE)
    have "?e = q + (len + 4095) div 4096" unfolding q by (simp add: add.assoc)
    then have e: "start + ?n = 4096 * ?e" "(start + ?n + 4095) div 4096 = ?e" unfolding q by simp_all
    have lim: "start + ?n \<le> USER_MMAP_LIMIT" using h(1) by (simp add: hole_def)
    have fl: "va_floor start = ?s" "va_floor (start + ?n) = ?e" using lim e q by (simp_all add: va_floor_eq USER_MMAP_LIMIT_def)
    have range: "?s < ?e" "?e \<le> TOP_VPN" using \<open>0 < ?n\<close> lim e q by (simp_all add: TOP_VPN_def USER_MMAP_LIMIT_def)
    have free: "page_map (ms_areas m) u = None" if "?s \<le> u" "u < ?e" for u
      using h(1) that unfolding hole_def overlaps_def e(2) page_map_def by auto
    have "checked_add start ?n = Some (start + ?n)" using lim by (simp add: checked_add_def usize_max_def USER_MMAP_LIMIT_def)
    with area_new_fresh [of start "start + ?n" rq "\<lambda>a. Inr (Some start, (snd (insert_area_sorted a m))\<lparr>mmap_next := next_mmap_hint (start + ?n)\<rparr>)" len]
    have "mmap_area len rq m =
        Inr (Some start, (snd (insert_area_sorted (fresh_area ?s ?e rq len) m))\<lparr>mmap_next := next_mmap_hint (start + ?n)\<rparr>)"
      using al range e(1) q fl by (simp add: mmap_area_def)
    moreover have "range_mapped src held (fresh_info rq len) ?s ?e m
        ((snd (insert_area_sorted (fresh_area ?s ?e rq len) m))\<lparr>mmap_next := next_mmap_hint (start + ?n)\<rparr>)"
      using insert_fresh_ok [OF ok range free, of rq len] by (simp only: range_mapped_next)
    ultimately show ?thesis using h al by simp
  qed
qed

section \<open>Properties\<close>

text \<open>An address space with one mapping of four pages, of which one is resident.\<close>

definition demo_request :: mmap_request where
  "demo_request = \<lparr>rq_perm = 22, rq_reported = 6, rq_file = None, rq_file_size = 0, rq_file_offset = 0, rq_shared = False,
     rq_writable = True, rq_grow_down = False, rq_cache_id = None\<rparr>"

definition demo_space :: "'s pt_world \<Rightarrow> 's memory_set" where
  "demo_space w = \<lparr>ms_vm = \<lparr>vw_pt = w, vw_bytes = \<lambda>_ _. 0, vw_log = []\<rparr>,
     ms_areas = [(fresh_area 4 8 demo_request 16384)\<lparr>data_frames := [(5, 9)]\<rparr>], last_area_idx_containing = Some 3,
     brk_base = 0, brk = 0, brk_limit = 0, brk_mapped_end = 0, mmap_next = 0\<rparr>"

definition space_ok :: "nat option \<Rightarrow> frame_state memory_set \<Rightarrow> bool" where
  "space_ok cpu = ms_ok (frames_ok cpu) held_pages"

lemma demo_space_ok: "\<exists>w. space_ok None (demo_space w) \<and> view w 5 \<noteq> 0"
proof -
  obtain w where w: "try_map (frame_alloc None) 5 9 6 demo_pt = (True, w)" using demo_pt_maps by blast
  have ok: "frames_world_ok None demo_pt" by (rule pt_reachable_ok [OF demo_pt_reachable])
  have "run_op (frame_alloc None) (Map 5 9 6) demo_pt = Inr (True, w)" using w by simp
  with frames.run_op_refines [OF ok, of "Map 5 9 6"]
  have w': "frames_world_ok None w" "has_path w 5" "view w = (view demo_pt)(5 := pte_new_bits 9 (normalized_leaf_flags 6))"
    by (auto simp: op_ok_def vpn_ok_def)
  have "find_leaf demo_pt u = None" for u by (simp add: find_leaf_def demo_pt_def indexes_def from_root_frame_def clear_page_def Let_def)
  then have "view demo_pt = (\<lambda>_. 0)" by (simp add: view_def translate_def fun_eq_iff)
  with w'(3) have v: "view w = (\<lambda>_. 0)(5 := pte_new_bits 9 (normalized_leaf_flags 6))" by simp
  have ppn: "pte_ppn (pte_new_bits 9 (normalized_leaf_flags 6)) = 9" "pte_new_bits 9 (normalized_leaf_flags 6) \<noteq> 0"
    by (rule pte_new_ppn) (simp_all add: pte_new_bits_def normalized_leaf_flags_def pte_consts flags_ok_def intersects_flags_def contains_flags_def)
  have "space_ok None (demo_space w)" unfolding space_ok_def ms_ok_def
    using w'(1,2) ppn
    by (auto simp: demo_space_def v owned_def resident_def fresh_area_def areas_ok_Cons area_range_ok_def area_ok_def TOP_VPN_def
        vm_ok_def cache_pages_def shm_pages_def request_info_def is_shm_def bt_ok_def)
  with v ppn(2) show ?thesis by (intro exI [of _ w]) simp
qed

text \<open>The calls that map and unmap, as steps.\<close>

datatype space_op = Mmap nat mmap_request | MmapFixed nat nat mmap_request | Munmap nat nat | Lookup nat

fun run_space_op :: "dirty_fn \<Rightarrow> space_op \<Rightarrow> 's memory_set \<Rightarrow> vm_panic + 's memory_set" where
  "run_space_op dirty (Mmap len rq) m = and_then (mmap_area len rq m) (\<lambda>(_, m'). Inr m')"
| "run_space_op dirty (MmapFixed start len rq) m = and_then (mmap_fixed_area dirty start len rq m) (\<lambda>(_, m'). Inr m')"
| "run_space_op dirty (Munmap start len) m = and_then (munmap_area dirty start len m) (\<lambda>(_, m'). Inr m')"
| "run_space_op dirty (Lookup vpn) m = Inr (snd (find_area_idx_containing vpn m))"

fun run_space_ops :: "dirty_fn \<Rightarrow> space_op list \<Rightarrow> 's memory_set \<Rightarrow> vm_panic + 's memory_set" where
  "run_space_ops dirty [] m = Inr m"
| "run_space_ops dirty (x # xs) m = and_then (run_space_op dirty x m) (run_space_ops dirty xs)"

fun in_user_range :: "space_op \<Rightarrow> bool" where
  "in_user_range (MmapFixed start len rq) \<longleftrightarrow> (case page_range start len of None \<Rightarrow> True | Some (s, e) \<Rightarrow> s < e)"
| "in_user_range _ \<longleftrightarrow> True"

lemma run_space_op_ok:
  assumes ok: "space_ok cpu m" and range: "in_user_range x"
  shows "\<exists>m'. run_space_op dirty x m = Inr m' \<and> space_ok cpu m'"
proof (cases x)
  case (Mmap len rq)
  with mmap_ok [OF ok [unfolded space_ok_def], of len rq] ok show ?thesis
    by (auto simp: space_ok_def range_mapped_def split: option.splits)
next
  case (MmapFixed start len rq)
  with frames.mmap_fixed_ok [OF ok [unfolded space_ok_def], where start = start and len = len and dirty = dirty and rq = rq] range ok show ?thesis
    by (auto simp: space_ok_def range_mapped_def split: option.splits)
next
  case (Munmap start len)
  with frames.munmap_ok [OF ok [unfolded space_ok_def], where start = start and len = len and dirty = dirty] ok show ?thesis
    by (auto simp: space_ok_def range_dropped_def split: option.splits if_splits)
next
  case (Lookup vpn)
  obtain r m' where f: "find_area_idx_containing vpn m = (r, m')" by fastforce
  from ok have "areas_ok (ms_areas m)" by (simp add: space_ok_def ms_ok_def)
  from find_area_correct [OF this f] ok Lookup f show ?thesis by (auto simp: space_ok_def ms_ok_def)
qed

text \<open>C36.
  However a process maps, unmaps and looks up memory, its address space stays well formed: the areas stay sorted and disjoint and
  below the trampoline, every page that an area holds has its tables, no entry of the page table outside the areas is left behind,
  and the entry of a page names the frame that the area holds for it. No call panics, as long as the end of a fixed mapping does
  not wrap around.
\<close>

theorem address_space_wellformed:
  assumes "space_ok cpu m" and "list_all in_user_range xs"
  shows "\<exists>m'. run_space_ops dirty xs m = Inr m' \<and> space_ok cpu m'"
  using assms
proof (induction xs arbitrary: m)
  case (Cons x xs)
  then obtain m1 where m1: "run_space_op dirty x m = Inr m1" "space_ok cpu m1" using run_space_op_ok [of cpu m x dirty] by auto
  with Cons.IH [OF m1(2)] Cons.prems(2) show ?case by simp
qed simp

theorem address_space_wellformed_witness:
  "\<exists>w m'. space_ok None (demo_space w) \<and> view w 5 \<noteq> 0 \<and>
     run_space_ops (\<lambda>_ _. None) [Lookup 6, Munmap 0x5000 4096, MmapFixed 0x6000 0x4000 demo_request, Mmap 1 demo_request] (demo_space w) = Inr m' \<and>
     space_ok None m'"
proof -
  obtain w where w: "space_ok None (demo_space w)" "view w 5 \<noteq> 0" using demo_space_ok by blast
  have "list_all in_user_range [Lookup 6, Munmap 0x5000 4096, MmapFixed 0x6000 0x4000 demo_request, Mmap 1 demo_request]"
    by (simp add: page_range_def va_floor_eq usize_max_def)
  from address_space_wellformed [OF w(1) this, where dirty = "\<lambda>_ _. None"] w show ?thesis by blast
qed



text \<open>C38.
  A fixed mapping first removes whatever is in its range, with all that unmapping promises, and then every page of the range says what
  was asked for and has no entry, other than one shared with the kernel. Addresses are cut to 39 bits: a range whose end wraps
  around to an earlier page, such as the last page of the address space, panics in the kernel, and one whose length is a multiple of the
  address space returns success and maps nothing.
\<close>

theorem mmap_fixed_refines:
  assumes "space_ok cpu m"
  shows "case page_range start len of
      None \<Rightarrow> mmap_fixed_area dirty start len rq m = Inr (None, m)
    | Some (s, e) \<Rightarrow>
        (e < s \<longrightarrow> mmap_fixed_area dirty start len rq m = Inl (BadRange s e)) \<and>
        (s < e \<longrightarrow> (\<exists>fs files m1 m'. mmap_fixed_area dirty start len rq m = Inr (Some (start, fs, files), m') \<and>
          range_dropped (frames_ok cpu) held_pages (dropped (\<lambda>i. True) s e (page_map (ms_areas m))) s e m m1 \<and>
          range_mapped (frames_ok cpu) held_pages (fresh_info rq len) s e m1 m')) \<and>
        (s = e \<longrightarrow> (\<exists>fs files m'. mmap_fixed_area dirty start len rq m = Inr (Some (start, fs, files), m') \<and>
          page_map (ms_areas m') = page_map (ms_areas m)))"
  by (rule frames.mmap_fixed_ok [OF assms [unfolded space_ok_def]])

theorem mmap_fixed_refines_witness:
  "\<exists>w fs files fs' files' m' m''. space_ok None (demo_space w) \<and>
     mmap_fixed_area (\<lambda>_ _. None) 0x7000 0x2000 demo_request (demo_space w) = Inr (Some (0x7000, fs, files), m') \<and>
     page_map (ms_areas m') 8 = Some (fresh_info demo_request 0x2000 1) \<and> page_map (ms_areas m') 5 = page_map (ms_areas (demo_space w)) 5 \<and>
     mmap_fixed_area (\<lambda>_ _. None) 0x7ffffff000 4096 demo_request (demo_space w) = Inl (BadRange 0x7ffffff 0) \<and>
     mmap_fixed_area (\<lambda>_ _. None) 4096 0x8000000000 demo_request (demo_space w) = Inr (Some (4096, fs', files'), m'') \<and>
     page_map (ms_areas m'') 1 = None"
proof -
  obtain w where w: "space_ok None (demo_space w)" using demo_space_ok by blast
  have r: "page_range 0x7000 0x2000 = Some (7, 9)" "page_range 0x7ffffff000 4096 = Some (0x7ffffff, 0)" "page_range 4096 0x8000000000 = Some (1, 1)"
    by (simp_all add: page_range_def va_floor_eq usize_max_def)
  note fixed = mmap_fixed_refines [OF w, where dirty = "\<lambda>_ _. None" and rq = demo_request]
  from fixed [where start = "0x7000" and len = "0x2000"] obtain fs files m1 m' where
    m': "mmap_fixed_area (\<lambda>_ _. None) 0x7000 0x2000 demo_request (demo_space w) = Inr (Some (0x7000, fs, files), m')"
      "range_dropped (frames_ok None) held_pages (dropped (\<lambda>i. True) 7 9 (page_map (ms_areas (demo_space w)))) 7 9 (demo_space w) m1"
      "range_mapped (frames_ok None) held_pages (fresh_info demo_request 0x2000) 7 9 m1 m'" unfolding r by auto
  have "page_map (ms_areas m') 8 = Some (fresh_info demo_request 0x2000 1)" "page_map (ms_areas m') 5 = page_map (ms_areas (demo_space w)) 5"
    using m'(2,3) by (simp_all add: range_mapped_def range_dropped_def drop_pages_def dropped_def)
  moreover have "mmap_fixed_area (\<lambda>_ _. None) 0x7ffffff000 4096 demo_request (demo_space w) = Inl (BadRange 0x7ffffff 0)"
    using fixed [where start = "0x7ffffff000" and len = 4096] unfolding r by simp
  moreover obtain fs' files' m'' where
    m'': "mmap_fixed_area (\<lambda>_ _. None) 4096 0x8000000000 demo_request (demo_space w) = Inr (Some (4096, fs', files'), m'')"
      "page_map (ms_areas m'') = page_map (ms_areas (demo_space w))"
    using fixed [where start = 4096 and len = "0x8000000000"] unfolding r by auto
  moreover have "page_map (ms_areas m'') 1 = None" unfolding m''(2) by (simp add: demo_space_def page_map_def contains_vpn_def fresh_area_def)
  ultimately show ?thesis using w m'(1) by blast
qed



text \<open>C40.
  The questions about the list of areas are answered as if every area were looked at: the binary search finds the area of a page, whatever
  stale index its cache holds; a range counts as mapped exactly when every page of it belongs to an area; and it overlaps exactly when
  some page of it belongs to an area or its addresses reach into a part of the root table that is shared with the kernel.
\<close>

theorem area_queries_correct:
  assumes "space_ok cpu m"
  shows "(case find_area_idx_containing vpn m of (r, m') \<Rightarrow>
        m' = m\<lparr>last_area_idx_containing := r\<rparr> \<and> map_option (\<lambda>i. ms_areas m ! i) r = area_at (ms_areas m) vpn) \<and>
    (range_is_mapped_vpn (ms_areas m) s e \<longleftrightarrow> (\<forall>u. s \<le> u \<and> u < e \<longrightarrow> page_map (ms_areas m) u \<noteq> None)) \<and>
    (start < fin \<and> va_floor start < va_floor fin \<longrightarrow> (range_overlaps m start fin \<longleftrightarrow>
       range_intersects_shared_root (pw_pt (vw_pt (ms_vm m))) (of_nat start) (of_nat fin) \<or>
       (\<exists>u. va_floor start \<le> u \<and> u < va_floor fin \<and> page_map (ms_areas m) u \<noteq> None)))"
proof (intro conjI impI)
  have ok: "areas_ok (ms_areas m)" using assms by (simp add: space_ok_def ms_ok_def)
  have pm: "page_map (ms_areas m) u \<noteq> None \<longleftrightarrow> area_at (ms_areas m) u \<noteq> None" for u by (simp add: page_map_def)
  obtain r m' where f: "find_area_idx_containing vpn m = (r, m')" by fastforce
  note found = find_area_correct [OF ok f]
  have "map_option (\<lambda>i. ms_areas m ! i) r = area_at (ms_areas m) vpn"
  proof (cases r)
    case (Some i)
    with found [of i] have "ms_areas m ! i \<in> set (ms_areas m)" "contains_vpn (ms_areas m ! i) vpn" by auto
    then have "area_at (ms_areas m) vpn = Some (ms_areas m ! i)" by (simp add: area_at_iff [OF ok])
    with Some show ?thesis by simp
  qed (use found in simp)
  with found f show "case find_area_idx_containing vpn m of (r, m') \<Rightarrow>
      m' = m\<lparr>last_area_idx_containing := r\<rparr> \<and> map_option (\<lambda>i. ms_areas m ! i) r = area_at (ms_areas m) vpn" by simp
  show "range_is_mapped_vpn (ms_areas m) s e \<longleftrightarrow> (\<forall>u. s \<le> u \<and> u < e \<longrightarrow> page_map (ms_areas m) u \<noteq> None)"
    unfolding pm by (rule range_is_mapped_iff [OF ok])
  assume lt: "start < fin \<and> va_floor start < va_floor fin"
  show "range_overlaps m start fin \<longleftrightarrow> range_intersects_shared_root (pw_pt (vw_pt (ms_vm m))) (of_nat start) (of_nat fin) \<or>
      (\<exists>u. va_floor start \<le> u \<and> u < va_floor fin \<and> page_map (ms_areas m) u \<noteq> None)"
    using insert_index_overlaps [OF ok _ refl, of "va_floor start" "va_floor fin"] lt
    unfolding pm range_overlaps_def overlaps_def Let_def by auto
qed

theorem area_queries_correct_witness:
  "\<exists>w. space_ok None (demo_space w) \<and> fst (find_area_idx_containing 6 (demo_space w)) = Some 0 \<and>
     range_is_mapped_vpn (ms_areas (demo_space w)) 5 8 \<and> \<not> range_is_mapped_vpn (ms_areas (demo_space w)) 5 9"
proof -
  obtain w where w: "space_ok None (demo_space w)" using demo_space_ok by blast
  have pm: "page_map (ms_areas (demo_space w)) u \<noteq> None \<longleftrightarrow> 4 \<le> u \<and> u < 8" for u
    by (simp add: demo_space_def page_map_def contains_vpn_def fresh_area_def)
  note q = area_queries_correct [OF w, where start = 0 and fin = 0]
  obtain r m' where f: "find_area_idx_containing 6 (demo_space w) = (r, m')" by fastforce
  with q [of 6] have r: "map_option (\<lambda>i. ms_areas (demo_space w) ! i) r = area_at (ms_areas (demo_space w)) 6" by simp
  have "r = Some 0" using r f find_area_correct [of "demo_space w" 6 r m' 0] w
    by (auto simp: space_ok_def ms_ok_def demo_space_def contains_vpn_def fresh_area_def)
  moreover have "\<not> (8 :: nat) < 8 \<and> (5 :: nat) \<le> 8 \<and> (8 :: nat) < 9" by simp
  then have "\<exists>u \<ge> 5. u < 9 \<and> \<not> u < (8 :: nat)" by blast
  ultimately show ?thesis using f q [of _ 5 8] q [of _ 5 9] w pm by (intro exI [of _ w]) auto
qed

end
