(* ===== verification/Spec2Isabelle.thy ===== *)
theory Spec2Isabelle
  imports Frame_Allocator Task_Ids Pipe Credentials Sysv_Sem Sysv_Msg Record_Locks Futex User_Space
begin

text \<open>
  A verification development of WHUSP, a monolithic kernel in Rust for RISC-V and LoongArch with a Linux system call
  interface. The sources are under \<^verbatim>\<open>src/os/src\<close>; file names below are relative to that directory.

  \<^bold>\<open>The program and the part of it that is modelled.\<close> The kernel consists of the memory management (\<^verbatim>\<open>mm/\<close>), the tasks and their
  scheduling (\<^verbatim>\<open>task/\<close>, \<^verbatim>\<open>sync/\<close>), the files (\<^verbatim>\<open>fs/\<close>), the system calls (\<^verbatim>\<open>syscall/\<close>), the network (\<^verbatim>\<open>net/\<close>), the
  drivers (\<^verbatim>\<open>drivers/\<close>) and the code of the two architectures (\<^verbatim>\<open>arch/\<close>). Modelled are the components whose state is kept
  in tables behind locks and whose contract does not depend on a device:

  \<^item> \<^theory_text>\<open>Errno\<close>: the error numbers (\<^verbatim>\<open>uapi/errno.rs\<close>) and the errors of the file layer (\<^verbatim>\<open>fs/vfs/error.rs\<close>).
  \<^item> \<^theory_text>\<open>Frame_Allocator\<close>: the physical frames (\<^verbatim>\<open>mm/frame_allocator.rs\<close>). The state is the record \<^verbatim>\<open>frame_state\<close>: the global
    stack of free frames, the reference counts and the caches of the CPUs.
  \<^item> \<^theory_text>\<open>Page_Table\<close>: the page tables of three levels, with the encoding of entries on RISC-V (\<^verbatim>\<open>mm/page_table.rs\<close>,
    \<^verbatim>\<open>arch/riscv64/mm.rs\<close>, \<^verbatim>\<open>mm/address.rs\<close>). The memory of the tables is a map from frame and index to entries, and the
    frames come from an allocator behind the interface \<^verbatim>\<open>frame_source\<close>, which \<^theory_text>\<open>Frame_Allocator\<close> implements.
  \<^item> \<^theory_text>\<open>Vm_Area\<close>: an area of an address space, a range of pages with its frames, the pages of the page cache and of shared
    segments in it, and the file it maps (\<^verbatim>\<open>mm/area.rs\<close>). The record \<^verbatim>\<open>vm\<close> holds what an area works on: the page table, the bytes of
    the frames, and the events outside of the address space in the order in which they happen (invalidations of the translation
    buffers, frames and references given back).
  \<^item> \<^theory_text>\<open>Memory_Set\<close>: the sorted list of areas, its searches, and the search for a free range (\<^verbatim>\<open>mm/memory_set.rs\<close>,
    \<^verbatim>\<open>mm/user_space/layout.rs\<close> and the searches of \<^verbatim>\<open>mm/user_space.rs\<close>).
  \<^item> \<^theory_text>\<open>User_Space\<close>: what a process does with its address space: the program break, mmap, munmap, mprotect, mremap, madvise, mincore,
    attaching shared memory, and the faults on lazy and on copied pages (\<^verbatim>\<open>mm/user_space.rs\<close>).
  \<^item> \<^theory_text>\<open>Task_Ids\<close>: process ids, the pool of kernel stacks and the address layout of threads (\<^verbatim>\<open>task/id.rs\<close>).
  \<^item> \<^theory_text>\<open>Poll_Wait\<close>: the wait queues behind poll, select and epoll (\<^verbatim>\<open>fs/mod.rs\<close>).
  \<^item> \<^theory_text>\<open>Pipe_Ring\<close>, \<^theory_text>\<open>Pipe\<close>: the ring buffer of a pipe and its operations (\<^verbatim>\<open>fs/pipe.rs\<close>).
  \<^item> \<^theory_text>\<open>Credentials\<close>: user and group ids, capabilities, securebits, prctl and the access check (\<^verbatim>\<open>task/process.rs\<close>,
    \<^verbatim>\<open>syscall/process/\<close>).
  \<^item> \<^theory_text>\<open>Sysv_Ipc\<close>, \<^theory_text>\<open>Sysv_Sem\<close>, \<^theory_text>\<open>Sysv_Msg\<close>: System V permissions, semaphores and message queues (\<^verbatim>\<open>syscall/sem.rs\<close>,
    \<^verbatim>\<open>syscall/msg.rs\<close>).
  \<^item> \<^theory_text>\<open>Record_Locks\<close>: fcntl record locks and flock (\<^verbatim>\<open>syscall/fs/fd_lock.rs\<close>).
  \<^item> \<^theory_text>\<open>Clock\<close>: the clocks, sleeping and adjtimex (\<^verbatim>\<open>syscall/time.rs\<close>, \<^verbatim>\<open>arch/riscv64/timer.rs\<close>).
  \<^item> \<^theory_text>\<open>Futex_Queue\<close>, \<^theory_text>\<open>Futex\<close>: the futex wait queues, and futex wait, wake, requeue, the priority-inheritance locks and
    robust lists over them (\<^verbatim>\<open>task/futex.rs\<close>).
  \<^item> \<^theory_text>\<open>Kernel_Prelude\<close>: what they share. The containers of the source (\<^verbatim>\<open>Vec\<close> as a stack, \<^verbatim>\<open>BTreeMap\<close> as an association
    list sorted by its keys), checked arithmetic, and the interfaces \<^verbatim>\<open>ordered_map\<close>, \<^verbatim>\<open>slot_allocator\<close> and
    \<^verbatim>\<open>keyed_registry\<close>.

  \<^bold>\<open>How the model is written.\<close> A Rust structure is a record, an enumeration a datatype, and each function is one definition
  that takes the state and returns the new one. An \<^verbatim>\<open>Err\<close> and a panic (a failed \<^verbatim>\<open>assert\<close>, \<^verbatim>\<open>expect\<close> or index) are values:
  \<^verbatim>\<open>Inl\<close> of an error or of a panic type of the component, so that the absence of panics is a theorem and not an assumption.
  Values of type \<^verbatim>\<open>u32\<close> or \<^verbatim>\<open>usize\<close> on which the code works bitwise or which may wrap are machine words; counts are natural
  numbers, with the overflow check of the source written out; signed values are integers. Reference-counted pointers are
  numbers that identify the object.

  A lock makes a critical section one step. Where the code gives up the lock and sleeps, the model has one definition for
  the section before and one for the section after, and what the other tasks do in between is an argument. The properties
  of interleavings quantify over these arguments or over an inductive relation of reachable states (\<^verbatim>\<open>frame_reachable\<close>, \<^verbatim>\<open>pt_reachable\<close>,
  \<^verbatim>\<open>ksa_reachable\<close>, \<^verbatim>\<open>sem_steps\<close>, \<^verbatim>\<open>msg_steps\<close>, \<^verbatim>\<open>lock_reachable\<close>, \<^verbatim>\<open>futex_reach\<close>). The scheduler, the pending signals, the
  counter register and the outcome of reading user memory are arguments as well; in \<^theory_text>\<open>Futex\<close> user memory is a map from
  addresses to bytes.

  \<^bold>\<open>What the lemmas show.\<close>
  \<^item> Frames: no frame is handed out twice, a frame is freed exactly with its last reference, a release without a reference is
    caught before a free list is touched, and contiguous runs are contiguous.
  \<^item> Page tables: a page table is a map from virtual pages to entries. Every operation changes exactly the entry of its page
    or nothing, also when it runs out of frames half way, and mapping, translating and unmapping agree.
  \<^item> Address spaces: an address space is a map from pages to what an area says about them. Splitting an area changes nothing of
    this map, the searches agree with a walk over all areas whatever their cache holds, mmap, munmap and fixed mappings change
    exactly their range, and frames are given back after the translation buffers have been invalidated. The list of areas, the page
    table and the frames stay consistent, which is the invariant \<^verbatim>\<open>ms_ok\<close>. The other calls of \<^theory_text>\<open>User_Space\<close> are
    modelled without such theorems. A fixed mapping whose end wraps around panics.
  \<^item> Kernel stacks: the pool never hands out a stack in use, and stacks are disjoint with a guard page between them.
  \<^item> Pipes: a pipe is a bounded first-in first-out queue of bytes; reading, writing, splice, tee and resizing do what this
    queue says, poll agrees with them, and closing wakes the peer. A reader that is interrupted can swallow a wakeup.
  \<^item> Poll: a task that has registered is woken by every later event.
  \<^item> Credentials: ids and capabilities never grow without the privilege for it, and a failed call changes nothing.
  \<^item> System V IPC: the tables of ids and keys agree, semop is atomic, a queue is first-in first-out for each type, and no
    wakeup is lost.
  \<^item> Locks: the table of record locks refines the relation of who holds which byte, conflicting locks never coexist, close
    releases what it must, and a sleeping request is always blocked by a held lock. A deadlock of three is not detected.
  \<^item> Clocks: a sleep is never too short, and adjtimex keeps its bounds.
  \<^item> Futexes: the queues stay consistent and no assertion fails under any interleaving, waits and wakes cannot miss each
    other, wake and requeue keep the order of arrival, and the cleanup and the walk over a robust list end. The unlock of a
    priority-inheritance lock is correct alone, but races with a lock call.

  The properties of the manifest are at the end of each theory, after the lemmas they rest on, each with a witness that
  evaluates it on a concrete state.

  \<^bold>\<open>Bounds.\<close> No model has fuel of its own. The loop of \<^verbatim>\<open>remove_waiter_for_task\<close> takes one element of the list of
  interferences for each round, and the theorem on it gives it a last round without interference. The bound of 2048 on the
  walk over a robust list is the one in the source. The sleeping loops of semop, msgsnd, msgrcv, \<^verbatim>\<open>F_SETLKW\<close> and flock
  consume one observation of the environment for each pass.

  \<^bold>\<open>Not modelled.\<close> Fork and the page faults that read files, the page cache, the block cache and the file systems on disk; the
  scheduler, signals, exec and process lifecycle; the virtual file system, mounts, device and proc files; epoll, inotify and
  fanotify; the segments of System V shared memory; the network and the drivers; the trap and boot code of the architectures; counters
  and logging. They either work on devices, inline assembly or code outside the repository, or reach into most of the kernel
  at once. The text files under /proc, the perf counters and the zero fill of pages are left out of the components that
  are modelled.
\<close>

end
